(* ===== verification/Prelude.thy ===== *)
theory Prelude
  imports Main "HOL-Library.Word" "HOL-Library.Signed_Division"
begin

text \<open>
  Shared vocabulary of the development: the faults a C operation can run into (undefined
  behaviour, a failed assertion, a call of exit), results that are either a fault or a value,
  checked array accesses, the truncating remainder of C, and lemmas on ring buffers that the
  pools and the scheduler queue share.
\<close>

unbundle bit_operations_syntax

named_theorems res_simps \<open>rewriting of results that may be faults\<close>
named_theorems wf_simps \<open>unfolding of well-formedness invariants\<close>

section \<open>Faults and results\<close>

text \<open>
  A C operation whose behaviour is defined yields \<open>Inr\<close>; the other constructor records why
  it has none: a NULL pointer or a freed block is followed, an array is read or written out of
  its range, a shift count leaves its range, an assertion fails, the process exits, a divisor is zero,
  a variable is read that was not set, a signed integer overflows (where a theory does not say that it wraps around or cannot).
\<close>

datatype fault =
    Null_Deref
  | Dangling
  | Out_Of_Bounds
  | Bad_Shift
  | Assert_Failed
  | Exit_Failure
  | Div_By_Zero
  | Uninitialised
  | Int_Overflow

type_synonym 'a res = "fault + 'a"

definition rbind :: "'a res \<Rightarrow> ('a \<Rightarrow> 'b res) \<Rightarrow> 'b res" where
  "rbind m f = (case m of Inl e \<Rightarrow> Inl e | Inr x \<Rightarrow> f x)"

lemma rbind_simps [simp, res_simps]:
  "rbind (Inl e) f = Inl e"
  "rbind (Inr x) f = f x"
  by (simp_all add: rbind_def)

lemma rbind_eq_Inr [res_simps]:
  "rbind m f = Inr y \<longleftrightarrow> (\<exists>x. m = Inr x \<and> f x = Inr y)"
  by (cases m) auto

lemma rbind_cong [fundef_cong]:
  assumes "m = m'" and "\<And>x. m' = Inr x \<Longrightarrow> f x = g x"
  shows "rbind m f = rbind m' g"
  using assms by (cases m') auto

lemma rbind_assoc: "rbind (rbind m f) g = rbind m (\<lambda>x. rbind (f x) g)"
  by (cases m) auto

text \<open>A pointer that must not be NULL.\<close>

definition deref :: "'a option \<Rightarrow> 'a res" where
  "deref p = (case p of None \<Rightarrow> Inl Null_Deref | Some x \<Rightarrow> Inr x)"

lemma deref_simps [simp, res_simps]:
  "deref None = Inl Null_Deref"
  "deref (Some x) = Inr x"
  by (simp_all add: deref_def)

section \<open>Checked arrays\<close>

definition arr_get :: "'a list \<Rightarrow> int \<Rightarrow> 'a res" where
  "arr_get xs i = (if 0 \<le> i \<and> i < int (length xs) then Inr (xs ! nat i) else Inl Out_Of_Bounds)"

definition arr_set :: "'a list \<Rightarrow> int \<Rightarrow> 'a \<Rightarrow> 'a list res" where
  "arr_set xs i x =
     (if 0 \<le> i \<and> i < int (length xs) then Inr (xs[nat i := x]) else Inl Out_Of_Bounds)"

lemma arr_get_in [simp]:
  "0 \<le> i \<Longrightarrow> i < int (length xs) \<Longrightarrow> arr_get xs i = Inr (xs ! nat i)"
  by (simp add: arr_get_def)

lemma arr_set_in [simp]:
  "0 \<le> i \<Longrightarrow> i < int (length xs) \<Longrightarrow> arr_set xs i x = Inr (xs[nat i := x])"
  by (simp add: arr_set_def)

lemma arr_get_Cons_0 [simp]: "arr_get (x # xs) 0 = Inr x"
  by (simp add: arr_get_def)

lemma arr_get_nat: "arr_get xs (int i) = (if i < length xs then Inr (xs ! i) else Inl Out_Of_Bounds)"
  by (simp add: arr_get_def)

lemma arr_get_out: "\<not> (0 \<le> i \<and> i < int (length xs)) \<Longrightarrow> arr_get xs i = Inl Out_Of_Bounds"
  by (simp add: arr_get_def)

lemma arr_set_out: "\<not> (0 \<le> i \<and> i < int (length xs)) \<Longrightarrow> arr_set xs i x = Inl Out_Of_Bounds"
  by (simp add: arr_set_def)

section \<open>The remainder of C\<close>

text \<open>
  \<open>smod\<close> of the library truncates towards zero, as \<open>%\<close> does on signed operands; on
  non-negative operands it is the mathematical remainder.
\<close>

lemma smod_nonneg: "0 \<le> (a::int) \<Longrightarrow> 0 < b \<Longrightarrow> a smod b = a mod b"
  by (cases "a = 0") (simp_all add: signed_modulo_int_def)

lemma smod_bounds:
  assumes "0 \<le> (a::int)" and "0 < b"
  shows "0 \<le> a smod b" and "a smod b < b"
  using assms by (simp_all add: smod_nonneg)

section \<open>Conversion to a 32-bit int\<close>

definition to_int32 :: "int \<Rightarrow> int" where
  "to_int32 x = signed_take_bit 31 x"

lemma to_int32_id [simp]: "- (2 ^ 31) \<le> x \<Longrightarrow> x < 2 ^ 31 \<Longrightarrow> to_int32 x = x"
  by (simp add: to_int32_def signed_take_bit_int_eq_self)

lemma to_int32_range: "- (2 ^ 31) \<le> to_int32 x" "to_int32 x < 2 ^ 31"
  using signed_take_bit_int_greater_eq_minus_exp [of 31 x] signed_take_bit_int_less_exp [of 31 x]
  by (simp_all add: to_int32_def)

section \<open>Ring buffers\<close>

text \<open>The \<open>n\<close> entries of an array from a start slot on, wrapping at its end.\<close>

definition ring_slice :: "'a list \<Rightarrow> nat \<Rightarrow> nat \<Rightarrow> 'a list" where
  "ring_slice xs s n = map (\<lambda>i. xs ! ((s + i) mod length xs)) [0..<n]"

lemma length_ring_slice [simp]: "length (ring_slice xs s n) = n"
  by (simp add: ring_slice_def)

lemma ring_slice_0 [simp]: "ring_slice xs s 0 = []"
  by (simp add: ring_slice_def)

lemma nth_ring_slice: "i < n \<Longrightarrow> ring_slice xs s n ! i = xs ! ((s + i) mod length xs)"
  by (simp add: ring_slice_def)

lemma ring_slice_Suc:
  "ring_slice xs s (Suc n) = xs ! (s mod length xs) # ring_slice xs (Suc s mod length xs) n"
proof (rule nth_equalityI)
  fix i
  assume "i < length (ring_slice xs s (Suc n))"
  then have i: "i < Suc n" by simp
  show "ring_slice xs s (Suc n) ! i =
    (xs ! (s mod length xs) # ring_slice xs (Suc s mod length xs) n) ! i"
    using i by (cases i) (simp_all add: nth_ring_slice mod_simps)
qed simp

lemma ring_slice_snoc:
  "ring_slice xs s (Suc n) = ring_slice xs s n @ [xs ! ((s + n) mod length xs)]"
  by (simp add: ring_slice_def)

lemma ring_index_inj:
  fixes s i j m :: nat
  assumes "i < m" and "j < m" and "(s + i) mod m = (s + j) mod m"
  shows "i = j"
proof (rule ccontr)
  assume "i \<noteq> j"
  have *: False if "a < b" and "b < m" and "(s + a) mod m = (s + b) mod m" for a b
  proof -
    have "m dvd (s + b) - (s + a)"
      using that mod_eq_dvd_iff_nat [of "s + a" "s + b" m] by simp
    then have "m dvd b - a" by simp
    with that show False by (auto dest: dvd_imp_le)
  qed
  from \<open>i \<noteq> j\<close> assms * [of i j] * [of j i] show False by (cases "i < j") auto
qed

lemma ring_slice_push:
  assumes "n < length xs"
  shows "ring_slice (xs[(s + n) mod length xs := x]) s (Suc n) = ring_slice xs s n @ [x]"
proof (rule nth_equalityI)
  fix i
  assume "i < length (ring_slice (xs[(s + n) mod length xs := x]) s (Suc n))"
  then have i: "i < Suc n" by simp
  from assms have pos: "0 < length xs" by linarith
  show "ring_slice (xs[(s + n) mod length xs := x]) s (Suc n) ! i = (ring_slice xs s n @ [x]) ! i"
  proof (cases "i = n")
    case True
    with pos show ?thesis by (simp add: nth_ring_slice nth_append)
  next
    case False
    with i assms have "(s + i) mod length xs \<noteq> (s + n) mod length xs"
      using ring_index_inj [of i "length xs" n s] by auto
    with False i show ?thesis by (simp add: nth_ring_slice nth_append)
  qed
qed simp

lemma ring_slice_cong_frame:
  assumes "\<And>i. i < n \<Longrightarrow> (s + i) mod length xs \<noteq> k"
  shows "ring_slice (xs[k := x]) s n = ring_slice xs s n"
proof -
  have "xs[k := x] ! ((s + i) mod length xs) = xs ! ((s + i) mod length xs)" if "i < n" for i
    using assms [OF that] by (metis nth_list_update_neq)
  then show ?thesis by (simp add: ring_slice_def)
qed

end
