(* ===== verification/Pool_Interface.thy ===== *)
theory Pool_Interface
  imports Prelude
begin

text \<open>
  The contract the identifier pool (tidpool.c) and the block pool (tmempool.c) share, and what a
  client that only gives back what it holds may rely on. A pool keeps a queue of free slots;
  allocation takes its head, release appends to its end.
\<close>

text \<open>
  Pool states reachable by a client, with the set of slots the client holds. The client releases
  only slots it holds; an allocation that finds no free slot leaves everything as it was.
\<close>

inductive pool_reach ::
    "('s \<Rightarrow> ('s \<times> 'i option) res) \<Rightarrow> ('s \<Rightarrow> 'i \<Rightarrow> 's res) \<Rightarrow> 's \<Rightarrow> 's \<Rightarrow> 'i set \<Rightarrow> bool"
  for alloc release s0
where
  start: "pool_reach alloc release s0 s0 {}"
| take_slot: "pool_reach alloc release s0 s live \<Longrightarrow> alloc s = Inr (s', Some x) \<Longrightarrow>
    pool_reach alloc release s0 s' (insert x live)"
| no_slot: "pool_reach alloc release s0 s live \<Longrightarrow> alloc s = Inr (s', None) \<Longrightarrow>
    pool_reach alloc release s0 s' live"
| give_back: "pool_reach alloc release s0 s live \<Longrightarrow> x \<in> live \<Longrightarrow> release s x = Inr s' \<Longrightarrow>
    pool_reach alloc release s0 s' (live - {x})"

locale slot_pool =
  fixes invar :: "'s \<Rightarrow> bool"
    and free_slots :: "'s \<Rightarrow> 'i list"
    and slots :: "'s \<Rightarrow> 'i set"
    and alloc :: "'s \<Rightarrow> ('s \<times> 'i option) res"
    and release :: "'s \<Rightarrow> 'i \<Rightarrow> 's res"
  assumes free_distinct: "invar s \<Longrightarrow> distinct (free_slots s)"
    and free_subset: "invar s \<Longrightarrow> set (free_slots s) \<subseteq> slots s"
    and alloc_none: "invar s \<Longrightarrow> free_slots s = [] \<Longrightarrow> alloc s = Inr (s, None)"
    and alloc_some: "invar s \<Longrightarrow> free_slots s = x # xs \<Longrightarrow>
      \<exists>s'. alloc s = Inr (s', Some x) \<and> invar s' \<and> free_slots s' = xs \<and> slots s' = slots s"
    and release_slot: "invar s \<Longrightarrow> x \<in> slots s \<Longrightarrow> x \<notin> set (free_slots s) \<Longrightarrow>
      \<exists>s'. release s x = Inr s' \<and> invar s' \<and> free_slots s' = free_slots s @ [x] \<and> slots s' = slots s"
begin

definition accounted :: "'s \<Rightarrow> 's \<Rightarrow> 'i set \<Rightarrow> bool" where
  "accounted s0 s live \<longleftrightarrow> invar s \<and> slots s = slots s0 \<and>
     set (free_slots s) \<union> live = slots s0 \<and> set (free_slots s) \<inter> live = {}"

lemma alloc_cases:
  assumes "invar s"
  obtains (none) "free_slots s = []" and "alloc s = Inr (s, None)"
  | (some) x xs s' where "free_slots s = x # xs" and "alloc s = Inr (s', Some x)" and "invar s'"
      and "free_slots s' = xs" and "slots s' = slots s"
  using assms alloc_none alloc_some by (cases "free_slots s") blast+

lemma accounted_alloc:
  assumes "accounted s0 s live" and "alloc s = Inr (s', r)"
  shows "(case r of None \<Rightarrow> s' = s \<and> live = slots s0
    | Some x \<Rightarrow> x \<notin> live \<and> accounted s0 s' (insert x live))"
proof -
  from assms(1) have inv: "invar s" by (simp add: accounted_def)
  from inv show ?thesis
  proof (cases rule: alloc_cases)
    case none
    with assms show ?thesis by (auto simp: accounted_def)
  next
    case (some x xs t)
    moreover from free_distinct [OF inv] some(1) have "x \<notin> set xs" by simp
    ultimately show ?thesis using assms by (auto simp: accounted_def)
  qed
qed

lemma accounted_release:
  assumes "accounted s0 s live" and "x \<in> live" and "release s x = Inr s'"
  shows "accounted s0 s' (live - {x})"
proof -
  from assms(1,2) have "invar s" "x \<in> slots s" "x \<notin> set (free_slots s)"
    by (auto simp: accounted_def)
  from release_slot [OF this] assms show ?thesis by (auto simp: accounted_def)
qed

text \<open>Free and held slots partition the pool in every reachable state.\<close>

lemma reach_accounted:
  assumes "pool_reach alloc release s0 s live" and "invar s0" and "set (free_slots s0) = slots s0"
  shows "accounted s0 s live"
  using assms(1)
proof (induction rule: pool_reach.induct)
  case start
  with assms(2,3) show ?case by (simp add: accounted_def)
next
  case (take_slot s live s' x)
  from accounted_alloc [OF take_slot.IH take_slot.hyps(2)] show ?case by simp
next
  case (no_slot s live s')
  from accounted_alloc [OF no_slot.IH no_slot.hyps(2)] no_slot.IH show ?case by simp
next
  case (give_back s live x s')
  then show ?case by (blast intro: accounted_release)
qed

text \<open>No slot is handed out twice, and allocation fails only when every slot is held.\<close>

lemma reach_alloc:
  assumes "pool_reach alloc release s0 s live" and "invar s0" and "set (free_slots s0) = slots s0"
  shows "\<exists>s' r. alloc s = Inr (s', r) \<and>
    (case r of None \<Rightarrow> live = slots s0 | Some x \<Rightarrow> x \<in> slots s0 - live)"
proof -
  from assms have acc: "accounted s0 s live" by (rule reach_accounted)
  then have "invar s" by (simp add: accounted_def)
  then show ?thesis
  proof (cases rule: alloc_cases)
    case none
    with acc show ?thesis by (auto simp: accounted_def)
  next
    case (some x xs s')
    with acc show ?thesis by (auto simp: accounted_def)
  qed
qed

lemma reach_release:
  assumes "pool_reach alloc release s0 s live" and "invar s0" and "set (free_slots s0) = slots s0"
    and "x \<in> live"
  shows "\<exists>s'. release s x = Inr s' \<and> accounted s0 s' (live - {x})"
proof -
  from assms(1-3) have acc: "accounted s0 s live" by (rule reach_accounted)
  with assms(4) have "invar s" "x \<in> slots s" "x \<notin> set (free_slots s)"
    by (auto simp: accounted_def)
  from release_slot [OF this] accounted_release [OF acc assms(4)] show ?thesis by blast
qed

end

end
