(* ===== verification/IdPool.thy ===== *)
theory IdPool
  imports Pool_Interface
begin

text \<open>
  The identifier pool of src/src/util/src/tidpool.c: a ring buffer of the identifiers that are
  free. Mutex operations are not modelled (each call is one atomic step); a NULL \<open>freeList\<close>
  is the empty list.
\<close>

section \<open>State and operations\<close>

record id_pool_t =
  id_maxId :: int
  id_numOfFree :: int
  id_freeSlot :: int
  id_freeList :: "int list"

text \<open>
  The arguments after \<open>maxId\<close> are the outcomes of the two calls of malloc and the content of
  the one array cell that the initialisation loop leaves unset.
\<close>

definition taosInitIdPool :: "int \<Rightarrow> bool \<Rightarrow> bool \<Rightarrow> int \<Rightarrow> id_pool_t option" where
  "taosInitIdPool maxId pool_ok list_ok garbage =
     (let maxId = (if maxId < 3 then 3 else maxId)
      in if \<not> pool_ok then None
         else if \<not> list_ok then None
         else Some \<lparr>id_maxId = maxId, id_numOfFree = maxId - 1, id_freeSlot = 0,
                id_freeList = map int [1..<nat maxId] @ [garbage]\<rparr>)"

definition taosAllocateId :: "id_pool_t option \<Rightarrow> (id_pool_t option \<times> int) res" where
  "taosAllocateId handle =
     (case handle of
        None \<Rightarrow> Inr (None, -1)
      | Some p \<Rightarrow>
          if 0 < id_numOfFree p then
            rbind (arr_get (id_freeList p) (id_freeSlot p)) (\<lambda>idn.
              Inr (Some (p\<lparr>id_freeSlot := (id_freeSlot p + 1) smod id_maxId p,
                           id_numOfFree := id_numOfFree p - 1\<rparr>), idn))
          else Inr (Some p, -1))"

definition taosFreeId :: "id_pool_t option \<Rightarrow> int \<Rightarrow> id_pool_t option res" where
  "taosFreeId handle idn =
     rbind (deref handle) (\<lambda>p.
       if id_freeList p = [] \<or> id_maxId p = 0 then Inr (Some p)
       else if idn \<le> 0 \<or> id_maxId p \<le> idn then Inr (Some p)
       else
         let slot = (id_freeSlot p + id_numOfFree p) smod id_maxId p in
         rbind (arr_set (id_freeList p) slot idn) (\<lambda>fl.
           Inr (Some (p\<lparr>id_freeList := fl, id_numOfFree := id_numOfFree p + 1\<rparr>))))"

definition taosIdPoolNumOfUsed :: "id_pool_t option \<Rightarrow> int res" where
  "taosIdPoolNumOfUsed handle =
     rbind (deref handle) (\<lambda>p. Inr (id_maxId p - id_numOfFree p - 1))"

text \<open>The clean-up frees the list and the pool; a NULL handle is left alone.\<close>

definition taosIdPoolCleanUp :: "id_pool_t option \<Rightarrow> id_pool_t option" where
  "taosIdPoolCleanUp handle = (case handle of None \<Rightarrow> None | Some p \<Rightarrow> None)"

text \<open>The loop that clears the entries \<open>i, \<dots>, maxId - 1\<close>.\<close>

function clear_from :: "int \<Rightarrow> int \<Rightarrow> int list \<Rightarrow> int list res" where
  "clear_from i n xs =
     (if i < n then rbind (arr_set xs i 0) (\<lambda>ys. clear_from (i + 1) n ys) else Inr xs)"
  by pat_completeness auto
termination
  by (relation "measure (\<lambda>(i, n, xs). nat (n - i))") auto

definition taosIdPoolReinit :: "id_pool_t option \<Rightarrow> id_pool_t option res" where
  "taosIdPoolReinit handle =
     rbind (deref handle) (\<lambda>p.
       rbind (clear_from 0 (id_maxId p) (id_freeList p)) (\<lambda>fl.
         Inr (Some (p\<lparr>id_numOfFree := 0, id_freeSlot := 0, id_freeList := fl\<rparr>))))"

definition taosIdPoolMarkStatus :: "id_pool_t option \<Rightarrow> int \<Rightarrow> int \<Rightarrow> id_pool_t option res" where
  "taosIdPoolMarkStatus handle idn status =
     rbind (deref handle) (\<lambda>p.
       rbind (arr_set (id_freeList p) idn status) (\<lambda>fl. Inr (Some (p\<lparr>id_freeList := fl\<rparr>))))"

text \<open>
  The loop of \<open>taosIdPoolSetFreeList\<close>: it reads the status of \<open>i\<close> and writes the free
  identifiers to the front of the same array; \<open>cnt\<close> is \<open>numOfFree\<close>.
\<close>

function set_free_from ::
    "int \<Rightarrow> int \<Rightarrow> int \<Rightarrow> int \<Rightarrow> int list \<Rightarrow> (int \<times> int list) res" where
  "set_free_from i n pos cnt xs =
     (if i < n then
        rbind (arr_get xs i) (\<lambda>st.
          if st = 0 then
            rbind (arr_set xs pos i) (\<lambda>ys. set_free_from (i + 1) n (pos + 1) (cnt + 1) ys)
          else set_free_from (i + 1) n pos cnt xs)
      else Inr (cnt, xs))"
  by pat_completeness auto
termination
  by (relation "measure (\<lambda>(i, n, pos, cnt, xs). nat (n - i))") auto

definition taosIdPoolSetFreeList :: "id_pool_t option \<Rightarrow> id_pool_t option res" where
  "taosIdPoolSetFreeList handle =
     rbind (deref handle) (\<lambda>p.
       rbind (set_free_from 1 (id_maxId p) 0 0 (id_freeList p)) (\<lambda>(cnt, fl).
         Inr (Some (p\<lparr>id_numOfFree := cnt, id_freeSlot := 0, id_freeList := fl\<rparr>))))"

declare clear_from.simps [simp del] set_free_from.simps [simp del]

section \<open>Invariant and abstraction\<close>

definition id_free :: "id_pool_t \<Rightarrow> int list" where
  "id_free p = ring_slice (id_freeList p) (nat (id_freeSlot p)) (nat (id_numOfFree p))"

definition id_pool_wf :: "id_pool_t \<Rightarrow> bool" where
  "id_pool_wf p \<longleftrightarrow> 3 \<le> id_maxId p \<and> int (length (id_freeList p)) = id_maxId p \<and>
     0 \<le> id_freeSlot p \<and> id_freeSlot p < id_maxId p \<and>
     0 \<le> id_numOfFree p \<and> id_numOfFree p < id_maxId p \<and>
     distinct (id_free p) \<and> set (id_free p) \<subseteq> {1..<id_maxId p}"

definition id_alloc :: "id_pool_t \<Rightarrow> (id_pool_t \<times> int option) res" where
  "id_alloc p = rbind (taosAllocateId (Some p)) (\<lambda>(h, idn).
     rbind (deref h) (\<lambda>p'. Inr (p', if idn = -1 then None else Some idn)))"

definition id_release :: "id_pool_t \<Rightarrow> int \<Rightarrow> id_pool_t res" where
  "id_release p idn = rbind (taosFreeId (Some p) idn) deref"

lemma id_pool_wfD:
  assumes "id_pool_wf p"
  shows "3 \<le> id_maxId p" "length (id_freeList p) = nat (id_maxId p)"
    "0 \<le> id_freeSlot p" "id_freeSlot p < id_maxId p"
    "0 \<le> id_numOfFree p" "id_numOfFree p < id_maxId p"
    "distinct (id_free p)" "set (id_free p) \<subseteq> {1..<id_maxId p}"
  using assms by (auto simp: id_pool_wf_def)

lemma length_id_free [simp]: "length (id_free p) = nat (id_numOfFree p)"
  by (simp add: id_free_def)

lemma nat_ring_step:
  fixes a b m :: int
  assumes "0 \<le> a" and "0 \<le> b" and "0 < m"
  shows "nat ((a + b) smod m) = (nat a + nat b) mod nat m"
  using assms by (simp add: smod_nonneg nat_mod_distrib nat_add_distrib)

lemma id_alloc_empty: "id_pool_wf p \<Longrightarrow> id_free p = [] \<Longrightarrow> id_alloc p = Inr (p, None)"
proof -
  assume wf: "id_pool_wf p" and "id_free p = []"
  then have "nat (id_numOfFree p) = 0" using length_id_free [of p] by simp
  with id_pool_wfD [OF wf] show ?thesis by (simp add: id_alloc_def taosAllocateId_def)
qed

lemma id_alloc_Cons:
  assumes wf: "id_pool_wf p" and free: "id_free p = x # xs"
  shows "\<exists>p'. id_alloc p = Inr (p', Some x) \<and> id_pool_wf p' \<and> id_free p' = xs \<and>
    id_maxId p' = id_maxId p"
proof -
  note d = id_pool_wfD [OF wf]
  let ?p' = "p\<lparr>id_freeSlot := (id_freeSlot p + 1) smod id_maxId p,
    id_numOfFree := id_numOfFree p - 1\<rparr>"
  from free length_id_free [of p] have n: "nat (id_numOfFree p) = Suc (length xs)" by simp
  then have pos: "0 < id_numOfFree p" by simp
  have slot: "nat ((id_freeSlot p + 1) smod id_maxId p) =
      Suc (nat (id_freeSlot p)) mod length (id_freeList p)"
    using d nat_ring_step [of "id_freeSlot p" 1 "id_maxId p"] by simp
  have "id_free p = id_freeList p ! nat (id_freeSlot p) # id_free ?p'"
    unfolding id_free_def n using d slot n
    by (simp add: ring_slice_Suc nat_diff_distrib)
  with free have x: "x = id_freeList p ! nat (id_freeSlot p)" and xs: "id_free ?p' = xs" by auto
  have "1 \<le> x" using d(8) free by auto
  moreover have "id_pool_wf ?p'"
    using d xs free pos smod_bounds [of "id_freeSlot p + 1" "id_maxId p"]
    by (auto simp: id_pool_wf_def)
  ultimately show ?thesis using d pos x xs
    by (auto simp: id_alloc_def taosAllocateId_def)
qed

lemma id_release_ok:
  assumes wf: "id_pool_wf p" and x: "x \<in> {1..<id_maxId p}" and nin: "x \<notin> set (id_free p)"
  shows "\<exists>p'. id_release p x = Inr p' \<and> id_pool_wf p' \<and> id_free p' = id_free p @ [x] \<and>
    id_maxId p' = id_maxId p"
proof -
  note d = id_pool_wfD [OF wf]
  let ?slot = "(id_freeSlot p + id_numOfFree p) smod id_maxId p"
  let ?p' = "p\<lparr>id_freeList := (id_freeList p)[nat ?slot := x], id_numOfFree := id_numOfFree p + 1\<rparr>"
  have slot: "0 \<le> ?slot" "?slot < id_maxId p"
    using d smod_bounds [of "id_freeSlot p + id_numOfFree p" "id_maxId p"] by auto
  have slot_nat: "nat ?slot = (nat (id_freeSlot p) + nat (id_numOfFree p)) mod length (id_freeList p)"
    using d nat_ring_step [of "id_freeSlot p" "id_numOfFree p" "id_maxId p"] by simp
  have free: "id_free ?p' = id_free p @ [x]"
    using d ring_slice_push [of "nat (id_numOfFree p)" "id_freeList p" "nat (id_freeSlot p)" x]
    by (simp add: id_free_def slot_nat nat_add_distrib)
  have "card (set (id_free p @ [x])) \<le> card {1..<id_maxId p}"
    using d(8) x by (intro card_mono) auto
  then have "nat (id_numOfFree p) + 1 \<le> nat (id_maxId p - 1)"
    using d(7) nin length_id_free [of p] by (simp add: distinct_card)
  then have "id_numOfFree p + 1 < id_maxId p" using d by linarith
  then have "id_pool_wf ?p'"
    using d x nin free by (auto simp: id_pool_wf_def)
  moreover have "id_release p x = Inr ?p'"
    using d x slot by (auto simp: id_release_def taosFreeId_def Let_def)
  ultimately show ?thesis using free by auto
qed

interpretation idp: slot_pool id_pool_wf id_free "\<lambda>p. {1..<id_maxId p}" id_alloc id_release
proof (unfold_locales, goal_cases)
  case (1 s) then show ?case by (rule id_pool_wfD)
next
  case (2 s) then show ?case by (rule id_pool_wfD)
next
  case (3 s) then show ?case by (rule id_alloc_empty)
next
  case (4 s x xs) then show ?case using id_alloc_Cons [of s x xs] by auto
next
  case (5 s x) then show ?case using id_release_ok [of s x] by auto
qed

section \<open>Rebuilding the free list after a restart\<close>

text \<open>
  At start-up the owner clears the pool, marks the identifiers that are in use with a non-zero
  status and rebuilds the free list in place.
\<close>

fun mark_all :: "id_pool_t option \<Rightarrow> int list \<Rightarrow> id_pool_t option res" where
  "mark_all h [] = Inr h"
| "mark_all h (i # is) = rbind (taosIdPoolMarkStatus h i 1) (\<lambda>h'. mark_all h' is)"

definition rebuild :: "id_pool_t option \<Rightarrow> int list \<Rightarrow> id_pool_t option res" where
  "rebuild h used = rbind (taosIdPoolReinit h) (\<lambda>h1. rbind (mark_all h1 used) taosIdPoolSetFreeList)"

lemma clear_from_ok:
  assumes "0 \<le> i" and "int (length xs) = n"
  shows "\<exists>ys. clear_from i n xs = Inr ys \<and> int (length ys) = n \<and>
    (\<forall>j < nat n. ys ! j = (if int j < i then xs ! j else 0))"
  using assms
proof (induction i n xs rule: clear_from.induct)
  case (1 i n xs)
  show ?case
  proof (cases "i < n")
    case True
    with "1.prems" have set: "arr_set xs i 0 = Inr (xs[nat i := 0])" by simp
    from "1.IH" [OF True set] "1.prems" obtain ys where
      ys: "clear_from (i + 1) n (xs[nat i := 0]) = Inr ys" "int (length ys) = n"
        "\<And>j. j < nat n \<Longrightarrow> ys ! j = (if int j < i + 1 then xs[nat i := 0] ! j else 0)"
      by auto
    have "ys ! j = (if int j < i then xs ! j else 0)" if "j < nat n" for j
      using ys(3) [OF that] "1.prems" that
      by (cases "j = nat i") (auto simp: nth_list_update split: if_splits)
    with True set ys "1.prems" show ?thesis by (subst clear_from.simps) auto
  next
    case False
    with "1.prems" show ?thesis by (subst clear_from.simps) auto
  qed
qed

lemma mark_all_ok:
  assumes "set is \<subseteq> {0..<int (length (id_freeList p))}"
  shows "\<exists>fl. mark_all (Some p) is = Inr (Some (p\<lparr>id_freeList := fl\<rparr>)) \<and>
    length fl = length (id_freeList p) \<and>
    (\<forall>j < length fl. fl ! j = (if int j \<in> set is then 1 else id_freeList p ! j))"
  using assms
proof (induction "is" arbitrary: p)
  case Nil
  then show ?case by (auto intro: exI [of _ "id_freeList p"])
next
  case (Cons i rest)
  let ?p = "p\<lparr>id_freeList := (id_freeList p)[nat i := 1]\<rparr>"
  have step: "taosIdPoolMarkStatus (Some p) i 1 = Inr (Some ?p)"
    using Cons.prems by (simp add: taosIdPoolMarkStatus_def)
  from Cons.prems Cons.IH [of ?p] obtain fl where
    fl: "mark_all (Some ?p) rest = Inr (Some (?p\<lparr>id_freeList := fl\<rparr>))"
      "length fl = length (id_freeList p)"
      "\<forall>j < length fl. fl ! j = (if int j \<in> set rest then 1 else (id_freeList p)[nat i := 1] ! j)"
    by auto
  have "fl ! j = (if int j \<in> set (i # rest) then 1 else id_freeList p ! j)" if "j < length fl" for j
    using fl(2,3) that Cons.prems by (cases "j = nat i") (auto simp: nth_list_update)
  with step fl show ?case by (intro exI [of _ fl]) simp
qed

text \<open>
  The in-place compaction never overwrites a status it has still to read: the write position
  stays behind the read position.
\<close>

lemma set_free_from_ok:
  assumes "0 \<le> pos" and "pos < i" and "int (length xs) = n"
  shows "\<exists>ys. set_free_from i n pos cnt xs =
      Inr (cnt + int (length (filter (\<lambda>j. xs ! nat j = 0) [i..n - 1])), ys) \<and>
    int (length ys) = n \<and>
    take (nat pos + length (filter (\<lambda>j. xs ! nat j = 0) [i..n - 1])) ys =
      take (nat pos) xs @ filter (\<lambda>j. xs ! nat j = 0) [i..n - 1]"
  using assms
proof (induction i n pos cnt xs rule: set_free_from.induct)
  case (1 i n pos cnt xs)
  let ?free = "\<lambda>xs i. filter (\<lambda>j. xs ! nat j = 0) [i..n - 1]"
  show ?case
  proof (cases "i < n")
    case False
    with "1.prems" show ?thesis by (subst set_free_from.simps) auto
  next
    case i: True
    with "1.prems" have get: "arr_get xs i = Inr (xs ! nat i)" by simp
    from i have upto: "[i..n - 1] = i # [i + 1..n - 1]" by (simp add: upto_rec1)
    show ?thesis
    proof (cases "xs ! nat i = 0")
      case False
      from "1.IH"(2) [OF i get False] "1.prems" obtain ys where
        ys: "set_free_from (i + 1) n pos cnt xs = Inr (cnt + int (length (?free xs (i + 1))), ys)"
          "int (length ys) = n"
          "take (nat pos + length (?free xs (i + 1))) ys = take (nat pos) xs @ ?free xs (i + 1)"
        by auto
      with False get i upto show ?thesis by (subst set_free_from.simps) auto
    next
      case True
      let ?zs = "xs[nat pos := i]"
      from i "1.prems" have set: "arr_set xs pos i = Inr ?zs" by simp
      have same: "?free ?zs (i + 1) = ?free xs (i + 1)"
        using "1.prems" by (intro filter_cong) auto
      from "1.IH"(1) [OF i get True set] "1.prems" obtain ys where
        ys: "set_free_from (i + 1) n (pos + 1) (cnt + 1) ?zs =
            Inr (cnt + 1 + int (length (?free xs (i + 1))), ys)"
          "int (length ys) = n"
          "take (nat (pos + 1) + length (?free xs (i + 1))) ys =
            take (nat (pos + 1)) ?zs @ ?free xs (i + 1)"
        by (auto simp: same)
      have "take (nat (pos + 1)) ?zs = take (nat pos) xs @ [i]"
        using "1.prems" i by (simp add: nat_add_distrib take_Suc_conv_app_nth)
      with ys True get set i upto "1.prems" show ?thesis
        by (subst set_free_from.simps) (auto simp: nat_add_distrib)
    qed
  qed
qed

lemma ring_slice_front: "n \<le> length xs \<Longrightarrow> ring_slice xs 0 n = take n xs"
  by (rule nth_equalityI) (auto simp: nth_ring_slice)

section \<open>Properties\<close>

lemma id_pool_init:
  assumes "taosInitIdPool n True True g = Some p0"
  shows "id_pool_wf p0" and "id_free p0 = [1..max 3 n - 1]" and "id_maxId p0 = max 3 n"
proof -
  let ?m = "max 3 n"
  have p0: "p0 = \<lparr>id_maxId = ?m, id_numOfFree = ?m - 1, id_freeSlot = 0,
      id_freeList = map int [1..<nat ?m] @ [g]\<rparr>"
    using assms by (auto simp: taosInitIdPool_def Let_def max_def split: if_splits)
  have "map int [1..<nat ?m] = [1..?m - 1]"
    by (rule nth_equalityI) (auto simp del: upt_Suc)
  then show free: "id_free p0 = [1..?m - 1]"
    by (simp add: p0 id_free_def ring_slice_front del: upt_Suc)
  then show "id_pool_wf p0" by (auto simp: id_pool_wf_def p0)
  show "id_maxId p0 = ?m" by (simp add: p0)
qed

text \<open>
  C5.
  Between initialisation and any later point, for a client that releases only identifiers it
  holds: an allocation never faults, never yields an identifier that is held, yields -1 only when
  all \<open>maxId - 1\<close> identifiers are held, and the number of used identifiers the pool reports is
  the number held.
\<close>

theorem id_pool_exclusive:
  assumes init: "taosInitIdPool n True True g = Some p0"
    and reach: "pool_reach id_alloc id_release p0 p live"
  shows "(\<exists>p' r. taosAllocateId (Some p) = Inr (Some p', r) \<and>
      (if live = {1..<max 3 n} then r = -1 \<and> p' = p else r \<in> {1..<max 3 n} - live)) \<and>
    taosIdPoolNumOfUsed (Some p) = Inr (int (card live))"
proof -
  note i = id_pool_init [OF init]
  have full: "set (id_free p0) = {1..<id_maxId p0}" using i by auto
  have acc: "idp.accounted p0 p live" using reach i(1) full by (rule idp.reach_accounted)
  then have wf: "id_pool_wf p" and sl: "{1..<id_maxId p} = {1..<max 3 n}"
    and live: "set (id_free p) \<union> live = {1..<max 3 n}" "set (id_free p) \<inter> live = {}"
    using i(3) by (auto simp: idp.accounted_def)
  note d = id_pool_wfD [OF wf]
  have m: "id_maxId p = max 3 n" using sl d(1) by (auto simp: atLeastLessThan_eq_iff)
  have "card {1..<max 3 n} = card (set (id_free p)) + card live"
    using live by (metis card_Un_disjoint finite_Un finite_atLeastLessThan_int)
  then have used: "taosIdPoolNumOfUsed (Some p) = Inr (int (card live))"
    using d m by (simp add: taosIdPoolNumOfUsed_def distinct_card)
  from wf show ?thesis
  proof (cases rule: idp.alloc_cases)
    case none
    with d live used show ?thesis
      by (auto simp: taosAllocateId_def id_free_def dest: arg_cong [of _ _ length])
  next
    case (some x xs p')
    then have "0 < id_numOfFree p" using length_id_free [of p] by simp
    with d some(2) have "\<exists>p''. taosAllocateId (Some p) = Inr (Some p'', x)"
      by (auto simp: id_alloc_def taosAllocateId_def split: if_splits)
    moreover have "x \<in> {1..<max 3 n} - live" using some(1) live by auto
    moreover from this have "live \<noteq> {1..<max 3 n}" by blast
    ultimately show ?thesis using used by metis
  qed
qed

theorem id_pool_exclusive_witness:
  "\<exists>p0 p1. taosInitIdPool 3 True True 0 = Some p0 \<and> id_alloc p0 = Inr (p1, Some 1) \<and>
    (\<exists>p' r. taosAllocateId (Some p1) = Inr (Some p', r) \<and> r \<in> {1..<3} - {1}) \<and>
    taosIdPoolNumOfUsed (Some p1) = Inr 1"
proof -
  let ?p0 = "\<lparr>id_maxId = 3, id_numOfFree = 2, id_freeSlot = 0, id_freeList = [1, 2, 0]\<rparr>"
  let ?p1 = "\<lparr>id_maxId = 3, id_numOfFree = 1, id_freeSlot = 1, id_freeList = [1, 2, 0]\<rparr>"
  have i: "taosInitIdPool 3 True True 0 = Some ?p0"
    by (simp add: taosInitIdPool_def upt_rec)
  have a: "id_alloc ?p0 = Inr (?p1, Some 1)"
    by (simp add: id_alloc_def taosAllocateId_def signed_modulo_int_def)
  have "pool_reach id_alloc id_release ?p0 ?p1 {1}"
    by (rule pool_reach.take_slot [OF pool_reach.start, where alloc = id_alloc]) (rule a)
  moreover have "2 \<in> {1..<3::int}" and "2 \<notin> {1::int}" by auto
  then have "{1} \<noteq> {1..<3::int}" by metis
  ultimately have
    "(\<exists>p' r. taosAllocateId (Some ?p1) = Inr (Some p', r) \<and> r \<in> {1..<3} - {1}) \<and>
      taosIdPoolNumOfUsed (Some ?p1) = Inr 1"
    using id_pool_exclusive [OF i, of ?p1 "{1}"] by auto
  with i a show ?thesis by blast
qed

text \<open>
  C9.
  Rebuilding the free list: after the pool is cleared and the identifiers in use are marked,
  the in-place compaction of \<open>taosIdPoolSetFreeList\<close> makes exactly the unmarked identifiers
  free, in increasing order, and the pool is well formed again, for every set of used ones.
\<close>

theorem id_pool_rebuild:
  assumes wf: "id_pool_wf p" and used: "set used \<subseteq> {1..<id_maxId p}"
  shows "\<exists>p'. rebuild (Some p) used = Inr (Some p') \<and> id_pool_wf p' \<and>
    id_maxId p' = id_maxId p \<and> id_free p' = [i \<leftarrow> [1..id_maxId p - 1]. i \<notin> set used]"
proof -
  note d = id_pool_wfD [OF wf]
  let ?m = "id_maxId p" and ?free = "[i \<leftarrow> [1..id_maxId p - 1]. i \<notin> set used]"
  obtain cl where cl: "clear_from 0 ?m (id_freeList p) = Inr cl" "int (length cl) = ?m"
      "\<forall>j < nat ?m. cl ! j = 0"
    using clear_from_ok [of 0 "id_freeList p" ?m] d by auto
  let ?p1 = "p\<lparr>id_numOfFree := 0, id_freeSlot := 0, id_freeList := cl\<rparr>"
  obtain fl where fl: "mark_all (Some ?p1) used = Inr (Some (?p1\<lparr>id_freeList := fl\<rparr>))"
      "length fl = length cl" "\<forall>j < length fl. fl ! j = (if int j \<in> set used then 1 else 0)"
    using mark_all_ok [of used ?p1] used cl d by fastforce
  have eq: "filter (\<lambda>j. fl ! nat j = 0) [1..?m - 1] = ?free"
    using fl cl by (intro filter_cong) auto
  obtain ys where ys: "set_free_from 1 ?m 0 0 fl = Inr (int (length ?free), ys)"
      "int (length ys) = ?m" "take (length ?free) ys = ?free"
    using set_free_from_ok [of 0 1 fl ?m 0] fl cl by (auto simp: eq)
  let ?p' = "p\<lparr>id_numOfFree := int (length ?free), id_freeSlot := 0, id_freeList := ys\<rparr>"
  have len: "length ?free \<le> nat (?m - 1)"
    using length_filter_le [of "\<lambda>i. i \<notin> set used" "[1..?m - 1]"] by simp
  have free: "id_free ?p' = ?free"
    using ys len d by (simp add: id_free_def ring_slice_front)
  then have "id_pool_wf ?p'" using ys len d by (auto simp: id_pool_wf_def)
  moreover have "rebuild (Some p) used = Inr (Some ?p')"
    using cl fl ys by (simp add: rebuild_def taosIdPoolReinit_def taosIdPoolSetFreeList_def)
  ultimately show ?thesis using free by auto
qed

theorem id_pool_rebuild_witness:
  "\<exists>p'. rebuild (Some \<lparr>id_maxId = 4, id_numOfFree = 1, id_freeSlot = 2,
       id_freeList = [9, 9, 3, 9]\<rparr>) [2] = Inr (Some p') \<and> id_free p' = [1, 3]"
proof -
  let ?p = "\<lparr>id_maxId = 4, id_numOfFree = 1, id_freeSlot = 2, id_freeList = [9, 9, 3, 9]\<rparr>"
  have "id_pool_wf ?p" by (simp add: id_pool_wf_def id_free_def ring_slice_def)
  from id_pool_rebuild [OF this, of "[2]"] show ?thesis
    by (auto simp: upto_rec1)
qed

end
