(* ===== verification/MemPool.thy ===== *)
theory MemPool
  imports Pool_Interface
begin

text \<open>
  The block pool of src/src/util/src/tmempool.c: an array of equal blocks and a ring buffer of the
  indices of the free ones. A block address is modelled as its byte offset from the start of the
  pool (\<open>pMem - pool_p->pool\<close>), NULL as \<open>None\<close>; mutex operations are not modelled. Sizes are
  C ints; \<open>mpool_wf\<close> states that the byte size of the pool fits one.
\<close>

section \<open>State and operations\<close>

record pool_t =
  mp_numOfFree :: int
  mp_first :: int
  mp_numOfBlock :: int
  mp_blockSize :: int
  mp_freeList :: "int list"
  mp_pool :: "8 word list"

text \<open>\<open>memset (p + off, 0, len)\<close> on the pool memory.\<close>

definition mem_zero :: "8 word list \<Rightarrow> int \<Rightarrow> int \<Rightarrow> 8 word list res" where
  "mem_zero mem off len =
     (if 0 \<le> off \<and> 0 \<le> len \<and> off + len \<le> int (length mem)
      then Inr (take (nat off) mem @ replicate (nat len) 0 @ drop (nat (off + len)) mem)
      else Inl Out_Of_Bounds)"

text \<open>
  The arguments after the sizes are the outcomes of the calls of malloc and the content malloc
  left in the pool memory.
\<close>

definition taosMemPoolInit ::
    "int \<Rightarrow> int \<Rightarrow> bool \<Rightarrow> bool \<Rightarrow> bool \<Rightarrow> 8 word list \<Rightarrow> pool_t option" where
  "taosMemPoolInit numOfBlock blockSize obj_ok pool_ok list_ok garbage =
     (if numOfBlock \<le> 1 \<or> blockSize \<le> 1 then None
      else if \<not> obj_ok then None
      else if \<not> pool_ok \<or> \<not> list_ok then None
      else Some \<lparr>mp_numOfFree = numOfBlock, mp_first = 0, mp_numOfBlock = numOfBlock,
             mp_blockSize = blockSize, mp_freeList = map int [0..<nat numOfBlock],
             mp_pool = garbage\<rparr>)"

definition taosMemPoolMalloc :: "pool_t \<Rightarrow> (pool_t \<times> int option) res" where
  "taosMemPoolMalloc p =
     (if mp_numOfFree p \<le> 0 then Inr (p, None)
      else
        rbind (arr_get (mp_freeList p) (mp_first p)) (\<lambda>k.
          let pos = mp_blockSize p * k in
          rbind (mem_zero (mp_pool p) pos (mp_blockSize p)) (\<lambda>mem.
            Inr (p\<lparr>mp_first := (mp_first p + 1) smod mp_numOfBlock p,
                   mp_numOfFree := mp_numOfFree p - 1,
                   mp_pool := mem\<rparr>, Some pos))))"

definition taosMemPoolFree :: "pool_t \<Rightarrow> int option \<Rightarrow> pool_t res" where
  "taosMemPoolFree p pMem =
     (case pMem of
        None \<Rightarrow> Inr p
      | Some off \<Rightarrow>
          if to_int32 off smod mp_blockSize p \<noteq> 0 then Inr p
          else
            let index = to_int32 (off sdiv mp_blockSize p) in
            if index < 0 \<or> mp_numOfBlock p \<le> index then Inr p
            else
              rbind (arr_set (mp_freeList p)
                 ((mp_first p + mp_numOfFree p) smod mp_numOfBlock p) index) (\<lambda>fl.
              rbind (mem_zero (mp_pool p) off (mp_blockSize p)) (\<lambda>mem.
                Inr (p\<lparr>mp_freeList := fl, mp_numOfFree := mp_numOfFree p + 1, mp_pool := mem\<rparr>))))"

text \<open>
  The clean-up frees the two arrays; \<open>memset(&pool_p, 0, sizeof(pool_p))\<close> then clears the local
  pointer and not the object, so that \<open>free\<close> is applied to NULL: the result is the pool object,
  which stays allocated.
\<close>

definition taosMemPoolCleanUp :: "pool_t \<Rightarrow> pool_t option" where
  "taosMemPoolCleanUp p = Some (p\<lparr>mp_freeList := [], mp_pool := []\<rparr>)"

section \<open>Invariant and abstraction\<close>

definition mp_free_idx :: "pool_t \<Rightarrow> int list" where
  "mp_free_idx p = ring_slice (mp_freeList p) (nat (mp_first p)) (nat (mp_numOfFree p))"

definition mp_free :: "pool_t \<Rightarrow> int list" where
  "mp_free p = map (\<lambda>k. mp_blockSize p * k) (mp_free_idx p)"

definition mp_blocks :: "pool_t \<Rightarrow> int set" where
  "mp_blocks p = (\<lambda>k. mp_blockSize p * k) ` {0..<mp_numOfBlock p}"

definition mpool_wf :: "pool_t \<Rightarrow> bool" where
  "mpool_wf p \<longleftrightarrow> 1 < mp_numOfBlock p \<and> 1 < mp_blockSize p \<and>
     mp_blockSize p * mp_numOfBlock p < 2 ^ 31 \<and>
     int (length (mp_pool p)) = mp_blockSize p * mp_numOfBlock p \<and>
     int (length (mp_freeList p)) = mp_numOfBlock p \<and>
     0 \<le> mp_first p \<and> mp_first p < mp_numOfBlock p \<and>
     0 \<le> mp_numOfFree p \<and> mp_numOfFree p \<le> mp_numOfBlock p \<and>
     distinct (mp_free_idx p) \<and> set (mp_free_idx p) \<subseteq> {0..<mp_numOfBlock p}"

definition mp_release :: "pool_t \<Rightarrow> int \<Rightarrow> pool_t res" where
  "mp_release p off = taosMemPoolFree p (Some off)"

lemma mpool_wfD:
  assumes "mpool_wf p"
  shows "1 < mp_numOfBlock p" "1 < mp_blockSize p"
    "int (length (mp_pool p)) = mp_blockSize p * mp_numOfBlock p"
    "length (mp_freeList p) = nat (mp_numOfBlock p)"
    "0 \<le> mp_first p" "mp_first p < mp_numOfBlock p"
    "0 \<le> mp_numOfFree p" "mp_numOfFree p \<le> mp_numOfBlock p"
    "distinct (mp_free_idx p)" "set (mp_free_idx p) \<subseteq> {0..<mp_numOfBlock p}"
  using assms by (auto simp: mpool_wf_def)

lemma length_mp_free_idx [simp]: "length (mp_free_idx p) = nat (mp_numOfFree p)"
  by (simp add: mp_free_idx_def)

lemma mem_zero_block:
  assumes "mpool_wf p" and "0 \<le> k" and "k < mp_numOfBlock p"
  shows "\<exists>mem. mem_zero (mp_pool p) (mp_blockSize p * k) (mp_blockSize p) = Inr mem \<and>
    length mem = length (mp_pool p) \<and>
    take (nat (mp_blockSize p)) (drop (nat (mp_blockSize p * k)) mem) =
      replicate (nat (mp_blockSize p)) 0"
proof -
  note d = mpool_wfD [OF assms(1)]
  have le: "mp_blockSize p * k + mp_blockSize p \<le> int (length (mp_pool p))"
    using assms d mult_left_mono [of "k + 1" "mp_numOfBlock p" "mp_blockSize p"]
    by (simp add: algebra_simps)
  have lo: "0 \<le> mp_blockSize p * k" using assms d by simp
  from le lo d have "nat (mp_blockSize p * k + mp_blockSize p) \<le> length (mp_pool p)"
    and "nat (mp_blockSize p * k) \<le> length (mp_pool p)"
    and "nat (mp_blockSize p * k + mp_blockSize p) = nat (mp_blockSize p * k) + nat (mp_blockSize p)"
    by (auto simp: nat_add_distrib)
  with le lo d show ?thesis by (simp add: mem_zero_def)
qed

lemma mp_block_range:
  assumes "mpool_wf p" and "0 \<le> k" and "k < mp_numOfBlock p"
  shows "0 \<le> mp_blockSize p * k" "mp_blockSize p * k < 2 ^ 31" "k < 2 ^ 31"
proof -
  note d = mpool_wfD [OF assms(1)]
  have le: "mp_blockSize p * k \<le> mp_blockSize p * mp_numOfBlock p"
    using assms d by (intro mult_left_mono) auto
  moreover have "k \<le> mp_blockSize p * k"
    using assms d mult_right_mono [of 1 "mp_blockSize p" k] by simp
  moreover have "mp_blockSize p * mp_numOfBlock p < 2 ^ 31" using assms by (simp add: mpool_wf_def)
  ultimately show "mp_blockSize p * k < 2 ^ 31" "k < 2 ^ 31" by linarith+
  show "0 \<le> mp_blockSize p * k" using assms d by simp
qed

lemma mp_alloc_empty: "mpool_wf p \<Longrightarrow> mp_free p = [] \<Longrightarrow> taosMemPoolMalloc p = Inr (p, None)"
  using length_mp_free_idx [of p] mpool_wfD [of p] by (simp add: taosMemPoolMalloc_def mp_free_def)

lemma mp_alloc_Cons:
  assumes wf: "mpool_wf p" and free: "mp_free p = x # xs"
  shows "\<exists>p'. taosMemPoolMalloc p = Inr (p', Some x) \<and> mpool_wf p' \<and> mp_free p' = xs \<and>
    mp_blocks p' = mp_blocks p \<and> mp_blockSize p' = mp_blockSize p \<and>
    take (nat (mp_blockSize p)) (drop (nat x) (mp_pool p')) = replicate (nat (mp_blockSize p)) 0"
proof -
  note d = mpool_wfD [OF wf]
  have n: "nat (mp_numOfFree p) = Suc (length xs)"
    using arg_cong [OF free, of length] by (simp add: mp_free_def)
  then have pos: "0 < mp_numOfFree p" by simp
  let ?k = "mp_freeList p ! nat (mp_first p)"
  have slot: "nat ((mp_first p + 1) smod mp_numOfBlock p) =
      Suc (nat (mp_first p)) mod length (mp_freeList p)"
    using d by (simp add: smod_nonneg nat_mod_distrib nat_add_distrib)
  have idx: "mp_free_idx p =
      ?k # ring_slice (mp_freeList p) (nat ((mp_first p + 1) smod mp_numOfBlock p)) (length xs)"
    unfolding mp_free_idx_def n using d slot by (simp add: ring_slice_Suc)
  then have k: "0 \<le> ?k" "?k < mp_numOfBlock p" using d(10) by auto
  from mem_zero_block [OF wf k] obtain mem where
    mem: "mem_zero (mp_pool p) (mp_blockSize p * ?k) (mp_blockSize p) = Inr mem"
      "length mem = length (mp_pool p)"
      "take (nat (mp_blockSize p)) (drop (nat (mp_blockSize p * ?k)) mem) =
        replicate (nat (mp_blockSize p)) 0" by blast
  let ?p' = "p\<lparr>mp_first := (mp_first p + 1) smod mp_numOfBlock p,
    mp_numOfFree := mp_numOfFree p - 1, mp_pool := mem\<rparr>"
  have idx': "mp_free_idx p = ?k # mp_free_idx ?p'"
    using idx n by (simp add: mp_free_idx_def nat_diff_distrib)
  have x: "x = mp_blockSize p * ?k" and xs: "mp_free ?p' = xs"
    using free idx' by (auto simp: mp_free_def)
  have "mpool_wf ?p'"
    using wf d idx' pos mem(2) smod_bounds [of "mp_first p + 1" "mp_numOfBlock p"]
    by (auto simp: mpool_wf_def)
  moreover have "taosMemPoolMalloc p = Inr (?p', Some x)"
    using d pos mem x by (simp add: taosMemPoolMalloc_def Let_def)
  ultimately show ?thesis using xs mem(3) x by (auto simp: mp_blocks_def)
qed

lemma mp_release_ok:
  assumes wf: "mpool_wf p" and x: "x \<in> mp_blocks p" and nin: "x \<notin> set (mp_free p)"
  shows "\<exists>p'. mp_release p x = Inr p' \<and> mpool_wf p' \<and> mp_free p' = mp_free p @ [x] \<and>
    mp_blocks p' = mp_blocks p \<and> mp_blockSize p' = mp_blockSize p"
proof -
  note d = mpool_wfD [OF wf]
  from x obtain k where k: "0 \<le> k" "k < mp_numOfBlock p" and xk: "x = mp_blockSize p * k"
    by (auto simp: mp_blocks_def)
  have nk: "k \<notin> set (mp_free_idx p)" using nin xk by (auto simp: mp_free_def)
  let ?slot = "(mp_first p + mp_numOfFree p) smod mp_numOfBlock p"
  have "card (set (mp_free_idx p @ [k])) \<le> card {0..<mp_numOfBlock p}"
    using d(10) k by (intro card_mono) auto
  then have room: "mp_numOfFree p < mp_numOfBlock p"
    using d(1,7,9) nk by (simp add: distinct_card)
  have slot: "0 \<le> ?slot" "?slot < mp_numOfBlock p"
    using d smod_bounds [of "mp_first p + mp_numOfFree p" "mp_numOfBlock p"] by auto
  have slot_nat: "nat ?slot = (nat (mp_first p) + nat (mp_numOfFree p)) mod length (mp_freeList p)"
    using d by (simp add: smod_nonneg nat_mod_distrib nat_add_distrib)
  from mem_zero_block [OF wf k] obtain mem where
    mem: "mem_zero (mp_pool p) x (mp_blockSize p) = Inr mem" "length mem = length (mp_pool p)"
    by (auto simp: xk)
  let ?p' = "p\<lparr>mp_freeList := (mp_freeList p)[nat ?slot := k],
    mp_numOfFree := mp_numOfFree p + 1, mp_pool := mem\<rparr>"
  have idx: "mp_free_idx ?p' = mp_free_idx p @ [k]"
    using d room ring_slice_push [of "nat (mp_numOfFree p)" "mp_freeList p" "nat (mp_first p)" k]
    by (simp add: mp_free_idx_def slot_nat nat_add_distrib)
  have "to_int32 x = x" "to_int32 k = k"
    unfolding xk using mp_block_range [OF wf k] k(1) by (auto intro!: to_int32_id)
  moreover have "x smod mp_blockSize p = 0" "x sdiv mp_blockSize p = k"
    using d k xk by (simp_all add: smod_nonneg signed_divide_int_def sgn_if)
  ultimately have "mp_release p x = Inr ?p'"
    using d k slot mem by (simp add: mp_release_def taosMemPoolFree_def Let_def)
  moreover have "mpool_wf ?p'" using wf d room k nk idx mem(2) by (auto simp: mpool_wf_def)
  moreover have "mp_free ?p' = mp_free p @ [x]" using idx xk by (simp add: mp_free_def)
  ultimately show ?thesis by (auto simp: mp_blocks_def)
qed

lemma mp_free_distinct: "mpool_wf p \<Longrightarrow> distinct (mp_free p)"
  using mpool_wfD [of p] by (auto simp: mp_free_def distinct_map inj_on_def)

lemma mp_free_subset: "mpool_wf p \<Longrightarrow> set (mp_free p) \<subseteq> mp_blocks p"
  using mpool_wfD [of p] by (auto simp: mp_free_def mp_blocks_def)

interpretation mpl: slot_pool mpool_wf mp_free mp_blocks taosMemPoolMalloc mp_release
proof (unfold_locales, goal_cases)
  case (1 s) then show ?case by (rule mp_free_distinct)
next
  case (2 s) then show ?case by (rule mp_free_subset)
next
  case (3 s) then show ?case by (rule mp_alloc_empty)
next
  case (4 s x xs) then show ?case using mp_alloc_Cons [of s x xs] by auto
next
  case (5 s x) then show ?case using mp_release_ok [of s x] by auto
qed

lemma taosMemPoolMalloc_size: "taosMemPoolMalloc p = Inr (p', r) \<Longrightarrow> mp_blockSize p' = mp_blockSize p"
  by (auto simp: taosMemPoolMalloc_def Let_def res_simps split: if_splits)

lemma mp_release_size: "mp_release p x = Inr p' \<Longrightarrow> mp_blockSize p' = mp_blockSize p"
  by (auto simp: mp_release_def taosMemPoolFree_def Let_def res_simps split: if_splits)

lemma mp_reach_size:
  "pool_reach taosMemPoolMalloc mp_release p0 p live \<Longrightarrow> mp_blockSize p = mp_blockSize p0"
  by (induction rule: pool_reach.induct) (auto dest: taosMemPoolMalloc_size mp_release_size)

section \<open>Properties\<close>

lemma mp_init:
  assumes "taosMemPoolInit n b True True True mem = Some p0"
    and "b * n < 2 ^ 31" and "int (length mem) = b * n"
  shows "mpool_wf p0" and "set (mp_free p0) = mp_blocks p0" and "mp_blockSize p0 = b"
    and "mp_blocks p0 = (\<lambda>k. b * k) ` {0..<n}"
proof -
  have nb: "1 < n" "1 < b" and p0: "p0 = \<lparr>mp_numOfFree = n, mp_first = 0, mp_numOfBlock = n,
      mp_blockSize = b, mp_freeList = map int [0..<nat n], mp_pool = mem\<rparr>"
    using assms(1) by (auto simp: taosMemPoolInit_def split: if_splits)
  have "ring_slice (map int [0..<nat n]) 0 (nat n) = map int [0..<nat n]"
    by (rule nth_equalityI) (auto simp: nth_ring_slice)
  then have idx: "mp_free_idx p0 = map int [0..<nat n]" by (simp add: mp_free_idx_def p0)
  have img: "set (map int [0..<nat n]) = {0..<n}"
    using nb image_int_atLeastLessThan [of 0 "nat n"] by simp
  show "mpool_wf p0"
    using assms(2,3) nb idx img by (auto simp: mpool_wf_def p0 distinct_map)
  have "set (mp_free_idx p0) = {0..<n}" using idx img by (simp only:)
  then show "set (mp_free p0) = mp_blocks p0" by (simp add: mp_free_def mp_blocks_def) (simp add: p0)
  show "mp_blockSize p0 = b" "mp_blocks p0 = (\<lambda>k. b * k) ` {0..<n}"
    by (simp_all add: p0 mp_blocks_def)
qed

text \<open>
  C6.
  Between initialisation and any later point, for a client that gives back only blocks it holds:
  an allocation never faults, yields NULL only when all blocks are held,
  and otherwise yields the offset of a whole block inside the pool that is not held and does not
  overlap a held one, filled with zeros.
\<close>

theorem mem_pool_exclusive:
  assumes init: "taosMemPoolInit n b True True True mem = Some p0"
    and size: "b * n < 2 ^ 31" "int (length mem) = b * n"
    and reach: "pool_reach taosMemPoolMalloc mp_release p0 p live"
  shows "\<exists>p' r. taosMemPoolMalloc p = Inr (p', r) \<and>
    (case r of
       None \<Rightarrow> live = (\<lambda>k. b * k) ` {0..<n}
     | Some x \<Rightarrow> 0 \<le> x \<and> x + b \<le> b * n \<and> (\<forall>y \<in> live. x + b \<le> y \<or> y + b \<le> x) \<and>
         take (nat b) (drop (nat x) (mp_pool p')) = replicate (nat b) 0)"
proof -
  note i = mp_init [OF init size]
  have nb: "1 < n" "1 < b" using init by (auto simp: taosMemPoolInit_def split: if_splits)
  have acc: "mpl.accounted p0 p live" using reach i(1,2) by (rule mpl.reach_accounted)
  then have wf: "mpool_wf p" and blk: "mp_blocks p = (\<lambda>k. b * k) ` {0..<n}"
    and live: "set (mp_free p) \<union> live = (\<lambda>k. b * k) ` {0..<n}" "set (mp_free p) \<inter> live = {}"
    using i(4) by (auto simp: mpl.accounted_def)
  show ?thesis
  proof (cases "mp_free p")
    case Nil
    with mp_alloc_empty [OF wf] live show ?thesis by auto
  next
    case (Cons x xs)
    from mp_alloc_Cons [OF wf Cons] obtain p' where p': "taosMemPoolMalloc p = Inr (p', Some x)"
      "take (nat (mp_blockSize p)) (drop (nat x) (mp_pool p')) = replicate (nat (mp_blockSize p)) 0"
      by auto
    have bs: "mp_blockSize p = b" using mp_reach_size [OF reach] i(3) by simp
    from Cons live have "x \<in> (\<lambda>k. b * k) ` {0..<n}" and nl: "x \<notin> live" by auto
    then obtain k where k: "0 \<le> k" "k < n" "x = b * k" by auto
    have "x + b \<le> b * n" using k nb mult_left_mono [of "k + 1" n b] by (simp add: algebra_simps)
    moreover have "x + b \<le> y \<or> y + b \<le> x" if "y \<in> live" for y
    proof -
      from that live obtain j where j: "y = b * j" by auto
      with nl that k have "k \<noteq> j" by auto
      then have "k + 1 \<le> j \<or> j + 1 \<le> k" by linarith
      then show ?thesis
        using j k nb mult_left_mono [of "k + 1" j b] mult_left_mono [of "j + 1" k b]
        by (auto simp: algebra_simps)
    qed
    moreover have "0 \<le> x" using k nb by simp
    ultimately show ?thesis using p' bs by auto
  qed
qed

theorem mem_pool_exclusive_witness:
  "\<exists>p0 p1. taosMemPoolInit 2 2 True True True [7, 7, 7, 7] = Some p0 \<and>
    taosMemPoolMalloc p0 = Inr (p1, Some 0) \<and>
    (\<exists>p' r. taosMemPoolMalloc p1 = Inr (p', r) \<and>
      (case r of None \<Rightarrow> False | Some x \<Rightarrow> 2 \<le> x \<and> take 2 (drop (nat x) (mp_pool p')) = [0, 0]))"
proof -
  let ?p0 = "\<lparr>mp_numOfFree = 2, mp_first = 0, mp_numOfBlock = 2, mp_blockSize = 2,
    mp_freeList = [0, 1], mp_pool = [7, 7, 7, 7]\<rparr>"
  let ?p1 = "\<lparr>mp_numOfFree = 1, mp_first = 1, mp_numOfBlock = 2, mp_blockSize = 2,
    mp_freeList = [0, 1], mp_pool = [0, 0, 7, 7]\<rparr>"
  have i: "taosMemPoolInit 2 2 True True True [7, 7, 7, 7] = Some ?p0"
    by (simp add: taosMemPoolInit_def upt_rec)
  have a: "taosMemPoolMalloc ?p0 = Inr (?p1, Some 0)"
    by (simp add: taosMemPoolMalloc_def mem_zero_def signed_modulo_int_def numeral_2_eq_2)
  have r: "pool_reach taosMemPoolMalloc mp_release ?p0 ?p1 {0}"
    by (rule pool_reach.take_slot [OF pool_reach.start, where alloc = taosMemPoolMalloc]) (rule a)
  have "(2::int) \<in> (*) 2 ` {0..<2}" by (auto intro: image_eqI [of _ _ 1])
  then have ne: "{0::int} \<noteq> (*) 2 ` {0..<2}" by (metis singletonD zero_neq_numeral)
  from mem_pool_exclusive [OF i _ _ r] obtain p' q where q: "taosMemPoolMalloc ?p1 = Inr (p', q)"
    "case q of None \<Rightarrow> {0} = (*) 2 ` {0..<2::int} | Some x \<Rightarrow> 0 \<le> x \<and> x + 2 \<le> 2 * 2 \<and>
       (\<forall>y\<in>{0}. x + 2 \<le> y \<or> y + 2 \<le> x) \<and>
       take (nat 2) (drop (nat x) (mp_pool p')) = replicate (nat 2) 0"
    by auto
  then have "case q of None \<Rightarrow> False
      | Some x \<Rightarrow> 2 \<le> x \<and> take 2 (drop (nat x) (mp_pool p')) = [0, 0]"
    using ne by (cases q) (auto simp: numeral_2_eq_2)
  with i a q(1) show ?thesis by blast
qed

text \<open>
  Giving the pool an address it never handed out changes nothing: NULL, an offset that is not
  a multiple of the block size, and one below or beyond the pool are all ignored.
\<close>

lemma mem_pool_free_invalid:
  assumes "mpool_wf p" and "off \<notin> mp_blocks p" and "- (2 ^ 31) \<le> off" and "off < 2 ^ 31"
  shows "taosMemPoolFree p None = Inr p \<and> taosMemPoolFree p (Some off) = Inr p"
proof -
  note d = mpool_wfD [OF assms(1)]
  let ?b = "mp_blockSize p"
  have off: "to_int32 off = off" using assms(3,4) by (simp del: power_numeral)
  have "off sdiv ?b < 0 \<or> mp_numOfBlock p \<le> off sdiv ?b" if m: "off smod ?b = 0"
  proof (rule ccontr)
    assume "\<not> ?thesis"
    moreover have "off = ?b * (off sdiv ?b)"
      using m mult_sdiv_smod_eq [of ?b off] by simp
    ultimately have "off \<in> mp_blocks p" by (force simp: mp_blocks_def)
    with assms(2) show False by simp
  qed
  moreover have "\<bar>off sdiv ?b\<bar> \<le> 2 ^ 31 - 1"
  proof -
    have "\<bar>off sdiv ?b\<bar> = \<bar>off\<bar> div ?b"
      using d by (auto simp: signed_divide_int_def abs_mult sgn_if pos_imp_zdiv_nonneg_iff)
    also have "\<dots> \<le> \<bar>off\<bar> div 2" using d by (intro zdiv_mono2) auto
    also have "\<dots> \<le> 2 ^ 31 - 1" using assms(3,4) by simp
    finally show ?thesis .
  qed
  then have "to_int32 (off sdiv ?b) = off sdiv ?b" by (intro to_int32_id) linarith+
  ultimately show ?thesis using off by (auto simp: taosMemPoolFree_def Let_def)
qed

end
