(* ===== verification/Bytes.thy ===== *)
theory Bytes
  imports Prelude
begin

text \<open>
  Words in memory: little-endian byte strings, the compiler builtins that count leading and
  trailing zero bits, the zigzag code, and the masks of src/src/inc/tscompression.h. The platform
  is little-endian, with 8-bit bytes and 64-bit \<open>unsigned long\<close> (LP64).
\<close>

type_synonym byte = "8 word"

section \<open>Little-endian bytes\<close>

definition le_bytes :: "nat \<Rightarrow> 'a::len word \<Rightarrow> byte list" where
  "le_bytes n w = map (\<lambda>i. ucast (drop_bit (8 * i) w)) [0..<n]"

fun of_le_bytes :: "byte list \<Rightarrow> 'a::len word" where
  "of_le_bytes [] = 0"
| "of_le_bytes (b # bs) = ucast b OR push_bit 8 (of_le_bytes bs)"

lemma length_le_bytes [simp]: "length (le_bytes n w) = n"
  by (simp add: le_bytes_def)

lemma le_bytes_0 [simp]: "le_bytes 0 w = []"
  by (simp add: le_bytes_def)

lemma bit_of_le_bytes:
  "bit (of_le_bytes bs :: 'a::len word) n \<longleftrightarrow>
     n < LENGTH('a) \<and> n div 8 < length bs \<and> bit (bs ! (n div 8)) (n mod 8)"
proof (induction bs arbitrary: n)
  case Nil
  then show ?case by simp
next
  case (Cons b bs)
  show ?case
  proof (cases "n < 8")
    case True
    then have "n div 8 = 0" "n mod 8 = n" by auto
    with True show ?thesis
      by (auto simp: bit_or_iff bit_push_bit_iff bit_ucast_iff)
  next
    case False
    then have n: "n div 8 = Suc ((n - 8) div 8)" "n mod 8 = (n - 8) mod 8"
      by (auto simp: div_if mod_if)
    have "\<not> bit (ucast b :: 'a word) n"
      using False by (auto simp: bit_ucast_iff dest: bit_imp_le_length)
    with False n Cons [of "n - 8"] show ?thesis
      by (auto simp: bit_or_iff bit_push_bit_iff)
  qed
qed

lemma of_le_bytes_le_bytes: "of_le_bytes (le_bytes n w) = (take_bit (8 * n) w :: 'a::len word)"
proof (rule bit_word_eqI)
  fix k
  assume k: "k < LENGTH('a)"
  have "k div 8 < n \<longleftrightarrow> k < 8 * n" by (simp add: div_less_iff_less_mult mult.commute)
  moreover have "k mod 8 < 8" "8 * (k div 8) + k mod 8 = k" by auto
  ultimately show "bit (of_le_bytes (le_bytes n w) :: 'a word) k = bit (take_bit (8 * n) w) k"
    using k by (auto simp: bit_of_le_bytes le_bytes_def bit_take_bit_iff bit_ucast_iff bit_drop_bit_eq
        comp_def)
qed

lemma of_le_bytes_full [simp]:
  "LENGTH('a::len) \<le> 8 * n \<Longrightarrow> of_le_bytes (le_bytes n w) = (w :: 'a word)"
  by (simp add: of_le_bytes_le_bytes take_bit_word_eq_self)

lemma le_bytes_of_le_bytes:
  assumes "n = length bs" and "8 * n \<le> LENGTH('a::len)"
  shows "le_bytes n (of_le_bytes bs :: 'a word) = bs"
proof (rule nth_equalityI)
  fix i
  assume "i < length (le_bytes n (of_le_bytes bs :: 'a word))"
  then have i: "i < n" by simp
  show "le_bytes n (of_le_bytes bs :: 'a word) ! i = bs ! i"
  proof (rule bit_word_eqI)
    fix k
    assume "k < LENGTH(8)"
    then have k: "k < 8" by simp
    then have "(8 * i + k) div 8 = i" "(8 * i + k) mod 8 = k" by auto
    moreover have "8 * i + k < LENGTH('a)" using i k assms by linarith
    ultimately show "bit (le_bytes n (of_le_bytes bs :: 'a word) ! i) k = bit (bs ! i) k"
      using i k assms
      by (auto simp: le_bytes_def bit_of_le_bytes bit_ucast_iff bit_drop_bit_eq comp_def)
  qed
qed (use assms in simp)

text \<open>Truncated words: only the low bits matter for the low bytes.\<close>

lemma le_bytes_take_bit: "le_bytes n (take_bit (8 * n) w) = le_bytes n w"
proof (rule nth_equalityI)
  fix i
  assume "i < length (le_bytes n (take_bit (8 * n) w))"
  then have i: "i < n" by simp
  then show "le_bytes n (take_bit (8 * n) w) ! i = le_bytes n w ! i"
    by (intro bit_word_eqI)
      (auto simp: le_bytes_def bit_ucast_iff bit_drop_bit_eq bit_take_bit_iff comp_def)
qed simp

section \<open>Copies\<close>

text \<open>\<open>memcpy\<close> of \<open>len\<close> bytes from \<open>inp + off\<close>.\<close>

definition copy_bytes :: "byte list \<Rightarrow> nat \<Rightarrow> nat \<Rightarrow> byte list res" where
  "copy_bytes inp off len =
     (if off + len \<le> length inp then Inr (take len (drop off inp)) else Inl Out_Of_Bounds)"

lemma copy_bytes_append:
  "copy_bytes (xs @ ys @ zs) (length xs) (length ys) = Inr ys"
  by (simp add: copy_bytes_def)

section \<open>Counting zero bits\<close>

text \<open>
  \<open>__builtin_clz\<close> and \<open>__builtin_ctz\<close> on an operand of \<open>LENGTH('a)\<close> bits; the C builtins
  are undefined on 0, where the source never calls them.
\<close>

definition clz :: "'a::len word \<Rightarrow> nat" where
  "clz w = length (takeWhile (\<lambda>i. \<not> bit w i) (rev [0..<LENGTH('a)]))"

definition ctz :: "'a::len word \<Rightarrow> nat" where
  "ctz w = length (takeWhile (\<lambda>i. \<not> bit w i) [0..<LENGTH('a)])"

lemma clz_le: "clz (w :: 'a::len word) \<le> LENGTH('a)"
  using length_takeWhile_le [of "\<lambda>i. \<not> bit w i" "rev [0..<LENGTH('a)]"] by (simp add: clz_def)

lemma ctz_le: "ctz (w :: 'a::len word) \<le> LENGTH('a)"
  using length_takeWhile_le [of "\<lambda>i. \<not> bit w i" "[0..<LENGTH('a)]"] by (simp add: ctz_def)

lemma clz_bit:
  assumes "LENGTH('a::len) - clz (w :: 'a word) \<le> n"
  shows "\<not> bit w n"
proof (cases "n < LENGTH('a)")
  case False
  then show ?thesis by (auto dest: bit_imp_le_length)
next
  case True
  let ?xs = "rev [0..<LENGTH('a)]"
  let ?i = "LENGTH('a) - 1 - n"
  have "?i < clz w" using assms True clz_le [of w] by linarith
  then have "takeWhile (\<lambda>i. \<not> bit w i) ?xs ! ?i = ?xs ! ?i"
    and "?i < length (takeWhile (\<lambda>i. \<not> bit w i) ?xs)"
    by (simp_all add: clz_def takeWhile_nth)
  then have "\<not> bit w (?xs ! ?i)" by (metis nth_mem set_takeWhileD)
  moreover have "?xs ! ?i = n" using True by (simp add: rev_nth)
  ultimately show ?thesis by simp
qed

lemma ctz_bit: "n < ctz (w :: 'a::len word) \<Longrightarrow> \<not> bit w n"
proof -
  assume n: "n < ctz w"
  let ?xs = "[0..<LENGTH('a)]"
  from n have "takeWhile (\<lambda>i. \<not> bit w i) ?xs ! n = ?xs ! n"
    and "n < length (takeWhile (\<lambda>i. \<not> bit w i) ?xs)"
    by (simp_all add: ctz_def takeWhile_nth)
  then have "\<not> bit w (?xs ! n)" by (metis nth_mem set_takeWhileD)
  moreover have "?xs ! n = n" using n ctz_le [of w] by simp
  ultimately show ?thesis by simp
qed

lemma clz_less:
  assumes "w \<noteq> 0"
  shows "clz (w :: 'a::len word) < LENGTH('a)"
proof (rule ccontr)
  assume "\<not> ?thesis"
  then have "\<not> bit w n" for n by (intro clz_bit) simp
  then have "w = 0" by (simp add: bit_eq_iff)
  with assms show False by simp
qed

lemma take_bit_clz: "LENGTH('a::len) - clz w \<le> n \<Longrightarrow> take_bit n w = (w :: 'a word)"
  by (rule bit_word_eqI) (auto simp: bit_take_bit_iff not_less dest: clz_bit order_trans)

text \<open>The number of bits below the leading zeros is determined by the value.\<close>

lemma clz_bound:
  fixes w :: "'a::len word"
  assumes "unat w < 2 ^ n" and "n \<le> LENGTH('a)" and "w \<noteq> 0"
  shows "LENGTH('a) - clz w \<le> n"
proof (rule ccontr)
  assume no: "\<not> ?thesis"
  let ?k = "LENGTH('a) - clz w - 1"
  let ?xs = "rev [0..<LENGTH('a)]"
  from assms(3) have lt: "clz w < LENGTH('a)" by (rule clz_less)
  then have "clz w < length ?xs" by simp
  then have "bit w (?xs ! clz w)"
    using nth_length_takeWhile [of "\<lambda>i. \<not> bit w i" ?xs] by (simp add: clz_def)
  then have "bit w ?k" using lt by (simp add: rev_nth)
  then have "odd (unat w div 2 ^ ?k)"
    using bit_unsigned_iff [where ?'a = nat, of w ?k] by (simp add: bit_iff_odd [of "unat w"])
  moreover have "unat w div 2 ^ ?k = 0"
    using no assms(1) order.strict_trans2 [OF assms(1), of "2 ^ ?k"] by (simp add: power_increasing)
  ultimately show False by simp
qed

section \<open>Zigzag\<close>

definition zigzag :: "64 word \<Rightarrow> 64 word" where
  "zigzag d = signed_drop_bit 63 d XOR push_bit 1 d"

definition unzigzag :: "64 word \<Rightarrow> 64 word" where
  "unzigzag z = drop_bit 1 z XOR - (z AND 1)"

lemma unzigzag_zigzag [simp]: "unzigzag (zigzag d) = d"
proof -
  let ?s = "bit d 63"
  have s: "signed_drop_bit 63 d = (if ?s then - 1 else 0)"
    by (rule bit_word_eqI) (auto simp: bit_signed_drop_bit_iff not_le less_Suc_eq)
  have p: "bit (push_bit 1 d) n \<longleftrightarrow> 0 < n \<and> n < 64 \<and> bit d (n - 1)" for n
    by (simp only: bit_push_bit_iff) (auto dest: bit_imp_le_length)
  have z: "bit (zigzag d) n \<longleftrightarrow> n < 64 \<and> (?s \<noteq> (0 < n \<and> bit d (n - 1)))" for n
    unfolding zigzag_def s bit_xor_iff p by auto
  have low: "zigzag d AND 1 = (if ?s then 1 else 0)"
    by (rule bit_word_eqI) (auto simp: z bit_and_iff bit_1_iff)
  have neg: "- (zigzag d AND 1) = (if ?s then - 1 else 0)" by (simp add: low)
  show ?thesis
  proof (rule bit_word_eqI)
    fix n
    assume "n < LENGTH(64)"
    then show "bit (unzigzag (zigzag d)) n = bit d n"
      unfolding unzigzag_def neg
      by (cases "n = 63") (auto simp: bit_xor_iff bit_drop_bit_eq z)
  qed
qed

end
