(* ===== verification/CompInt.thy ===== *)
theory CompInt
  imports Bytes
begin

text \<open>
  Integer compression of src/src/util/src/tcompression.c (Simple-8B over zigzag-coded differences):
  \<open>tsCompressINTImp\<close> and \<open>tsDecompressINTImp\<close>. Buffers are byte lists; the result of a
  compressor is the list of bytes it leaves in the output buffer, whose length is the value it
  returns. Signed 64-bit arithmetic wraps around, as the compilers the code is built with make it; the C standard
  leaves its overflow undefined. \<open>nelements\<close> is a natural number and the sizes, \<open>byte_limit\<close> among them, are
  exact: the code computes them as \<open>int\<close>, so the model is that of columns below 2 GiB. \<open>INT64MASK\<close> is
  built from \<open>1ul\<close>: this is the code of a platform with a 64-bit \<open>unsigned long\<close>.
\<close>

section \<open>Memory accesses\<close>

text \<open>The \<open>j\<close>-th integer of \<open>wl\<close> bytes, sign-extended to 64 bits.\<close>

definition int_at :: "nat \<Rightarrow> byte list \<Rightarrow> nat \<Rightarrow> 64 word" where
  "int_at wl inp j = signed_take_bit (8 * wl - 1) (of_le_bytes (take wl (drop (j * wl) inp)))"

definition load_int :: "nat \<Rightarrow> byte list \<Rightarrow> nat \<Rightarrow> 64 word res" where
  "load_int wl inp j =
     (if (j + 1) * wl \<le> length inp then Inr (int_at wl inp j) else Inl Out_Of_Bounds)"

section \<open>The code\<close>

definition TSDB_DATA_TYPE_TINYINT :: int where "TSDB_DATA_TYPE_TINYINT = 2"
definition TSDB_DATA_TYPE_SMALLINT :: int where "TSDB_DATA_TYPE_SMALLINT = 3"
definition TSDB_DATA_TYPE_INT :: int where "TSDB_DATA_TYPE_INT = 4"
definition TSDB_DATA_TYPE_BIGINT :: int where "TSDB_DATA_TYPE_BIGINT = 5"

lemmas int_type_defs = TSDB_DATA_TYPE_TINYINT_def TSDB_DATA_TYPE_SMALLINT_def
  TSDB_DATA_TYPE_INT_def TSDB_DATA_TYPE_BIGINT_def

definition word_length :: "int \<Rightarrow> nat res" where
  "word_length type =
     (if type = TSDB_DATA_TYPE_BIGINT then Inr 8
      else if type = TSDB_DATA_TYPE_INT then Inr 4
      else if type = TSDB_DATA_TYPE_SMALLINT then Inr 2
      else if type = TSDB_DATA_TYPE_TINYINT then Inr 1
      else Inl Exit_Failure)"

definition bit_per_integer :: "nat list" where
  "bit_per_integer = [0, 0, 1, 2, 3, 4, 5, 6, 7, 8, 10, 12, 15, 20, 30, 60]"

definition selector_to_elems :: "nat list" where
  "selector_to_elems = [240, 120, 60, 30, 20, 15, 12, 10, 8, 7, 6, 5, 4, 3, 2, 1]"

definition bit_to_selector :: "nat list" where
  "bit_to_selector =
    [0,  2,  3,  4,  5,  6,  7,  8,  9,  10, 10, 11, 11, 12, 12, 12, 13, 13, 13, 13, 13,
     14, 14, 14, 14, 14, 14, 14, 14, 14, 14, 15, 15, 15, 15, 15, 15, 15, 15, 15, 15, 15,
     15, 15, 15, 15, 15, 15, 15, 15, 15, 15, 15, 15, 15, 15, 15, 15, 15, 15, 15]"

definition SIMPLE8B_MAX_INT64 :: "64 word" where
  "SIMPLE8B_MAX_INT64 = 2305843009213693951"

definition safeInt64Add :: "64 word \<Rightarrow> 64 word \<Rightarrow> bool" where
  "safeInt64Add a b \<longleftrightarrow>
     \<not> ((0 < sint a \<and> 2 ^ 63 - 1 - sint a < sint b) \<or> (sint a < 0 \<and> sint b < - (2 ^ 63) - sint a))"

text \<open>\<open>while (elems < selector_to_elems[selector]) selector++;\<close>\<close>

function grow_selector :: "nat \<Rightarrow> nat \<Rightarrow> nat res" where
  "grow_selector sel el =
     rbind (arr_get selector_to_elems (int sel)) (\<lambda>c.
       if el < c then grow_selector (sel + 1) el else Inr sel)"
  by pat_completeness auto
termination
  by (relation "measure (\<lambda>(sel, el). 16 - sel)")
    (auto simp: arr_get_def selector_to_elems_def split: if_splits)

text \<open>
  The scan of one block: \<open>None\<close> is the jump to \<open>_copy_and_exit\<close>, otherwise the selector and
  the number of elements of the block. \<open>bit_to_selector\<close> is read before the test that decides whether the code
  reads it: the model is stricter where the selector alone ends the block.
\<close>

function scan_block ::
    "nat \<Rightarrow> byte list \<Rightarrow> nat \<Rightarrow> 64 word \<Rightarrow> nat \<Rightarrow> 64 word \<Rightarrow> nat \<Rightarrow> nat \<Rightarrow> (nat \<times> nat) option res"
where
  "scan_block wl inp n prev j prev_tmp sel el =
     (if j < n then
        rbind (load_int wl inp j) (\<lambda>curr.
          if \<not> safeInt64Add curr (- prev) then Inr None
          else
            let z = zigzag (curr - prev_tmp) in
            if SIMPLE8B_MAX_INT64 \<le> z then Inr None
            else
              let tmp_bit = (if z = 0 then 0 else 64 - clz z) in
              rbind (arr_get bit_to_selector (int tmp_bit)) (\<lambda>bs.
              rbind (arr_get selector_to_elems (int sel)) (\<lambda>c1.
              rbind (arr_get selector_to_elems (int bs)) (\<lambda>c2.
                if el + 1 \<le> c1 \<and> el + 1 \<le> c2
                then scan_block wl inp n prev (j + 1) curr (if bs < sel then sel else bs) (el + 1)
                else
                  rbind (grow_selector sel el) (\<lambda>sel'.
                  rbind (arr_get selector_to_elems (int sel')) (\<lambda>c. Inr (Some (sel', c))))))))
      else Inr (Some (sel, el)))"
  by pat_completeness auto
termination
  by (relation "measure (\<lambda>(wl, inp, n, prev, j, prev_tmp, sel, el). n - j)") auto

text \<open>The loop that packs the \<open>elems\<close> values of a block; it returns buffer, position and last value.\<close>

function pack_block ::
    "nat \<Rightarrow> byte list \<Rightarrow> nat \<Rightarrow> nat \<Rightarrow> nat \<Rightarrow> nat \<Rightarrow> 64 word \<Rightarrow> 64 word \<Rightarrow> (64 word \<times> nat \<times> 64 word) res"
where
  "pack_block wl inp b el k i prev buf =
     (if k < el then
        rbind (load_int wl inp i) (\<lambda>curr.
          pack_block wl inp b el (k + 1) (i + 1) curr
            (buf OR push_bit (b * k + 4) (zigzag (curr - prev) AND mask b)))
      else Inr (buf, i, prev))"
  by pat_completeness auto
termination
  by (relation "measure (\<lambda>(wl, inp, b, el, k, i, prev, buf). el - k)") auto

declare grow_selector.simps [simp del] scan_block.simps [simp del] pack_block.simps [simp del]

lemma arr_get_selector [simp]:
  "sel < 16 \<Longrightarrow> arr_get selector_to_elems (int sel) = Inr (selector_to_elems ! sel)"
  "sel < 16 \<Longrightarrow> arr_get bit_per_integer (int sel) = Inr (bit_per_integer ! sel)"
  by (simp_all add: selector_to_elems_def bit_per_integer_def)

lemma less_16_cases: "(sel::nat) < 16 \<longleftrightarrow> sel \<in> set [0..<16]"
  by auto

lemma selector_facts:
  assumes "sel < 16"
  shows "1 \<le> selector_to_elems ! sel" and "bit_per_integer ! sel * selector_to_elems ! sel \<le> 60"
    and "bit_per_integer ! sel \<le> 60"
  using assms unfolding less_16_cases
  by (auto simp: upt_rec selector_to_elems_def bit_per_integer_def)

lemma arr_get_Inr: "arr_get xs i = Inr x \<Longrightarrow> 0 \<le> i \<and> i < int (length xs) \<and> x = xs ! nat i"
  by (auto simp: arr_get_def split: if_splits)

lemma grow_selector_Inr:
  assumes "grow_selector sel el = Inr sel'"
  shows "sel \<le> sel' \<and> sel' < 16 \<and> selector_to_elems ! sel' \<le> el"
  using assms
proof (induction sel el rule: grow_selector.induct)
  case (1 sel el)
  from "1.prems" obtain c where c: "arr_get selector_to_elems (int sel) = Inr c"
    and r: "(if el < c then grow_selector (sel + 1) el else Inr sel) = Inr sel'"
    by (auto simp: grow_selector.simps [of sel el] res_simps)
  from arr_get_Inr [OF c] have sel: "sel < 16" "c = selector_to_elems ! sel"
    by (auto simp: selector_to_elems_def)
  show ?case
  proof (cases "el < c")
    case True
    from "1.IH" [OF c True] r True show ?thesis by simp
  next
    case False
    with sel r show ?thesis by simp
  qed
qed

lemma scan_block_cases:
  assumes "scan_block wl inp n prev j prev_tmp sel el = Inr (Some (sel', el'))" and "j < n"
  obtains curr bs c1 c2 where "load_int wl inp j = Inr curr" and "\<not> \<not> safeInt64Add curr (- prev)"
    and "\<not> SIMPLE8B_MAX_INT64 \<le> zigzag (curr - prev_tmp)"
    and "arr_get bit_to_selector (int (if zigzag (curr - prev_tmp) = 0 then 0
           else 64 - clz (zigzag (curr - prev_tmp)))) = Inr bs"
    and "arr_get selector_to_elems (int sel) = Inr c1" and "arr_get selector_to_elems (int bs) = Inr c2"
    and "if el + 1 \<le> c1 \<and> el + 1 \<le> c2
      then scan_block wl inp n prev (j + 1) curr (if bs < sel then sel else bs) (el + 1) =
           Inr (Some (sel', el'))
      else grow_selector sel el = Inr sel' \<and> arr_get selector_to_elems (int sel') = Inr el'"
  using assms by (subst (asm) scan_block.simps) (auto simp: res_simps Let_def split: if_splits)

lemma scan_block_nonempty:
  assumes "scan_block wl inp n prev j prev_tmp sel el = Inr (Some (sel', el'))" and "1 \<le> el \<or> j < n"
  shows "1 \<le> el'"
  using assms
proof (induction wl inp n prev j prev_tmp sel el rule: scan_block.induct)
  case (1 wl inp n prev j prev_tmp sel el)
  show ?case
  proof (cases "j < n")
    case False
    with "1.prems" show ?thesis by (simp add: scan_block.simps [of wl inp n prev j])
  next
    case True
    from "1.prems"(1) True show ?thesis
    proof (cases rule: scan_block_cases)
      case c: (1 curr bs c1 c2)
      show ?thesis
      proof (cases "el + 1 \<le> c1 \<and> el + 1 \<le> c2")
        case more: True
        with "1.IH" [OF True c(1,2) refl c(3) refl c(4-6) more] c(7) show ?thesis by simp
      next
        case False
        with c(7) grow_selector_Inr [of sel el sel'] selector_facts(1) [of sel'] show ?thesis by auto
      qed
    qed
  qed
qed

lemma pack_block_pos:
  "pack_block wl inp b el k i prev buf = Inr (buf', i', prev') \<Longrightarrow> i' = i + (el - k)"
proof (induction wl inp b el k i prev buf rule: pack_block.induct)
  case (1 wl inp b el k i prev buf)
  show ?case
  proof (cases "k < el")
    case True
    with "1.prems" obtain curr where l: "load_int wl inp i = Inr curr"
      and r: "pack_block wl inp b el (k + 1) (i + 1) curr
        (buf OR push_bit (b * k + 4) (zigzag (curr - prev) AND mask b)) = Inr (buf', i', prev')"
      by (subst (asm) pack_block.simps) (auto simp: res_simps)
    from "1.IH" [OF True l r] True show ?thesis by simp
  next
    case False
    with "1.prems" show ?thesis by (simp add: pack_block.simps [of wl inp b el k])
  qed
qed

text \<open>
  The outer loop: \<open>None\<close> when the input has to be copied verbatim, otherwise the blocks. The
  bytes written so far are \<open>out\<close>, so that \<open>opos\<close> is \<open>1 + length out\<close>.
\<close>

function comp_loop ::
    "nat \<Rightarrow> byte list \<Rightarrow> nat \<Rightarrow> nat \<Rightarrow> 64 word \<Rightarrow> byte list \<Rightarrow> byte list option res"
where
  "comp_loop wl inp n i prev out =
     (if i < n then
        rbind (scan_block wl inp n prev i prev 0 0) (\<lambda>r.
          case r of
            None \<Rightarrow> Inr None
          | Some (sel, el) \<Rightarrow>
              rbind (arr_get bit_per_integer (int sel)) (\<lambda>b.
              rbind (pack_block wl inp b el 0 i prev (of_nat sel)) (\<lambda>(buf, i', prev').
                if 1 + length out + 8 \<le> n * wl + 1
                then comp_loop wl inp n i' prev' (out @ le_bytes 8 buf)
                else Inr None)))
      else Inr (Some out))"
  by pat_completeness auto
termination
proof (relation "measure (\<lambda>(wl, inp, n, i, prev, out). n - i)", goal_cases)
  case (2 wl inp n i prev out r p sel el b q buf q' i' prev')
  then have "1 \<le> el" using scan_block_nonempty by fastforce
  moreover have "i' = i + el" using 2 pack_block_pos by fastforce
  ultimately show ?case using 2 by auto
qed simp

definition tsCompressINTImp :: "byte list \<Rightarrow> nat \<Rightarrow> int \<Rightarrow> byte list res" where
  "tsCompressINTImp inp nelements type =
     rbind (word_length type) (\<lambda>wl.
     rbind (comp_loop wl inp nelements 0 0 []) (\<lambda>r.
       case r of
         Some out \<Rightarrow> Inr (0 # out)
       | None \<Rightarrow> rbind (copy_bytes inp 0 (nelements * wl)) (\<lambda>raw. Inr (1 # raw))))"

text \<open>
  The loop over the fields of one block. Its result is the element count, the last value and the
  bytes stored so far.
\<close>

function decode_block ::
    "nat \<Rightarrow> nat \<Rightarrow> 64 word \<Rightarrow> nat \<Rightarrow> nat \<Rightarrow> nat \<Rightarrow> nat \<Rightarrow> nat \<Rightarrow> 64 word \<Rightarrow> byte list \<Rightarrow>
      nat \<times> 64 word \<times> byte list"
where
  "decode_block wl n w sel b el i count prev out =
     (if i < el then
        let z = (if sel = 0 \<or> sel = 1 then 0 else drop_bit (4 + b * i) w AND mask b);
            curr = unzigzag z + prev;
            out' = out @ le_bytes wl curr
        in if count + 1 = n then (count + 1, curr, out')
           else decode_block wl n w sel b el (i + 1) (count + 1) curr out'
      else (count, prev, out))"
  by pat_completeness auto
termination
  by (relation "measure (\<lambda>(wl, n, w, sel, b, el, i, count, prev, out). el - i)") auto

function decode_loop ::
    "nat \<Rightarrow> nat \<Rightarrow> byte list \<Rightarrow> nat \<Rightarrow> nat \<Rightarrow> 64 word \<Rightarrow> byte list \<Rightarrow> byte list res"
where
  "decode_loop wl n inp ip count prev out =
     (if count = n then Inr out
      else
        rbind (copy_bytes inp ip 8) (\<lambda>bs.
          let w = of_le_bytes bs; sel = unat (w AND mask 4) in
          rbind (arr_get bit_per_integer (int sel)) (\<lambda>b.
          rbind (arr_get selector_to_elems (int sel)) (\<lambda>el.
            case decode_block wl n w sel b el 0 count prev out of
              (count', prev', out') \<Rightarrow> decode_loop wl n inp (ip + 8) count' prev' out'))))"
  by pat_completeness auto
termination
  by (relation "measure (\<lambda>(wl, n, inp, ip, count, prev, out). length inp - ip)")
    (auto simp: copy_bytes_def split: if_splits)

definition tsDecompressINTImp :: "byte list \<Rightarrow> nat \<Rightarrow> int \<Rightarrow> byte list res" where
  "tsDecompressINTImp inp nelements type =
     rbind (word_length type) (\<lambda>wl.
     rbind (arr_get inp 0) (\<lambda>ind.
       if ind = 1 then copy_bytes inp 1 (nelements * wl)
       else decode_loop wl nelements inp 1 0 0 []))"

declare comp_loop.simps [simp del] decode_block.simps [simp del] decode_loop.simps [simp del]

section \<open>Values and differences of an input\<close>

definition prev_at :: "nat \<Rightarrow> byte list \<Rightarrow> nat \<Rightarrow> 64 word" where
  "prev_at wl inp i = (if i = 0 then 0 else int_at wl inp (i - 1))"

definition zz_at :: "nat \<Rightarrow> byte list \<Rightarrow> nat \<Rightarrow> 64 word" where
  "zz_at wl inp i = zigzag (int_at wl inp i - prev_at wl inp i)"

lemma prev_at_Suc [simp]: "prev_at wl inp (Suc i) = int_at wl inp i"
  by (simp add: prev_at_def)

lemma load_int_in: "length inp = n * wl \<Longrightarrow> j < n \<Longrightarrow> load_int wl inp j = Inr (int_at wl inp j)"
  using mult_le_mono1 [of "j + 1" n wl] by (simp add: load_int_def)

definition fits :: "nat \<Rightarrow> 64 word \<Rightarrow> bool" where
  "fits b z \<longleftrightarrow> take_bit b z = z"

lemma fits_mono: "fits b z \<Longrightarrow> b \<le> b' \<Longrightarrow> fits b' z"
  unfolding fits_def by (metis min.absorb2 take_bit_take_bit)

lemma fits_tmp_bit: "fits (if z = 0 then 0 else 64 - clz z) z"
  using take_bit_clz [of z] by (simp add: fits_def)

lemma bit_per_integer_mono: "s \<le> s' \<Longrightarrow> s' < 16 \<Longrightarrow> bit_per_integer ! s \<le> bit_per_integer ! s'"
  by (rule sorted_nth_mono) (simp_all add: bit_per_integer_def)

lemma bit_to_selector_facts:
  assumes "t < 61"
  shows "bit_to_selector ! t < 16" and "t \<le> bit_per_integer ! (bit_to_selector ! t)"
proof -
  have "list_all (\<lambda>t. bit_to_selector ! t < 16 \<and> t \<le> bit_per_integer ! (bit_to_selector ! t)) [0..<61]"
    by code_simp
  with assms show "bit_to_selector ! t < 16" "t \<le> bit_per_integer ! (bit_to_selector ! t)"
    by (auto simp: list_all_iff)
qed

section \<open>What the scan of a block guarantees\<close>

definition block_ok :: "nat \<Rightarrow> byte list \<Rightarrow> nat \<Rightarrow> nat \<Rightarrow> nat \<Rightarrow> nat \<Rightarrow> bool" where
  "block_ok wl inp n i sel el \<longleftrightarrow> sel < 16 \<and> el \<le> selector_to_elems ! sel \<and> i + el \<le> n \<and>
     (\<forall>k < el. fits (bit_per_integer ! sel) (zz_at wl inp (i + k)))"

lemma block_ok_grow:
  assumes "block_ok wl inp n i sel el" and "sel \<le> sel'" and "sel' < 16" and "selector_to_elems ! sel' \<le> el"
  shows "block_ok wl inp n i sel' (selector_to_elems ! sel')"
proof -
  have "fits (bit_per_integer ! sel') (zz_at wl inp (i + k))" if "k < el" for k
    using assms that bit_per_integer_mono [of sel sel'] by (auto simp: block_ok_def elim: fits_mono)
  with assms show ?thesis by (simp add: block_ok_def)
qed

lemma block_ok_extend:
  assumes "block_ok wl inp n i sel el" and "i + el < n" and "bs < 16"
    and "el + 1 \<le> selector_to_elems ! sel" and "el + 1 \<le> selector_to_elems ! bs"
    and "fits (bit_per_integer ! bs) (zz_at wl inp (i + el))"
  shows "block_ok wl inp n i (if bs < sel then sel else bs) (el + 1)"
  using assms bit_per_integer_mono [of sel bs] bit_per_integer_mono [of bs sel]
  by (auto simp: block_ok_def less_Suc_eq intro: fits_mono)

lemma scan_block_ok:
  assumes "scan_block wl inp n prev j prev_tmp sel el = Inr (Some (sel', el'))"
    and "length inp = n * wl" and "j = i + el" and "prev_tmp = prev_at wl inp j"
    and "block_ok wl inp n i sel el"
  shows "block_ok wl inp n i sel' el' \<and> (el' = selector_to_elems ! sel' \<or> i + el' = n)"
  using assms
proof (induction wl inp n prev j prev_tmp sel el rule: scan_block.induct)
  case (1 wl inp n prev j prev_tmp sel el)
  have sel: "sel < 16" using "1.prems"(5) by (simp add: block_ok_def)
  show ?case
  proof (cases "j < n")
    case False
    with "1.prems"(1) have "sel' = sel" "el' = el" by (simp_all add: scan_block.simps [of wl inp n prev j])
    with False "1.prems"(3,5) show ?thesis by (auto simp: block_ok_def)
  next
    case True
    from "1.prems"(1) True show ?thesis
    proof (cases rule: scan_block_cases)
      case c: (1 curr bs c1 c2)
      let ?z = "zigzag (curr - prev_tmp)"
      let ?t = "if ?z = 0 then 0 else 64 - clz ?z"
      have curr: "curr = int_at wl inp j" using c(1) load_int_in [OF "1.prems"(2) True] by simp
      then have z: "?z = zz_at wl inp j" using "1.prems"(4) by (simp add: zz_at_def)
      from arr_get_Inr [OF c(4)] have t: "?t < 61" "bs = bit_to_selector ! ?t"
        by (auto simp: bit_to_selector_def)
      have bs16: "bs < 16" using bit_to_selector_facts(1) [OF t(1)] t(2) by simp
      have cs: "c1 = selector_to_elems ! sel" "c2 = selector_to_elems ! bs"
        using c(5,6) sel bs16 by simp_all
      have fit: "fits (bit_per_integer ! bs) (zz_at wl inp (i + el))"
        using fits_tmp_bit [of ?z] bit_to_selector_facts(2) [OF t(1)] t(2) "1.prems"(3) z
        by (auto intro: fits_mono)
      show ?thesis
      proof (cases "el + 1 \<le> c1 \<and> el + 1 \<le> c2")
        case more: True
        have "block_ok wl inp n i (if bs < sel then sel else bs) (el + 1)"
          using "1.prems"(3,5) True bs16 more fit cs by (intro block_ok_extend) auto
        with "1.IH" [OF True c(1,2) refl c(3) refl c(4-6) more] c(7) more "1.prems"(2,3) curr
        show ?thesis by simp
      next
        case False
        with c(7) have g: "grow_selector sel el = Inr sel'"
          and e: "arr_get selector_to_elems (int sel') = Inr el'" by auto
        from grow_selector_Inr [OF g] e have "el' = selector_to_elems ! sel'" by simp
        with grow_selector_Inr [OF g] "1.prems"(5) show ?thesis by (auto intro: block_ok_grow)
      qed
    qed
  qed
qed

section \<open>Packed fields\<close>

lemma ex_ge_Suc: "P k \<or> (\<exists>k' \<ge> k + 1. P k') \<longleftrightarrow> (\<exists>k'. k \<le> k' \<and> P k')" for k :: nat
  by (metis Suc_eq_plus1 Suc_leD le_antisym not_less_eq_eq order_refl)

lemma pack_block_ok:
  assumes "length inp = n * wl" and "prev = prev_at wl inp i" and "k \<le> el" and "i + (el - k) \<le> n"
  shows "\<exists>buf'. pack_block wl inp b el k i prev buf =
      Inr (buf', i + (el - k), prev_at wl inp (i + (el - k))) \<and>
    (\<forall>m. bit buf' m \<longleftrightarrow> bit buf m \<or> m < 64 \<and> (\<exists>k'. k \<le> k' \<and> k' < el \<and> b * k' + 4 \<le> m \<and>
      m < b * k' + 4 + b \<and> bit (zz_at wl inp (i + (k' - k))) (m - (b * k' + 4))))"
  using assms
proof (induction wl inp b el k i prev buf rule: pack_block.induct)
  case (1 wl inp b el k i prev buf)
  show ?case
  proof (cases "k < el")
    case False
    with "1.prems" have "k = el" by simp
    with "1.prems"(2) show ?thesis by (auto simp: pack_block.simps [of wl inp b el el])
  next
    case True
    let ?z = "zz_at wl inp i"
    let ?buf = "buf OR push_bit (b * k + 4) (?z AND mask b)"
    have l: "load_int wl inp i = Inr (int_at wl inp i)"
      using "1.prems" True by (intro load_int_in [of _ n]) auto
    have z: "zigzag (int_at wl inp i - prev) = ?z" using "1.prems"(2) by (simp add: zz_at_def)
    have idx: "i + 1 + (el - (k + 1)) = i + (el - k)" using True by simp
    have prems: "length inp = n * wl" "int_at wl inp i = prev_at wl inp (i + 1)" "k + 1 \<le> el"
      "i + 1 + (el - (k + 1)) \<le> n"
      using "1.prems" True by simp_all
    from "1.IH" [OF True l prems] obtain buf' where
      p: "pack_block wl inp b el (k + 1) (i + 1) (int_at wl inp i) ?buf =
          Inr (buf', i + (el - k), prev_at wl inp (i + (el - k)))"
      and b': "\<And>m. bit buf' m \<longleftrightarrow> bit ?buf m \<or> m < 64 \<and> (\<exists>k'. k + 1 \<le> k' \<and> k' < el \<and>
        b * k' + 4 \<le> m \<and> m < b * k' + 4 + b \<and>
        bit (zz_at wl inp (i + 1 + (k' - (k + 1)))) (m - (b * k' + 4)))"
      unfolding z idx by auto
    have "bit buf' m \<longleftrightarrow> bit buf m \<or> m < 64 \<and> (\<exists>k'. k \<le> k' \<and> k' < el \<and> b * k' + 4 \<le> m \<and>
      m < b * k' + 4 + b \<and> bit (zz_at wl inp (i + (k' - k))) (m - (b * k' + 4)))" (is "_ \<longleftrightarrow> ?R") for m
    proof -
      let ?P = "\<lambda>k'. k' < el \<and> b * k' + 4 \<le> m \<and> m < b * k' + 4 + b \<and>
        bit (zz_at wl inp (i + (k' - k))) (m - (b * k' + 4))"
      have first: "bit ?buf m \<longleftrightarrow> bit buf m \<or> m < 64 \<and> ?P k"
        using True by (auto simp: bit_or_iff bit_push_bit_iff bit_and_iff bit_mask_iff)
      have rest: "i + 1 + (k' - (k + 1)) = i + (k' - k)" if "k + 1 \<le> k'" for k'
        using that by simp
      have "bit buf' m \<longleftrightarrow> bit buf m \<or> m < 64 \<and> (?P k \<or> (\<exists>k' \<ge> k + 1. ?P k'))"
        unfolding b' first using rest by (auto cong: conj_cong)
      also have "\<dots> \<longleftrightarrow> ?R" unfolding ex_ge_Suc [of ?P k] by simp
      finally show ?thesis .
    qed
    with p l True show ?thesis
      by (subst pack_block.simps) (simp add: z)
  qed
qed

lemma mult_slot_unique:
  fixes b k k' m :: nat
  assumes "b * k' \<le> b * k + m" and "b * k + m < b * k' + b" and "m < b"
  shows "k' = k"
proof -
  have "(b * k + m) div b = k" using assms(3) by simp
  moreover have "(b * k + m) div b = k'"
    using assms by (intro div_nat_eqI) (auto simp: algebra_simps)
  ultimately show ?thesis by simp
qed

lemma pack_block_field:
  assumes "length inp = n * wl" and "prev = prev_at wl inp i"
    and ok: "block_ok wl inp n i sel el" and b: "b = bit_per_integer ! sel"
  shows "\<exists>w. pack_block wl inp b el 0 i prev (of_nat sel) = Inr (w, i + el, prev_at wl inp (i + el)) \<and>
    unat (w AND mask 4) = sel \<and>
    (\<forall>k < el. (if sel = 0 \<or> sel = 1 then 0 else drop_bit (4 + b * k) w AND mask b) = zz_at wl inp (i + k))"
proof -
  from ok have sel: "sel < 16" and el: "el \<le> selector_to_elems ! sel" "i + el \<le> n"
    and fit: "\<And>k. k < el \<Longrightarrow> fits b (zz_at wl inp (i + k))"
    by (auto simp: block_ok_def b)
  have sel_bits: "\<not> bit (of_nat sel :: 64 word) m" if "4 \<le> m" for m
  proof -
    have "sel < 2 ^ m" using sel power_increasing [of 4 m "2::nat"] that by simp
    then have "\<not> bit sel m" by (simp add: bit_iff_odd)
    then show ?thesis by (simp add: bit_of_nat_iff)
  qed
  from pack_block_ok [of inp n wl prev i 0 el b "of_nat sel"] assms(1,2) el obtain w where
    w: "pack_block wl inp b el 0 i prev (of_nat sel) = Inr (w, i + el, prev_at wl inp (i + el))"
    and bits: "\<And>m. bit w m \<longleftrightarrow> bit (of_nat sel :: 64 word) m \<or> m < 64 \<and> (\<exists>k' < el. b * k' + 4 \<le> m \<and>
      m < b * k' + 4 + b \<and> bit (zz_at wl inp (i + k')) (m - (b * k' + 4)))"
    by auto
  have "w AND mask 4 = of_nat sel"
    using sel_bits by (intro bit_word_eqI) (auto simp: bit_and_iff bit_mask_iff bits, meson not_le)
  then have low: "unat (w AND mask 4) = sel" using sel by (simp add: unat_of_nat)
  have field: "drop_bit (4 + b * k) w AND mask b = zz_at wl inp (i + k)" if k: "k < el" for k
  proof (rule bit_word_eqI)
    fix m
    assume "m < LENGTH(64)"
    have top: "b * (k + 1) \<le> 60"
      using selector_facts(2) [OF sel] el(1) k mult_le_mono2 [of "k + 1" "selector_to_elems ! sel" b]
      by (simp add: b)
    have z: "bit (zz_at wl inp (i + k)) m \<longleftrightarrow> m < b \<and> bit (zz_at wl inp (i + k)) m"
      using fit [OF k] by (metis fits_def bit_take_bit_iff)
    have "bit w (4 + b * k + m) \<longleftrightarrow> bit (zz_at wl inp (i + k)) m" if m: "m < b"
    proof -
      have "4 + b * k + m < 64" using top m by simp
      then have "bit w (4 + b * k + m) \<longleftrightarrow> (\<exists>k' < el. b * k' \<le> b * k + m \<and> b * k + m < b * k' + b \<and>
          bit (zz_at wl inp (i + k')) (b * k + m - b * k'))"
        using sel_bits [of "4 + b * k + m"] by (auto simp: bits add.assoc)
      also have "\<dots> \<longleftrightarrow> bit (zz_at wl inp (i + k)) m"
        using m k by (auto dest!: mult_slot_unique)
      finally show ?thesis .
    qed
    then show "bit (drop_bit (4 + b * k) w AND mask b) m = bit (zz_at wl inp (i + k)) m"
      using z by (auto simp: bit_and_iff bit_mask_iff bit_drop_bit_eq dest: bit_imp_le_length)
  qed
  moreover have "zz_at wl inp (i + k) = 0" if "k < el" "sel = 0 \<or> sel = 1" for k
    using fit [OF that(1)] that(2) by (auto simp: b bit_per_integer_def fits_def)
  ultimately show ?thesis using w low by auto
qed

section \<open>Decoding a block, decoding the stream\<close>

lemma le_bytes_int_at:
  assumes "length inp = n * wl" and "j < n" and "1 \<le> wl" and "wl \<le> 8"
  shows "le_bytes wl (int_at wl inp j) = take wl (drop (j * wl) inp)"
proof -
  let ?bs = "take wl (drop (j * wl) inp)"
  have len: "length ?bs = wl"
    using assms(1,2) mult_le_mono1 [of "j + 1" n wl] by simp
  have "take_bit (8 * wl) (int_at wl inp j) = take_bit (8 * wl) (of_le_bytes ?bs)"
    unfolding int_at_def using assms(3) by (simp add: take_bit_signed_take_bit)
  then have "le_bytes wl (int_at wl inp j) = le_bytes wl (of_le_bytes ?bs :: 64 word)"
    by (metis le_bytes_take_bit)
  also have "\<dots> = ?bs" using assms(4) len by (intro le_bytes_of_le_bytes) auto
  finally show ?thesis .
qed

lemma take_Suc_chunk: "take (Suc j * wl) xs = take (j * wl) xs @ take wl (drop (j * wl) xs)"
  by (metis add.commute mult_Suc take_add)

lemma decode_block_ok:
  assumes inp: "length inp = n * wl" "1 \<le> wl" "wl \<le> 8" and b: "b = bit_per_integer ! sel"
    and f: "\<forall>k < el. (if sel = 0 \<or> sel = 1 then 0 else drop_bit (4 + b * k) w AND mask b) =
      zz_at wl inp (i0 + k)"
    and fin: "cap = el \<or> i0 + el = n \<and> el \<le> cap" and "i0 + el \<le> n" and "i < el"
  shows "decode_block wl n w sel b cap i (i0 + i) (prev_at wl inp (i0 + i)) (take ((i0 + i) * wl) inp) =
    (i0 + el, prev_at wl inp (i0 + el), take ((i0 + el) * wl) inp)"
  using assms(8)
proof (induction "el - i" arbitrary: i)
  case 0
  then show ?case by simp
next
  case (Suc d)
  let ?j = "i0 + i"
  have j: "?j < n" using Suc.prems assms(7) by simp
  have "(if sel = 0 \<or> sel = 1 then 0 else drop_bit (4 + b * i) w AND mask b) = zz_at wl inp ?j"
    using f Suc.prems by simp
  then have curr: "unzigzag (if sel = 0 \<or> sel = 1 then 0 else drop_bit (4 + b * i) w AND mask b) +
      prev_at wl inp ?j = int_at wl inp ?j"
    by (simp only: zz_at_def unzigzag_zigzag) simp
  have out: "take (?j * wl) inp @ le_bytes wl (int_at wl inp ?j) = take (Suc ?j * wl) inp"
    using le_bytes_int_at [OF inp(1) j inp(2,3)] take_Suc_chunk by metis
  have cap: "i < cap" using Suc.prems fin by auto
  have step: "decode_block wl n w sel b cap i ?j (prev_at wl inp ?j) (take (?j * wl) inp) =
      (if ?j + 1 = n then (?j + 1, int_at wl inp ?j, take (Suc ?j * wl) inp)
       else decode_block wl n w sel b cap (i + 1) (?j + 1) (int_at wl inp ?j) (take (Suc ?j * wl) inp))"
    by (subst decode_block.simps) (simp only: cap if_True Let_def curr out)
  show ?case
  proof (cases "Suc i < el")
    case True
    from Suc.hyps(2) True have "d = el - Suc i" by simp
    from Suc.hyps(1) [OF this True] step True assms(7) show ?thesis by simp
  next
    case False
    then have el: "el = Suc i" using Suc.prems by simp
    with fin step show ?thesis
      by (auto simp: decode_block.simps [of wl n w sel b "Suc i" "Suc i"])
  qed
qed

text \<open>The blocks produced from element \<open>i\<close> on are decoded to the elements from \<open>i\<close> on.\<close>

lemma decode_loop_comp_loop:
  assumes "comp_loop wl inp n i prev out = Inr (Some blocks)"
    and "length inp = n * wl" and "1 \<le> wl" and "wl \<le> 8"
    and "prev = prev_at wl inp i" and "i \<le> n"
  shows "\<exists>rest. blocks = out @ rest \<and>
    decode_loop wl n ([c] @ blocks @ pad) (1 + length out) i (prev_at wl inp i) (take (i * wl) inp) = Inr inp"
  using assms
proof (induction wl inp n i prev out rule: comp_loop.induct)
  case (1 wl inp n i prev out)
  show ?case
  proof (cases "i < n")
    case False
    with "1.prems" show ?thesis
      by (auto simp: comp_loop.simps [of wl inp n i] decode_loop.simps [of wl n _ _ n])
  next
    case True
    from "1.prems"(1) True obtain sel el b buf i' prev' where
      sc: "scan_block wl inp n prev i prev 0 0 = Inr (Some (sel, el))"
      and b: "arr_get bit_per_integer (int sel) = Inr b"
      and pk: "pack_block wl inp b el 0 i prev (of_nat sel) = Inr (buf, i', prev')"
      and lim: "1 + length out + 8 \<le> n * wl + 1"
      and rec: "comp_loop wl inp n i' prev' (out @ le_bytes 8 buf) = Inr (Some blocks)"
      by (subst (asm) comp_loop.simps) (auto simp: res_simps split: if_splits option.splits)
    have el1: "1 \<le> el" using scan_block_nonempty [OF sc] True by simp
    have "block_ok wl inp n i 0 0" using True by (simp add: block_ok_def)
    with scan_block_ok [OF sc "1.prems"(2), of i] "1.prems"(5)
    have ok: "block_ok wl inp n i sel el" and fin: "el = selector_to_elems ! sel \<or> i + el = n" by auto
    have sel: "sel < 16" and el: "i + el \<le> n" "el \<le> selector_to_elems ! sel"
      using ok by (auto simp: block_ok_def)
    have b': "b = bit_per_integer ! sel" using b sel by simp
    from pack_block_field [OF "1.prems"(2,5) ok b'] pk have
      i': "i' = i + el" "prev' = prev_at wl inp (i + el)" and low: "unat (buf AND mask 4) = sel"
      and fld: "\<forall>k < el. (if sel = 0 \<or> sel = 1 then 0 else drop_bit (4 + b * k) buf AND mask b) =
        zz_at wl inp (i + k)"
      by auto
    from "1.IH" [OF True sc refl refl b pk refl refl lim rec "1.prems"(2-4)] i' el obtain rest where
      rest: "blocks = (out @ le_bytes 8 buf) @ rest"
        "decode_loop wl n ([c] @ blocks @ pad) (1 + length (out @ le_bytes 8 buf)) (i + el)
          (prev_at wl inp (i + el)) (take ((i + el) * wl) inp) = Inr inp"
      by auto
    have cp: "copy_bytes ([c] @ blocks @ pad) (1 + length out) 8 = Inr (le_bytes 8 buf)"
      using copy_bytes_append [of "c # out" "le_bytes 8 buf" "rest @ pad"] rest(1) by simp
    have w: "(of_le_bytes (le_bytes 8 buf) :: 64 word) = buf" by simp
    have db: "decode_block wl n buf sel b (selector_to_elems ! sel) 0 i (prev_at wl inp i)
        (take (i * wl) inp) = (i + el, prev_at wl inp (i + el), take ((i + el) * wl) inp)"
      using decode_block_ok [OF "1.prems"(2-4) b' fld, of "selector_to_elems ! sel" 0] fin el el1 by auto
    have "decode_loop wl n ([c] @ blocks @ pad) (1 + length out) i (prev_at wl inp i) (take (i * wl) inp) =
        Inr inp"
    proof (subst decode_loop.simps)
      have ne: "i \<noteq> n" using True by simp
      have ip: "1 + length out + 8 = 1 + length (out @ le_bytes 8 buf)" by simp
      show "(if i = n then Inr (take (i * wl) inp)
        else rbind (copy_bytes ([c] @ blocks @ pad) (1 + length out) 8) (\<lambda>bs.
          let w = of_le_bytes bs; sel = unat (w AND mask 4) in
          rbind (arr_get bit_per_integer (int sel)) (\<lambda>b.
          rbind (arr_get selector_to_elems (int sel)) (\<lambda>el.
            case decode_block wl n w sel b el 0 i (prev_at wl inp i) (take (i * wl) inp) of
              (count', prev', out') \<Rightarrow>
                decode_loop wl n ([c] @ blocks @ pad) (1 + length out + 8) count' prev' out')))) = Inr inp"
        by (simp only: ne if_False cp rbind_simps Let_def w low arr_get_selector [OF sel] b' [symmetric]
            db prod.case ip rest(2))
    qed
    with rest(1) show ?thesis by auto
  qed
qed

lemma comp_loop_length:
  "comp_loop wl inp n i prev out = Inr (Some blocks) \<Longrightarrow> length out \<le> n * wl \<Longrightarrow> length blocks \<le> n * wl"
proof (induction wl inp n i prev out rule: comp_loop.induct)
  case (1 wl inp n i prev out)
  show ?case
  proof (cases "i < n")
    case False
    with "1.prems" show ?thesis by (simp add: comp_loop.simps [of wl inp n i])
  next
    case True
    from "1.prems"(1) True obtain sel el b buf i' prev' where
      sc: "scan_block wl inp n prev i prev 0 0 = Inr (Some (sel, el))"
      and b: "arr_get bit_per_integer (int sel) = Inr b"
      and pk: "pack_block wl inp b el 0 i prev (of_nat sel) = Inr (buf, i', prev')"
      and lim: "1 + length out + 8 \<le> n * wl + 1"
      and rec: "comp_loop wl inp n i' prev' (out @ le_bytes 8 buf) = Inr (Some blocks)"
      by (subst (asm) comp_loop.simps) (auto simp: res_simps split: if_splits option.splits)
    from "1.IH" [OF True sc refl refl b pk refl refl lim rec] lim show ?thesis by simp
  qed
qed

lemma word_length_cases:
  "word_length type = Inr wl \<Longrightarrow> wl \<in> {1, 2, 4, 8}"
  by (auto simp: word_length_def split: if_splits)

section \<open>Properties\<close>

lemma int_roundtrip_aux:
  assumes wl: "word_length type = Inr wl" and len: "length inp = n * wl"
    and comp: "tsCompressINTImp inp n type = Inr out"
  shows "tsDecompressINTImp (out @ pad) n type = Inr inp \<and> length out \<le> length inp + 1"
proof -
  have wl_range: "1 \<le> wl" "wl \<le> 8" using word_length_cases [OF wl] by auto
  from comp wl obtain r where r: "comp_loop wl inp n 0 0 [] = Inr r"
    and out: "case r of Some bl \<Rightarrow> out = 0 # bl | None \<Rightarrow> out = 1 # inp"
    using len by (auto simp: tsCompressINTImp_def copy_bytes_def res_simps split: option.splits)
  show ?thesis
  proof (cases r)
    case None
    with out wl len show ?thesis by (simp add: tsDecompressINTImp_def copy_bytes_def)
  next
    case (Some bl)
    from decode_loop_comp_loop [OF r [unfolded Some] len wl_range, of 0 pad]
    have "decode_loop wl n (0 # bl @ pad) 1 0 0 [] = Inr inp" by (simp add: prev_at_def)
    with Some out wl comp_loop_length [OF r [unfolded Some]] len show ?thesis
      by (simp add: tsDecompressINTImp_def)
  qed
qed

text \<open>
  C2.
  Integer compression is lossless: whenever \<open>tsCompressINTImp\<close> produces an output for an
  input of \<open>n\<close> integers of the given type, \<open>tsDecompressINTImp\<close> applied to that output,
  followed by any bytes, yields the input, and the output is at most one byte longer than the input.
\<close>

theorem int_roundtrip:
  assumes wl: "word_length type = Inr wl" and len: "length inp = n * wl"
    and comp: "tsCompressINTImp inp n type = Inr out"
  shows "tsDecompressINTImp (out @ pad) n type = Inr inp \<and> length out \<le> length inp + 1"
  using assms by (rule int_roundtrip_aux)

section \<open>When compression is defined\<close>

lemma grow_selector_total: "sel < 16 \<Longrightarrow> 1 \<le> el \<Longrightarrow> \<exists>sel'. grow_selector sel el = Inr sel'"
proof (induction sel el rule: grow_selector.induct)
  case (1 sel el)
  show ?case
  proof (cases "el < selector_to_elems ! sel")
    case True
    with "1.prems" have "sel \<noteq> 15" by (auto simp: selector_to_elems_def)
    with "1.IH" [OF arr_get_selector(1) [OF "1.prems"(1)] True] "1.prems" True show ?thesis
      by (subst grow_selector.simps) simp
  next
    case False
    with "1.prems" show ?thesis by (subst grow_selector.simps) simp
  qed
qed

lemma fits_bit_count:
  assumes "fits 60 z"
  shows "(if z = 0 then 0 else 64 - clz z) < 61"
proof -
  have "unat z = unat (take_bit 60 z)" using assms by (simp add: fits_def)
  then have "unat z < 2 ^ 60" by (metis unsigned_take_bit_eq take_bit_nat_less_exp)
  then show ?thesis using clz_bound [of z 60] by auto
qed

lemma scan_block_step:
  assumes "j < n" and "load_int wl inp j = Inr cv" and "safeInt64Add cv (- prev)"
    and "\<not> SIMPLE8B_MAX_INT64 \<le> zigzag (cv - prev_tmp)"
    and "arr_get bit_to_selector (int (if zigzag (cv - prev_tmp) = 0 then 0
           else 64 - clz (zigzag (cv - prev_tmp)))) = Inr bs"
    and "sel < 16" and "bs < 16"
  shows "scan_block wl inp n prev j prev_tmp sel el =
    (if el + 1 \<le> selector_to_elems ! sel \<and> el + 1 \<le> selector_to_elems ! bs
     then scan_block wl inp n prev (j + 1) cv (if bs < sel then sel else bs) (el + 1)
     else rbind (grow_selector sel el) (\<lambda>sel'.
       rbind (arr_get selector_to_elems (int sel')) (\<lambda>c. Inr (Some (sel', c)))))"
  by (subst scan_block.simps)
    (simp only: assms if_True if_False rbind_simps Let_def not_True_eq_False not_False_eq_True
      arr_get_selector)

lemma scan_block_total:
  assumes "length inp = n * wl" and "\<forall>i < n. fits 60 (zz_at wl inp i)"
    and "prev_tmp = prev_at wl inp j" and "sel < 16" and "1 \<le> el \<or> sel = 0 \<and> el = 0"
  shows "\<exists>r. scan_block wl inp n prev j prev_tmp sel el = Inr r"
  using assms
proof (induction wl inp n prev j prev_tmp sel el rule: scan_block.induct)
  case (1 wl inp n prev j prev_tmp sel el)
  show ?case
  proof (cases "j < n")
    case False
    then show ?thesis by (simp add: scan_block.simps [of wl inp n prev j])
  next
    case True
    let ?curr = "int_at wl inp j"
    let ?z = "zigzag (?curr - prev_tmp)"
    let ?t = "if ?z = 0 then 0 else 64 - clz ?z"
    have l: "load_int wl inp j = Inr ?curr" using "1.prems"(1) True by (rule load_int_in)
    have "fits 60 ?z" using "1.prems"(2,3) True by (simp add: zz_at_def)
    then have t: "?t < 61" by (rule fits_bit_count)
    then obtain bs where bs: "arr_get bit_to_selector (int ?t) = Inr bs" and bs16: "bs < 16"
      using bit_to_selector_facts(1) [OF t] by (simp add: arr_get_def bit_to_selector_def)
    show ?thesis
    proof (cases "safeInt64Add ?curr (- prev) \<and> \<not> SIMPLE8B_MAX_INT64 \<le> ?z")
      case False
      then show ?thesis using True l by (subst scan_block.simps) (auto simp: Let_def)
    next
      case ok: True
      note eq = scan_block_step [OF True l _ _ bs "1.prems"(4) bs16, of prev]
      show ?thesis
      proof (cases "el + 1 \<le> selector_to_elems ! sel \<and> el + 1 \<le> selector_to_elems ! bs")
        case more: True
        have "\<exists>r. scan_block wl inp n prev (j + 1) ?curr (if bs < sel then sel else bs) (el + 1) = Inr r"
        proof (rule "1.IH" [OF True l _ refl _ refl bs arr_get_selector(1) [OF "1.prems"(4)]
              arr_get_selector(1) [OF bs16] more])
          show "\<not> \<not> safeInt64Add ?curr (- prev)" "\<not> SIMPLE8B_MAX_INT64 \<le> ?z" using ok by auto
        qed (use "1.prems" bs16 in auto)
        with eq ok more show ?thesis by simp
      next
        case False
        have "1 \<le> el"
          using False selector_facts(1) [OF "1.prems"(4)] selector_facts(1) [OF bs16] "1.prems"(5) by auto
        from grow_selector_total [OF "1.prems"(4) this] obtain s where s: "grow_selector sel el = Inr s" ..
        with grow_selector_Inr [OF s] eq ok False show ?thesis by auto
      qed
    qed
  qed
qed

lemma comp_loop_total:
  assumes "length inp = n * wl" and "\<forall>i < n. fits 60 (zz_at wl inp i)"
    and "prev = prev_at wl inp i" and "i \<le> n"
  shows "\<exists>r. comp_loop wl inp n i prev out = Inr r"
  using assms
proof (induction wl inp n i prev out rule: comp_loop.induct)
  case (1 wl inp n i prev out)
  show ?case
  proof (cases "i < n")
    case False
    then show ?thesis by (simp add: comp_loop.simps [of wl inp n i])
  next
    case True
    have "\<exists>r. scan_block wl inp n prev i prev 0 0 = Inr r"
      using "1.prems" by (intro scan_block_total) auto
    then obtain r where sc: "scan_block wl inp n prev i prev 0 0 = Inr r" ..
    show ?thesis
    proof (cases r)
      case None
      with sc True show ?thesis by (subst comp_loop.simps) simp
    next
      case (Some p)
      then obtain sel el where r: "r = Some (sel, el)" by (cases p) auto
      have "block_ok wl inp n i 0 0" using True by (simp add: block_ok_def)
      with scan_block_ok [OF sc [unfolded r] "1.prems"(1), of i] "1.prems"(3)
      have ok: "block_ok wl inp n i sel el" by auto
      then have sel: "sel < 16" and el: "i + el \<le> n" by (auto simp: block_ok_def)
      note b = arr_get_selector(2) [OF sel]
      from pack_block_field [OF "1.prems"(1,3) ok refl] obtain w where
        pk: "pack_block wl inp (bit_per_integer ! sel) el 0 i prev (of_nat sel) =
          Inr (w, i + el, prev_at wl inp (i + el))" by auto
      show ?thesis
      proof (cases "1 + length out + 8 \<le> n * wl + 1")
        case lim: True
        from "1.IH" [OF True sc r refl b pk refl refl lim "1.prems"(1,2) refl el] sc True b pk lim r
        show ?thesis by (subst comp_loop.simps) simp
      next
        case False
        with sc True b pk r show ?thesis by (subst comp_loop.simps) simp
      qed
    qed
  qed
qed

text \<open>Differences of integers of at most four bytes need at most 34 bits after the zigzag step.\<close>

lemma zigzag_narrow:
  assumes "- (2 ^ 32) \<le> k" and "k < 2 ^ 32"
  shows "fits 60 (zigzag (word_of_int k))"
proof -
  have k: "signed_take_bit 32 k = k" using assms by (simp add: signed_take_bit_int_eq_self)
  have high: "bit k m = bit k 32" if "32 \<le> m" for m
    using that by (subst k [symmetric]) (simp add: bit_signed_take_bit_iff min_def)
  have "\<not> bit (zigzag (word_of_int k)) m" if m: "60 \<le> m" for m
  proof (cases "m < 64")
    case True
    have "bit (push_bit 1 (word_of_int k :: 64 word)) m = bit k (m - 1)"
      using m True by (simp only: bit_push_bit_iff) (auto simp: bit_of_int_iff)
    moreover have "bit (signed_drop_bit 63 (word_of_int k :: 64 word)) m = bit k 63"
      using m True by (simp add: bit_signed_drop_bit_iff bit_of_int_iff)
    ultimately show ?thesis
      using high [of "m - 1"] high [of 63] m unfolding zigzag_def bit_xor_iff by simp
  next
    case False
    then show ?thesis by (auto dest: bit_imp_le_length)
  qed
  then show ?thesis
    unfolding fits_def by (intro bit_word_eqI) (auto simp: bit_take_bit_iff, meson not_le)
qed

lemma int_at_narrow:
  assumes "1 \<le> wl" and "wl \<le> 4"
  shows "\<exists>k. int_at wl inp j = word_of_int k \<and> - (2 ^ 31) \<le> k \<and> k < 2 ^ 31"
proof -
  let ?x = "uint (of_le_bytes (take wl (drop (j * wl) inp)) :: 64 word)"
  let ?k = "signed_take_bit (8 * wl - 1) ?x"
  have "int_at wl inp j = word_of_int ?k"
    unfolding int_at_def
    by (rule bit_word_eqI) (auto simp: bit_signed_take_bit_iff bit_of_int_iff bit_uint_iff min_def)
  moreover have "- (2 ^ (8 * wl - 1)) \<le> ?k" "?k < 2 ^ (8 * wl - 1)"
    by (simp_all add: signed_take_bit_int_greater_eq_minus_exp signed_take_bit_int_less_exp)
  moreover have "(2 :: int) ^ (8 * wl - 1) \<le> 2 ^ 31" using assms by (intro power_increasing) auto
  ultimately show ?thesis by (intro exI [of _ ?k]) linarith
qed

lemma zz_at_narrow: "1 \<le> wl \<Longrightarrow> wl \<le> 4 \<Longrightarrow> fits 60 (zz_at wl inp i)"
proof -
  assume wl: "1 \<le> wl" "wl \<le> 4"
  obtain a where a: "int_at wl inp i = word_of_int a" "- (2 ^ 31) \<le> a" "a < 2 ^ 31"
    using int_at_narrow [OF wl] by blast
  obtain p where p: "prev_at wl inp i = word_of_int p" "- (2 ^ 31) \<le> p" "p < 2 ^ 31"
  proof (cases "i = 0")
    case True
    then show ?thesis by (intro that [of 0]) (simp_all add: prev_at_def)
  next
    case False
    with int_at_narrow [OF wl, of inp "i - 1"] that show ?thesis by (auto simp: prev_at_def)
  qed
  have "fits 60 (zigzag (word_of_int (a - p)))"
    using a p by (intro zigzag_narrow) simp_all
  then show ?thesis by (simp add: zz_at_def a p)
qed

lemma int_compress_total:
  assumes wl: "word_length type = Inr wl" and len: "length inp = n * wl"
    and big: "type = TSDB_DATA_TYPE_BIGINT \<longrightarrow> (\<forall>i < n. fits 60 (zz_at wl inp i))"
  shows "\<exists>out. tsCompressINTImp inp n type = Inr out"
proof -
  have "\<forall>i < n. fits 60 (zz_at wl inp i)"
    using wl big zz_at_narrow [of wl] by (auto simp: word_length_def split: if_splits)
  then have "\<exists>r. comp_loop wl inp n 0 0 [] = Inr r"
    using len by (intro comp_loop_total) (auto simp: prev_at_def)
  then show ?thesis
    using wl len by (auto simp: tsCompressINTImp_def copy_bytes_def split: option.splits)
qed

text \<open>
  C7.
  \<open>tsCompressINTImp\<close> is defined (no array is read out of its range) on every input of
  8-, 16- and 32-bit integers, and on 64-bit integers whose zigzag-coded successive differences
  fit 60 bits.
\<close>

theorem int_compress_defined:
  assumes wl: "word_length type = Inr wl" and len: "length inp = n * wl"
    and big: "type = TSDB_DATA_TYPE_BIGINT \<longrightarrow> (\<forall>i < n. fits 60 (zz_at wl inp i))"
  shows "\<exists>out. tsCompressINTImp inp n type = Inr out"
  using assms by (rule int_compress_total)

theorem int_compress_defined_witness:
  "\<exists>out. tsCompressINTImp [255, 127, 0, 128] 2 TSDB_DATA_TYPE_SMALLINT = Inr out"
  by (rule int_compress_defined [where wl = 2]) (simp_all add: word_length_def int_type_defs)

theorem int_roundtrip_witness:
  "tsCompressINTImp [3, 0, 0, 0, 5, 0, 0, 0, 5, 0, 0, 0, 4, 0, 0, 0, 9, 0, 0, 0] 5 TSDB_DATA_TYPE_INT =
      Inr [0, 101, 4, 161, 0, 0, 0, 0, 0] \<and>
    tsDecompressINTImp ([0, 101, 4, 161, 0, 0, 0, 0, 0] @ [77, 78]) 5 TSDB_DATA_TYPE_INT =
      Inr [3, 0, 0, 0, 5, 0, 0, 0, 5, 0, 0, 0, 4, 0, 0, 0, 9, 0, 0, 0]"
proof -
  have c: "tsCompressINTImp [3, 0, 0, 0, 5, 0, 0, 0, 5, 0, 0, 0, 4, 0, 0, 0, 9, 0, 0, 0] 5 TSDB_DATA_TYPE_INT =
      Inr [0, 101, 4, 161, 0, 0, 0, 0, 0]" by code_simp
  have "word_length TSDB_DATA_TYPE_INT = Inr 4" by (simp add: word_length_def int_type_defs)
  from int_roundtrip [OF this _ c, of "[77, 78]"] c show ?thesis by simp
qed

text \<open>
  C13.
  The bound test of the encoder is too weak for its table: a 64-bit first element whose zigzag
  code needs 61 bits and lies below \<open>SIMPLE8B_MAX_INT64\<close> makes it read \<open>bit_to_selector[61]\<close>,
  one past the end of the array.
\<close>

theorem bigint_table_overrun:
  assumes "0 < n" and "length inp = n * 8"
    and "2 ^ 60 \<le> unat (zz_at 8 inp 0)" and "zz_at 8 inp 0 < SIMPLE8B_MAX_INT64"
  shows "tsCompressINTImp inp n TSDB_DATA_TYPE_BIGINT = Inl Out_Of_Bounds"
proof -
  let ?z = "zigzag (int_at 8 inp 0 - 0)"
  have z: "?z = zz_at 8 inp 0" by (simp add: zz_at_def prev_at_def)
  have "unat (zz_at 8 inp 0) < unat SIMPLE8B_MAX_INT64"
    using assms(4) by (simp only: word_less_nat_alt)
  then have lt: "unat ?z < 2 ^ 61" unfolding z by (simp add: SIMPLE8B_MAX_INT64_def)
  have nz: "?z \<noteq> 0" unfolding z using assms(3) by auto
  have "\<not> 64 - clz ?z \<le> 60"
  proof
    assume "64 - clz ?z \<le> 60"
    then have "take_bit 60 ?z = ?z" using take_bit_clz [of ?z 60] by simp
    then have "unat ?z < 2 ^ 60" by (metis unsigned_take_bit_eq take_bit_nat_less_exp)
    with assms(3) show False unfolding z by simp
  qed
  moreover have "64 - clz ?z \<le> 61" using clz_bound [OF lt] nz by simp
  ultimately have t: "(if ?z = 0 then 0 else 64 - clz ?z) = 61" using nz by simp
  have l: "load_int 8 inp 0 = Inr (int_at 8 inp 0)" using assms(1,2) by (intro load_int_in [of _ n])
  have safe: "safeInt64Add (int_at 8 inp 0) (- 0)"
    using sint_greater_eq [of "int_at 8 inp 0"] sint_lt [of "int_at 8 inp 0"]
    by (auto simp: safeInt64Add_def)
  have small: "(SIMPLE8B_MAX_INT64 \<le> ?z) = False" unfolding z using assms(4) by simp
  have oob: "arr_get bit_to_selector (int 61) = Inl Out_Of_Bounds"
    by (simp add: arr_get_def bit_to_selector_def)
  have "scan_block 8 inp n 0 0 0 0 0 = Inl Out_Of_Bounds"
    by (subst scan_block.simps)
      (simp only: assms(1) if_True if_False l rbind_simps safe not_True_eq_False Let_def small t oob)
  then have "comp_loop 8 inp n 0 0 [] = Inl Out_Of_Bounds"
    using assms(1) by (subst comp_loop.simps) simp
  then show ?thesis by (simp add: tsCompressINTImp_def word_length_def)
qed

theorem bigint_table_overrun_witness:
  "tsCompressINTImp [0, 0, 0, 0, 0, 0, 0, 8] 1 TSDB_DATA_TYPE_BIGINT = Inl Out_Of_Bounds"
proof -
  have "zz_at 8 [0, 0, 0, 0, 0, 0, 0, 8] 0 = 1152921504606846976" by code_simp
  then show ?thesis
    by (intro bigint_table_overrun) (simp_all add: SIMPLE8B_MAX_INT64_def)
qed

text \<open>
  It happens inside the range the header comment of the file documents, \<open>-(2**59)\<close> to
  \<open>(2**59)-1\<close>: the two ends of that range, one after the other.
\<close>

lemma bigint_documented_range_overrun:
  "int_at 8 [0, 0, 0, 0, 0, 0, 0, 248, 255, 255, 255, 255, 255, 255, 255, 7] 0 = - (2 ^ 59) \<and>
   int_at 8 [0, 0, 0, 0, 0, 0, 0, 248, 255, 255, 255, 255, 255, 255, 255, 7] 1 = 2 ^ 59 - 1 \<and>
   tsCompressINTImp [0, 0, 0, 0, 0, 0, 0, 248, 255, 255, 255, 255, 255, 255, 255, 7] 2
     TSDB_DATA_TYPE_BIGINT = Inl Out_Of_Bounds"
  by (intro conjI) code_simp+

end
