(* ===== verification/CompTimestamp.thy ===== *)
theory CompTimestamp
  imports CompInt
begin

text \<open>
  Timestamp compression of src/src/util/src/tcompression.c: \<open>tsCompressTimestampImp\<close> and
  \<open>tsDecompressTimestampImp\<close>, which store the zigzag-coded second differences of 64-bit values
  two at a time behind a byte with their lengths. Little-endian branch of \<open>is_bigendian\<close>;
  64-bit signed arithmetic wraps.
\<close>

section \<open>The code\<close>

text \<open>\<open>LONG_BYTES - __builtin_clzll(dd) / BITS_PER_BYTE\<close>, 0 for a zero value.\<close>

definition dd_flag :: "64 word \<Rightarrow> nat" where
  "dd_flag dd = (if dd = 0 then 0 else 8 - clz dd div 8)"

text \<open>
  Appends bytes to the output unless the position limit is reached; \<open>_pos\<close> is
  \<open>1 + length out\<close>, \<open>None\<close> the jump to \<open>_exit_over\<close>.
\<close>

definition put_bytes :: "nat \<Rightarrow> byte list \<Rightarrow> byte list \<Rightarrow> byte list option" where
  "put_bytes n out bs =
     (if int n * 8 \<le> int (1 + length out + length bs) - 1 then None else Some (out @ bs))"

definition put_pair :: "nat \<Rightarrow> byte list \<Rightarrow> 64 word \<Rightarrow> 64 word \<Rightarrow> byte list option" where
  "put_pair n out dd1 dd2 =
     Option.bind (put_bytes n out [of_nat (dd_flag dd1) OR push_bit 4 (of_nat (dd_flag dd2))]) (\<lambda>out1.
     Option.bind (put_bytes n out1 (le_bytes (dd_flag dd1) dd1)) (\<lambda>out2.
       put_bytes n out2 (le_bytes (dd_flag dd2) dd2)))"

text \<open>The tail for an odd number of elements: the second flag is 0 and there is no second value.\<close>

definition put_last :: "nat \<Rightarrow> byte list \<Rightarrow> 64 word \<Rightarrow> byte list option" where
  "put_last n out dd1 =
     Option.bind (put_bytes n out [of_nat (dd_flag dd1)]) (\<lambda>out1.
       put_bytes n out1 (le_bytes (dd_flag dd1) dd1))"

function ts_loop ::
    "byte list \<Rightarrow> nat \<Rightarrow> nat \<Rightarrow> 64 word \<Rightarrow> 64 word \<Rightarrow> 64 word \<Rightarrow> byte list \<Rightarrow> (64 word \<times> byte list) option res"
where
  "ts_loop inp n i prev_value prev_delta dd1 out =
     (if i < n then
        rbind (load_int 8 inp i) (\<lambda>cur.
          if \<not> safeInt64Add cur (- prev_value) then Inr None
          else
            let cur_delta = cur - prev_value in
            if \<not> safeInt64Add cur_delta (- prev_delta) then Inr None
            else
              let z = zigzag (cur_delta - prev_delta) in
              if i mod 2 = 0 then ts_loop inp n (i + 1) cur cur_delta z out
              else
                (case put_pair n out dd1 z of
                   None \<Rightarrow> Inr None
                 | Some out' \<Rightarrow> ts_loop inp n (i + 1) cur cur_delta dd1 out'))
      else Inr (Some (dd1, out)))"
  by pat_completeness auto
termination
  by (relation "measure (\<lambda>(inp, n, i, pv, pd, dd1, out). n - i)") auto

definition tsCompressTimestampImp :: "byte list \<Rightarrow> nat \<Rightarrow> byte list res" where
  "tsCompressTimestampImp inp nelements =
     (if nelements = 0 then Inr []
      else
        rbind (load_int 8 inp 0) (\<lambda>v0.
        rbind (ts_loop inp nelements 0 v0 (- v0) 0 []) (\<lambda>r.
          case (case r of
                  None \<Rightarrow> None
                | Some (dd1, out) \<Rightarrow>
                    if nelements mod 2 = 1 then put_last nelements out dd1 else Some out) of
            Some out \<Rightarrow> Inr (1 # out)
          | None \<Rightarrow> rbind (copy_bytes inp 0 (nelements * 8)) (\<lambda>raw. Inr (0 # raw)))))"

text \<open>
  Decodes one second difference of \<open>nbytes\<close> bytes, copied into the 8-byte variable
  \<open>dd1\<close> (or \<open>dd2\<close>); a longer copy overruns it.
\<close>

definition load_dd :: "byte list \<Rightarrow> nat \<Rightarrow> nat \<Rightarrow> 64 word res" where
  "load_dd inp ip nbytes =
     (if nbytes = 0 then Inr 0
      else if 8 < nbytes then Inl Out_Of_Bounds
      else rbind (copy_bytes inp ip nbytes) (\<lambda>bs. Inr (unzigzag (of_le_bytes bs))))"

function ts_decode ::
    "byte list \<Rightarrow> nat \<Rightarrow> nat \<Rightarrow> nat \<Rightarrow> 64 word \<Rightarrow> 64 word \<Rightarrow> byte list \<Rightarrow> byte list res"
where
  "ts_decode inp n ip op prev_value prev_delta out =
     rbind (arr_get inp (int ip)) (\<lambda>flags.
     let n1 = unat (flags AND mask 4) in
     rbind (load_dd inp (ip + 1) n1) (\<lambda>dod1.
     let pd1 = (if op = 0 then 0 else dod1 + prev_delta);
         pv1 = (if op = 0 then dod1 else prev_value + pd1);
         out1 = out @ le_bytes 8 pv1
     in if op + 1 = n then Inr out1
        else
          let n2 = unat (drop_bit 4 flags AND mask 4) in
          rbind (load_dd inp (ip + 1 + n1) n2) (\<lambda>dod2.
          let pd2 = dod2 + pd1; pv2 = pv1 + pd2; out2 = out1 @ le_bytes 8 pv2
          in if op + 2 = n then Inr out2
             else ts_decode inp n (ip + 1 + n1 + n2) (op + 2) pv2 pd2 out2)))"
  by pat_completeness auto
termination
  by (relation "measure (\<lambda>(inp, n, ip, op, pv, pd, out). length inp - ip)")
    (auto simp: arr_get_def split: if_splits)

definition tsDecompressTimestampImp :: "byte list \<Rightarrow> nat \<Rightarrow> byte list res" where
  "tsDecompressTimestampImp inp nelements =
     (if nelements = 0 then Inr []
      else
        rbind (arr_get inp 0) (\<lambda>ind.
          if ind = 0 then copy_bytes inp 1 (nelements * 8)
          else if ind = 1 then ts_decode inp nelements 1 0 0 0 []
          else Inl Assert_Failed))"

declare ts_loop.simps [simp del] ts_decode.simps [simp del]

section \<open>The stream the encoder writes\<close>

definition ts_prev :: "byte list \<Rightarrow> nat \<Rightarrow> 64 word" where
  "ts_prev inp i = int_at 8 inp (i - 1)"

definition ts_delta :: "byte list \<Rightarrow> nat \<Rightarrow> 64 word" where
  "ts_delta inp i = int_at 8 inp i - ts_prev inp i"

definition ts_prev_delta :: "byte list \<Rightarrow> nat \<Rightarrow> 64 word" where
  "ts_prev_delta inp i = (if i = 0 then - int_at 8 inp 0 else ts_delta inp (i - 1))"

definition ts_zdd :: "byte list \<Rightarrow> nat \<Rightarrow> 64 word" where
  "ts_zdd inp i = zigzag (ts_delta inp i - ts_prev_delta inp i)"

lemma ts_prev_Suc [simp]: "ts_prev inp (Suc i) = int_at 8 inp i"
  by (simp add: ts_prev_def)

lemma ts_prev_delta_Suc [simp]: "ts_prev_delta inp (Suc i) = ts_delta inp i"
  by (simp add: ts_prev_delta_def)

definition flag_byte :: "64 word \<Rightarrow> 64 word \<Rightarrow> byte" where
  "flag_byte a b = of_nat (dd_flag a) OR push_bit 4 (of_nat (dd_flag b))"

function ts_stream :: "(nat \<Rightarrow> 64 word) \<Rightarrow> nat \<Rightarrow> nat \<Rightarrow> byte list" where
  "ts_stream z n i =
     (if i + 1 < n then
        flag_byte (z i) (z (i + 1)) # le_bytes (dd_flag (z i)) (z i) @
          le_bytes (dd_flag (z (i + 1))) (z (i + 1)) @ ts_stream z n (i + 2)
      else if i < n then of_nat (dd_flag (z i)) # le_bytes (dd_flag (z i)) (z i)
      else [])"
  by pat_completeness auto
termination
  by (relation "measure (\<lambda>(z, n, i). n - i)") auto

declare ts_stream.simps [simp del]

lemma ts_stream_end [simp]: "n \<le> i \<Longrightarrow> ts_stream z n i = []"
  by (simp add: ts_stream.simps)

lemma put_bytes_Some: "put_bytes n out bs = Some out' \<Longrightarrow> out' = out @ bs \<and> length out' < n * 8"
  by (auto simp: put_bytes_def split: if_splits)

lemma put_pair_Some:
  "put_pair n out a b = Some out' \<Longrightarrow>
    out' = out @ flag_byte a b # le_bytes (dd_flag a) a @ le_bytes (dd_flag b) b \<and> length out' < n * 8"
  by (auto simp: put_pair_def flag_byte_def bind_eq_Some_conv dest!: put_bytes_Some)

lemma put_last_Some:
  "put_last n out a = Some out' \<Longrightarrow>
    out' = out @ of_nat (dd_flag a) # le_bytes (dd_flag a) a \<and> length out' < n * 8"
  by (auto simp: put_last_def bind_eq_Some_conv dest!: put_bytes_Some)

lemma ts_loop_step:
  assumes "length inp = n * 8" and "i < n" and "ts_loop inp n i (ts_prev inp i) (ts_prev_delta inp i) dd1 out = Inr (Some r)"
  shows "if even i then ts_loop inp n (Suc i) (ts_prev inp (Suc i)) (ts_prev_delta inp (Suc i)) (ts_zdd inp i) out = Inr (Some r)
    else \<exists>out'. put_pair n out dd1 (ts_zdd inp i) = Some out' \<and>
      ts_loop inp n (Suc i) (ts_prev inp (Suc i)) (ts_prev_delta inp (Suc i)) dd1 out' = Inr (Some r)"
proof -
  have l: "load_int 8 inp i = Inr (int_at 8 inp i)" using assms(1,2) by (rule load_int_in)
  have z: "zigzag (int_at 8 inp i - ts_prev inp i - ts_prev_delta inp i) = ts_zdd inp i"
    by (simp add: ts_zdd_def ts_delta_def)
  from assms(2,3) l show ?thesis
    by (subst (asm) ts_loop.simps)
      (auto simp: Let_def z ts_delta_def even_iff_mod_2_eq_zero split: if_splits option.splits)
qed

lemma ts_loop_stream:
  assumes "length inp = n * 8" and "even i" and "i \<le> n"
    and "ts_loop inp n i (ts_prev inp i) (ts_prev_delta inp i) dd1 out = Inr (Some (dd1', out'))"
    and "(if n mod 2 = 1 then put_last n out' dd1' else Some out') = Some res"
  shows "res = out @ ts_stream (ts_zdd inp) n i \<and> (i < n \<longrightarrow> length res < n * 8)"
  using assms
proof (induction "n - i" arbitrary: i dd1 out rule: less_induct)
  case less
  consider (fin) "i = n" | (one) "Suc i = n" | (two) "Suc i < n" using less.prems(3) by linarith
  then show ?case
  proof cases
    case fin
    with less.prems show ?thesis by (auto simp: ts_loop.simps [of inp n n] ts_stream.simps [of _ n n])
  next
    case one
    with ts_loop_step [OF less.prems(1) _ less.prems(4)] less.prems(2)
    have "ts_loop inp n n (ts_prev inp n) (ts_prev_delta inp n) (ts_zdd inp i) out = Inr (Some (dd1', out'))"
      by auto
    with one less.prems(2,5) put_last_Some show ?thesis
      by (auto simp: ts_loop.simps [of inp n n] ts_stream.simps [of _ n i] split: if_splits)
  next
    case two
    have "ts_loop inp n (Suc i) (ts_prev inp (Suc i)) (ts_prev_delta inp (Suc i)) (ts_zdd inp i) out =
        Inr (Some (dd1', out'))"
      using ts_loop_step [OF less.prems(1) _ less.prems(4)] less.prems(2) two by simp
    from ts_loop_step [OF less.prems(1) two this] less.prems(2) obtain out1 where
      o1: "put_pair n out (ts_zdd inp i) (ts_zdd inp (Suc i)) = Some out1"
      and rest: "ts_loop inp n (Suc (Suc i)) (ts_prev inp (Suc (Suc i))) (ts_prev_delta inp (Suc (Suc i)))
        (ts_zdd inp i) out1 = Inr (Some (dd1', out'))"
      by auto
    have "res = out1 @ ts_stream (ts_zdd inp) n (Suc (Suc i)) \<and> (Suc (Suc i) < n \<longrightarrow> length res < n * 8)"
      using less.prems(1,2,5) two rest by (intro less.hyps) auto
    with put_pair_Some [OF o1] two show ?thesis
      by (cases "Suc (Suc i) < n") (auto simp: ts_stream.simps [of _ n i])
  qed
qed

section \<open>Decoding the stream\<close>

lemma dd_flag_le: "dd_flag z \<le> 8"
  by (simp add: dd_flag_def)

lemma dd_flag_take_bit: "take_bit (8 * dd_flag z) z = z"
proof (cases "z = 0")
  case False
  have "clz z \<le> 64" using clz_le [of z] by simp
  then have "64 - clz z \<le> 8 * (8 - clz z div 8)" by presburger
  with False take_bit_clz [of z "8 * dd_flag z"] show ?thesis by (simp add: dd_flag_def)
qed simp

lemma flag_byte_split:
  assumes "f1 \<le> 8" and "f2 \<le> 8"
  shows "unat ((of_nat f1 OR push_bit 4 (of_nat f2) :: byte) AND mask 4) = f1"
    and "unat (drop_bit 4 (of_nat f1 OR push_bit 4 (of_nat f2) :: byte) AND mask 4) = f2"
proof -
  have "list_all (\<lambda>f1. list_all (\<lambda>f2.
      unat ((of_nat f1 OR push_bit 4 (of_nat f2) :: byte) AND mask 4) = f1 \<and>
      unat (drop_bit 4 (of_nat f1 OR push_bit 4 (of_nat f2) :: byte) AND mask 4) = f2) [0..<9]) [0..<9]"
    by code_simp
  with assms show "unat ((of_nat f1 OR push_bit 4 (of_nat f2) :: byte) AND mask 4) = f1"
    "unat (drop_bit 4 (of_nat f1 OR push_bit 4 (of_nat f2) :: byte) AND mask 4) = f2"
    by (auto simp: list_all_iff)
qed

lemma unzigzag_0 [simp]: "unzigzag 0 = 0"
  by (simp add: unzigzag_def)

lemma load_dd_ok:
  assumes "inp = pre @ le_bytes (dd_flag z) z @ rest" and "ip = length pre"
  shows "load_dd inp ip (dd_flag z) = Inr (unzigzag z)"
proof (cases "dd_flag z = 0")
  case True
  then have "z = 0" using dd_flag_take_bit [of z] by simp
  with True show ?thesis by (simp add: load_dd_def)
next
  case False
  have "copy_bytes inp ip (dd_flag z) = Inr (le_bytes (dd_flag z) z)"
    using copy_bytes_append [of pre "le_bytes (dd_flag z) z" rest] assms by simp
  with False dd_flag_le [of z] show ?thesis
    by (simp add: load_dd_def of_le_bytes_le_bytes dd_flag_take_bit)
qed

lemma ts_value_step:
  "(if i = 0 then unzigzag (ts_zdd inp i)
    else ts_prev inp i + (unzigzag (ts_zdd inp i) + ts_prev_delta inp i)) = int_at 8 inp i"
  by (simp add: ts_zdd_def ts_delta_def ts_prev_delta_def ts_prev_def)

lemma ts_delta_step:
  "(if i = 0 then 0 else unzigzag (ts_zdd inp i) + ts_prev_delta inp i) = ts_delta inp i"
  by (simp add: ts_zdd_def ts_delta_def ts_prev_def)

lemma ts_out_step:
  "length inp = n * 8 \<Longrightarrow> i < n \<Longrightarrow> take (i * 8) inp @ le_bytes 8 (int_at 8 inp i) = take (Suc i * 8) inp"
  using le_bytes_int_at [of inp n 8 i] take_Suc_chunk [of i 8 inp] by simp

lemma ts_stream_head:
  assumes "i < n"
  obtains f rest where "ts_stream z n i = f # le_bytes (dd_flag (z i)) (z i) @ rest"
    and "unat (f AND mask 4) = dd_flag (z i)"
    and "Suc i < n \<Longrightarrow> unat (drop_bit 4 f AND mask 4) = dd_flag (z (Suc i)) \<and>
      rest = le_bytes (dd_flag (z (Suc i))) (z (Suc i)) @ ts_stream z n (Suc (Suc i))"
proof (cases "Suc i < n")
  case True
  show ?thesis
  proof (rule that)
    show "ts_stream z n i = flag_byte (z i) (z (Suc i)) # le_bytes (dd_flag (z i)) (z i) @
        le_bytes (dd_flag (z (Suc i))) (z (Suc i)) @ ts_stream z n (Suc (Suc i))"
      using True by (subst ts_stream.simps) simp
  qed (simp_all only: flag_byte_def flag_byte_split dd_flag_le simp_thms)
next
  case False
  show ?thesis
  proof (rule that)
    show "ts_stream z n i = of_nat (dd_flag (z i)) # le_bytes (dd_flag (z i)) (z i) @ []"
      using False assms by (subst ts_stream.simps) simp
  qed (use False flag_byte_split(1) [OF dd_flag_le le0, of "z i"] in simp_all)
qed

lemma ts_decode_stream:
  assumes "length inp = n * 8" and "i < n"
    and "c = pre @ ts_stream (ts_zdd inp) n i @ pad" and "ip = length pre"
    and "i \<noteq> 0 \<longrightarrow> pv = ts_prev inp i \<and> pd = ts_prev_delta inp i"
    and "out = take (i * 8) inp"
  shows "ts_decode c n ip i pv pd out = Inr inp"
  using assms
proof (induction "n - i" arbitrary: i pre ip pv pd out rule: less_induct)
  case less
  let ?z = "ts_zdd inp"
  obtain f rest where st: "ts_stream ?z n i = f # le_bytes (dd_flag (?z i)) (?z i) @ rest"
    and f1: "unat (f AND mask 4) = dd_flag (?z i)"
    and two: "Suc i < n \<Longrightarrow> unat (drop_bit 4 f AND mask 4) = dd_flag (?z (Suc i)) \<and>
      rest = le_bytes (dd_flag (?z (Suc i))) (?z (Suc i)) @ ts_stream ?z n (Suc (Suc i))"
    using ts_stream_head [OF less.prems(2)] by blast
  have fl: "arr_get c (int ip) = Inr f" using less.prems(3,4) st by (simp add: arr_get_def nth_append)
  have d1: "load_dd c (ip + 1) (dd_flag (?z i)) = Inr (unzigzag (?z i))"
    using less.prems(3,4) st by (intro load_dd_ok [where pre = "pre @ [f]" and rest = "rest @ pad"]) simp_all
  have pd1: "(if i = 0 then 0 else unzigzag (?z i) + pd) = ts_delta inp i"
    using ts_delta_step [of i inp] less.prems(5) by auto
  have pv1: "(if i = 0 then unzigzag (?z i) else pv + ts_delta inp i) = int_at 8 inp i"
    using ts_value_step [of i inp] ts_delta_step [of i inp] less.prems(5) by (auto split: if_splits)
  note o1 = ts_out_step [OF less.prems(1,2)]
  show ?case
  proof (cases "Suc i < n")
    case False
    then have n: "Suc i = n" using less.prems(2) by simp
    have fin: "take (Suc i * 8) inp = inp" using n less.prems(1) by simp
    show ?thesis
      by (subst ts_decode.simps)
        (simp only: fl rbind_simps Let_def f1 d1 pd1 pv1 less.prems(6) o1 fin, simp add: n)
  next
    case True
    note two = two [OF True]
    have d2: "load_dd c (ip + 1 + dd_flag (?z i)) (dd_flag (?z (Suc i))) = Inr (unzigzag (?z (Suc i)))"
      using less.prems(3,4) st two
      by (intro load_dd_ok [where pre = "pre @ f # le_bytes (dd_flag (?z i)) (?z i)"
            and rest = "ts_stream ?z n (Suc (Suc i)) @ pad"]) simp_all
    have pd2: "unzigzag (?z (Suc i)) + ts_delta inp i = ts_delta inp (Suc i)"
      using ts_delta_step [of "Suc i" inp] by simp
    have pv2: "int_at 8 inp i + ts_delta inp (Suc i) = int_at 8 inp (Suc i)"
      by (simp add: ts_delta_def)
    note o2 = ts_out_step [OF less.prems(1) True]
    let ?pre = "pre @ f # le_bytes (dd_flag (?z i)) (?z i) @ le_bytes (dd_flag (?z (Suc i))) (?z (Suc i))"
    have rec: "ts_decode c n (length ?pre) (Suc (Suc i)) (int_at 8 inp (Suc i)) (ts_delta inp (Suc i))
        (take (Suc (Suc i) * 8) inp) = Inr inp" if "Suc (Suc i) \<noteq> n"
      using that True less.prems(1,3) st two by (intro less.hyps [where pre = ?pre]) auto
    have "take (Suc (Suc i) * 8) inp = inp" if "Suc (Suc i) = n" using that less.prems(1) by simp
    moreover have "ts_decode c n ip i pv pd out =
        (if i + 2 = n then Inr (take (Suc (Suc i) * 8) inp)
         else ts_decode c n (ip + 1 + dd_flag (?z i) + dd_flag (?z (Suc i))) (i + 2)
           (int_at 8 inp (Suc i)) (ts_delta inp (Suc i)) (take (Suc (Suc i) * 8) inp))"
      using True by (subst ts_decode.simps)
        (simp only: fl rbind_simps Let_def f1 conjunct1 [OF two] d1 d2 pd1 pd2 pv1 pv2 less.prems(6) o1 o2, simp)
    ultimately show ?thesis using rec less.prems(4) by (simp add: add.assoc)
  qed
qed

section \<open>Totality\<close>

lemma ts_loop_total:
  assumes "length inp = n * 8"
  shows "\<exists>r. ts_loop inp n i pv pd dd1 out = Inr r"
proof (induction "n - i" arbitrary: i pv pd dd1 out rule: less_induct)
  case less
  show ?case
  proof (cases "i < n")
    case True
    note l = load_int_in [OF assms True]
    have "\<exists>r. ts_loop inp n (Suc i) pv' pd' dd' out' = Inr r" for pv' pd' dd' out'
      using True by (intro less.hyps) simp
    with l True show ?thesis
      by (subst ts_loop.simps) (auto simp: Let_def split: option.splits)
  qed (simp add: ts_loop.simps)
qed

section \<open>Correctness\<close>

lemma timestamp_roundtrip_aux:
  assumes "length inp = n * 8"
  shows "\<exists>out. tsCompressTimestampImp inp n = Inr out \<and> length out \<le> n * 8 + 1 \<and>
    (\<forall>pad. tsDecompressTimestampImp (out @ pad) n = Inr inp)"
proof (cases "n = 0")
  case False
  note l = load_int_in [OF assms, of 0]
  let ?v = "int_at 8 inp 0"
  obtain r where r: "ts_loop inp n 0 ?v (- ?v) 0 [] = Inr r" using ts_loop_total [OF assms] by blast
  define e where "e = (case r of None \<Rightarrow> None | Some (dd1, out) \<Rightarrow>
    if n mod 2 = 1 then put_last n out dd1 else Some out)"
  have raw: "copy_bytes inp 0 (n * 8) = Inr inp" using assms by (simp add: copy_bytes_def)
  have comp: "tsCompressTimestampImp inp n =
      (case e of Some out \<Rightarrow> Inr (1 # out) | None \<Rightarrow> Inr (0 # inp))"
    using False l r raw by (simp add: tsCompressTimestampImp_def e_def cong: option.case_cong)
  show ?thesis
  proof (cases e)
    case None
    have "copy_bytes (0 # inp @ pad) 1 (n * 8) = Inr inp" for pad
      using copy_bytes_append [of "[0]" inp pad] assms by simp
    with None comp False assms show ?thesis by (simp add: tsDecompressTimestampImp_def)
  next
    case (Some out)
    then obtain dd1 o1 where "r = Some (dd1, o1)"
      and fin: "(if n mod 2 = 1 then put_last n o1 dd1 else Some o1) = Some out"
      by (auto simp: e_def split: option.splits)
    with r have "ts_loop inp n 0 (ts_prev inp 0) (ts_prev_delta inp 0) 0 [] = Inr (Some (dd1, o1))"
      by (simp add: ts_prev_def ts_prev_delta_def)
    from ts_loop_stream [OF assms _ _ this fin] False
    have out: "out = ts_stream (ts_zdd inp) n 0" and len: "length out < n * 8" by auto
    have "ts_decode (1 # out @ pad) n 1 0 0 0 [] = Inr inp" for pad
      using False out assms by (intro ts_decode_stream [where pre = "[1]"]) auto
    with Some comp False len show ?thesis by (simp add: tsDecompressTimestampImp_def)
  qed
qed (use assms in \<open>simp add: tsCompressTimestampImp_def tsDecompressTimestampImp_def\<close>)

text \<open>
  C3.
  \<open>tsCompressTimestampImp\<close> is defined on every column of 64-bit values; it writes at most
  one byte more than the column has, and \<open>tsDecompressTimestampImp\<close> recovers the column from
  what it wrote, whatever follows it in the buffer.
\<close>

theorem timestamp_roundtrip:
  assumes "length inp = n * 8"
  shows "\<exists>out. tsCompressTimestampImp inp n = Inr out \<and> length out \<le> n * 8 + 1 \<and>
    (\<forall>pad. tsDecompressTimestampImp (out @ pad) n = Inr inp)"
  using assms by (rule timestamp_roundtrip_aux)

theorem timestamp_roundtrip_witness:
  "\<exists>out. tsCompressTimestampImp [1,0,0,0,0,0,0,0, 3,0,0,0,0,0,0,0, 5,0,0,0,0,0,0,0] 3 = Inr out \<and>
    length out \<le> 25 \<and>
    tsDecompressTimestampImp (out @ [9]) 3 = Inr [1,0,0,0,0,0,0,0, 3,0,0,0,0,0,0,0, 5,0,0,0,0,0,0,0]"
  using timestamp_roundtrip [of "[1,0,0,0,0,0,0,0, 3,0,0,0,0,0,0,0, 5,0,0,0,0,0,0,0]" 3] by auto

end
