(* ===== verification/CompXor.thy ===== *)
theory CompXor
  imports CompInt
begin

text \<open>
  Float and double compression of src/src/util/src/tcompression.c. Both store the XOR of
  successive bit patterns as a few low-order or high-order bytes, two values behind a byte with
  their flags; the two halves of the file are the same text for 64-bit and for 32-bit patterns, so
  the loops are defined once over the word type, the number of bytes and the value coder of each
  half. \<open>ulong_bits\<close> is the width of \<open>unsigned long\<close> on the platform: the float half counts zero
  bits with \<open>__builtin_clzl\<close> and \<open>__builtin_ctzl\<close>, whose operand is an \<open>unsigned long\<close>.
\<close>

section \<open>The value coders\<close>

text \<open>\<open>(flag & INT8MASK(3)) + 1\<close>\<close>

definition flag_nbytes :: "byte \<Rightarrow> nat" where
  "flag_nbytes flag = unat (flag AND mask 3) + 1"

definition flag_shift :: "nat \<Rightarrow> byte \<Rightarrow> int" where
  "flag_shift bytes flag = (int bytes * 8 - int (flag_nbytes flag) * 8) * int (unat (drop_bit 3 flag))"

text \<open>\<open>while (nbytes) { output[(*pos)++] = diff & mask; diff >>= 8; nbytes--; }\<close>\<close>

primrec low_bytes :: "nat \<Rightarrow> 'a::len word \<Rightarrow> byte list" where
  "low_bytes 0 diff = []"
| "low_bytes (Suc n) diff = ucast (diff AND mask 8) # low_bytes n (drop_bit 8 diff)"

definition encode_value :: "nat \<Rightarrow> 'a::len word \<Rightarrow> byte \<Rightarrow> byte list res" where
  "encode_value bytes diff flag =
     (let nshift = flag_shift bytes flag in
      if nshift < 0 \<or> int LENGTH('a) \<le> nshift then Inl Bad_Shift
      else Inr (low_bytes (flag_nbytes flag) (drop_bit (nat nshift) diff)))"

function gather :: "byte list \<Rightarrow> nat \<Rightarrow> nat \<Rightarrow> nat \<Rightarrow> 'a::len word \<Rightarrow> 'a word res" where
  "gather inp ip nbytes i diff =
     (if i < nbytes then
        rbind (arr_get inp (int (ip + i))) (\<lambda>b.
          if LENGTH('a) \<le> 8 * i then Inl Bad_Shift
          else gather inp ip nbytes (i + 1) (diff OR push_bit (8 * i) (ucast b)))
      else Inr diff)"
  by pat_completeness auto
termination
  by (relation "measure (\<lambda>(inp, ip, nbytes, i, diff). nbytes - i)") auto

definition decode_value :: "nat \<Rightarrow> byte list \<Rightarrow> nat \<Rightarrow> byte \<Rightarrow> ('a::len word \<times> nat) res" where
  "decode_value bytes inp ip flag =
     rbind (gather inp ip (flag_nbytes flag) 0 0) (\<lambda>diff.
       let w = flag_shift bytes flag in
       if w < 0 \<or> int LENGTH('a) \<le> w then Inl Bad_Shift
       else Inr (push_bit (nat w) diff, ip + flag_nbytes flag))"

text \<open>\<open>if (nbytes > 0) nbytes--;\<close>\<close>

definition dec_nbytes :: "byte \<Rightarrow> byte" where
  "dec_nbytes nbytes = (if 0 < nbytes then nbytes - 1 else nbytes)"

text \<open>The flag of a difference from its numbers of leading and trailing zero bits (uint8 arithmetic).\<close>

definition zeros_flag :: "nat \<Rightarrow> nat \<Rightarrow> nat \<Rightarrow> byte" where
  "zeros_flag bytes leading trailing =
     (if leading < trailing
      then push_bit 3 1 OR dec_nbytes (word_of_int (int bytes - int (trailing div 8)))
      else dec_nbytes (word_of_int (int bytes - int (leading div 8))))"

section \<open>The loops\<close>

definition word_at :: "nat \<Rightarrow> byte list \<Rightarrow> nat \<Rightarrow> 'a::len word" where
  "word_at bytes inp i = of_le_bytes (take bytes (drop (i * bytes) inp))"

definition load_word :: "nat \<Rightarrow> byte list \<Rightarrow> nat \<Rightarrow> 'a::len word res" where
  "load_word bytes inp i =
     (if (i + 1) * bytes \<le> length inp then Inr (word_at bytes inp i) else Inl Out_Of_Bounds)"

text \<open>
  Two values behind their flags; \<open>None\<close> when they exceed \<open>byte_limit\<close>. \<open>opos\<close> is
  \<open>1 + length out\<close>. The tail of an odd column is the same with a second value 0 of flag 0.
\<close>

definition xor_pair ::
    "nat \<Rightarrow> ('a::len word \<Rightarrow> byte \<Rightarrow> byte list res) \<Rightarrow> nat \<Rightarrow> byte list \<Rightarrow>
      'a word \<Rightarrow> byte \<Rightarrow> 'a word \<Rightarrow> byte \<Rightarrow> byte list option res"
where
  "xor_pair bytes enc n out prev_diff prev_flag diff flag =
     (if 1 + length out + 1 + flag_nbytes prev_flag + flag_nbytes flag \<le> n * bytes + 1 then
        rbind (enc prev_diff prev_flag) (\<lambda>b1.
        rbind (enc diff flag) (\<lambda>b2.
          Inr (Some (out @ (prev_flag OR push_bit 4 flag) # b1 @ b2))))
      else Inr None)"

function xor_loop ::
    "nat \<Rightarrow> ('a::len word \<Rightarrow> byte) \<Rightarrow> ('a word \<Rightarrow> byte \<Rightarrow> byte list res) \<Rightarrow> byte list \<Rightarrow> nat \<Rightarrow> nat \<Rightarrow>
      'a word \<Rightarrow> 'a word \<Rightarrow> byte \<Rightarrow> byte list \<Rightarrow> ('a word \<times> byte \<times> byte list) option res"
where
  "xor_loop bytes flag_of enc inp n i prev_value prev_diff prev_flag out =
     (if i < n then
        rbind (load_word bytes inp i) (\<lambda>cur.
          let diff = cur XOR prev_value; flag = flag_of diff in
          if i mod 2 = 0 then xor_loop bytes flag_of enc inp n (i + 1) cur diff flag out
          else
            rbind (xor_pair bytes enc n out prev_diff prev_flag diff flag) (\<lambda>r.
              case r of
                None \<Rightarrow> Inr None
              | Some out' \<Rightarrow> xor_loop bytes flag_of enc inp n (i + 1) cur prev_diff prev_flag out'))
      else Inr (Some (prev_diff, prev_flag, out)))"
  by pat_completeness auto
termination
  by (relation "measure (\<lambda>(bytes, flag_of, enc, inp, n, i, pv, pd, pf, out). n - i)") auto

text \<open>After the loop: the tail of a column of odd length.\<close>

definition xor_finish ::
    "nat \<Rightarrow> ('a::len word \<Rightarrow> byte \<Rightarrow> byte list res) \<Rightarrow> nat \<Rightarrow> ('a word \<times> byte \<times> byte list) option \<Rightarrow>
      byte list option res"
where
  "xor_finish bytes enc n r =
     (case r of
        None \<Rightarrow> Inr None
      | Some (prev_diff, prev_flag, out) \<Rightarrow>
          if n mod 2 = 1 then xor_pair bytes enc n out prev_diff prev_flag 0 0 else Inr (Some out))"

definition xor_compress ::
    "nat \<Rightarrow> ('a::len word \<Rightarrow> byte) \<Rightarrow> ('a word \<Rightarrow> byte \<Rightarrow> byte list res) \<Rightarrow> byte list \<Rightarrow> nat \<Rightarrow> byte list res"
where
  "xor_compress bytes flag_of enc inp n =
     rbind (xor_loop bytes flag_of enc inp n 0 0 0 0 []) (\<lambda>r.
     rbind (xor_finish bytes enc n r) (\<lambda>e.
       case e of
         Some out \<Rightarrow> Inr (0 # out)
       | None \<Rightarrow> rbind (copy_bytes inp 0 (n * bytes)) (\<lambda>raw. Inr (1 # raw))))"

function xor_decode ::
    "nat \<Rightarrow> (byte list \<Rightarrow> nat \<Rightarrow> byte \<Rightarrow> ('a::len word \<times> nat) res) \<Rightarrow> byte list \<Rightarrow> nat \<Rightarrow> nat \<Rightarrow> nat \<Rightarrow>
      byte \<Rightarrow> 'a word \<Rightarrow> byte list \<Rightarrow> byte list res"
where
  "xor_decode bytes dec inp n i ip flags prev_value out =
     (if i < n then
        rbind (if i mod 2 = 0 then rbind (arr_get inp (int ip)) (\<lambda>f. Inr (f, ip + 1)) else Inr (flags, ip))
          (\<lambda>(fl, ip1).
        rbind (dec inp ip1 (fl AND mask 4)) (\<lambda>(diff, ip2).
          let cur = prev_value XOR diff in
          xor_decode bytes dec inp n (i + 1) ip2 (drop_bit 4 fl) cur (out @ le_bytes bytes cur)))
      else Inr out)"
  by pat_completeness auto
termination
  by (relation "measure (\<lambda>(bytes, dec, inp, n, i, ip, flags, pv, out). n - i)") auto

definition xor_decompress ::
    "nat \<Rightarrow> (byte list \<Rightarrow> nat \<Rightarrow> byte \<Rightarrow> ('a::len word \<times> nat) res) \<Rightarrow> byte list \<Rightarrow> nat \<Rightarrow> byte list res"
where
  "xor_decompress bytes dec inp n =
     rbind (arr_get inp 0) (\<lambda>ind.
       if ind = 1 then copy_bytes inp 1 (n * bytes)
       else xor_decode bytes dec inp n 0 1 0 0 [])"

declare gather.simps [simp del] xor_loop.simps [simp del] xor_decode.simps [simp del]

section \<open>Doubles and floats\<close>

definition encodeDoubleValue :: "64 word \<Rightarrow> byte \<Rightarrow> byte list res" where
  "encodeDoubleValue = encode_value 8"

definition double_flag :: "64 word \<Rightarrow> byte" where
  "double_flag diff = (if diff = 0 then zeros_flag 8 64 64 else zeros_flag 8 (clz diff) (ctz diff))"

definition tsCompressDoubleImp :: "byte list \<Rightarrow> nat \<Rightarrow> byte list res" where
  "tsCompressDoubleImp inp nelements = xor_compress 8 double_flag encodeDoubleValue inp nelements"

text \<open>
  The bytes of a difference are masked with \<open>1ul\<close> and shifted by up to 56 bits: this half is for a 64-bit \<open>unsigned long\<close>; a
  32-bit one makes those shifts undefined.
\<close>

definition decodeDoubleValue :: "byte list \<Rightarrow> nat \<Rightarrow> byte \<Rightarrow> (64 word \<times> nat) res" where
  "decodeDoubleValue = decode_value 8"

definition tsDecompressDoubleImp :: "byte list \<Rightarrow> nat \<Rightarrow> byte list res" where
  "tsDecompressDoubleImp inp nelements = xor_decompress 8 decodeDoubleValue inp nelements"

definition encodeFloatValue :: "32 word \<Rightarrow> byte \<Rightarrow> byte list res" where
  "encodeFloatValue = encode_value 4"

text \<open>\<open>__builtin_clzl\<close> and \<open>__builtin_ctzl\<close> of a non-zero 32-bit value converted to \<open>unsigned long\<close>.\<close>

definition builtin_clzl :: "nat \<Rightarrow> 32 word \<Rightarrow> nat" where
  "builtin_clzl ulong_bits diff = ulong_bits - 32 + clz diff"

definition builtin_ctzl :: "32 word \<Rightarrow> nat" where
  "builtin_ctzl diff = ctz diff"

definition float_flag :: "nat \<Rightarrow> 32 word \<Rightarrow> byte" where
  "float_flag ulong_bits diff =
     (if diff = 0 then zeros_flag 4 32 32
      else zeros_flag 4 (builtin_clzl ulong_bits diff) (builtin_ctzl diff))"

definition tsCompressFloatImp :: "nat \<Rightarrow> byte list \<Rightarrow> nat \<Rightarrow> byte list res" where
  "tsCompressFloatImp ulong_bits inp nelements =
     xor_compress 4 (float_flag ulong_bits) encodeFloatValue inp nelements"

definition decodeFloatValue :: "byte list \<Rightarrow> nat \<Rightarrow> byte \<Rightarrow> (32 word \<times> nat) res" where
  "decodeFloatValue = decode_value 4"

definition tsDecompressFloatImp :: "byte list \<Rightarrow> nat \<Rightarrow> byte list res" where
  "tsDecompressFloatImp inp nelements = xor_decompress 4 decodeFloatValue inp nelements"

section \<open>Value coders as an interface\<close>

text \<open>
  What the loops need of a value coder: the flag of a difference fits four bits and is 0 for a
  zero difference, encoding under that flag never fails, and decoding reads back the difference
  from any place of a buffer.
\<close>

locale value_coder =
  fixes bytes :: nat
    and flag_of :: "'a::len word \<Rightarrow> byte"
    and enc :: "'a word \<Rightarrow> byte \<Rightarrow> byte list res"
    and dec :: "byte list \<Rightarrow> nat \<Rightarrow> byte \<Rightarrow> ('a word \<times> nat) res"
    and code :: "'a word \<Rightarrow> byte list"
  assumes width: "LENGTH('a) = 8 * bytes"
    and flag_zero: "flag_of 0 = 0"
    and flag_small: "flag_of d AND mask 4 = flag_of d"
    and enc_code: "enc d (flag_of d) = Inr (code d)"
    and length_code: "length (code d) = flag_nbytes (flag_of d)"
    and dec_code: "dec (pre @ code d @ rest) (length pre) (flag_of d) =
      Inr (d, length pre + length (code d))"

definition xor_prev :: "nat \<Rightarrow> byte list \<Rightarrow> nat \<Rightarrow> 'a::len word" where
  "xor_prev bytes inp i = (if i = 0 then 0 else word_at bytes inp (i - 1))"

definition xor_diff :: "nat \<Rightarrow> byte list \<Rightarrow> nat \<Rightarrow> nat \<Rightarrow> 'a::len word" where
  "xor_diff bytes inp n i = (if i < n then word_at bytes inp i XOR xor_prev bytes inp i else 0)"

text \<open>The stream the encoder writes.\<close>

function xor_stream ::
    "('a::len word \<Rightarrow> byte) \<Rightarrow> ('a word \<Rightarrow> byte list) \<Rightarrow> (nat \<Rightarrow> 'a word) \<Rightarrow> nat \<Rightarrow> nat \<Rightarrow> byte list"
where
  "xor_stream flag_of code z n i =
     (if i < n then
        (flag_of (z i) OR push_bit 4 (flag_of (z (i + 1)))) # code (z i) @ code (z (i + 1)) @
          xor_stream flag_of code z n (i + 2)
      else [])"
  by pat_completeness auto
termination
  by (relation "measure (\<lambda>(flag_of, code, z, n, i). n - i)") auto

declare xor_stream.simps [simp del]

lemma xor_prev_Suc [simp]: "xor_prev bytes inp (Suc i) = word_at bytes inp i"
  by (simp add: xor_prev_def)

lemma load_word_in:
  assumes "length inp = n * bytes" and "i < n"
  shows "load_word bytes inp i = Inr (word_at bytes inp i)"
  using assms mult_le_mono1 [of "Suc i" n bytes] by (simp add: load_word_def)

lemma xor_out_step:
  assumes "length inp = n * bytes" and "i < n" and "LENGTH('a::len) = 8 * bytes"
  shows "take (i * bytes) inp @ le_bytes bytes (word_at bytes inp i :: 'a word) = take (Suc i * bytes) inp"
proof -
  have "bytes \<le> length (drop (i * bytes) inp)" using assms mult_le_mono1 [of "Suc i" n bytes] by simp
  then have "le_bytes bytes (word_at bytes inp i :: 'a word) = take bytes (drop (i * bytes) inp)"
    unfolding word_at_def using assms(3) by (intro le_bytes_of_le_bytes) auto
  then show ?thesis using take_Suc_chunk [of i bytes inp] by simp
qed

lemma flag_pair:
  fixes f g :: byte
  assumes "f AND mask 4 = f" and "g AND mask 4 = g"
  shows "(f OR push_bit 4 g) AND mask 4 = f" and "drop_bit 4 (f OR push_bit 4 g) AND mask 4 = g"
proof -
  have b: "bit f k \<Longrightarrow> k < 4" "bit g k \<Longrightarrow> k < 4" for k
    using assms by (metis bit_and_iff bit_mask_iff)+
  have eight: "bit g k \<Longrightarrow> k < 8" for k using bit_imp_le_length [of g k] by simp
  show "(f OR push_bit 4 g) AND mask 4 = f"
    by (rule bit_word_eqI) (use b in \<open>auto simp: bit_simps\<close>)
  show "drop_bit 4 (f OR push_bit 4 g) AND mask 4 = g"
    by (rule bit_word_eqI) (use b eight in \<open>force simp: bit_simps\<close>)
qed

context value_coder
begin

abbreviation diffs :: "byte list \<Rightarrow> nat \<Rightarrow> nat \<Rightarrow> 'a word" where
  "diffs inp n \<equiv> xor_diff bytes inp n"

lemma pair_ok:
  "xor_pair bytes enc n out d1 (flag_of d1) d2 (flag_of d2) =
    Inr (if length out + 1 + length (code d1) + length (code d2) \<le> n * bytes
      then Some (out @ (flag_of d1 OR push_bit 4 (flag_of d2)) # code d1 @ code d2) else None)"
  by (simp add: xor_pair_def enc_code length_code)

lemma load_diff:
  assumes "length inp = n * bytes" and "i < n"
  shows "load_word bytes inp i = Inr (word_at bytes inp i :: 'a word)"
    and "word_at bytes inp i XOR xor_prev bytes inp i = diffs inp n i"
  using assms load_word_in [OF assms] by (simp_all add: xor_diff_def)

lemma loop_even:
  assumes "length inp = n * bytes" and "i < n" and "even i"
  shows "xor_loop bytes flag_of enc inp n i (xor_prev bytes inp i) pd pf out =
    xor_loop bytes flag_of enc inp n (Suc i) (xor_prev bytes inp (Suc i)) (diffs inp n i)
      (flag_of (diffs inp n i)) out"
  using assms load_diff [OF assms(1,2)]
  by (subst xor_loop.simps) (simp add: Let_def even_iff_mod_2_eq_zero)

lemma loop_odd:
  assumes "length inp = n * bytes" and "i < n" and "odd i"
  shows "xor_loop bytes flag_of enc inp n i (xor_prev bytes inp i) d (flag_of d) out =
    (if length out + 1 + length (code d) + length (code (diffs inp n i)) \<le> n * bytes
     then xor_loop bytes flag_of enc inp n (Suc i) (xor_prev bytes inp (Suc i)) d (flag_of d)
       (out @ (flag_of d OR push_bit 4 (flag_of (diffs inp n i))) # code d @ code (diffs inp n i))
     else Inr None)"
  using assms load_diff [OF assms(1,2)]
  by (subst xor_loop.simps) (simp add: Let_def odd_iff_mod_2_eq_one pair_ok)

lemma loop_stream:
  assumes "length inp = n * bytes" and "even i" and "i \<le> n" and "length out \<le> n * bytes"
  shows "\<exists>e. rbind (xor_loop bytes flag_of enc inp n i (xor_prev bytes inp i) pd pf out)
      (xor_finish bytes enc n) = Inr e \<and>
    (\<forall>r. e = Some r \<longrightarrow> r = out @ xor_stream flag_of code (diffs inp n) n i \<and> length r \<le> n * bytes)"
  using assms
proof (induction "n - i" arbitrary: i pd pf out rule: less_induct)
  case less
  let ?z = "diffs inp n"
  consider (fin) "i = n" | (one) "Suc i = n" | (two) "Suc i < n" using less.prems(3) by linarith
  then show ?case
  proof cases
    case fin
    with less.prems show ?thesis
      by (auto simp: xor_loop.simps [of _ _ _ _ n n] xor_stream.simps [of _ _ _ n n] xor_finish_def)
  next
    case one
    then have z: "?z (Suc i) = 0" by (simp add: xor_diff_def)
    have "\<not> Suc (Suc i) < n" using one by simp
    then have st: "xor_stream flag_of code ?z n i =
        (flag_of (?z i) OR push_bit 4 (flag_of 0)) # code (?z i) @ code 0"
      using one z by (subst xor_stream.simps) (simp add: xor_stream.simps [of _ _ _ _ "Suc n"])
    have "xor_loop bytes flag_of enc inp n i (xor_prev bytes inp i) pd pf out =
        Inr (Some (?z i, flag_of (?z i), out))"
      using loop_even [OF less.prems(1) _ less.prems(2)] one
      by (simp add: xor_loop.simps [of _ _ _ _ n n])
    moreover have "odd n" using one less.prems(2) by auto
    ultimately show ?thesis
      using pair_ok [of n out "?z i" 0] st by (simp add: xor_finish_def flag_zero odd_iff_mod_2_eq_one)
  next
    case two
    let ?out = "out @ (flag_of (?z i) OR push_bit 4 (flag_of (?z (Suc i)))) # code (?z i) @ code (?z (Suc i))"
    have st: "out @ xor_stream flag_of code ?z n i = ?out @ xor_stream flag_of code ?z n (Suc (Suc i))"
      using two by (subst xor_stream.simps) simp
    have rec: "\<exists>e. rbind (xor_loop bytes flag_of enc inp n (Suc (Suc i)) (xor_prev bytes inp (Suc (Suc i)))
          (?z i) (flag_of (?z i)) ?out) (xor_finish bytes enc n) = Inr e \<and>
        (\<forall>r. e = Some r \<longrightarrow> r = out @ xor_stream flag_of code ?z n i \<and> length r \<le> n * bytes)"
      if "length ?out \<le> n * bytes"
      unfolding st using two less.prems(1,2) that by (intro less.hyps) auto
    have i: "i < n" and o: "odd (Suc i)" using two less.prems(2) by simp_all
    have step: "xor_loop bytes flag_of enc inp n i (xor_prev bytes inp i) pd pf out =
        (if length ?out \<le> n * bytes
         then xor_loop bytes flag_of enc inp n (Suc (Suc i)) (xor_prev bytes inp (Suc (Suc i)))
           (?z i) (flag_of (?z i)) ?out
         else Inr None)"
      using loop_even [OF less.prems(1) i less.prems(2), of pd pf out]
        loop_odd [OF less.prems(1) two o, of "?z i" out] by (simp add: add.assoc)
    show ?thesis
    proof (cases "length ?out \<le> n * bytes")
      case True
      from rec [OF True] show ?thesis by (simp only: step True if_True)
    next
      case False
      then show ?thesis by (simp only: step False if_False) (simp add: xor_finish_def)
    qed
  qed
qed

lemma decode_even:
  assumes "i < n" and "even i" and "buf = pre @ (flag_of d OR push_bit 4 (flag_of d')) # code d @ rest"
  shows "xor_decode bytes dec buf n i (length pre) fl pv out =
    xor_decode bytes dec buf n (Suc i) (length pre + 1 + length (code d))
      (drop_bit 4 (flag_of d OR push_bit 4 (flag_of d'))) (pv XOR d) (out @ le_bytes bytes (pv XOR d))"
proof -
  let ?f = "flag_of d OR push_bit 4 (flag_of d')"
  have "arr_get buf (int (length pre)) = Inr ?f" using assms(3) by (simp add: arr_get_def nth_append)
  moreover have "?f AND mask 4 = flag_of d" using flag_small by (intro flag_pair(1))
  moreover have "dec buf (Suc (length pre)) (flag_of d) = Inr (d, Suc (length pre) + length (code d))"
    using dec_code [of "pre @ [?f]" d rest] assms(3) by simp
  ultimately show ?thesis
    using assms(1,2) by (subst xor_decode.simps) (simp add: Let_def even_iff_mod_2_eq_zero)
qed

lemma decode_odd:
  assumes "i < n" and "odd i" and "buf = pre @ code d @ rest" and "fl AND mask 4 = flag_of d"
    and "ip = length pre"
  shows "xor_decode bytes dec buf n i ip fl pv out =
    xor_decode bytes dec buf n (Suc i) (length (pre @ code d))
      (drop_bit 4 fl) (pv XOR d) (out @ le_bytes bytes (pv XOR d))"
  using assms dec_code [of pre d rest]
  by (subst xor_decode.simps) (simp add: Let_def odd_iff_mod_2_eq_one)

lemma xor_step: "i < n \<Longrightarrow> xor_prev bytes inp i XOR diffs inp n i = word_at bytes inp i"
  by (simp add: xor_diff_def xor.left_commute)

lemma decode_stream:
  assumes "length inp = n * bytes" and "even i" and "i \<le> n"
    and "buf = pre @ xor_stream flag_of code (diffs inp n) n i @ pad"
  shows "xor_decode bytes dec buf n i (length pre) fl (xor_prev bytes inp i) (take (i * bytes) inp) = Inr inp"
  using assms
proof (induction "n - i" arbitrary: i pre fl rule: less_induct)
  case less
  let ?z = "diffs inp n"
  show ?case
  proof (cases "i < n")
    case False
    with less.prems(1,3) show ?thesis by (subst xor_decode.simps) simp
  next
    case True
    let ?f = "flag_of (?z i) OR push_bit 4 (flag_of (?z (Suc i)))"
    have buf: "buf = pre @ ?f # code (?z i) @ code (?z (Suc i)) @
        xor_stream flag_of code ?z n (Suc (Suc i)) @ pad"
      using less.prems(4) True by (subst (asm) xor_stream.simps) simp
    note out = xor_out_step [OF less.prems(1) _ width]
    have e: "xor_decode bytes dec buf n i (length pre) fl (xor_prev bytes inp i) (take (i * bytes) inp) =
        xor_decode bytes dec buf n (Suc i) (length pre + 1 + length (code (?z i))) (drop_bit 4 ?f)
          (word_at bytes inp i) (take (Suc i * bytes) inp)"
      using decode_even [OF True less.prems(2) buf] xor_step [OF True] out [OF True] by simp
    show ?thesis
    proof (cases "Suc i < n")
      case False
      then have "n = Suc i" using True by simp
      with e less.prems(1) show ?thesis by (simp add: xor_decode.simps [of _ _ _ _ "Suc i"])
    next
      case two: True
      let ?pre = "pre @ ?f # code (?z i)"
      have m: "drop_bit 4 ?f AND mask 4 = flag_of (?z (Suc i))" using flag_small by (intro flag_pair(2))
      have "xor_decode bytes dec buf n (Suc i) (length pre + 1 + length (code (?z i))) (drop_bit 4 ?f)
          (word_at bytes inp i) (take (Suc i * bytes) inp) =
        xor_decode bytes dec buf n (Suc (Suc i)) (length (?pre @ code (?z (Suc i)))) (drop_bit 4 (drop_bit 4 ?f))
          (word_at bytes inp (Suc i)) (take (Suc (Suc i) * bytes) inp)"
        using less.prems(2) buf xor_step [OF two, of inp] out [OF two]
          decode_odd [OF two _ _ m, of buf ?pre _ "length pre + 1 + length (code (?z i))"
            "word_at bytes inp i" "take (Suc i * bytes) inp"] by simp
      also have "\<dots> = Inr inp"
        using less.hyps [of "Suc (Suc i)" "?pre @ code (?z (Suc i))" "drop_bit 4 (drop_bit 4 ?f)"]
          two less.prems(1,2) buf by simp
      finally show ?thesis using e by simp
    qed
  qed
qed

lemma roundtrip:
  assumes "length inp = n * bytes"
  shows "\<exists>out. xor_compress bytes flag_of enc inp n = Inr out \<and> length out \<le> n * bytes + 1 \<and>
    (\<forall>pad. xor_decompress bytes dec (out @ pad) n = Inr inp)"
proof -
  obtain e where e: "rbind (xor_loop bytes flag_of enc inp n 0 0 0 0 []) (xor_finish bytes enc n) = Inr e"
    and st: "\<forall>r. e = Some r \<longrightarrow> r = xor_stream flag_of code (diffs inp n) n 0 \<and> length r \<le> n * bytes"
    using loop_stream [OF assms, of 0 "[]" 0 0] by (auto simp: xor_prev_def)
  have raw: "copy_bytes inp 0 (n * bytes) = Inr inp" using assms by (simp add: copy_bytes_def)
  have comp: "xor_compress bytes flag_of enc inp n =
      (case e of Some out \<Rightarrow> Inr (0 # out) | None \<Rightarrow> Inr (1 # inp))"
    using e raw by (auto simp: xor_compress_def rbind_eq_Inr split: option.splits)
  show ?thesis
  proof (cases e)
    case None
    have "copy_bytes (1 # inp @ pad) 1 (n * bytes) = Inr inp" for pad
      using copy_bytes_append [of "[1]" inp pad] assms by simp
    with None comp assms show ?thesis by (simp add: xor_decompress_def)
  next
    case (Some out)
    have "xor_decode bytes dec (0 # out @ pad) n 0 1 0 0 [] = Inr inp" for pad
      using decode_stream [OF assms, of 0 "0 # out @ pad" "[0]" pad 0] Some st by (simp add: xor_prev_def)
    moreover have "length out \<le> n * bytes" using Some st by blast
    ultimately show ?thesis using Some comp by (simp add: xor_decompress_def)
  qed
qed

end

section \<open>The value coders meet the interface\<close>

lemma drop_bit_8_le_bytes: "le_bytes n (drop_bit 8 w) = map (\<lambda>i. ucast (drop_bit (8 * Suc i) w)) [0..<n]"
  by (simp add: le_bytes_def drop_bit_drop_bit comp_def add.commute)

lemma low_bytes_le_bytes: "low_bytes n w = le_bytes n w"
proof (induction n arbitrary: w)
  case (Suc n)
  have "ucast (w AND mask 8) = (ucast w :: byte)"
    by (rule bit_word_eqI) (auto simp: bit_simps dest: bit_imp_le_length)
  then show ?case
    using Suc [of "drop_bit 8 w"] drop_bit_8_le_bytes [of n w]
    by (simp add: le_bytes_def upt_conv_Cons map_Suc_upt [symmetric] comp_def del: upt_Suc map_Suc_upt)
qed simp

lemma of_le_bytes_snoc:
  "of_le_bytes (bs @ [b]) = (of_le_bytes bs OR push_bit (8 * length bs) (ucast b) :: 'a::len word)"
  by (induction bs) (simp_all add: push_bit_or or.assoc add.commute)

lemma gather_ok:
  assumes "8 * length bs \<le> LENGTH('a::len)" and "buf = pre @ bs @ rest" and "i \<le> length bs"
  shows "gather buf (length pre) (length bs) i (of_le_bytes (take i bs)) = Inr (of_le_bytes bs :: 'a word)"
  using assms(3)
proof (induction "length bs - i" arbitrary: i)
  case 0
  then show ?case by (subst gather.simps) simp
next
  case (Suc k)
  then have i: "i < length bs" by simp
  have "take (Suc i) bs = take i bs @ [bs ! i]" using i by (rule take_Suc_conv_app_nth)
  then have "of_le_bytes (take (Suc i) bs) =
      (of_le_bytes (take i bs) OR push_bit (8 * i) (ucast (bs ! i)) :: 'a word)"
    using of_le_bytes_snoc [of "take i bs" "bs ! i"] i by simp
  moreover have "arr_get buf (int (length pre + i)) = Inr (bs ! i)"
    unfolding arr_get_nat using i assms(2) by (simp add: nth_append)
  moreover have "k = length bs - Suc i" using Suc.hyps(2) by simp
  moreover have "\<not> LENGTH('a) \<le> 8 * i" using i assms(1) by linarith
  ultimately show ?case using Suc.hyps(1) [of "Suc i"] i by (subst gather.simps) simp
qed

text \<open>A flag that describes where the non-zero bytes of a difference are.\<close>

definition flag_fits :: "nat \<Rightarrow> byte \<Rightarrow> 'a::len word \<Rightarrow> bool" where
  "flag_fits bytes f d \<longleftrightarrow> f AND mask 4 = f \<and> flag_nbytes f \<le> bytes \<and>
     (flag_shift bytes f = 0 \<and> take_bit (8 * flag_nbytes f) d = d \<or>
      flag_shift bytes f = int (8 * (bytes - flag_nbytes f)) \<and>
        (\<forall>n < 8 * (bytes - flag_nbytes f). \<not> bit d n))"

definition value_code :: "nat \<Rightarrow> byte \<Rightarrow> 'a::len word \<Rightarrow> byte list" where
  "value_code bytes f d = le_bytes (flag_nbytes f) (drop_bit (nat (flag_shift bytes f)) d)"

lemma length_value_code: "length (value_code bytes f d) = flag_nbytes f"
  by (simp add: value_code_def)

lemma flag_nbytes_pos: "1 \<le> flag_nbytes f"
  by (simp add: flag_nbytes_def)

lemma flag_fits_shift:
  assumes "flag_fits bytes f (d :: 'a::len word)" and "LENGTH('a) = 8 * bytes"
  shows "0 \<le> flag_shift bytes f" and "flag_shift bytes f < int LENGTH('a)"
  using assms flag_nbytes_pos [of f] by (auto simp: flag_fits_def)

lemma encode_value_fits:
  assumes "flag_fits bytes f (d :: 'a::len word)" and "LENGTH('a) = 8 * bytes"
  shows "encode_value bytes d f = Inr (value_code bytes f d)"
  using flag_fits_shift [OF assms]
  by (simp add: encode_value_def value_code_def low_bytes_le_bytes Let_def not_le not_less)

lemma flag_fits_value:
  assumes "flag_fits bytes f (d :: 'a::len word)" and "LENGTH('a) = 8 * bytes"
  shows "push_bit (nat (flag_shift bytes f))
    (take_bit (8 * flag_nbytes f) (drop_bit (nat (flag_shift bytes f)) d)) = d"
proof -
  let ?s = "8 * (bytes - flag_nbytes f)"
  have k: "?s + 8 * flag_nbytes f = LENGTH('a)" using assms by (auto simp: flag_fits_def)
  consider "flag_shift bytes f = 0" "take_bit (8 * flag_nbytes f) d = d"
    | "flag_shift bytes f = int ?s" "\<forall>n < ?s. \<not> bit d n"
    using assms(1) by (auto simp: flag_fits_def)
  then show ?thesis
  proof cases
    case 2
    show ?thesis
    proof (rule bit_word_eqI)
      fix n
      assume "n < LENGTH('a)"
      with 2 k show "bit (push_bit (nat (flag_shift bytes f))
          (take_bit (8 * flag_nbytes f) (drop_bit (nat (flag_shift bytes f)) d))) n = bit d n"
        unfolding 2(1) nat_int
        by (cases "n < ?s") (auto simp: bit_push_bit_iff bit_take_bit_iff bit_drop_bit_eq)
    qed
  qed simp
qed

lemma decode_value_fits:
  assumes "flag_fits bytes f (d :: 'a::len word)" and "LENGTH('a) = 8 * bytes"
  shows "decode_value bytes (pre @ value_code bytes f d @ rest) (length pre) f =
    Inr (d, length pre + flag_nbytes f)"
proof -
  have "flag_nbytes f \<le> bytes" using assms(1) by (simp add: flag_fits_def)
  then have "gather (pre @ value_code bytes f d @ rest) (length pre) (flag_nbytes f) 0 0 =
      Inr (of_le_bytes (value_code bytes f d) :: 'a word)"
    using gather_ok [of "value_code bytes f d" _ pre rest 0, where ?'a = 'a] assms(2)
    by (simp add: value_code_def)
  then show ?thesis
    using flag_fits_shift [OF assms] flag_fits_value [OF assms]
    by (simp add: decode_value_def Let_def value_code_def of_le_bytes_le_bytes not_le not_less)
qed

text \<open>The flags of the code, from the zero counts of the difference itself.\<close>

lemma small_flags:
  assumes "1 \<le> k" and "k \<le> 8" and "f = dec_nbytes (word_of_int (int k))" and "g = push_bit 3 1 OR f"
  shows "flag_nbytes f = k \<and> drop_bit 3 f = 0 \<and> f AND mask 4 = f"
    and "flag_nbytes g = k \<and> drop_bit 3 g = 1 \<and> g AND mask 4 = g"
proof -
  have "list_all (\<lambda>k. let f = dec_nbytes (word_of_int (int k)); g = push_bit 3 1 OR f in
      (flag_nbytes f = k \<and> drop_bit 3 f = 0 \<and> f AND mask 4 = f) \<and>
      (flag_nbytes g = k \<and> drop_bit 3 g = 1 \<and> g AND mask 4 = g)) [1..<9]"
    by code_simp
  moreover have "k \<in> set [1..<9]" using assms(1,2) by auto
  ultimately have "(flag_nbytes f = k \<and> drop_bit 3 f = 0 \<and> f AND mask 4 = f) \<and>
      (flag_nbytes g = k \<and> drop_bit 3 g = 1 \<and> g AND mask 4 = g)"
    unfolding list_all_iff Let_def assms(3,4) by (rule bspec)
  then show "flag_nbytes f = k \<and> drop_bit 3 f = 0 \<and> f AND mask 4 = f"
    "flag_nbytes g = k \<and> drop_bit 3 g = 1 \<and> g AND mask 4 = g" by blast+
qed

lemma fits_low:
  "flag_nbytes f = k \<and> drop_bit 3 f = 0 \<and> f AND mask 4 = f \<Longrightarrow> k \<le> bytes \<Longrightarrow> take_bit (8 * k) d = d \<Longrightarrow>
    flag_fits bytes f d"
  by (simp add: flag_fits_def flag_shift_def)

lemma fits_high:
  "flag_nbytes f = k \<and> drop_bit 3 f = 1 \<and> f AND mask 4 = f \<Longrightarrow> k \<le> bytes \<Longrightarrow>
    (\<And>n. n < 8 * (bytes - k) \<Longrightarrow> \<not> bit d n) \<Longrightarrow> flag_fits bytes f d"
  by (simp add: flag_fits_def flag_shift_def of_nat_diff)

lemma zeros_flag_fits:
  fixes d :: "'a::len word"
  assumes "LENGTH('a) = 8 * bytes" and "bytes \<le> 8" and "d \<noteq> 0"
  shows "flag_fits bytes (zeros_flag bytes (clz d) (ctz d)) d"
proof (cases "clz d < ctz d")
  case True
  let ?k = "bytes - ctz d div 8"
  have "ctz d < LENGTH('a)"
  proof (rule ccontr)
    assume "\<not> ?thesis"
    then have "\<not> bit d n" if "n < LENGTH('a)" for n using that by (intro ctz_bit) simp
    then have "d = 0" by (intro bit_word_eqI) simp
    with assms(3) show False ..
  qed
  then have "ctz d div 8 < bytes" using assms(1) by (simp add: div_less_iff_less_mult mult.commute)
  then have k: "1 \<le> ?k" "?k \<le> 8" "?k \<le> bytes" "int bytes - int (ctz d div 8) = int ?k"
    using assms(2) by auto
  have "\<not> bit d n" if "n < 8 * (bytes - ?k)" for n
    using that k(1) by (intro ctz_bit) (simp add: less_le_trans)
  then show ?thesis
    unfolding zeros_flag_def k(4) using True k(3)
    by (simp only: if_True) (rule fits_high [OF small_flags(2) [OF k(1,2) refl refl]])
next
  case False
  let ?k = "bytes - clz d div 8"
  have "clz d < LENGTH('a)" using assms(3) by (rule clz_less)
  then have "clz d div 8 < bytes" using assms(1) by (simp add: div_less_iff_less_mult mult.commute)
  then have k: "1 \<le> ?k" "?k \<le> 8" "?k \<le> bytes" "int bytes - int (clz d div 8) = int ?k"
    using assms(2) by auto
  have "take_bit (8 * ?k) d = d" using assms(1) by (intro take_bit_clz) simp
  then show ?thesis
    unfolding zeros_flag_def k(4) using False k(3)
    by (simp only: if_False) (rule fits_low [OF small_flags(1) [OF k(1,2) refl refl]])
qed

lemma double_flag_fits: "flag_fits 8 (double_flag d) d"
proof (cases "d = 0")
  case True
  have "double_flag 0 = 0" by code_simp
  with True show ?thesis by (simp add: flag_fits_def flag_nbytes_def flag_shift_def)
qed (simp add: double_flag_def zeros_flag_fits)

lemma float_flag_fits: "flag_fits 4 (float_flag 32 d) d"
proof (cases "d = 0")
  case True
  have "float_flag 32 0 = 0" by code_simp
  with True show ?thesis by (simp add: flag_fits_def flag_nbytes_def flag_shift_def)
qed (simp add: float_flag_def builtin_clzl_def builtin_ctzl_def zeros_flag_fits)

lemma value_coderI:
  fixes flag_of :: "'a::len word \<Rightarrow> byte"
  assumes "LENGTH('a) = 8 * bytes" and "flag_of 0 = 0" and "\<And>d. flag_fits bytes (flag_of d) d"
  shows "value_coder bytes flag_of (encode_value bytes) (decode_value bytes)
    (\<lambda>d. value_code bytes (flag_of d) d)"
proof unfold_locales
  fix d :: "'a word"
  show "flag_of d AND mask 4 = flag_of d" using assms(3) [of d] by (simp add: flag_fits_def)
qed (use assms in \<open>simp_all add: encode_value_fits decode_value_fits length_value_code\<close>)

interpretation dbl: value_coder 8 double_flag encodeDoubleValue decodeDoubleValue
  "\<lambda>d. value_code 8 (double_flag d) d"
  unfolding encodeDoubleValue_def decodeDoubleValue_def
proof (rule value_coderI)
  show "double_flag 0 = 0" by code_simp
qed (simp_all add: double_flag_fits)

interpretation flt: value_coder 4 "float_flag 32" encodeFloatValue decodeFloatValue
  "\<lambda>d. value_code 4 (float_flag 32 d) d"
  unfolding encodeFloatValue_def decodeFloatValue_def
proof (rule value_coderI)
  show "float_flag 32 0 = 0" by code_simp
qed (simp_all add: float_flag_fits)

section \<open>Correctness\<close>

text \<open>
  C4.
  \<open>tsCompressDoubleImp\<close> is defined on every column of doubles, writes at most one byte more
  than the column has, and \<open>tsDecompressDoubleImp\<close> recovers every bit of the column from what it
  wrote, whatever follows it in the buffer.
\<close>

theorem double_roundtrip:
  assumes "length inp = n * 8"
  shows "\<exists>out. tsCompressDoubleImp inp n = Inr out \<and> length out \<le> n * 8 + 1 \<and>
    (\<forall>pad. tsDecompressDoubleImp (out @ pad) n = Inr inp)"
  unfolding tsCompressDoubleImp_def tsDecompressDoubleImp_def using assms by (rule dbl.roundtrip)

theorem double_roundtrip_witness:
  "\<exists>out. tsCompressDoubleImp [0,0,0,0,0,0,240,63, 0,0,0,0,0,0,248,63, 1,2,3,4,5,6,7,8] 3 = Inr out \<and>
    length out \<le> 25 \<and>
    tsDecompressDoubleImp (out @ [9]) 3 = Inr [0,0,0,0,0,0,240,63, 0,0,0,0,0,0,248,63, 1,2,3,4,5,6,7,8]"
  using double_roundtrip [of "[0,0,0,0,0,0,240,63, 0,0,0,0,0,0,248,63, 1,2,3,4,5,6,7,8]" 3] by auto

text \<open>
  C10.
  Where \<open>unsigned long\<close> has 32 bits, the float compressor is defined on every column of floats,
  writes at most one byte more than the column has, and the decompressor recovers every bit.
\<close>

theorem float_roundtrip_ulong32:
  assumes "length inp = n * 4"
  shows "\<exists>out. tsCompressFloatImp 32 inp n = Inr out \<and> length out \<le> n * 4 + 1 \<and>
    (\<forall>pad. tsDecompressFloatImp (out @ pad) n = Inr inp)"
  unfolding tsCompressFloatImp_def tsDecompressFloatImp_def using assms by (rule flt.roundtrip)

theorem float_roundtrip_ulong32_witness:
  "\<exists>out. tsCompressFloatImp 32 [0,0,128,63, 0,0,192,63] 2 = Inr out \<and> length out \<le> 9 \<and>
    tsDecompressFloatImp (out @ [9]) 2 = Inr [0,0,128,63, 0,0,192,63]"
  using float_roundtrip_ulong32 [of "[0,0,128,63, 0,0,192,63]" 2] by auto

lemma clz_high_byte:
  assumes "b3 \<noteq> 0"
  shows "clz (of_le_bytes [b0, b1, b2, b3] :: 32 word) < 8"
proof (rule ccontr)
  let ?d = "of_le_bytes [b0, b1, b2, b3] :: 32 word"
  assume "\<not> ?thesis"
  then have z: "\<not> bit ?d (24 + k)" for k by (intro clz_bit) simp
  have "bit ?d (24 + k) = bit b3 k" if "k < 8" for k
  proof -
    have "(24 + k) div 8 = 3" "(24 + k) mod 8 = k" using that by presburger+
    with that show ?thesis by (simp only: bit_of_le_bytes) simp
  qed
  with z have "b3 = 0" by (intro bit_word_eqI) simp
  with assms show False ..
qed

text \<open>
  C11.
  Where \<open>unsigned long\<close> has 64 bits, the zero counts of the float compressor are 32 too large:
  a single float whose most significant byte is not zero is stored as its least significant byte
  alone, and decompressing it clears the other three bytes.
\<close>

theorem float_lossy_ulong64:
  assumes "b3 \<noteq> 0"
  shows "tsCompressFloatImp 64 [b0, b1, b2, b3] 1 = Inr [0, 0, b0, 0] \<and>
    tsDecompressFloatImp [0, 0, b0, 0] 1 = Inr [b0, 0, 0, 0]"
proof
  let ?d = "of_le_bytes [b0, b1, b2, b3] :: 32 word"
  have clz: "clz ?d < 8" using assms by (rule clz_high_byte)
  have "?d \<noteq> 0"
  proof
    assume d: "?d = 0"
    have "clz (0 :: 32 word) = 32" by code_simp
    with clz show False unfolding d by simp
  qed
  moreover have "ctz ?d \<le> 32" using ctz_le [of ?d] by simp
  moreover have "(32 + clz ?d) div 8 = 4" using clz by simp
  ultimately have f: "float_flag 64 ?d = 0"
    unfolding float_flag_def builtin_clzl_def builtin_ctzl_def zeros_flag_def dec_nbytes_def by simp
  have nb: "flag_nbytes 0 = 1" and sh: "flag_shift 4 0 = 0" by code_simp+
  have "ucast (?d AND mask 8) = b0"
    by (rule bit_word_eqI) (auto simp: bit_simps)
  then have e: "encodeFloatValue ?d 0 = Inr [b0]"
    unfolding encodeFloatValue_def encode_value_def Let_def nb sh One_nat_def low_bytes.simps by simp
  have e0: "encodeFloatValue 0 0 = Inr [0]" by code_simp
  have l: "load_word 4 [b0, b1, b2, b3] 0 = Inr ?d" by (simp add: load_word_def word_at_def)
  show "tsCompressFloatImp 64 [b0, b1, b2, b3] 1 = Inr [0, 0, b0, 0]"
    unfolding tsCompressFloatImp_def xor_compress_def
    by (simp add: xor_loop.simps [of _ _ _ _ "Suc 0"] l Let_def f xor_finish_def xor_pair_def nb e e0
        del: of_le_bytes.simps)
  have "decodeFloatValue [0, 0, b0, 0] 2 0 = Inr (ucast b0, 3)"
    by (simp add: decodeFloatValue_def decode_value_def nb sh gather.simps [of _ _ "Suc 0"] arr_get_def)
  moreover have "le_bytes 4 (ucast b0 :: 32 word) = [b0, 0, 0, 0]"
    using le_bytes_of_le_bytes [of 4 "[b0, 0, 0, 0]", where ?'a = 32] by simp
  ultimately show "tsDecompressFloatImp [0, 0, b0, 0] 1 = Inr [b0, 0, 0, 0]"
    by (simp add: tsDecompressFloatImp_def xor_decompress_def xor_decode.simps [of _ _ _ "Suc 0"]
        arr_get_def numeral_2_eq_2)
qed

theorem float_lossy_ulong64_witness:
  "tsCompressFloatImp 64 [0, 0, 128, 63] 1 = Inr [0, 0, 0, 0] \<and>
    tsDecompressFloatImp [0, 0, 0, 0] 1 = Inr [0, 0, 0, 0]"
  using float_lossy_ulong64 [of 63 0 0 128] by simp

text \<open>There, a difference with a zero most significant byte makes the encoder shift by a negative count.\<close>

lemma float_bad_shift_ulong64:
  "tsCompressFloatImp 64 [0, 0, 0, 0, 0, 0, 0, 0, 0, 0, 1, 0, 0, 0, 1, 0] 4 = Inl Bad_Shift"
  by code_simp

end
