(* ===== verification/CompBool.thy ===== *)
theory CompBool
  imports CompInt
begin

text \<open>
  Boolean compression of src/src/util/src/tcompression.c: two bits per value, where the comment at the head of that file says one
  (\<open>tsCompressBoolImp\<close>, \<open>tsDecompressBoolImp\<close>) and the run-length variant
  (\<open>tsCompressBoolRLEImp\<close>, \<open>tsDecompressBoolRLEImp\<close>).
\<close>

section \<open>The code\<close>

definition TSDB_DATA_BOOL_NULL :: byte where "TSDB_DATA_BOOL_NULL = 2"

text \<open>The update of \<open>output[pos]\<close> for a value in slot \<open>k\<close> of its byte; other values exit.\<close>

definition bool_put :: "byte \<Rightarrow> nat \<Rightarrow> byte \<Rightarrow> byte res" where
  "bool_put b k v =
     (if v = 1 then Inr (b OR push_bit (2 * k) 1)
      else if v = 0 then Inr (b AND (push_bit (2 * k) 1 - 1))
      else if v = TSDB_DATA_BOOL_NULL then Inr (b OR push_bit (2 * k) 2)
      else Inl Exit_Failure)"

text \<open>\<open>out\<close> is the written part of the output; \<open>pos\<close> is the index of its last byte.\<close>

function bool_loop :: "byte list \<Rightarrow> nat \<Rightarrow> nat \<Rightarrow> byte list \<Rightarrow> byte list res" where
  "bool_loop inp n i out =
     (if i < n then
        let out1 = (if i mod 4 = 0 then out @ [0] else out); pos = int (length out1) - 1 in
        rbind (arr_get inp (int i)) (\<lambda>v.
        rbind (arr_get out1 pos) (\<lambda>b.
        rbind (bool_put b (i mod 4) v) (\<lambda>b'.
        rbind (arr_set out1 pos b') (\<lambda>out2. bool_loop inp n (i + 1) out2))))
      else Inr out)"
  by pat_completeness auto
termination
  by (relation "measure (\<lambda>(inp, n, i, out). n - i)") auto

definition tsCompressBoolImp :: "byte list \<Rightarrow> nat \<Rightarrow> byte list res" where
  "tsCompressBoolImp inp nelements = bool_loop inp nelements 0 []"

function bool_unpack :: "byte list \<Rightarrow> nat \<Rightarrow> nat \<Rightarrow> int \<Rightarrow> byte list \<Rightarrow> byte list res" where
  "bool_unpack inp n i ipos out =
     (if i < n then
        let ip = (if i mod 4 = 0 then ipos + 1 else ipos) in
        rbind (arr_get inp ip) (\<lambda>b.
          let ele = drop_bit (2 * (i mod 4)) b AND mask 2 in
          bool_unpack inp n (i + 1) ip
            (out @ [if ele = 1 then 1 else if ele = 2 then TSDB_DATA_BOOL_NULL else 0]))
      else Inr out)"
  by pat_completeness auto
termination
  by (relation "measure (\<lambda>(inp, n, i, ip, out). n - i)") auto

definition tsDecompressBoolImp :: "byte list \<Rightarrow> nat \<Rightarrow> byte list res" where
  "tsDecompressBoolImp inp nelements = bool_unpack inp nelements 0 (- 1) []"

text \<open>The run that starts at \<open>num\<close>: the position after it and its length, at most 127.\<close>

function rle_run :: "byte list \<Rightarrow> nat \<Rightarrow> byte \<Rightarrow> nat \<Rightarrow> nat \<Rightarrow> (nat \<times> nat) res" where
  "rle_run inp n num i counter =
     (if i < n then
        rbind (arr_get inp (int i)) (\<lambda>b.
          if b = num then
            if counter + 1 = 127 then Inr (i + 1, counter + 1)
            else rle_run inp n num (i + 1) (counter + 1)
          else Inr (i, counter))
      else Inr (i, counter))"
  by pat_completeness auto
termination
  by (relation "measure (\<lambda>(inp, n, num, i, counter). n - i)") auto

declare bool_loop.simps [simp del] bool_unpack.simps [simp del] rle_run.simps [simp del]

lemma rle_run_progress: "rle_run inp n num i c = Inr (i', c') \<Longrightarrow> i \<le> i'"
proof (induction inp n num i c rule: rle_run.induct)
  case (1 inp n num i c)
  from "1.prems" show ?case
    by (subst (asm) rle_run.simps) (auto simp: rbind_eq_Inr split: if_splits dest: "1.IH")
qed

function rle_loop :: "byte list \<Rightarrow> nat \<Rightarrow> nat \<Rightarrow> byte list \<Rightarrow> byte list res" where
  "rle_loop inp n i out =
     (if i < n then
        rbind (arr_get inp (int i)) (\<lambda>num.
        rbind (rle_run inp n num (i + 1) 1) (\<lambda>p.
          if num = 1 then rle_loop inp n (fst p) (out @ [mask 1 OR push_bit 1 (of_nat (snd p))])
          else if num = 0 then rle_loop inp n (fst p) (out @ [push_bit 1 (of_nat (snd p)) OR mask 0])
          else Inl Exit_Failure))
      else Inr out)"
  by pat_completeness auto
termination
  by (relation "measure (\<lambda>(inp, n, i, out). n - i)") (auto dest: rle_run_progress)

definition tsCompressBoolRLEImp :: "byte list \<Rightarrow> nat \<Rightarrow> byte list res" where
  "tsCompressBoolRLEImp inp nelements = rle_loop inp nelements 0 []"

text \<open>\<open>opos\<close> is the length of what \<open>memset\<close> has written so far.\<close>

function rle_decode :: "byte list \<Rightarrow> nat \<Rightarrow> nat \<Rightarrow> byte list \<Rightarrow> byte list res" where
  "rle_decode inp n ipos out =
     rbind (arr_get inp (int ipos)) (\<lambda>encode.
       let counter = unat (drop_bit 1 encode AND mask 7); val = encode AND mask 1;
           out' = out @ replicate counter val in
       if n \<le> length out' then Inr out' else rle_decode inp n (ipos + 1) out')"
  by pat_completeness auto
termination
  by (relation "measure (\<lambda>(inp, n, ipos, out). length inp - ipos)") (auto simp: arr_get_def split: if_splits)

definition tsDecompressBoolRLEImp :: "byte list \<Rightarrow> nat \<Rightarrow> byte list res" where
  "tsDecompressBoolRLEImp inp nelements = rle_decode inp nelements 0 []"

declare rle_loop.simps [simp del] rle_decode.simps [simp del]

section \<open>Two bits per value\<close>

definition is_bool :: "byte \<Rightarrow> bool" where
  "is_bool v \<longleftrightarrow> v = 0 \<or> v = 1 \<or> v = TSDB_DATA_BOOL_NULL"

definition bool_field :: "byte list \<Rightarrow> nat \<Rightarrow> byte" where
  "bool_field out j = drop_bit (2 * (j mod 4)) (out ! (j div 4)) AND mask 2"

lemma bool_put_or:
  assumes "take_bit (2 * k) b = b" and "is_bool v"
  shows "bool_put b k v = Inr (b OR push_bit (2 * k) v)"
proof -
  have "b AND (push_bit (2 * k) 1 - 1) = b"
    using assms(1) by (simp add: push_bit_of_1 mask_eq_exp_minus_1 [symmetric] take_bit_eq_mask [symmetric])
  then show ?thesis using assms(2) by (auto simp: bool_put_def is_bool_def TSDB_DATA_BOOL_NULL_def)
qed

lemma is_bool_bits: "is_bool v \<Longrightarrow> v AND mask 2 = v"
  by (auto simp: is_bool_def TSDB_DATA_BOOL_NULL_def mask_eq_exp_minus_1)

lemma put_field:
  fixes b v :: byte
  assumes "take_bit (2 * k) b = b" and "v AND mask 2 = v" and "k < 4"
  shows "j < k \<Longrightarrow> drop_bit (2 * j) (b OR push_bit (2 * k) v) AND mask 2 = drop_bit (2 * j) b AND mask 2"
    and "drop_bit (2 * k) (b OR push_bit (2 * k) v) AND mask 2 = v"
    and "take_bit (2 * Suc k) (b OR push_bit (2 * k) v) = b OR push_bit (2 * k) v"
proof -
  have b: "bit b m \<Longrightarrow> m < 2 * k" for m using assms(1) by (metis bit_take_bit_iff)
  have v: "bit v m \<Longrightarrow> m < 2" for m using assms(2) by (metis bit_and_iff bit_mask_iff)
  have bv: "bit v (m - 2 * k) \<Longrightarrow> m < Suc (Suc (2 * k))" for m using v [of "m - 2 * k"] by linarith
  show "drop_bit (2 * j) (b OR push_bit (2 * k) v) AND mask 2 = drop_bit (2 * j) b AND mask 2" if "j < k"
    using that by (intro bit_word_eqI) (auto simp: bit_simps)
  show "drop_bit (2 * k) (b OR push_bit (2 * k) v) AND mask 2 = v"
    using assms(3) by (intro bit_word_eqI) (auto simp: bit_simps dest: v b)
  show "take_bit (2 * Suc k) (b OR push_bit (2 * k) v) = b OR push_bit (2 * k) v"
    by (intro bit_word_eqI) (auto simp: bit_simps dest: b bv)
qed

text \<open>What the compressor has written after \<open>i\<close> values.\<close>

definition bool_inv :: "byte list \<Rightarrow> nat \<Rightarrow> byte list \<Rightarrow> bool" where
  "bool_inv inp i out \<longleftrightarrow> length out = (i + 3) div 4 \<and> (\<forall>j < i. bool_field out j = inp ! j) \<and>
     (i mod 4 \<noteq> 0 \<longrightarrow> take_bit (2 * (i mod 4)) (out ! (i div 4)) = out ! (i div 4))"

lemma bool_inv_step:
  assumes inv: "bool_inv inp i out" and v: "is_bool (inp ! i)"
  defines "out1 \<equiv> if i mod 4 = 0 then out @ [0] else out"
  defines "b' \<equiv> out1 ! (i div 4) OR push_bit (2 * (i mod 4)) (inp ! i)"
  shows "length out1 = Suc (i div 4)"
    and "bool_put (out1 ! (i div 4)) (i mod 4) (inp ! i) = Inr b'"
    and "bool_inv inp (Suc i) (out1[i div 4 := b'])"
proof -
  let ?k = "i mod 4" and ?b = "out1 ! (i div 4)"
  have len: "length out = (i + 3) div 4" using inv by (simp add: bool_inv_def)
  have e0: "(i + 3) div 4 = i div 4" if "?k = 0" using that by presburger
  have e1: "(i + 3) div 4 = Suc (i div 4)" if "?k \<noteq> 0" using that by presburger
  show l1: "length out1 = Suc (i div 4)" using len e0 e1 by (auto simp: out1_def)
  have pre: "out1 ! m = out ! m" if "m < length out" for m using that by (simp add: out1_def nth_append)
  have b: "take_bit (2 * ?k) ?b = ?b"
    using inv len e0 by (cases "?k = 0") (simp_all add: bool_inv_def out1_def nth_append)
  show "bool_put ?b ?k (inp ! i) = Inr b'"
    unfolding b'_def using b v by (rule bool_put_or)
  have k4: "?k < 4" by simp
  note field = put_field [OF b is_bool_bits [OF v] k4, folded b'_def]
  have old: "bool_field out1 j = inp ! j" if "j < i" for j
  proof -
    have "j div 4 < length out" unfolding len using that by presburger
    then show ?thesis using inv that pre by (simp add: bool_field_def bool_inv_def)
  qed
  have "bool_field (out1[i div 4 := b']) j = inp ! j" if j: "j < Suc i" for j
  proof (cases "j = i")
    case True
    then show ?thesis using l1 field(2) by (simp add: bool_field_def)
  next
    case False
    then have ji: "j < i" using j by simp
    show ?thesis
    proof (cases "j div 4 = i div 4")
      case True
      have jk: "j mod 4 < ?k" using True ji div_mult_mod_eq [of j 4] div_mult_mod_eq [of i 4] by linarith
      have "bool_field (out1[i div 4 := b']) j = drop_bit (2 * (j mod 4)) b' AND mask 2"
        unfolding bool_field_def True using l1 by simp
      also have "\<dots> = bool_field out1 j" unfolding field(1) [OF jk] bool_field_def True ..
      finally show ?thesis using old [OF ji] by simp
    next
      case False
      then show ?thesis using old [OF ji] by (simp add: bool_field_def)
    qed
  qed
  moreover have "length (out1[i div 4 := b']) = (Suc i + 3) div 4" using l1 by simp
  moreover have "take_bit (2 * (Suc i mod 4)) (out1[i div 4 := b'] ! (Suc i div 4)) =
      out1[i div 4 := b'] ! (Suc i div 4)" if "Suc i mod 4 \<noteq> 0"
  proof -
    have "Suc i mod 4 = Suc ?k" "Suc i div 4 = i div 4" using that by presburger+
    then show ?thesis using l1 field(3) by simp
  qed
  ultimately show "bool_inv inp (Suc i) (out1[i div 4 := b'])" by (simp only: bool_inv_def) blast
qed

lemma bool_loop_step:
  assumes "bool_inv inp i out" and "i < n" and "n \<le> length inp" and "is_bool (inp ! i)"
  shows "\<exists>out'. bool_loop inp n i out = bool_loop inp n (Suc i) out' \<and> bool_inv inp (Suc i) out'"
proof -
  have g: "arr_get inp (int i) = Inr (inp ! i)" using assms by (simp add: arr_get_def)
  let ?o = "if i mod 4 = 0 then out @ [0] else out"
  let ?b = "?o ! (i div 4) OR push_bit (2 * (i mod 4)) (inp ! i)"
  note st = bool_inv_step [OF assms(1,4)]
  have pos: "int (length ?o) - 1 = int (i div 4)" unfolding st(1) by simp
  have acc: "arr_get ?o (int (i div 4)) = Inr (?o ! (i div 4))"
    "arr_set ?o (int (i div 4)) ?b = Inr (?o[i div 4 := ?b])"
    unfolding arr_get_def arr_set_def st(1) by simp_all
  have "bool_loop inp n i out = bool_loop inp n (Suc i) (?o[i div 4 := ?b])"
    using assms(2) by (subst bool_loop.simps)
      (simp only: if_True Let_def g pos acc st(2) rbind_simps Suc_eq_plus1)
  with st(3) show ?thesis by blast
qed

lemma bool_loop_upto:
  assumes "bool_inv inp i out" and "i \<le> k" and "k \<le> n" and "n \<le> length inp"
    and "\<forall>j < k. is_bool (inp ! j)"
  shows "\<exists>out'. bool_loop inp n i out = bool_loop inp n k out' \<and> bool_inv inp k out'"
  using assms
proof (induction "k - i" arbitrary: i out)
  case (Suc m)
  then have i: "i < n" "is_bool (inp ! i)" by auto
  from bool_loop_step [OF Suc.prems(1) i(1) Suc.prems(4) i(2)] obtain out' where
    "bool_loop inp n i out = bool_loop inp n (Suc i) out'" and o: "bool_inv inp (Suc i) out'" by blast
  moreover have "m = k - Suc i" "Suc i \<le> k" using Suc.hyps(2) by simp_all
  ultimately show ?case using Suc.hyps(1) [OF _ o] Suc.prems(3-5) by simp
qed auto

lemma bool_inv_0: "bool_inv inp 0 []"
  by (simp add: bool_inv_def)

lemma bool_loop_exit:
  assumes "bool_inv inp k out" and "k < n" and "n \<le> length inp" and "\<not> is_bool (inp ! k)"
  shows "bool_loop inp n k out = Inl Exit_Failure"
proof -
  have g: "arr_get inp (int k) = Inr (inp ! k)" using assms by (simp add: arr_get_def)
  let ?o = "if k mod 4 = 0 then out @ [0] else out"
  have "0 < length ?o"
  proof (cases "k mod 4 = 0")
    case False
    then have "0 < (k + 3) div 4" by presburger
    with assms(1) False show ?thesis by (auto simp: bool_inv_def)
  qed simp
  then have a: "arr_get ?o (int (length ?o) - 1) = Inr (?o ! nat (int (length ?o) - 1))"
    unfolding arr_get_def by simp
  have p: "bool_put b s (inp ! k) = Inl Exit_Failure" for b s
    using assms(4) by (simp add: bool_put_def is_bool_def)
  show ?thesis
    using assms(2) by (subst bool_loop.simps) (simp only: if_True Let_def g a p rbind_simps)
qed

lemma bool_unpack_ok:
  assumes "\<forall>j < n. bool_field buf j = inp ! j \<and> is_bool (inp ! j)" and "(n + 3) div 4 \<le> length buf"
    and "i \<le> n" and "length inp = n" and "ip = int ((i + 3) div 4) - 1"
  shows "bool_unpack buf n i ip (take i inp) = Inr inp"
  using assms(3-)
proof (induction "n - i" arbitrary: i ip)
  case 0
  then show ?case by (subst bool_unpack.simps) simp
next
  case (Suc m)
  then have i: "i < n" by simp
  have e: "(if i mod 4 = 0 then ip + 1 else ip) = int (i div 4)"
  proof (cases "i mod 4 = 0")
    case True
    then have "(i + 3) div 4 = i div 4" by presburger
    with True Suc.prems(3) show ?thesis by simp
  next
    case False
    then have "(i + 3) div 4 = Suc (i div 4)" by presburger
    with False Suc.prems(3) show ?thesis by simp
  qed
  have "i div 4 < (n + 3) div 4" using i by presburger
  then have g: "arr_get buf (int (i div 4)) = Inr (buf ! (i div 4))" using assms(2) by (simp add: arr_get_nat)
  have f: "drop_bit (2 * (i mod 4)) (buf ! (i div 4)) AND mask 2 = inp ! i" and v: "is_bool (inp ! i)"
    using assms(1) i by (auto simp: bool_field_def)
  have "(if inp ! i = 1 then 1 else if inp ! i = 2 then TSDB_DATA_BOOL_NULL else 0) = inp ! i"
    using v by (auto simp: is_bool_def TSDB_DATA_BOOL_NULL_def)
  moreover have "take i inp @ [inp ! i] = take (Suc i) inp"
    using i Suc.prems(2) by (simp add: take_Suc_conv_app_nth)
  ultimately have "bool_unpack buf n i ip (take i inp) = bool_unpack buf n (Suc i) (int (i div 4)) (take (Suc i) inp)"
    using i by (subst bool_unpack.simps) (simp only: if_True Let_def e g rbind_simps f Suc_eq_plus1)
  moreover have "m = n - Suc i" using Suc.hyps(2) by simp
  moreover have "int (i div 4) = int ((Suc i + 3) div 4) - 1" by simp
  ultimately show ?case using Suc.hyps(1) [of "Suc i"] i Suc.prems(2) by simp
qed

lemma bool_roundtrip_aux:
  assumes "length inp = n" and "\<forall>v \<in> set inp. is_bool v"
  shows "\<exists>out. tsCompressBoolImp inp n = Inr out \<and> length out = (n + 3) div 4 \<and>
    (\<forall>pad. tsDecompressBoolImp (out @ pad) n = Inr inp)"
proof -
  have all: "\<forall>j < n. is_bool (inp ! j)" using assms by auto
  obtain out where c: "bool_loop inp n 0 [] = bool_loop inp n n out" and inv: "bool_inv inp n out"
    using bool_loop_upto [OF bool_inv_0 _ _ _ all] assms(1) by blast
  have len: "length out = (n + 3) div 4" using inv by (simp add: bool_inv_def)
  have "bool_unpack (out @ pad) n 0 (- 1) [] = Inr inp" for pad
  proof -
    have "bool_field (out @ pad) j = inp ! j" if "j < n" for j
    proof -
      have "j div 4 < length out" unfolding len using that by presburger
      then show ?thesis using inv that by (simp add: bool_inv_def bool_field_def nth_append)
    qed
    then show ?thesis using bool_unpack_ok [of n "out @ pad" inp 0 "- 1"] all len assms(1) by simp
  qed
  then show ?thesis
    using c len by (simp add: tsCompressBoolImp_def tsDecompressBoolImp_def bool_loop.simps [of _ n n])
qed

text \<open>
  C8.
  On a column of the values 0, 1 and 2 (NULL) \<open>tsCompressBoolImp\<close> writes one byte for every
  four values, twice what the comment at the head of the file promises, which has no third value, and \<open>tsDecompressBoolImp\<close> recovers the column, whatever follows in the buffer.
\<close>

theorem bool_roundtrip:
  assumes "length inp = n" and "\<forall>v \<in> set inp. is_bool v"
  shows "\<exists>out. tsCompressBoolImp inp n = Inr out \<and> length out = (n + 3) div 4 \<and>
    (\<forall>pad. tsDecompressBoolImp (out @ pad) n = Inr inp)"
  using assms by (rule bool_roundtrip_aux)

theorem bool_roundtrip_witness:
  "\<exists>out. tsCompressBoolImp [1, 0, 2, 1, 1] 5 = Inr out \<and> length out = 2 \<and>
    tsDecompressBoolImp (out @ [7]) 5 = Inr [1, 0, 2, 1, 1]"
  using bool_roundtrip [of "[1, 0, 2, 1, 1]" 5] by (auto simp: is_bool_def TSDB_DATA_BOOL_NULL_def)

text \<open>A column with any other value makes the compressor exit.\<close>

lemma bool_invalid_exits:
  assumes "length inp = n" and "v \<in> set inp" and "\<not> is_bool v"
  shows "tsCompressBoolImp inp n = Inl Exit_Failure"
proof -
  let ?P = "\<lambda>k. k < n \<and> \<not> is_bool (inp ! k)"
  from assms obtain k0 where "?P k0" by (auto simp: in_set_conv_nth)
  define k where "k = (LEAST k. ?P k)"
  have k: "?P k" unfolding k_def by (rule LeastI) (rule \<open>?P k0\<close>)
  have "\<forall>j < k. is_bool (inp ! j)"
    using not_less_Least [of _ ?P] k unfolding k_def by (meson less_trans)
  then obtain out where "bool_loop inp n 0 [] = bool_loop inp n k out" and "bool_inv inp k out"
    using bool_loop_upto [OF bool_inv_0, of k n inp] k assms(1) by auto
  with bool_loop_exit [of inp k out n] k assms(1) show ?thesis by (simp add: tsCompressBoolImp_def)
qed

section \<open>Run lengths\<close>

lemma rle_run_run:
  assumes "rle_run inp n num i c = Inr (i', c')" and "i \<le> n" and "n \<le> length inp" and "c < 127"
  shows "i \<le> i' \<and> i' \<le> n \<and> c' = c + (i' - i) \<and> c' \<le> 127 \<and> (\<forall>j. i \<le> j \<and> j < i' \<longrightarrow> inp ! j = num)"
  using assms
proof (induction inp n num i c rule: rle_run.induct)
  case (1 inp n num i c)
  show ?case
  proof (cases "i < n \<and> inp ! i = num \<and> c + 1 \<noteq> 127")
    case True
    then have g: "arr_get inp (int i) = Inr (inp ! i)" using "1.prems"(3) by (simp add: arr_get_def)
    have "rle_run inp n num (i + 1) (c + 1) = Inr (i', c')"
      using "1.prems"(1) True g by (subst (asm) rle_run.simps) simp
    then have *: "i + 1 \<le> i' \<and> i' \<le> n \<and> c' = c + 1 + (i' - (i + 1)) \<and> c' \<le> 127 \<and>
        (\<forall>j. i + 1 \<le> j \<and> j < i' \<longrightarrow> inp ! j = num)"
      using True "1.prems"(3,4) by (intro "1.IH" [OF _ g]) auto
    have "inp ! j = num" if "i \<le> j" "j < i'" for j using that * True by (cases "j = i") auto
    with * show ?thesis by auto
  next
    case False
    with "1.prems" show ?thesis
      by (subst (asm) rle_run.simps) (auto simp: arr_get_def less_Suc_eq_le dest: le_antisym split: if_splits)
  qed
qed


lemma rle_run_total:
  "n \<le> length inp \<Longrightarrow> \<exists>r. rle_run inp n num i c = Inr r"
proof (induction inp n num i c rule: rle_run.induct)
  case (1 inp n num i c)
  then show ?case
    by (subst rle_run.simps) (auto simp: arr_get_def)
qed

lemma rle_byte:
  assumes "1 \<le> c" and "c \<le> 127"
  shows "unat (drop_bit 1 (mask 1 OR push_bit 1 (of_nat c) :: byte) AND mask 7) = c"
    and "(mask 1 OR push_bit 1 (of_nat c) :: byte) AND mask 1 = 1"
    and "unat (drop_bit 1 (push_bit 1 (of_nat c) OR mask 0 :: byte) AND mask 7) = c"
    and "(push_bit 1 (of_nat c) OR mask 0 :: byte) AND mask 1 = 0"
proof -
  have "list_all (\<lambda>c. unat (drop_bit 1 (mask 1 OR push_bit 1 (of_nat c) :: byte) AND mask 7) = c \<and>
      (mask 1 OR push_bit 1 (of_nat c) :: byte) AND mask 1 = 1 \<and>
      unat (drop_bit 1 (push_bit 1 (of_nat c) OR mask 0 :: byte) AND mask 7) = c \<and>
      (push_bit 1 (of_nat c) OR mask 0 :: byte) AND mask 1 = 0) [1..<128]"
    by code_simp
  moreover have "c \<in> set [1..<128]" using assms by auto
  ultimately have *: "unat (drop_bit 1 (mask 1 OR push_bit 1 (of_nat c) :: byte) AND mask 7) = c \<and>
      (mask 1 OR push_bit 1 (of_nat c) :: byte) AND mask 1 = 1 \<and>
      unat (drop_bit 1 (push_bit 1 (of_nat c) OR mask 0 :: byte) AND mask 7) = c \<and>
      (push_bit 1 (of_nat c) OR mask 0 :: byte) AND mask 1 = 0"
    unfolding list_all_iff by (rule bspec)
  then show "unat (drop_bit 1 (mask 1 OR push_bit 1 (of_nat c) :: byte) AND mask 7) = c"
    "(mask 1 OR push_bit 1 (of_nat c) :: byte) AND mask 1 = 1"
    "unat (drop_bit 1 (push_bit 1 (of_nat c) OR mask 0 :: byte) AND mask 7) = c"
    "(push_bit 1 (of_nat c) OR mask 0 :: byte) AND mask 1 = 0" by blast+
qed

text \<open>Decoding one byte of a run appends that run.\<close>

lemma rle_decode_run:
  assumes "1 \<le> c" and "c \<le> 127" and "num = 0 \<or> num = 1"
    and "e = (if num = 1 then mask 1 OR push_bit 1 (of_nat c) else push_bit 1 (of_nat c) OR mask 0)"
    and "arr_get buf (int ip) = Inr e"
  shows "rle_decode buf n ip out =
    (if n \<le> length out + c then Inr (out @ replicate c num) else rle_decode buf n (Suc ip) (out @ replicate c num))"
proof -
  have "unat (drop_bit 1 e AND mask 7) = c" "e AND mask 1 = num"
    using assms(3,4) rle_byte [OF assms(1,2)] by (auto simp only: refl if_True if_False zero_neq_one)
  with assms(5) show ?thesis by (subst rle_decode.simps) (simp only: rbind_simps Let_def, simp)
qed

lemma take_run:
  assumes "i \<le> i'" and "i' \<le> length xs" and "\<forall>j. i \<le> j \<and> j < i' \<longrightarrow> xs ! j = x"
  shows "take i xs @ replicate (i' - i) x = take i' xs"
  using assms by (intro nth_equalityI) (auto simp: nth_append min_def)

lemma rle_loop_ok:
  assumes "length inp = n" and "\<forall>v \<in> set inp. v = 0 \<or> v = 1" and "i \<le> n"
  shows "\<exists>rest. rle_loop inp n i out = Inr (out @ rest) \<and>
    (i < n \<longrightarrow> (\<forall>buf pre pad. buf = pre @ rest @ pad \<longrightarrow>
      rle_decode buf n (length pre) (take i inp) = Inr inp))"
  using assms(3)
proof (induction "n - i" arbitrary: i out rule: less_induct)
  case less
  show ?case
  proof (cases "i < n")
    case False
    then show ?thesis by (subst rle_loop.simps) simp
  next
    case True
    let ?num = "inp ! i"
    have g: "arr_get inp (int i) = Inr ?num" using True assms(1) by (simp add: arr_get_def)
    have num: "?num = 0 \<or> ?num = 1" using assms(1,2) True by simp
    obtain i' c where run: "rle_run inp n ?num (i + 1) 1 = Inr (i', c)"
      using rle_run_total [of n inp ?num "i + 1" 1] assms(1) by auto
    have run': "Suc i \<le> i' \<and> i' \<le> n \<and> c = 1 + (i' - Suc i) \<and> c \<le> 127 \<and>
        (\<forall>j. Suc i \<le> j \<and> j < i' \<longrightarrow> inp ! j = ?num)"
      using rle_run_run [OF run] True assms(1) by simp
    then have r: "Suc i \<le> i'" "i' \<le> n" "c = i' - i" "c \<le> 127" by auto
    have same: "\<forall>j. i \<le> j \<and> j < i' \<longrightarrow> inp ! j = ?num"
      using run' by (metis le_neq_implies_less Suc_le_eq)
    define e :: byte where
      "e = (if ?num = 1 then mask 1 OR push_bit 1 (of_nat c) else push_bit 1 (of_nat c) OR mask 0)"
    have step: "rle_loop inp n i out = rle_loop inp n i' (out @ [e])"
      using True num by (subst rle_loop.simps) (auto simp only: if_True if_False rbind_simps g run fst_conv snd_conv e_def refl zero_neq_one
          zero_neq_one [symmetric])
    obtain rest where rest: "rle_loop inp n i' (out @ [e]) = Inr ((out @ [e]) @ rest)"
      and dec: "i' < n \<longrightarrow> (\<forall>buf pre pad. buf = pre @ rest @ pad \<longrightarrow>
        rle_decode buf n (length pre) (take i' inp) = Inr inp)"
      using less.hyps [of i' "out @ [e]", OF _ r(2)] diff_less_mono2 [of i i' n] r(1) True by auto
    have ap: "take i inp @ replicate c ?num = take i' inp"
    proof -
      have "i \<le> i'" "i' \<le> length inp" using r(1,2) assms(1) by simp_all
      then show ?thesis unfolding r(3) using same by (rule take_run)
    qed
    have "rle_decode buf n (length pre) (take i inp) = Inr inp" if buf: "buf = pre @ (e # rest) @ pad" for buf pre pad
    proof -
      have ge: "arr_get buf (int (length pre)) = Inr e" using buf by (simp add: arr_get_nat nth_append)
      have c: "1 \<le> c" using r by simp
      have "buf = (pre @ [e]) @ rest @ pad" using buf by simp
      with dec have "rle_decode buf n (Suc (length pre)) (take i' inp) = Inr inp" if "i' < n"
        using that by (metis length_append_singleton)
      moreover have "length (take i inp) + c = i'" using r True assms(1) by simp
      moreover have "take n inp = inp" using assms(1) by simp
      ultimately show ?thesis
        using rle_decode_run [OF c r(4) num e_def ge, of n "take i inp"] ap r(2) by (cases "i' = n") simp_all
    qed
    with step rest show ?thesis by (intro exI [of _ "e # rest"]) simp
  qed
qed

text \<open>
  C12.
  On a non-empty column of the values 0 and 1 the run-length compressor is defined and its
  decompressor recovers exactly the column.
\<close>

theorem bool_rle_roundtrip:
  assumes "length inp = n" and "0 < n" and "\<forall>v \<in> set inp. v = 0 \<or> v = 1"
  shows "\<exists>out. tsCompressBoolRLEImp inp n = Inr out \<and>
    (\<forall>pad. tsDecompressBoolRLEImp (out @ pad) n = Inr inp)"
proof -
  obtain rest where rest: "rle_loop inp n 0 [] = Inr rest" and dec: "\<forall>buf pre pad. buf = pre @ rest @ pad \<longrightarrow>
      rle_decode buf n (length pre) [] = Inr inp"
    using rle_loop_ok [OF assms(1,3), of 0 "[]"] assms(2) by auto
  have "rle_decode (rest @ pad) n 0 [] = Inr inp" for pad
    using dec [rule_format, of "rest @ pad" "[]" pad] by simp
  with rest show ?thesis by (simp add: tsCompressBoolRLEImp_def tsDecompressBoolRLEImp_def)
qed

theorem bool_rle_roundtrip_witness:
  "\<exists>out. tsCompressBoolRLEImp [1, 1, 1, 0, 1] 5 = Inr out \<and>
    tsDecompressBoolRLEImp (out @ [255]) 5 = Inr [1, 1, 1, 0, 1]"
  using bool_rle_roundtrip [of "[1, 1, 1, 0, 1]" 5] by auto

end
