(* ===== verification/CompColumn.thy ===== *)
theory CompColumn
  imports CompTimestamp CompXor CompBool
begin

text \<open>
  The compression entry points of src/src/util/src/tcompression.c (\<open>tsCompressTinyint\<close> to
  \<open>tsDecompressTimestamp\<close>), the string stage they share, and the tables \<open>pCompFunc\<close> and
  \<open>pDecompFunc\<close> of src/src/system/src/vnodeFile.c that select an entry point by column type.
  The bundled LZ4 library is a parameter: its two functions are arguments of the definitions, and
  \<open>lz4_contract\<close> is what src/src/inc/lz4.h documents of them.
\<close>

section \<open>The string stage\<close>

text \<open>
  \<open>LZ4_compress_default\<close> yields the bytes it wrote, none when it returns 0;
  \<open>LZ4_decompress_safe\<close> yields the bytes it wrote, or \<open>None\<close> for a negative result.
\<close>

type_synonym lz4_compress = "byte list \<Rightarrow> int \<Rightarrow> byte list"
type_synonym lz4_decompress = "byte list \<Rightarrow> int \<Rightarrow> byte list option"

definition lz4_contract :: "lz4_compress \<Rightarrow> lz4_decompress \<Rightarrow> bool" where
  "lz4_contract lzc lzd \<longleftrightarrow>
     (\<forall>src cap. lzc src cap \<noteq> [] \<longrightarrow>
        int (length (lzc src cap)) \<le> cap \<and>
        (\<forall>room. int (length src) \<le> room \<longrightarrow> lzd (lzc src cap) room = Some src))"

definition tsCompressStringImp :: "lz4_compress \<Rightarrow> byte list \<Rightarrow> nat \<Rightarrow> int \<Rightarrow> byte list res" where
  "tsCompressStringImp lzc inp inputSize outputSize =
     rbind (copy_bytes inp 0 inputSize) (\<lambda>src.
       let compressed = lzc src (outputSize - 1) in
       if length compressed \<le> 0 \<or> inputSize < length compressed then Inr (0 # src)
       else Inr (1 # compressed))"

text \<open>A compressed size of 0 makes the length \<open>compressedSize - 1\<close> of the copy negative.\<close>

definition tsDecompressStringImp :: "lz4_decompress \<Rightarrow> byte list \<Rightarrow> nat \<Rightarrow> int \<Rightarrow> byte list res" where
  "tsDecompressStringImp lzd inp compressedSize outputSize =
     rbind (arr_get inp 0) (\<lambda>ind.
       if ind = 1 \<or> ind = 0 then
         if compressedSize = 0 then Inl Out_Of_Bounds
         else
           rbind (copy_bytes inp 1 (compressedSize - 1)) (\<lambda>src.
             if ind = 1 then
               (case lzd src outputSize of None \<Rightarrow> Inl Exit_Failure | Some d \<Rightarrow> Inr d)
             else Inr src)
       else Inl Exit_Failure)"

section \<open>The stages\<close>

definition ONE_STAGE_COMP :: int where "ONE_STAGE_COMP = 1"
definition TWO_STAGE_COMP :: int where "TWO_STAGE_COMP = 2"

text \<open>The body the entry points share, around the result of their first stage.\<close>

definition compress_stages :: "lz4_compress \<Rightarrow> byte list res \<Rightarrow> int \<Rightarrow> int \<Rightarrow> byte list res" where
  "compress_stages lzc imp outputSize algorithm =
     (if algorithm = ONE_STAGE_COMP then imp
      else if algorithm = TWO_STAGE_COMP then
        rbind imp (\<lambda>buffer. tsCompressStringImp lzc buffer (length buffer) outputSize)
      else Inl Assert_Failed)"

definition decompress_stages ::
    "lz4_decompress \<Rightarrow> (byte list \<Rightarrow> byte list res) \<Rightarrow> byte list \<Rightarrow> nat \<Rightarrow> int \<Rightarrow> int \<Rightarrow> byte list res"
where
  "decompress_stages lzd imp inp compressedSize algorithm bufferSize =
     (if algorithm = ONE_STAGE_COMP then imp inp
      else if algorithm = TWO_STAGE_COMP then
        rbind (tsDecompressStringImp lzd inp compressedSize bufferSize) imp
      else Inl Assert_Failed)"

section \<open>The entry points\<close>

text \<open>Arguments: input, inputSize, nelements, outputSize, algorithm; the buffer is internal.\<close>

type_synonym comp_fun = "byte list \<Rightarrow> nat \<Rightarrow> nat \<Rightarrow> int \<Rightarrow> int \<Rightarrow> byte list res"

text \<open>Arguments: input, compressedSize, nelements, outputSize, algorithm, bufferSize.\<close>

type_synonym decomp_fun = "byte list \<Rightarrow> nat \<Rightarrow> nat \<Rightarrow> int \<Rightarrow> int \<Rightarrow> int \<Rightarrow> byte list res"

definition tsCompressTinyint :: "lz4_compress \<Rightarrow> comp_fun" where
  "tsCompressTinyint lzc inp inputSize nelements outputSize algorithm =
     compress_stages lzc (tsCompressINTImp inp nelements TSDB_DATA_TYPE_TINYINT) outputSize algorithm"

definition tsDecompressTinyint :: "lz4_decompress \<Rightarrow> decomp_fun" where
  "tsDecompressTinyint lzd inp compressedSize nelements outputSize algorithm bufferSize =
     decompress_stages lzd (\<lambda>buf. tsDecompressINTImp buf nelements TSDB_DATA_TYPE_TINYINT)
       inp compressedSize algorithm bufferSize"

definition tsCompressSmallint :: "lz4_compress \<Rightarrow> comp_fun" where
  "tsCompressSmallint lzc inp inputSize nelements outputSize algorithm =
     compress_stages lzc (tsCompressINTImp inp nelements TSDB_DATA_TYPE_SMALLINT) outputSize algorithm"

definition tsDecompressSmallint :: "lz4_decompress \<Rightarrow> decomp_fun" where
  "tsDecompressSmallint lzd inp compressedSize nelements outputSize algorithm bufferSize =
     decompress_stages lzd (\<lambda>buf. tsDecompressINTImp buf nelements TSDB_DATA_TYPE_SMALLINT)
       inp compressedSize algorithm bufferSize"

definition tsCompressInt :: "lz4_compress \<Rightarrow> comp_fun" where
  "tsCompressInt lzc inp inputSize nelements outputSize algorithm =
     compress_stages lzc (tsCompressINTImp inp nelements TSDB_DATA_TYPE_INT) outputSize algorithm"

definition tsDecompressInt :: "lz4_decompress \<Rightarrow> decomp_fun" where
  "tsDecompressInt lzd inp compressedSize nelements outputSize algorithm bufferSize =
     decompress_stages lzd (\<lambda>buf. tsDecompressINTImp buf nelements TSDB_DATA_TYPE_INT)
       inp compressedSize algorithm bufferSize"

definition tsCompressBigint :: "lz4_compress \<Rightarrow> comp_fun" where
  "tsCompressBigint lzc inp inputSize nelements outputSize algorithm =
     compress_stages lzc (tsCompressINTImp inp nelements TSDB_DATA_TYPE_BIGINT) outputSize algorithm"

definition tsDecompressBigint :: "lz4_decompress \<Rightarrow> decomp_fun" where
  "tsDecompressBigint lzd inp compressedSize nelements outputSize algorithm bufferSize =
     decompress_stages lzd (\<lambda>buf. tsDecompressINTImp buf nelements TSDB_DATA_TYPE_BIGINT)
       inp compressedSize algorithm bufferSize"

definition tsCompressBool :: "lz4_compress \<Rightarrow> comp_fun" where
  "tsCompressBool lzc inp inputSize nelements outputSize algorithm =
     compress_stages lzc (tsCompressBoolImp inp nelements) outputSize algorithm"

definition tsDecompressBool :: "lz4_decompress \<Rightarrow> decomp_fun" where
  "tsDecompressBool lzd inp compressedSize nelements outputSize algorithm bufferSize =
     decompress_stages lzd (\<lambda>buf. tsDecompressBoolImp buf nelements) inp compressedSize algorithm bufferSize"

definition tsCompressString :: "lz4_compress \<Rightarrow> comp_fun" where
  "tsCompressString lzc inp inputSize nelements outputSize algorithm =
     tsCompressStringImp lzc inp inputSize outputSize"

definition tsDecompressString :: "lz4_decompress \<Rightarrow> decomp_fun" where
  "tsDecompressString lzd inp compressedSize nelements outputSize algorithm bufferSize =
     tsDecompressStringImp lzd inp compressedSize outputSize"

definition tsCompressFloat :: "nat \<Rightarrow> lz4_compress \<Rightarrow> comp_fun" where
  "tsCompressFloat ulong_bits lzc inp inputSize nelements outputSize algorithm =
     compress_stages lzc (tsCompressFloatImp ulong_bits inp nelements) outputSize algorithm"

definition tsDecompressFloat :: "lz4_decompress \<Rightarrow> decomp_fun" where
  "tsDecompressFloat lzd inp compressedSize nelements outputSize algorithm bufferSize =
     decompress_stages lzd (\<lambda>buf. tsDecompressFloatImp buf nelements) inp compressedSize algorithm bufferSize"

definition tsCompressDouble :: "lz4_compress \<Rightarrow> comp_fun" where
  "tsCompressDouble lzc inp inputSize nelements outputSize algorithm =
     compress_stages lzc (tsCompressDoubleImp inp nelements) outputSize algorithm"

definition tsDecompressDouble :: "lz4_decompress \<Rightarrow> decomp_fun" where
  "tsDecompressDouble lzd inp compressedSize nelements outputSize algorithm bufferSize =
     decompress_stages lzd (\<lambda>buf. tsDecompressDoubleImp buf nelements) inp compressedSize algorithm bufferSize"

definition tsCompressTimestamp :: "lz4_compress \<Rightarrow> comp_fun" where
  "tsCompressTimestamp lzc inp inputSize nelements outputSize algorithm =
     compress_stages lzc (tsCompressTimestampImp inp nelements) outputSize algorithm"

definition tsDecompressTimestamp :: "lz4_decompress \<Rightarrow> decomp_fun" where
  "tsDecompressTimestamp lzd inp compressedSize nelements outputSize algorithm bufferSize =
     decompress_stages lzd (\<lambda>buf. tsDecompressTimestampImp buf nelements) inp compressedSize algorithm bufferSize"

text \<open>The tables; the entry of \<open>TSDB_DATA_TYPE_NULL\<close> is a NULL pointer.\<close>

definition pCompFunc :: "nat \<Rightarrow> lz4_compress \<Rightarrow> comp_fun option list" where
  "pCompFunc ulong_bits lzc =
     [None, Some (tsCompressBool lzc), Some (tsCompressTinyint lzc), Some (tsCompressSmallint lzc),
      Some (tsCompressInt lzc), Some (tsCompressBigint lzc), Some (tsCompressFloat ulong_bits lzc),
      Some (tsCompressDouble lzc), Some (tsCompressString lzc), Some (tsCompressTimestamp lzc),
      Some (tsCompressString lzc)]"

definition pDecompFunc :: "lz4_decompress \<Rightarrow> decomp_fun option list" where
  "pDecompFunc lzd =
     [None, Some (tsDecompressBool lzd), Some (tsDecompressTinyint lzd), Some (tsDecompressSmallint lzd),
      Some (tsDecompressInt lzd), Some (tsDecompressBigint lzd), Some (tsDecompressFloat lzd),
      Some (tsDecompressDouble lzd), Some (tsDecompressString lzd), Some (tsDecompressTimestamp lzd),
      Some (tsDecompressString lzd)]"

text \<open>The calls through the tables, as vnodeFile.c makes them for a column of type \<open>type\<close>.\<close>

definition call_comp :: "nat \<Rightarrow> lz4_compress \<Rightarrow> int \<Rightarrow> comp_fun" where
  "call_comp ulong_bits lzc type inp inputSize nelements outputSize algorithm =
     rbind (arr_get (pCompFunc ulong_bits lzc) type) (\<lambda>p.
     rbind (deref p) (\<lambda>f. f inp inputSize nelements outputSize algorithm))"

definition call_decomp :: "lz4_decompress \<Rightarrow> int \<Rightarrow> decomp_fun" where
  "call_decomp lzd type inp compressedSize nelements outputSize algorithm bufferSize =
     rbind (arr_get (pDecompFunc lzd) type) (\<lambda>p.
     rbind (deref p) (\<lambda>f. f inp compressedSize nelements outputSize algorithm bufferSize))"

section \<open>Correctness of the stages\<close>

lemma string_roundtrip:
  assumes "lz4_contract lzc lzd" and "length inp = m"
  shows "\<exists>out. tsCompressStringImp lzc inp m outputSize = Inr out \<and> length out \<le> m + 1 \<and>
    (\<forall>pad room. int m \<le> room \<longrightarrow> tsDecompressStringImp lzd (out @ pad) (length out) room = Inr inp)"
proof (cases "length (lzc inp (outputSize - 1)) = 0 \<or> m < length (lzc inp (outputSize - 1))")
  case True
  have "copy_bytes (0 # inp @ pad) 1 m = Inr inp" for pad
    using copy_bytes_append [of "[0]" inp pad] assms(2) by simp
  with True assms(2) show ?thesis
    by (auto simp: tsCompressStringImp_def tsDecompressStringImp_def copy_bytes_def [of inp 0] Let_def)
next
  case False
  let ?c = "lzc inp (outputSize - 1)"
  have "copy_bytes (1 # ?c @ pad) 1 (length ?c) = Inr ?c" for pad
    using copy_bytes_append [of "[1]" ?c pad] by simp
  moreover have "lzd ?c room = Some inp" if "int m \<le> room" for room
    using assms False that by (auto simp: lz4_contract_def)
  ultimately show ?thesis
    using False assms(2)
    by (auto simp: tsCompressStringImp_def tsDecompressStringImp_def copy_bytes_def [of inp 0] Let_def)
qed

text \<open>
  A first stage: on acceptable columns it is defined, adds at most one byte to the \<open>size\<close> bytes of
  each value, and its inverse tolerates trailing bytes.
\<close>

locale column_codec =
  fixes size :: nat
    and ok :: "byte list \<Rightarrow> nat \<Rightarrow> bool"
    and comp :: "byte list \<Rightarrow> nat \<Rightarrow> byte list res"
    and decomp :: "byte list \<Rightarrow> nat \<Rightarrow> byte list res"
  assumes imp_roundtrip: "ok inp n \<Longrightarrow> \<exists>out. comp inp n = Inr out \<and> length out \<le> n * size + 1 \<and>
    (\<forall>pad. decomp (out @ pad) n = Inr inp)"
begin

lemma stages_roundtrip:
  assumes "lz4_contract lzc lzd" and "ok inp n"
    and "algorithm = ONE_STAGE_COMP \<or> algorithm = TWO_STAGE_COMP" and "int (n * size + 1) \<le> bufferSize"
  shows "\<exists>out. compress_stages lzc (comp inp n) outputSize algorithm = Inr out \<and> length out \<le> n * size + 2 \<and>
    (\<forall>pad. decompress_stages lzd (\<lambda>buf. decomp buf n) (out @ pad) (length out) algorithm bufferSize = Inr inp)"
proof -
  obtain mid where mid: "comp inp n = Inr mid" "length mid \<le> n * size + 1"
    and dec: "\<forall>pad. decomp (mid @ pad) n = Inr inp" using imp_roundtrip [OF assms(2)] by blast
  from assms(3) show ?thesis
  proof
    assume "algorithm = ONE_STAGE_COMP"
    with mid dec show ?thesis by (simp add: compress_stages_def decompress_stages_def)
  next
    assume alg: "algorithm = TWO_STAGE_COMP"
    obtain out where out: "tsCompressStringImp lzc mid (length mid) outputSize = Inr out"
      "length out \<le> length mid + 1"
      and again: "\<forall>pad room. int (length mid) \<le> room \<longrightarrow> tsDecompressStringImp lzd (out @ pad) (length out) room = Inr mid"
      using string_roundtrip [OF assms(1), of mid] by blast
    have "int (length mid) \<le> bufferSize" using mid(2) assms(4) by linarith
    with again have "tsDecompressStringImp lzd (out @ pad) (length out) bufferSize = Inr mid" for pad by blast
    moreover have "decomp mid n = Inr inp" using dec [rule_format, of "[]"] by simp
    ultimately show ?thesis
      using alg mid out by (simp add: compress_stages_def decompress_stages_def ONE_STAGE_COMP_def TWO_STAGE_COMP_def)
  qed
qed

end

section \<open>The codecs\<close>

definition int_column :: "int \<Rightarrow> nat \<Rightarrow> byte list \<Rightarrow> nat \<Rightarrow> bool" where
  "int_column type wl inp n \<longleftrightarrow> length inp = n * wl \<and>
     (type = TSDB_DATA_TYPE_BIGINT \<longrightarrow> list_all (\<lambda>i. fits 60 (zz_at wl inp i)) [0..<n])"

definition bool_column :: "byte list \<Rightarrow> nat \<Rightarrow> bool" where
  "bool_column inp n \<longleftrightarrow> length inp = n \<and> list_all is_bool inp"

lemma int_codec:
  assumes "word_length type = Inr wl"
  shows "column_codec wl (int_column type wl) (\<lambda>inp n. tsCompressINTImp inp n type)
    (\<lambda>inp n. tsDecompressINTImp inp n type)"
proof
  fix inp n
  assume "int_column type wl inp n"
  then have len: "length inp = n * wl"
    and big: "type = TSDB_DATA_TYPE_BIGINT \<longrightarrow> (\<forall>i < n. fits 60 (zz_at wl inp i))"
    by (auto simp: int_column_def list_all_iff)
  obtain out where "tsCompressINTImp inp n type = Inr out" using int_compress_total [OF assms len big] ..
  with int_roundtrip_aux [OF assms len] len
  show "\<exists>out. tsCompressINTImp inp n type = Inr out \<and> length out \<le> n * wl + 1 \<and>
      (\<forall>pad. tsDecompressINTImp (out @ pad) n type = Inr inp)" by auto
qed

interpretation tiny: column_codec 1 "int_column TSDB_DATA_TYPE_TINYINT 1"
  "\<lambda>inp n. tsCompressINTImp inp n TSDB_DATA_TYPE_TINYINT" "\<lambda>inp n. tsDecompressINTImp inp n TSDB_DATA_TYPE_TINYINT"
  by (rule int_codec) (simp add: word_length_def int_type_defs)

interpretation small: column_codec 2 "int_column TSDB_DATA_TYPE_SMALLINT 2"
  "\<lambda>inp n. tsCompressINTImp inp n TSDB_DATA_TYPE_SMALLINT" "\<lambda>inp n. tsDecompressINTImp inp n TSDB_DATA_TYPE_SMALLINT"
  by (rule int_codec) (simp add: word_length_def int_type_defs)

interpretation int4: column_codec 4 "int_column TSDB_DATA_TYPE_INT 4"
  "\<lambda>inp n. tsCompressINTImp inp n TSDB_DATA_TYPE_INT" "\<lambda>inp n. tsDecompressINTImp inp n TSDB_DATA_TYPE_INT"
  by (rule int_codec) (simp add: word_length_def int_type_defs)

interpretation big: column_codec 8 "int_column TSDB_DATA_TYPE_BIGINT 8"
  "\<lambda>inp n. tsCompressINTImp inp n TSDB_DATA_TYPE_BIGINT" "\<lambda>inp n. tsDecompressINTImp inp n TSDB_DATA_TYPE_BIGINT"
  by (rule int_codec) (simp add: word_length_def int_type_defs)

interpretation bools: column_codec 1 bool_column tsCompressBoolImp tsDecompressBoolImp
proof
  fix inp n
  assume "bool_column inp n"
  then have "length inp = n" "\<forall>v \<in> set inp. is_bool v" by (auto simp: bool_column_def list_all_iff)
  from bool_roundtrip_aux [OF this] show "\<exists>out. tsCompressBoolImp inp n = Inr out \<and> length out \<le> n * 1 + 1 \<and>
      (\<forall>pad. tsDecompressBoolImp (out @ pad) n = Inr inp)" by auto
qed

interpretation stamps: column_codec 8 "\<lambda>inp n. length inp = n * 8" tsCompressTimestampImp tsDecompressTimestampImp
  by unfold_locales (rule timestamp_roundtrip_aux)

interpretation doubles: column_codec 8 "\<lambda>inp n. length inp = n * 8" tsCompressDoubleImp tsDecompressDoubleImp
  by unfold_locales (unfold tsCompressDoubleImp_def tsDecompressDoubleImp_def, rule dbl.roundtrip)

interpretation floats: column_codec 4 "\<lambda>inp n. length inp = n * 4" "tsCompressFloatImp 32" tsDecompressFloatImp
  by unfold_locales (unfold tsCompressFloatImp_def tsDecompressFloatImp_def, rule flt.roundtrip)

section \<open>The tables\<close>

text \<open>
  The columns a type accepts on a platform, and the bytes of one value. The codecs of the integers and the decoder of doubles
  build their masks with \<open>1ul\<close> and need a 64-bit \<open>unsigned long\<close>; the float codec counts zero bits in an
  \<open>unsigned long\<close> and needs a 32-bit one. No platform has both.
\<close>

definition column_ok :: "nat \<Rightarrow> int \<Rightarrow> nat \<Rightarrow> byte list \<Rightarrow> nat \<Rightarrow> bool" where
  "column_ok ulong_bits type bytes inp n \<longleftrightarrow>
     (if type = 1 then bytes = 1 \<and> bool_column inp n
      else if type = 2 then bytes = 1 \<and> ulong_bits = 64 \<and> int_column TSDB_DATA_TYPE_TINYINT 1 inp n
      else if type = 3 then bytes = 2 \<and> ulong_bits = 64 \<and> int_column TSDB_DATA_TYPE_SMALLINT 2 inp n
      else if type = 4 then bytes = 4 \<and> ulong_bits = 64 \<and> int_column TSDB_DATA_TYPE_INT 4 inp n
      else if type = 5 then bytes = 8 \<and> ulong_bits = 64 \<and> int_column TSDB_DATA_TYPE_BIGINT 8 inp n
      else if type = 6 then bytes = 4 \<and> ulong_bits = 32 \<and> length inp = n * 4
      else if type = 7 then bytes = 8 \<and> ulong_bits = 64 \<and> length inp = n * 8
      else if type = 9 then bytes = 8 \<and> length inp = n * 8
      else (type = 8 \<or> type = 10) \<and> length inp = n * bytes)"

lemma call_comp_entry:
  "call_comp u lzc 1 = tsCompressBool lzc" "call_comp u lzc 2 = tsCompressTinyint lzc"
  "call_comp u lzc 3 = tsCompressSmallint lzc" "call_comp u lzc 4 = tsCompressInt lzc"
  "call_comp u lzc 5 = tsCompressBigint lzc" "call_comp u lzc 6 = tsCompressFloat u lzc"
  "call_comp u lzc 7 = tsCompressDouble lzc" "call_comp u lzc 8 = tsCompressString lzc"
  "call_comp u lzc 9 = tsCompressTimestamp lzc" "call_comp u lzc 10 = tsCompressString lzc"
  by (simp_all add: call_comp_def [abs_def] pCompFunc_def arr_get_def)

lemma call_decomp_entry:
  "call_decomp lzd 1 = tsDecompressBool lzd" "call_decomp lzd 2 = tsDecompressTinyint lzd"
  "call_decomp lzd 3 = tsDecompressSmallint lzd" "call_decomp lzd 4 = tsDecompressInt lzd"
  "call_decomp lzd 5 = tsDecompressBigint lzd" "call_decomp lzd 6 = tsDecompressFloat lzd"
  "call_decomp lzd 7 = tsDecompressDouble lzd" "call_decomp lzd 8 = tsDecompressString lzd"
  "call_decomp lzd 9 = tsDecompressTimestamp lzd" "call_decomp lzd 10 = tsDecompressString lzd"
  by (simp_all add: call_decomp_def [abs_def] pDecompFunc_def arr_get_def)

text \<open>
  C1.
  Through the tables and with both algorithms, decompressing a compressed column gives back its bytes, for
  the types whose codec works on the platform: with a 64-bit \<open>unsigned long\<close> every type but
  FLOAT, with a 32-bit one BOOL, FLOAT, BINARY, TIMESTAMP and NCHAR. The values are 0, 1 or NULL in a BOOL column,
  and successive BIGINT values differ by what 60 bits hold. The compressor is defined, adds at most two bytes, and
  whatever follows the compressed bytes is ignored. The buffers are as large as the callers make
  them: the output holds the column, the intermediate buffer one byte more.
\<close>

theorem column_roundtrip:
  assumes "lz4_contract lzc lzd" and "column_ok ulong_bits type bytes inp n"
    and "algorithm = ONE_STAGE_COMP \<or> algorithm = TWO_STAGE_COMP"
    and "int (n * bytes) \<le> room" and "int (n * bytes + 1) \<le> bufferSize"
  shows "\<exists>out. call_comp ulong_bits lzc type inp (n * bytes) n outputSize algorithm = Inr out \<and>
    length out \<le> n * bytes + 2 \<and>
    (\<forall>pad. call_decomp lzd type (out @ pad) (length out) n room algorithm bufferSize = Inr inp)"
proof -
  note st = tiny.stages_roundtrip small.stages_roundtrip int4.stages_roundtrip big.stages_roundtrip
    bools.stages_roundtrip stamps.stages_roundtrip doubles.stages_roundtrip floats.stages_roundtrip
  note st = st [OF assms(1) _ assms(3), of inp n bufferSize outputSize]
  have str: "\<exists>out. tsCompressStringImp lzc inp (n * bytes) outputSize = Inr out \<and> length out \<le> n * bytes + 2 \<and>
      (\<forall>pad. tsDecompressStringImp lzd (out @ pad) (length out) room = Inr inp)" if "length inp = n * bytes"
    using string_roundtrip [OF assms(1) that, of outputSize] assms(4) by (auto intro: le_SucI)
  consider "type = 1" | "type = 2" | "type = 3" | "type = 4" | "type = 5" | "type = 6" | "type = 7"
    | "type = 9" | "type = 8 \<or> type = 10"
    using assms(2) by (auto simp: column_ok_def split: if_splits)
  then show ?thesis
  proof cases
    case 9
    then have "length inp = n * bytes" using assms(2) by (auto simp: column_ok_def)
    from str [OF this] 9 show ?thesis
      by (auto simp: call_comp_entry call_decomp_entry tsCompressString_def tsDecompressString_def)
  qed (use assms(2,5) st in \<open>simp_all add: column_ok_def call_comp_entry call_decomp_entry
      tsCompressTinyint_def tsDecompressTinyint_def tsCompressSmallint_def tsDecompressSmallint_def
      tsCompressInt_def tsDecompressInt_def tsCompressBigint_def tsDecompressBigint_def
      tsCompressBool_def tsDecompressBool_def tsCompressFloat_def tsDecompressFloat_def
      tsCompressDouble_def tsDecompressDouble_def tsCompressTimestamp_def tsDecompressTimestamp_def\<close>)
qed

text \<open>A stand-in for LZ4 that stores short inputs as they are: the contract can be met.\<close>

definition store_compress :: lz4_compress where
  "store_compress src cap = (if int (length src) \<le> cap then src else [])"

definition store_decompress :: lz4_decompress where
  "store_decompress bs room = (if int (length bs) \<le> room then Some bs else None)"

lemma store_contract: "lz4_contract store_compress store_decompress"
  by (auto simp: lz4_contract_def store_compress_def store_decompress_def)

theorem column_roundtrip_witness:
  "\<exists>out. call_comp 64 store_compress 3 [1, 0, 2, 0, 253, 255] 6 3 64 TWO_STAGE_COMP = Inr out \<and>
    length out \<le> 8 \<and>
    (\<forall>pad. call_decomp store_decompress 3 (out @ pad) (length out) 3 6 TWO_STAGE_COMP 7 =
      Inr [1, 0, 2, 0, 253, 255])"
proof -
  have "column_ok 64 3 2 [1, 0, 2, 0, 253, 255] 3"
    by (simp add: column_ok_def int_column_def int_type_defs)
  from column_roundtrip [OF store_contract this, of TWO_STAGE_COMP 6 7 64] show ?thesis by simp
qed

text \<open>
  Any other algorithm number fails the assertion at the end of the entry points, and a column of
  type \<open>TSDB_DATA_TYPE_NULL\<close> calls through a NULL pointer.
\<close>

theorem column_bad_selector:
  assumes "algorithm \<noteq> ONE_STAGE_COMP" and "algorithm \<noteq> TWO_STAGE_COMP"
  shows "call_comp u lzc 4 inp m n outputSize algorithm = Inl Assert_Failed \<and>
    call_decomp lzd 4 inp m n outputSize algorithm bufferSize = Inl Assert_Failed \<and>
    call_comp u lzc 0 inp m n outputSize algorithm = Inl Null_Deref"
  using assms
  by (simp add: call_comp_entry call_decomp_entry tsCompressInt_def tsDecompressInt_def compress_stages_def
      decompress_stages_def call_comp_def [of _ _ 0] pCompFunc_def)

theorem column_bad_selector_witness:
  "call_comp 32 store_compress 4 [] 0 0 0 0 = Inl Assert_Failed \<and>
    call_decomp store_decompress 4 [] 0 0 0 0 0 = Inl Assert_Failed \<and>
    call_comp 32 store_compress 0 [] 0 0 0 0 = Inl Null_Deref"
  by (rule column_bad_selector) (simp_all add: ONE_STAGE_COMP_def TWO_STAGE_COMP_def)

end
