(* ===== verification/ChainTable.thy ===== *)
theory ChainTable
  imports Prelude
begin

text \<open>
  Chained hash tables over an explicit store. The tables of ihash.c, shash.c, thash.c, hashint.c,
  hashstr.c and thaship.c keep, per bucket, a doubly linked list of heap nodes and share the text
  of their list operations; this theory holds those operations, the representation invariant, the
  specification of a table as a stack of bindings per key, and the lemmas the tables share.
\<close>

section \<open>Runs that may not end\<close>

text \<open>\<open>None\<close> is a loop that never ends; a run that ends yields a fault or a value.\<close>

type_synonym 'a run = "'a res option"

definition obind :: "'a run \<Rightarrow> ('a \<Rightarrow> 'b run) \<Rightarrow> 'b run" where
  "obind m f = (case m of None \<Rightarrow> None | Some (Inl e) \<Rightarrow> Some (Inl e) | Some (Inr x) \<Rightarrow> f x)"

lemma obind_simps [simp, res_simps]:
  "obind None f = None"
  "obind (Some (Inl e)) f = Some (Inl e)"
  "obind (Some (Inr x)) f = f x"
  by (simp_all add: obind_def)

lemma obind_eq_Inr [res_simps]:
  "obind m f = Some (Inr y) \<longleftrightarrow> (\<exists>x. m = Some (Inr x) \<and> f x = Some (Inr y))"
  by (auto simp: obind_def split: option.splits sum.splits)

section \<open>Nodes, chains and their operations\<close>

text \<open>A node: the fields of its table, and the two links. Addresses are integers, NULL is \<open>None\<close>.\<close>

record 'e hnode =
  nd_elem :: 'e
  nd_prev :: "int option"
  nd_next :: "int option"

type_synonym 'e heap = "int \<Rightarrow> 'e hnode option"

record 'e chain =
  ch_list :: "int option list"
  ch_heap :: "'e heap"

definition load :: "'e heap \<Rightarrow> int \<Rightarrow> 'e hnode res" where
  "load hp a = (case hp a of None \<Rightarrow> Inl Dangling | Some nd \<Rightarrow> Inr nd)"

definition empty_chain :: "nat \<Rightarrow> 'e chain" where
  "empty_chain n = \<lparr>ch_list = replicate n None, ch_heap = Map.empty\<rparr>"

text \<open>\<open>while (pNode) { if (test) break; pNode = pNode->next; }\<close>\<close>

partial_function (option) chain_find ::
  "('e hnode \<Rightarrow> bool) \<Rightarrow> 'e heap \<Rightarrow> int option \<Rightarrow> int option run"
where
  "chain_find test hp p =
     (case p of
        None \<Rightarrow> Some (Inr None)
      | Some a \<Rightarrow>
          (case hp a of
             None \<Rightarrow> Some (Inl Dangling)
           | Some nd \<Rightarrow> if test nd then Some (Inr (Some a)) else chain_find test hp (nd_next nd)))"

text \<open>A new node \<open>a\<close> becomes the head of bucket \<open>h\<close>.\<close>

definition chain_push :: "'e chain \<Rightarrow> int \<Rightarrow> int \<Rightarrow> 'e \<Rightarrow> 'e chain res" where
  "chain_push c h a e =
     rbind (arr_get (ch_list c) h) (\<lambda>head.
     let hp = (ch_heap c)(a \<mapsto> \<lparr>nd_elem = e, nd_prev = None, nd_next = head\<rparr>) in
     rbind (case head of
              None \<Rightarrow> Inr hp
            | Some b \<Rightarrow> rbind (load hp b) (\<lambda>n. Inr (hp(b \<mapsto> n\<lparr>nd_prev := Some a\<rparr>)))) (\<lambda>hp1.
     rbind (arr_set (ch_list c) h (Some a)) (\<lambda>l. Inr \<lparr>ch_list = l, ch_heap = hp1\<rparr>)))"

text \<open>Node \<open>a\<close> of bucket \<open>h\<close> is taken out of its list.\<close>

definition chain_unlink :: "'e chain \<Rightarrow> int \<Rightarrow> int \<Rightarrow> 'e chain res" where
  "chain_unlink c h a =
     rbind (load (ch_heap c) a) (\<lambda>nd.
     rbind (case nd_prev nd of
              Some p \<Rightarrow> rbind (load (ch_heap c) p) (\<lambda>n.
                Inr (ch_list c, (ch_heap c)(p \<mapsto> n\<lparr>nd_next := nd_next nd\<rparr>)))
            | None \<Rightarrow> rbind (arr_set (ch_list c) h (nd_next nd)) (\<lambda>l. Inr (l, ch_heap c))) (\<lambda>(l, hp1).
     rbind (load hp1 a) (\<lambda>nd1.
     rbind (case nd_next nd1 of
              Some q \<Rightarrow> rbind (load hp1 q) (\<lambda>n. Inr (hp1(q \<mapsto> n\<lparr>nd_prev := nd_prev nd1\<rparr>)))
            | None \<Rightarrow> Inr hp1) (\<lambda>hp2.
       Inr \<lparr>ch_list = l, ch_heap = hp2\<rparr>))))"

definition chain_free_node :: "'e chain \<Rightarrow> int \<Rightarrow> 'e chain" where
  "chain_free_node c a = c\<lparr>ch_heap := (ch_heap c)(a := None)\<rparr>"

text \<open>
  Search in bucket \<open>h\<close> and unlinking of the node found, which the caller then frees; the second
  component is that node.
\<close>

definition chain_delete :: "('e hnode \<Rightarrow> bool) \<Rightarrow> 'e chain \<Rightarrow> int \<Rightarrow> ('e chain \<times> int option) run" where
  "chain_delete test c h =
     obind (Some (arr_get (ch_list c) h)) (\<lambda>p.
     obind (chain_find test (ch_heap c) p) (\<lambda>r.
       case r of
         None \<Rightarrow> Some (Inr (c, None))
       | Some a \<Rightarrow> obind (Some (chain_unlink c h a)) (\<lambda>c'. Some (Inr (c', Some a)))))"

definition chain_get :: "('e hnode \<Rightarrow> bool) \<Rightarrow> 'e chain \<Rightarrow> int \<Rightarrow> int option run" where
  "chain_get test c h =
     obind (Some (arr_get (ch_list c) h)) (\<lambda>p. chain_find test (ch_heap c) p)"

text \<open>\<open>while (pNode) { pNext = pNode->next; free(pNode); pNode = pNext; }\<close>\<close>

partial_function (option) chain_release :: "'e heap \<Rightarrow> int option \<Rightarrow> 'e heap run" where
  "chain_release hp p =
     (case p of
        None \<Rightarrow> Some (Inr hp)
      | Some a \<Rightarrow>
          (case hp a of
             None \<Rightarrow> Some (Inl Dangling)
           | Some nd \<Rightarrow> chain_release (hp(a := None)) (nd_next nd)))"

text \<open>The loop over all buckets that releases every list.\<close>

primrec release_all :: "int option list \<Rightarrow> 'e heap \<Rightarrow> 'e heap run" where
  "release_all [] hp = Some (Inr hp)"
| "release_all (p # ps) hp = obind (chain_release hp p) (release_all ps)"

text \<open>
  The step of an iteration: after node \<open>ptr\<close> of bucket \<open>hash_of\<close>, the next node of its list, or
  else the first head of a later bucket.
\<close>

function first_head :: "int option list \<Rightarrow> int \<Rightarrow> int \<Rightarrow> int option res" where
  "first_head l i n =
     (if i < n then
        rbind (arr_get l i) (\<lambda>p. case p of None \<Rightarrow> first_head l (i + 1) n | Some a \<Rightarrow> Inr (Some a))
      else Inr None)"
  by pat_completeness auto
termination
  by (relation "measure (\<lambda>(l, i, n). nat (n - i))") auto

declare first_head.simps [simp del]

definition chain_fetch :: "('e \<Rightarrow> int) \<Rightarrow> 'e chain \<Rightarrow> int \<Rightarrow> int option \<Rightarrow> int option res" where
  "chain_fetch hash_of c n ptr =
     (case ptr of
        None \<Rightarrow> first_head (ch_list c) 0 n
      | Some a \<Rightarrow>
          rbind (load (ch_heap c) a) (\<lambda>nd.
            case nd_next nd of
              Some b \<Rightarrow> Inr (Some b)
            | None \<Rightarrow> first_head (ch_list c) (hash_of (nd_elem nd) + 1) n))"

section \<open>Doubly linked segments\<close>

text \<open>
  \<open>dseg hp pr p as l q\<close>: from pointer \<open>p\<close> the nodes \<open>as\<close> are linked in order; the first points
  back to \<open>pr\<close>, the last is \<open>l\<close> (\<open>pr\<close> when there is none) and points on to \<open>q\<close>.
\<close>

primrec dseg :: "'e heap \<Rightarrow> int option \<Rightarrow> int option \<Rightarrow> int list \<Rightarrow> int option \<Rightarrow> int option \<Rightarrow> bool" where
  "dseg hp pr p [] l q \<longleftrightarrow> p = q \<and> l = pr"
| "dseg hp pr p (a # as) l q \<longleftrightarrow>
     p = Some a \<and> (\<exists>nd. hp a = Some nd \<and> nd_prev nd = pr \<and> dseg hp (Some a) (nd_next nd) as l q)"

lemma dseg_append:
  "dseg hp pr p (xs @ ys) l q \<longleftrightarrow> (\<exists>m r. dseg hp pr p xs m r \<and> dseg hp m r ys l q)"
  by (induction xs arbitrary: pr p) auto

lemma dseg_cong: "(\<And>a. a \<in> set as \<Longrightarrow> hp' a = hp a) \<Longrightarrow> dseg hp' pr p as l q = dseg hp pr p as l q"
  by (induction as arbitrary: pr p) auto

lemma dseg_dom: "dseg hp pr p as l q \<Longrightarrow> a \<in> set as \<Longrightarrow> a \<in> dom hp"
  by (induction as arbitrary: pr p) auto

lemma dseg_last: "dseg hp pr p as l q \<Longrightarrow> l = (if as = [] then pr else Some (last as))"
  by (induction as arbitrary: pr p) auto

lemma dseg_set_prev:
  assumes "dseg hp pr p (a # as) l q" and "a \<notin> set as" and "hp a = Some n"
  shows "dseg (hp(a \<mapsto> n\<lparr>nd_prev := pr'\<rparr>)) pr' p (a # as) l q"
proof -
  have "dseg (hp(a \<mapsto> n\<lparr>nd_prev := pr'\<rparr>)) (Some a) (nd_next n) as l q = dseg hp (Some a) (nd_next n) as l q"
    using assms(2) by (intro dseg_cong) auto
  with assms show ?thesis by simp
qed

lemma dseg_set_next:
  assumes "dseg hp pr p (as @ [b]) l q" and "b \<notin> set as" and "hp b = Some n"
  shows "dseg (hp(b \<mapsto> n\<lparr>nd_next := q'\<rparr>)) pr p (as @ [b]) l q'"
proof -
  obtain m r where "dseg hp pr p as m r" "dseg hp m r [b] l q" using assms(1) by (auto simp: dseg_append)
  moreover have "dseg (hp(b \<mapsto> n\<lparr>nd_next := q'\<rparr>)) pr p as m r = dseg hp pr p as m r"
    using assms(2) by (intro dseg_cong) auto
  ultimately show ?thesis using assms(3) by (auto simp: dseg_append)
qed

lemma chain_find_dseg:
  "dseg hp pr p as l None \<Longrightarrow>
    chain_find test hp p = Some (Inr (List.find (\<lambda>a. test (the (hp a))) as))"
  by (induction as arbitrary: pr p) (auto simp: chain_find.simps)

lemma chain_release_dseg:
  assumes "dseg hp pr p as l None" and "distinct as"
  shows "chain_release hp p = Some (Inr (\<lambda>a. if a \<in> set as then None else hp a))"
  using assms
proof (induction as arbitrary: hp pr p)
  case Nil
  then show ?case by (simp add: chain_release.simps)
next
  case (Cons a as)
  then obtain nd where nd: "p = Some a" "hp a = Some nd" "dseg hp (Some a) (nd_next nd) as l None" by auto
  have "dseg (hp(a := None)) (Some a) (nd_next nd) as l None"
    using nd(3) Cons.prems(2) by (subst dseg_cong [of as _ hp]) auto
  then have
    "chain_release (hp(a := None)) (nd_next nd) = Some (Inr (\<lambda>b. if b \<in> set as then None else (hp(a := None)) b))"
    by (rule Cons.IH) (use Cons.prems(2) in simp)
  also have "(\<lambda>b. if b \<in> set as then None else (hp(a := None)) b) = (\<lambda>b. if b \<in> set (a # as) then None else hp b)"
    by (auto simp: fun_eq_iff)
  finally have rec: "chain_release (hp(a := None)) (nd_next nd) =
      Some (Inr (\<lambda>b. if b \<in> set (a # as) then None else hp b))" .
  show ?case unfolding nd(1) by (subst chain_release.simps) (simp only: option.case nd(2) rec)
qed

section \<open>The representation invariant\<close>

text \<open>
  \<open>good e h\<close>: element \<open>e\<close> belongs to bucket \<open>h\<close>. The lists \<open>cs\<close> of node addresses, one per
  bucket, partition the store.
\<close>

definition chain_ok :: "('e \<Rightarrow> nat \<Rightarrow> bool) \<Rightarrow> 'e chain \<Rightarrow> int list list \<Rightarrow> bool" where
  "chain_ok good c cs \<longleftrightarrow>
     length cs = length (ch_list c) \<and>
     (\<forall>a. a \<in> dom (ch_heap c) \<longleftrightarrow> (\<exists>h < length cs. a \<in> set (cs ! h))) \<and>
     (\<forall>h < length cs. \<forall>h' < length cs. h \<noteq> h' \<longrightarrow> set (cs ! h) \<inter> set (cs ! h') = {}) \<and>
     (\<forall>h < length cs. distinct (cs ! h) \<and> (\<exists>l. dseg (ch_heap c) None (ch_list c ! h) (cs ! h) l None) \<and>
        (\<forall>a \<in> set (cs ! h). good (nd_elem (the (ch_heap c a))) h))"

definition elem_at :: "'e chain \<Rightarrow> int \<Rightarrow> 'e" where
  "elem_at c a = nd_elem (the (ch_heap c a))"

text \<open>
  The abstract table: for each key the stack of its elements, the most recent first. \<open>bucket\<close> is
  the hash function, \<open>key\<close> the key of an element.
\<close>

definition chain_bind :: "('e \<Rightarrow> 'k) \<Rightarrow> ('k \<Rightarrow> nat) \<Rightarrow> 'e chain \<Rightarrow> int list list \<Rightarrow> 'k \<Rightarrow> 'e list" where
  "chain_bind key bucket c cs k =
     (if bucket k < length cs then filter (\<lambda>e. key e = k) (map (elem_at c) (cs ! bucket k)) else [])"

lemma chain_okD:
  assumes "chain_ok good c cs"
  shows "length cs = length (ch_list c)"
    and "a \<in> dom (ch_heap c) \<longleftrightarrow> (\<exists>h < length cs. a \<in> set (cs ! h))"
    and "h < length cs \<Longrightarrow> h' < length cs \<Longrightarrow> h \<noteq> h' \<Longrightarrow> set (cs ! h) \<inter> set (cs ! h') = {}"
    and "h < length cs \<Longrightarrow> distinct (cs ! h)"
    and "h < length cs \<Longrightarrow> \<exists>l. dseg (ch_heap c) None (ch_list c ! h) (cs ! h) l None"
    and "h < length cs \<Longrightarrow> a \<in> set (cs ! h) \<Longrightarrow> good (elem_at c a) h"
  using assms by (simp_all add: chain_ok_def elem_at_def)

lemma chain_ok_empty: "chain_ok good (empty_chain n) (replicate n [])"
  by (simp add: chain_ok_def empty_chain_def)

lemma length_empty_chain [simp]: "length (ch_list (empty_chain n)) = n" "ch_heap (empty_chain n) = Map.empty"
  by (simp_all add: empty_chain_def)

lemma chain_bind_empty: "chain_bind key bucket (empty_chain n) (replicate n []) k = []"
  by (simp add: chain_bind_def)

text \<open>Replacing the list of one bucket: what is left to show for the invariant of the new chain.\<close>

lemma chain_ok_update:
  assumes ok: "chain_ok good c cs" and h: "h < length cs"
    and list: "ch_list c' = (ch_list c)[h := p]"
    and seg: "dseg (ch_heap c') None p ys l None"
    and dist: "distinct ys" and fresh: "\<And>h'. h' < length cs \<Longrightarrow> h' \<noteq> h \<Longrightarrow> set ys \<inter> set (cs ! h') = {}"
    and dom: "dom (ch_heap c') = set ys \<union> (dom (ch_heap c) - set (cs ! h))"
    and good: "\<And>a. a \<in> set ys \<Longrightarrow> good (elem_at c' a) h"
    and frame: "\<And>h' a. h' < length cs \<Longrightarrow> h' \<noteq> h \<Longrightarrow> a \<in> set (cs ! h') \<Longrightarrow> ch_heap c' a = ch_heap c a"
  shows "chain_ok good c' (cs[h := ys])"
proof -
  note D = chain_okD [OF ok]
  have seg': "\<exists>l. dseg (ch_heap c') None (ch_list c' ! h') (cs[h := ys] ! h') l None" if h': "h' < length cs" for h'
  proof (cases "h' = h")
    case True
    with seg h D(1) list show ?thesis by auto
  next
    case False
    obtain l where "dseg (ch_heap c) None (ch_list c ! h') (cs ! h') l None" using D(5) [OF h'] ..
    then have "dseg (ch_heap c') None (ch_list c ! h') (cs ! h') l None"
      using frame [OF h' False] by (subst dseg_cong [of _ _ "ch_heap c"]) auto
    with False list show ?thesis by auto
  qed
  have good': "good (nd_elem (the (ch_heap c' a))) h'" if h': "h' < length cs" and a: "a \<in> set (cs[h := ys] ! h')" for h' a
  proof (cases "h' = h")
    case True
    with a good h show ?thesis by (simp add: elem_at_def)
  next
    case False
    with a have a: "a \<in> set (cs ! h')" by simp
    from frame [OF h' False a] D(6) [OF h' a] show ?thesis by (simp add: elem_at_def)
  qed
  have dom': "a \<in> dom (ch_heap c') \<longleftrightarrow> (\<exists>h' < length cs. a \<in> set (cs[h := ys] ! h'))" for a
  proof
    assume "a \<in> dom (ch_heap c')"
    then consider "a \<in> set ys" | "a \<in> dom (ch_heap c)" "a \<notin> set (cs ! h)" using dom by auto
    then show "\<exists>h' < length cs. a \<in> set (cs[h := ys] ! h')"
    proof cases
      case 2
      then obtain h' where "h' < length cs" "a \<in> set (cs ! h')" using D(2) by blast
      with 2 show ?thesis by (cases "h' = h") auto
    qed (use h in auto)
  next
    assume "\<exists>h' < length cs. a \<in> set (cs[h := ys] ! h')"
    then obtain h' where h': "h' < length cs" "a \<in> set (cs[h := ys] ! h')" by blast
    show "a \<in> dom (ch_heap c')"
    proof (cases "h' = h")
      case False
      with h' D(2) D(3) [OF h h'(1)] have "a \<in> dom (ch_heap c)" "a \<notin> set (cs ! h)" by auto
      with dom show ?thesis by auto
    qed (use h h' dom in auto)
  qed
  have disj: "set (cs[h := ys] ! i) \<inter> set (cs[h := ys] ! j) = {}" if "i < length cs" "j < length cs" "i \<noteq> j" for i j
    using that fresh [of i] fresh [of j] D(3) [of i j] h by (cases "i = h"; cases "j = h") auto
  have dist': "distinct (cs[h := ys] ! i)" if "i < length cs" for i
    using that dist D(4) [of i] h by (cases "i = h") auto
  show ?thesis
    unfolding chain_ok_def using D(1) list dom' disj dist' seg' good' by simp
qed

text \<open>The abstract table changes at the keys of that bucket only.\<close>

lemma chain_bind_update:
  assumes "h < length cs" and "\<And>h' a. h' < length cs \<Longrightarrow> h' \<noteq> h \<Longrightarrow> a \<in> set (cs ! h') \<Longrightarrow> elem_at c' a = elem_at c a"
  shows "chain_bind key bucket c' (cs[h := ys]) k =
    (if bucket k = h then filter (\<lambda>e. key e = k) (map (elem_at c') ys) else chain_bind key bucket c cs k)"
proof -
  have "filter (\<lambda>e. key e = k) (map (elem_at c') (cs ! bucket k)) =
      filter (\<lambda>e. key e = k) (map (elem_at c) (cs ! bucket k))"
    if "bucket k \<noteq> h" "bucket k < length cs" using that assms(2)
    by (intro arg_cong [of _ _ "filter (\<lambda>e. key e = k)"] map_cong) auto
  with assms(1) show ?thesis by (auto simp: chain_bind_def)
qed

section \<open>The operations keep the invariant\<close>

lemma chain_push_ok:
  assumes ok: "chain_ok good c cs" and h: "h < length cs" and a: "ch_heap c a = None" and e: "good e h"
  shows "\<exists>c'. chain_push c (int h) a e = Inr c' \<and> chain_ok good c' (cs[h := a # cs ! h]) \<and>
    elem_at c' a = e \<and> (\<forall>b. b \<noteq> a \<longrightarrow> elem_at c' b = elem_at c b)"
proof -
  note D = chain_okD [OF ok]
  obtain l where seg: "dseg (ch_heap c) None (ch_list c ! h) (cs ! h) l None" using D(5) [OF h] ..
  have na: "a \<notin> set (cs ! h')" if "h' < length cs" for h' using D(2) [of a] a that by auto
  let ?nd = "\<lparr>nd_elem = e, nd_prev = None, nd_next = ch_list c ! h\<rparr>"
  let ?hp = "(ch_heap c)(a \<mapsto> ?nd)"
  have seg1: "dseg ?hp None (ch_list c ! h) (cs ! h) l None"
    using seg na [OF h] by (subst dseg_cong [of _ _ "ch_heap c"]) auto
  define hp where "hp = (case ch_list c ! h of None \<Rightarrow> ?hp
    | Some b \<Rightarrow> ?hp(b \<mapsto> (the (?hp b))\<lparr>nd_prev := Some a\<rparr>))"
  define c' where "c' = \<lparr>ch_list = (ch_list c)[h := Some a], ch_heap = hp\<rparr>"
  have run: "chain_push c (int h) a e = Inr c'"
    and seg2: "dseg hp None (Some a) (a # cs ! h) (if cs ! h = [] then Some a else l) None"
    and dm: "dom hp = insert a (dom (ch_heap c))"
    and el: "nd_elem (the (hp b)) = (if b = a then e else nd_elem (the (ch_heap c b)))"
    and fr: "b \<notin> set (a # cs ! h) \<Longrightarrow> hp b = ch_heap c b" for b
  proof -
    have hlen: "int h < int (length (ch_list c))" using h D(1) by simp
    consider (nil) "cs ! h = []" | (cons) b bs where "cs ! h = b # bs" by (cases "cs ! h") auto
    then have "chain_push c (int h) a e = Inr c' \<and>
      dseg hp None (Some a) (a # cs ! h) (if cs ! h = [] then Some a else l) None \<and>
      dom hp = insert a (dom (ch_heap c)) \<and>
      (\<forall>b. nd_elem (the (hp b)) = (if b = a then e else nd_elem (the (ch_heap c b)))) \<and>
      (\<forall>b. b \<notin> set (a # cs ! h) \<longrightarrow> hp b = ch_heap c b)"
    proof cases
      case nil
      then have p: "ch_list c ! h = None" using seg by simp
      then show ?thesis
        using nil seg hlen by (auto simp: chain_push_def c'_def hp_def Let_def)
    next
      case cons
      have ba: "b \<noteq> a" using na [OF h] cons by auto
      from cons obtain n where p: "ch_list c ! h = Some b" and "ch_heap c b = Some n" using seg by auto
      with ba have n: "?hp b = Some n" by simp
      have hp: "hp = ?hp(b \<mapsto> n\<lparr>nd_prev := Some a\<rparr>)" using p n by (simp add: hp_def)
      have "dseg hp (Some a) (ch_list c ! h) (cs ! h) l None"
        unfolding hp cons using D(4) [OF h] cons by (intro dseg_set_prev [OF seg1 [unfolded cons] _ n]) simp
      then have "dseg hp None (Some a) (a # cs ! h) (if cs ! h = [] then Some a else l) None"
        using cons ba p by (simp add: hp)
      moreover have "dom hp = insert a (dom (ch_heap c))" using n ba by (auto simp: hp)
      ultimately show ?thesis
        using cons n ba p hlen by (auto simp: chain_push_def c'_def hp Let_def load_def)
    qed
    then show "chain_push c (int h) a e = Inr c'"
      "dseg hp None (Some a) (a # cs ! h) (if cs ! h = [] then Some a else l) None"
      "dom hp = insert a (dom (ch_heap c))"
      "nd_elem (the (hp b)) = (if b = a then e else nd_elem (the (ch_heap c b)))"
      "b \<notin> set (a # cs ! h) \<Longrightarrow> hp b = ch_heap c b" by blast+
  qed
  have "chain_ok good c' (cs[h := a # cs ! h])"
  proof (rule chain_ok_update [OF ok h, where p = "Some a"])
    show "dseg (ch_heap c') None (Some a) (a # cs ! h) (if cs ! h = [] then Some a else l) None"
      using seg2 by (simp add: c'_def)
    show "dom (ch_heap c') = set (a # cs ! h) \<union> (dom (ch_heap c) - set (cs ! h))"
    proof -
      have "set (cs ! h) \<subseteq> dom (ch_heap c)" using D(2) h by blast
      with dm show ?thesis by (simp add: c'_def) blast
    qed
    show "good (elem_at c' x) h" if "x \<in> set (a # cs ! h)" for x
      using that el e D(6) [OF h, of x] na [OF h] by (auto simp: c'_def elem_at_def)
    show "ch_heap c' x = ch_heap c x" if "h' < length cs" "h' \<noteq> h" "x \<in> set (cs ! h')" for h' x
      using that D(3) [OF h that(1)] na [OF that(1)] fr [of x] by (auto simp: c'_def)
    show "set (a # cs ! h) \<inter> set (cs ! h') = {}" if "h' < length cs" "h' \<noteq> h" for h'
      using that D(3) [OF h that(1)] na [OF that(1)] by auto
    show "distinct (a # cs ! h)" using na [OF h] D(4) [OF h] by simp
  qed (simp add: c'_def)
  with run el show ?thesis by (auto simp: c'_def elem_at_def)
qed

text \<open>The two steps of unlinking: the forward link of the predecessor, the backward link of the successor.\<close>

definition same_elems :: "'e heap \<Rightarrow> 'e heap \<Rightarrow> int set \<Rightarrow> bool" where
  "same_elems hp' hp A \<longleftrightarrow> dom hp' = dom hp \<and> (\<forall>b. nd_elem (the (hp' b)) = nd_elem (the (hp b))) \<and>
     (\<forall>b. b \<notin> A \<longrightarrow> hp' b = hp b)"

lemma unlink_forward:
  assumes "dseg hp None (lst ! h) xs m r" and "distinct xs" and "h < length lst"
  obtains hp' p where
    "(case m of Some b \<Rightarrow> rbind (load hp b) (\<lambda>n. Inr (lst, hp(b \<mapsto> n\<lparr>nd_next := r'\<rparr>)))
       | None \<Rightarrow> rbind (arr_set lst (int h) r') (\<lambda>l. Inr (l, hp))) = Inr (lst[h := p], hp')"
    and "dseg hp' None p xs m r'" and "same_elems hp' hp (set xs)"
proof (cases xs rule: rev_cases)
  case Nil
  with assms that [of r' hp] show ?thesis by (simp add: same_elems_def)
next
  case (snoc xs' b)
  have m: "m = Some b" using dseg_last [OF assms(1)] snoc by simp
  obtain n where n: "hp b = Some n" using dseg_dom [OF assms(1), of b] snoc by auto
  let ?hp = "hp(b \<mapsto> n\<lparr>nd_next := r'\<rparr>)"
  have "dseg ?hp None (lst ! h) xs m r'"
    using dseg_set_next [of hp None "lst ! h" xs' b m r n r'] assms(1,2) snoc n by simp
  moreover have "same_elems ?hp hp (set xs)" using n snoc by (auto simp: same_elems_def)
  ultimately show ?thesis using that [of "lst ! h" ?hp] m n by (simp add: load_def)
qed

lemma unlink_backward:
  assumes "dseg hp pr r ys l None" and "distinct ys"
  obtains hp' l' where
    "(case r of Some b \<Rightarrow> rbind (load hp b) (\<lambda>n. Inr (hp(b \<mapsto> n\<lparr>nd_prev := m\<rparr>))) | None \<Rightarrow> Inr hp) = Inr hp'"
    and "dseg hp' m r ys l' None" and "same_elems hp' hp (set ys)"
proof (cases ys)
  case Nil
  with assms that [of hp m] show ?thesis by (simp add: same_elems_def)
next
  case (Cons b ys')
  then obtain n where r: "r = Some b" and n: "hp b = Some n" using assms(1) by auto
  let ?hp = "hp(b \<mapsto> n\<lparr>nd_prev := m\<rparr>)"
  have "dseg ?hp m r ys l None"
    using dseg_set_prev [of hp pr r b ys' l None n m] assms Cons n by simp
  moreover have "same_elems ?hp hp (set ys)" using n Cons by (auto simp: same_elems_def)
  ultimately show ?thesis using that [of ?hp l] r n by (simp add: load_def)
qed

lemma chain_unlink_ok:
  assumes ok: "chain_ok good c cs" and h: "h < length cs" and cs: "cs ! h = xs @ a # ys"
  shows "\<exists>c'. chain_unlink c (int h) a = Inr c' \<and> chain_ok good (chain_free_node c' a) (cs[h := xs @ ys]) \<and>
    dom (ch_heap (chain_free_node c' a)) = dom (ch_heap c) - {a} \<and>
    (\<forall>b. b \<noteq> a \<longrightarrow> elem_at (chain_free_node c' a) b = elem_at c b)"
proof -
  note D = chain_okD [OF ok]
  let ?hp = "ch_heap c" and ?lst = "ch_list c"
  have dist: "distinct xs" "distinct ys" "a \<notin> set xs" "a \<notin> set ys" "set xs \<inter> set ys = {}"
    using D(4) [OF h] cs by auto
  obtain l where "dseg ?hp None (?lst ! h) (xs @ a # ys) l None" using D(5) [OF h] cs by auto
  then obtain m nd where seg1: "dseg ?hp None (?lst ! h) xs m (Some a)" and nd: "?hp a = Some nd" "nd_prev nd = m"
    and seg2: "dseg ?hp (Some a) (nd_next nd) ys l None" by (auto simp: dseg_append)
  have hl: "h < length ?lst" using h D(1) by simp
  obtain hp1 p where st1: "(case m of Some b \<Rightarrow> rbind (load ?hp b) (\<lambda>n. Inr (?lst, ?hp(b \<mapsto> n\<lparr>nd_next := nd_next nd\<rparr>)))
       | None \<Rightarrow> rbind (arr_set ?lst (int h) (nd_next nd)) (\<lambda>l. Inr (l, ?hp))) = Inr (?lst[h := p], hp1)"
    and s1: "dseg hp1 None p xs m (nd_next nd)" and e1: "same_elems hp1 ?hp (set xs)"
    using unlink_forward [OF seg1 dist(1) hl] by blast
  have a1: "hp1 a = Some nd" using e1 nd(1) dist(3) by (simp add: same_elems_def)
  have "dseg hp1 (Some a) (nd_next nd) ys l None"
    using seg2 e1 dist(5) by (subst dseg_cong [of ys _ ?hp]) (auto simp: same_elems_def)
  from unlink_backward [OF this dist(2)] obtain hp2 l' where
    st2: "(case nd_next nd of Some b \<Rightarrow> rbind (load hp1 b) (\<lambda>n. Inr (hp1(b \<mapsto> n\<lparr>nd_prev := m\<rparr>))) | None \<Rightarrow> Inr hp1) = Inr hp2"
    and s2: "dseg hp2 m (nd_next nd) ys l' None" and e2: "same_elems hp2 hp1 (set ys)" by blast
  let ?c = "\<lparr>ch_list = ?lst[h := p], ch_heap = hp2\<rparr>"
  have run: "chain_unlink c (int h) a = Inr ?c"
    using nd(1) a1 st1 [folded nd(2)] st2 [folded nd(2)] by (simp add: chain_unlink_def load_def [of _ a])
  have "dseg hp2 None p xs m (nd_next nd)"
    using s1 e2 dist(5) by (subst dseg_cong [of xs _ hp1]) (auto simp: same_elems_def)
  with s2 have "dseg hp2 None p (xs @ ys) l' None" by (auto simp: dseg_append)
  then have seg: "dseg (hp2(a := None)) None p (xs @ ys) l' None"
    using dist(3,4) by (subst dseg_cong [of _ _ hp2]) auto
  have el: "b \<noteq> a \<Longrightarrow> elem_at (chain_free_node ?c a) b = elem_at c b" for b
    using e1 e2 by (simp add: same_elems_def elem_at_def chain_free_node_def)
  have dm: "dom (hp2(a := None)) = dom ?hp - {a}" using e1 e2 by (simp add: same_elems_def)
  have fr: "b \<notin> set (cs ! h) \<Longrightarrow> (hp2(a := None)) b = ?hp b" for b
    using e1 e2 cs by (auto simp: same_elems_def)
  have "chain_ok good (chain_free_node ?c a) (cs[h := xs @ ys])"
  proof (rule chain_ok_update [OF ok h, where p = p])
    show "dseg (ch_heap (chain_free_node ?c a)) None p (xs @ ys) l' None"
      using seg by (simp add: chain_free_node_def)
    show "set (xs @ ys) \<inter> set (cs ! h') = {}" if "h' < length cs" "h' \<noteq> h" for h'
      using D(3) [OF h that(1)] that(2) cs by auto
    show "dom (ch_heap (chain_free_node ?c a)) = set (xs @ ys) \<union> (dom ?hp - set (cs ! h))"
    proof -
      have "set (cs ! h) \<subseteq> dom ?hp" using D(2) h by blast
      with dm cs dist(3,4) show ?thesis by (simp add: chain_free_node_def) blast
    qed
    show "good (elem_at (chain_free_node ?c a) x) h" if "x \<in> set (xs @ ys)" for x
    proof -
      have "x \<noteq> a" "x \<in> set (cs ! h)" using that dist cs by auto
      then show ?thesis using el D(6) [OF h, of x] by simp
    qed
    show "ch_heap (chain_free_node ?c a) x = ?hp x" if "h' < length cs" "h' \<noteq> h" "x \<in> set (cs ! h')" for h' x
    proof -
      have "x \<notin> set (cs ! h)" using D(3) [OF h that(1)] that by blast
      then show ?thesis using fr [of x] by (simp add: chain_free_node_def)
    qed
  qed (use dist in \<open>auto simp: chain_free_node_def\<close>)
  with run el dm show ?thesis by (auto simp: chain_free_node_def)
qed

lemma chain_find_ok:
  assumes ok: "chain_ok good c cs" and h: "h < length cs"
  shows "chain_find (\<lambda>nd. test (nd_elem nd)) (ch_heap c) (ch_list c ! h) =
    Some (Inr (List.find (\<lambda>a. test (elem_at c a)) (cs ! h)))"
  using chain_okD(5) [OF ok h] by (auto simp: chain_find_dseg elem_at_def)

lemma release_all_ok:
  assumes "chain_ok good c cs"
  shows "release_all (ch_list c) (ch_heap c) = Some (Inr Map.empty)"
proof -
  note D = chain_okD [OF assms]
  have "release_all (drop h (ch_list c)) (\<lambda>a. if \<exists>h' < h. a \<in> set (cs ! h') then None else ch_heap c a) =
      Some (Inr Map.empty)" if "h \<le> length cs" for h
    using that
  proof (induction "length cs - h" arbitrary: h)
    case 0
    then have "h = length cs" by simp
    moreover have "(\<lambda>a. if \<exists>h' < length cs. a \<in> set (cs ! h') then None else ch_heap c a) = Map.empty"
    proof (rule ext)
      fix a
      show "(if \<exists>h' < length cs. a \<in> set (cs ! h') then None else ch_heap c a) = None"
        using D(2) [of a] by (cases "ch_heap c a") auto
    qed
    ultimately show ?case using D(1) by simp
  next
    case (Suc k)
    let ?hp = "\<lambda>a. if \<exists>h' < h. a \<in> set (cs ! h') then None else ch_heap c a"
    have h: "h < length cs" using Suc.hyps(2) by simp
    obtain l where "dseg (ch_heap c) None (ch_list c ! h) (cs ! h) l None" using D(5) [OF h] ..
    moreover have "?hp a = ch_heap c a" if "a \<in> set (cs ! h)" for a
      using that D(3) [OF h] h by (metis IntI emptyE less_irrefl less_trans)
    ultimately have "dseg ?hp None (ch_list c ! h) (cs ! h) l None"
      by (subst dseg_cong [of _ _ "ch_heap c"]) auto
    from chain_release_dseg [OF this D(4) [OF h]]
    have "chain_release ?hp (ch_list c ! h) =
        Some (Inr (\<lambda>a. if a \<in> set (cs ! h) then None else ?hp a))" .
    also have "(\<lambda>a. if a \<in> set (cs ! h) then None else ?hp a) =
        (\<lambda>a. if \<exists>h' < Suc h. a \<in> set (cs ! h') then None else ch_heap c a)"
      by (auto simp: fun_eq_iff less_Suc_eq)
    finally have step: "chain_release ?hp (ch_list c ! h) =
        Some (Inr (\<lambda>a. if \<exists>h' < Suc h. a \<in> set (cs ! h') then None else ch_heap c a))" .
    have "release_all (drop (Suc h) (ch_list c)) (\<lambda>a. if \<exists>h' < Suc h. a \<in> set (cs ! h') then None else ch_heap c a) =
        Some (Inr Map.empty)" using Suc.hyps(2) h by (intro Suc.hyps(1)) auto
    moreover have "drop h (ch_list c) = ch_list c ! h # drop (Suc h) (ch_list c)"
      using h D(1) by (simp add: Cons_nth_drop_Suc)
    ultimately show ?case by (simp only: release_all.simps step obind_simps)
  qed
  from this [of 0] show ?thesis by simp
qed

section \<open>Iteration\<close>

lemma in_concat_nth: "a \<in> set (concat cs) \<longleftrightarrow> (\<exists>h < length cs. a \<in> set (cs ! h))"
  unfolding set_concat set_conv_nth [of cs] by auto

lemma distinct_concatI:
  assumes "\<And>i. i < length cs \<Longrightarrow> distinct (cs ! i)"
    and "\<And>i j. i < length cs \<Longrightarrow> j < length cs \<Longrightarrow> i \<noteq> j \<Longrightarrow> set (cs ! i) \<inter> set (cs ! j) = {}"
  shows "distinct (concat cs)"
  using assms
proof (induction cs)
  case (Cons x xs)
  have "distinct (concat xs)"
  proof (rule Cons.IH)
    show "distinct (xs ! i)" if "i < length xs" for i using Cons.prems(1) [of "Suc i"] that by simp
    show "set (xs ! i) \<inter> set (xs ! j) = {}" if "i < length xs" "j < length xs" "i \<noteq> j" for i j
      using Cons.prems(2) [of "Suc i" "Suc j"] that by simp
  qed
  moreover have "set x \<inter> set (xs ! j) = {}" if "j < length xs" for j
    using Cons.prems(2) [of 0 "Suc j"] that by simp
  then have "set x \<inter> set (concat xs) = {}" unfolding disjoint_iff in_concat_nth by auto
  moreover have "distinct x" using Cons.prems(1) [of 0] by simp
  ultimately show ?case by simp
qed simp

lemma chain_ok_concat:
  assumes "chain_ok good c cs"
  shows "distinct (concat cs)" and "set (concat cs) = dom (ch_heap c)"
proof -
  note D = chain_okD [OF assms]
  show "distinct (concat cs)" using D(3,4) by (intro distinct_concatI) auto
  show "set (concat cs) = dom (ch_heap c)"
  proof (rule set_eqI)
    fix a
    show "a \<in> set (concat cs) \<longleftrightarrow> a \<in> dom (ch_heap c)"
      unfolding D(2) in_concat_nth ..
  qed
qed

definition head_of :: "'a list \<Rightarrow> 'a option" where
  "head_of xs = (case xs of [] \<Rightarrow> None | x # _ \<Rightarrow> Some x)"

lemma head_of_simps [simp]: "head_of [] = None" "head_of (x # xs) = Some x"
  by (simp_all add: head_of_def)

lemma dseg_head: "dseg hp pr p as l None \<Longrightarrow> p = head_of as"
  by (cases as) auto

lemma first_head_ok:
  assumes ok: "chain_ok good c cs" and "i \<le> length cs"
  shows "first_head (ch_list c) (int i) (int (length cs)) = Inr (head_of (concat (drop i cs)))"
  using assms(2)
proof (induction "length cs - i" arbitrary: i)
  case 0
  then show ?case by (subst first_head.simps) simp
next
  case (Suc k)
  then have i: "i < length cs" by simp
  have p: "ch_list c ! i = head_of (cs ! i)" using chain_okD(5) [OF ok i] dseg_head by blast
  have d: "drop i cs = cs ! i # drop (Suc i) cs" using i by (simp add: Cons_nth_drop_Suc)
  have g: "arr_get (ch_list c) (int i) = Inr (ch_list c ! i)" using i chain_okD(1) [OF ok] by (simp add: arr_get_nat)
  have rec: "first_head (ch_list c) (int (Suc i)) (int (length cs)) = Inr (head_of (concat (drop (Suc i) cs)))"
    using Suc.hyps(2) i by (intro Suc.hyps(1)) auto
  show ?case
    using i g p d rec by (subst first_head.simps) (cases "cs ! i", auto simp: add.commute)
qed

lemma chain_fetch_next:
  assumes ok: "chain_ok good c cs" and all: "concat cs = us @ a # vs"
    and hash: "\<And>e h. good e h \<Longrightarrow> hash_of e = int h"
  shows "chain_fetch hash_of c (int (length cs)) (Some a) = Inr (head_of vs)"
proof -
  note D = chain_okD [OF ok]
  have "a \<in> set (concat cs)" using all by simp
  then obtain h where h: "h < length cs" "a \<in> set (cs ! h)" unfolding in_concat_nth by blast
  then obtain xs ys where cs: "cs ! h = xs @ a # ys" by (meson split_list)
  have "concat cs = concat (take h cs) @ cs ! h @ concat (drop (Suc h) cs)"
    by (metis id_take_nth_drop [OF h(1)] concat.simps(2) concat_append)
  with all cs have eq: "us @ a # vs = (concat (take h cs) @ xs) @ a # (ys @ concat (drop (Suc h) cs))" by simp
  moreover have "distinct (us @ a # vs)" using chain_ok_concat(1) [OF ok] all by simp
  ultimately have vs: "vs = ys @ concat (drop (Suc h) cs)"
    using append_Cons_eq_iff [of a us vs "concat (take h cs) @ xs" "ys @ concat (drop (Suc h) cs)"]
    by (metis distinct.simps(2) distinct_append not_distinct_conv_prefix Un_iff set_append IntI empty_iff list.set_intros(1))
  obtain l where "dseg (ch_heap c) None (ch_list c ! h) (xs @ a # ys) l None" using D(5) [OF h(1)] cs by auto
  then obtain nd where nd: "ch_heap c a = Some nd" and "dseg (ch_heap c) (Some a) (nd_next nd) ys l None"
    by (auto simp: dseg_append)
  then have nx: "nd_next nd = head_of ys" by (simp add: dseg_head)
  have "hash_of (nd_elem nd) = int h" using hash D(6) [OF h] nd by (simp add: elem_at_def)
  then have "first_head (ch_list c) (hash_of (nd_elem nd) + 1) (int (length cs)) = Inr (head_of (concat (drop (Suc h) cs)))"
    using first_head_ok [OF ok, of "Suc h"] h(1) by (simp add: add.commute)
  with nd nx vs show ?thesis by (cases ys) (simp_all add: chain_fetch_def load_def)
qed

text \<open>The iteration visits every node of the store exactly once.\<close>

lemma chain_fetch_all:
  assumes ok: "chain_ok good c cs" and hash: "\<And>e h. good e h \<Longrightarrow> hash_of e = int h"
  shows "\<exists>as. distinct as \<and> set as = dom (ch_heap c) \<and>
    chain_fetch hash_of c (int (length (ch_list c))) None = Inr (head_of as) \<and>
    (\<forall>i < length as. chain_fetch hash_of c (int (length (ch_list c))) (Some (as ! i)) = Inr (head_of (drop (Suc i) as)))"
proof (intro exI [of _ "concat cs"] conjI allI impI)
  note len = chain_okD(1) [OF ok]
  show "chain_fetch hash_of c (int (length (ch_list c))) None = Inr (head_of (concat cs))"
    using first_head_ok [OF ok, of 0] len by (simp add: chain_fetch_def)
  fix i
  assume "i < length (concat cs)"
  then have "concat cs = take i (concat cs) @ concat cs ! i # drop (Suc i) (concat cs)" by (rule id_take_nth_drop)
  from chain_fetch_next [OF ok this hash] len
  show "chain_fetch hash_of c (int (length (ch_list c))) (Some (concat cs ! i)) = Inr (head_of (drop (Suc i) (concat cs)))"
    by simp
qed (rule chain_ok_concat [OF ok])+

section \<open>Chains as stacks of bindings\<close>

definition chain_abs ::
    "('e \<Rightarrow> nat \<Rightarrow> bool) \<Rightarrow> ('e \<Rightarrow> 'k) \<Rightarrow> ('k \<Rightarrow> nat) \<Rightarrow> 'e chain \<Rightarrow> ('k \<Rightarrow> 'e list) \<Rightarrow> bool"
where
  "chain_abs good key bucket c L \<longleftrightarrow> (\<exists>cs. chain_ok good c cs \<and> L = chain_bind key bucket c cs)"

lemma chain_abs_empty: "chain_abs good key bucket (empty_chain n) (\<lambda>_. [])"
proof -
  have "(\<lambda>_. []) = chain_bind key bucket (empty_chain n) (replicate n [])"
    by (rule ext) (simp add: chain_bind_empty)
  then show ?thesis unfolding chain_abs_def using chain_ok_empty by blast
qed

lemma chain_abs_push:
  assumes abs: "chain_abs good key bucket c L" and h: "bucket (key e) < length (ch_list c)"
    and a: "ch_heap c a = None" and e: "good e (bucket (key e))"
  shows "\<exists>c'. chain_push c (int (bucket (key e))) a e = Inr c' \<and>
    chain_abs good key bucket c' (L(key e := e # L (key e))) \<and>
    length (ch_list c') = length (ch_list c) \<and> dom (ch_heap c') = insert a (dom (ch_heap c)) \<and> elem_at c' a = e"
proof -
  obtain cs where ok: "chain_ok good c cs" and L: "L = chain_bind key bucket c cs" using abs by (auto simp: chain_abs_def)
  let ?h = "bucket (key e)" let ?cs = "cs[?h := a # cs ! ?h]"
  have hc: "?h < length cs" using h chain_okD(1) [OF ok] by simp
  obtain c' where c': "chain_push c (int ?h) a e = Inr c'" "chain_ok good c' ?cs" "elem_at c' a = e"
    and el: "\<forall>b. b \<noteq> a \<longrightarrow> elem_at c' b = elem_at c b" using chain_push_ok [OF ok hc a e] by blast
  have na: "a \<notin> set (cs ! h')" if "h' < length cs" for h' using chain_okD(2) [OF ok, of a] a that by auto
  have "chain_bind key bucket c' ?cs k = (L(key e := e # L (key e))) k" for k
  proof -
    have "map (elem_at c') (cs ! ?h) = map (elem_at c) (cs ! ?h)" using el na [OF hc] by (intro map_cong) auto
    then have m: "map (elem_at c') (a # cs ! ?h) = e # map (elem_at c) (cs ! ?h)" using c'(3) by simp
    have "chain_bind key bucket c' ?cs k = (if bucket k = ?h then filter (\<lambda>e. key e = k) (e # map (elem_at c) (cs ! ?h))
        else chain_bind key bucket c cs k)"
      unfolding m [symmetric] using el na by (intro chain_bind_update [OF hc]) metis
    then show ?thesis using hc by (auto simp: L chain_bind_def)
  qed
  then have "chain_abs good key bucket c' (L(key e := e # L (key e)))"
    using c'(2) unfolding chain_abs_def by (intro exI [of _ ?cs]) auto
  moreover have "dom (ch_heap c') = insert a (dom (ch_heap c))"
  proof (rule set_eqI)
    fix x
    show "x \<in> dom (ch_heap c') \<longleftrightarrow> x \<in> insert a (dom (ch_heap c))"
      unfolding chain_okD(2) [OF c'(2)] insert_iff chain_okD(2) [OF ok] using hc
      by (auto simp: nth_list_update split: if_splits)
  qed
  moreover have "length (ch_list c') = length (ch_list c)"
    using chain_okD(1) [OF c'(2)] chain_okD(1) [OF ok] by simp
  ultimately show ?thesis using c' by blast
qed

lemma find_split: "List.find P xs = Some a \<Longrightarrow> \<exists>us vs. xs = us @ a # vs \<and> P a \<and> (\<forall>u \<in> set us. \<not> P u)"
proof (induction xs)
  case (Cons x xs)
  show ?case
  proof (cases "P x")
    case True
    with Cons.prems show ?thesis by (intro exI [of _ "[]"] exI [of _ xs]) auto
  next
    case False
    with Cons obtain us vs where "xs = us @ a # vs" "P a" "\<forall>u \<in> set us. \<not> P u" by auto
    with False show ?thesis by (intro exI [of _ "x # us"] exI [of _ vs]) auto
  qed
qed simp

lemma chain_abs_get:
  assumes "chain_abs good key bucket c L" and "bucket k < length (ch_list c)"
  shows "\<exists>r. chain_get (\<lambda>nd. key (nd_elem nd) = k) c (int (bucket k)) = Some (Inr r) \<and>
    map_option (elem_at c) r = head_of (L k) \<and> set_option r \<subseteq> dom (ch_heap c)"
proof -
  obtain cs where ok: "chain_ok good c cs" and L: "L = chain_bind key bucket c cs"
    using assms(1) by (auto simp: chain_abs_def)
  have h: "bucket k < length cs" using assms(2) chain_okD(1) [OF ok] by simp
  have "map_option (elem_at c) (List.find (\<lambda>a. key (elem_at c a) = k) as) =
      head_of (filter (\<lambda>e. key e = k) (map (elem_at c) as))" for as
    by (induction as) auto
  moreover have "set_option (List.find (\<lambda>a. key (elem_at c a) = k) (cs ! bucket k)) \<subseteq> dom (ch_heap c)"
  proof
    fix a
    assume "a \<in> set_option (List.find (\<lambda>a. key (elem_at c a) = k) (cs ! bucket k))"
    then have "a \<in> set (cs ! bucket k)" by (auto dest!: find_split)
    with h show "a \<in> dom (ch_heap c)" unfolding chain_okD(2) [OF ok] by blast
  qed
  ultimately show ?thesis
    using chain_find_ok [OF ok h, of "\<lambda>e. key e = k"] h assms(2)
    by (simp add: chain_get_def arr_get_nat L chain_bind_def)
qed

lemma chain_abs_delete:
  assumes abs: "chain_abs good key bucket c L" and h: "bucket k < length (ch_list c)"
  shows "\<exists>c' r. chain_delete (\<lambda>nd. key (nd_elem nd) = k) c (int (bucket k)) = Some (Inr (c', r)) \<and>
    (case r of None \<Rightarrow> c' = c \<and> L k = []
     | Some a \<Rightarrow> L k \<noteq> [] \<and> a \<in> dom (ch_heap c) \<and> chain_abs good key bucket (chain_free_node c' a) (L(k := tl (L k))) \<and>
         length (ch_list (chain_free_node c' a)) = length (ch_list c) \<and>
         dom (ch_heap (chain_free_node c' a)) = dom (ch_heap c) - {a})"
proof -
  obtain cs where ok: "chain_ok good c cs" and L: "L = chain_bind key bucket c cs" using abs by (auto simp: chain_abs_def)
  let ?h = "bucket k"
  have hc: "?h < length cs" using h chain_okD(1) [OF ok] by simp
  note f = chain_find_ok [OF ok hc, of "\<lambda>e. key e = k"]
  show ?thesis
  proof (cases "List.find (\<lambda>a. key (elem_at c a) = k) (cs ! ?h)")
    case None
    then have "L k = []" using hc by (auto simp: L chain_bind_def find_None_iff filter_empty_conv)
    with None f h show ?thesis by (simp add: chain_delete_def arr_get_nat)
  next
    case (Some a)
    from find_split [OF this] obtain xs ys where cs: "cs ! ?h = xs @ a # ys" and ka: "key (elem_at c a) = k"
      and xs: "\<forall>u \<in> set xs. key (elem_at c u) \<noteq> k" by auto
    obtain c' where c': "chain_unlink c (int ?h) a = Inr c'" and ok': "chain_ok good (chain_free_node c' a) (cs[?h := xs @ ys])"
      and dm: "dom (ch_heap (chain_free_node c' a)) = dom (ch_heap c) - {a}"
      and el: "\<forall>b. b \<noteq> a \<longrightarrow> elem_at (chain_free_node c' a) b = elem_at c b"
      using chain_unlink_ok [OF ok hc cs] by blast
    let ?c = "chain_free_node c' a"
    have na: "a \<notin> set xs" "a \<notin> set ys" using chain_okD(4) [OF ok hc] cs by auto
    have nb: "a \<notin> set (cs ! h')" if "h' < length cs" "h' \<noteq> ?h" for h'
      using chain_okD(3) [OF ok hc that(1)] that(2) cs by auto
    have fx: "filter (\<lambda>e. key e = k) (map (elem_at c) xs) = []" using xs by (auto simp: filter_empty_conv)
    have Lk: "L k = elem_at c a # filter (\<lambda>e. key e = k) (map (elem_at c) ys)"
      using hc cs ka fx by (simp add: L chain_bind_def)
    have "chain_bind key bucket ?c (cs[?h := xs @ ys]) j = (L(k := tl (L k))) j" for j
    proof -
      have m: "map (elem_at ?c) (xs @ ys) = map (elem_at c) (xs @ ys)" using el na by (intro map_cong) auto
      have "chain_bind key bucket ?c (cs[?h := xs @ ys]) j =
          (if bucket j = ?h then filter (\<lambda>e. key e = j) (map (elem_at c) (xs @ ys)) else chain_bind key bucket c cs j)"
        unfolding m [symmetric] using el nb by (intro chain_bind_update [OF hc]) metis
      then show ?thesis using hc cs ka fx Lk by (auto simp: L chain_bind_def)
    qed
    then have "chain_abs good key bucket ?c (L(k := tl (L k)))"
      using ok' unfolding chain_abs_def by (intro exI [of _ "cs[?h := xs @ ys]"]) auto
    moreover have "a \<in> dom (ch_heap c)" using chain_okD(2) [OF ok, of a] hc cs by auto
    moreover have "length (ch_list ?c) = length (ch_list c)"
      using chain_okD(1) [OF ok'] chain_okD(1) [OF ok] by simp
    ultimately show ?thesis using f Some c' h dm Lk by (simp add: chain_delete_def arr_get_nat)
  qed
qed

section \<open>Chains as stacks of data\<close>

text \<open>The same with the data of the elements instead of the elements.\<close>

definition chain_tab ::
    "('e \<Rightarrow> nat \<Rightarrow> bool) \<Rightarrow> ('e \<Rightarrow> 'k) \<Rightarrow> ('k \<Rightarrow> nat) \<Rightarrow> ('e \<Rightarrow> 'v) \<Rightarrow> 'e chain \<Rightarrow> ('k \<Rightarrow> 'v list) \<Rightarrow> bool"
where
  "chain_tab good key bucket dat c L \<longleftrightarrow>
     (\<exists>E. chain_abs good key bucket c E \<and> (\<forall>k. L k = map dat (E k)))"

text \<open>What a returned pointer points to.\<close>

definition chain_value :: "('e \<Rightarrow> 'v) \<Rightarrow> 'e chain \<Rightarrow> int option \<Rightarrow> 'v option run" where
  "chain_value dat c p =
     (case p of
        None \<Rightarrow> Some (Inr None)
      | Some a \<Rightarrow> obind (Some (load (ch_heap c) a)) (\<lambda>nd. Some (Inr (Some (dat (nd_elem nd))))))"

text \<open>The chain after a deletion, with the node freed.\<close>

definition chain_drop :: "'e chain \<Rightarrow> int option \<Rightarrow> 'e chain" where
  "chain_drop c r = (case r of None \<Rightarrow> c | Some a \<Rightarrow> chain_free_node c a)"

lemma chain_tab_empty: "chain_tab good key bucket dat (empty_chain n) (\<lambda>_. [])"
  unfolding chain_tab_def using chain_abs_empty by fastforce

lemma chain_tab_push:
  assumes "chain_tab good key bucket dat c L" and "bucket (key e) < length (ch_list c)"
    and "ch_heap c a = None" and "good e (bucket (key e))" and "h = int (bucket (key e))"
  shows "\<exists>c'. chain_push c h a e = Inr c' \<and>
    chain_tab good key bucket dat c' (L(key e := dat e # L (key e))) \<and>
    length (ch_list c') = length (ch_list c) \<and> dom (ch_heap c') = insert a (dom (ch_heap c))"
proof -
  obtain E where E: "chain_abs good key bucket c E" "\<forall>k. L k = map dat (E k)"
    using assms(1) by (auto simp: chain_tab_def)
  from chain_abs_push [OF E(1) assms(2-4)] obtain c' where
    c': "chain_push c h a e = Inr c'" "chain_abs good key bucket c' (E(key e := e # E (key e)))"
      "length (ch_list c') = length (ch_list c)" "dom (ch_heap c') = insert a (dom (ch_heap c))"
    using assms(5) by blast
  moreover have "chain_tab good key bucket dat c' (L(key e := dat e # L (key e)))"
    unfolding chain_tab_def using c'(2) E(2) by (intro exI [of _ "E(key e := e # E (key e))"]) simp
  ultimately show ?thesis by blast
qed

lemma chain_tab_delete:
  assumes "chain_tab good key bucket dat c L" and "bucket k < length (ch_list c)" and "h = int (bucket k)"
  shows "\<exists>c' r. chain_delete (\<lambda>nd. key (nd_elem nd) = k) c h = Some (Inr (c', r)) \<and>
    chain_tab good key bucket dat (chain_drop c' r) (L(k := tl (L k))) \<and>
    length (ch_list (chain_drop c' r)) = length (ch_list c) \<and>
    dom (ch_heap (chain_drop c' r)) = dom (ch_heap c) - set_option r \<and> set_option r \<subseteq> dom (ch_heap c) \<and>
    (r = None \<longrightarrow> c' = c)"
proof -
  obtain E where E: "chain_abs good key bucket c E" "\<forall>k. L k = map dat (E k)"
    using assms(1) by (auto simp: chain_tab_def)
  from chain_abs_delete [OF E(1) assms(2)] obtain c' r where
    d: "chain_delete (\<lambda>nd. key (nd_elem nd) = k) c h = Some (Inr (c', r))"
    and r: "case r of None \<Rightarrow> c' = c \<and> E k = []
     | Some a \<Rightarrow> E k \<noteq> [] \<and> a \<in> dom (ch_heap c) \<and> chain_abs good key bucket (chain_free_node c' a) (E(k := tl (E k))) \<and>
         length (ch_list (chain_free_node c' a)) = length (ch_list c) \<and>
         dom (ch_heap (chain_free_node c' a)) = dom (ch_heap c) - {a}"
    using assms(3) by blast
  show ?thesis
  proof (cases r)
    case None
    then have "L(k := tl (L k)) = L" using r E(2) by (simp add: fun_upd_idem)
    with None r d assms(1) show ?thesis by (simp add: chain_drop_def del: fun_upd_apply)
  next
    case (Some a)
    then have "chain_tab good key bucket dat (chain_free_node c' a) (L(k := tl (L k)))"
      unfolding chain_tab_def using r E(2) by (intro exI [of _ "E(k := tl (E k))"]) (simp add: map_tl)
    with Some r d show ?thesis by (simp add: chain_drop_def del: fun_upd_apply)
  qed
qed

lemma chain_tab_get:
  assumes "chain_tab good key bucket dat c L" and "bucket k < length (ch_list c)" and "h = int (bucket k)"
  shows "\<exists>r. chain_get (\<lambda>nd. key (nd_elem nd) = k) c h = Some (Inr r) \<and>
    chain_value dat c r = Some (Inr (head_of (L k)))"
proof -
  obtain E where E: "chain_abs good key bucket c E" "\<forall>k. L k = map dat (E k)"
    using assms(1) by (auto simp: chain_tab_def)
  from chain_abs_get [OF E(1) assms(2)] obtain r where
    r: "chain_get (\<lambda>nd. key (nd_elem nd) = k) c h = Some (Inr r)" "map_option (elem_at c) r = head_of (E k)"
      "set_option r \<subseteq> dom (ch_heap c)" using assms(3) by blast
  then have "chain_value dat c r = Some (Inr (head_of (L k)))"
    using E(2) by (cases r; cases "E k") (auto simp: chain_value_def elem_at_def load_def)
  with r show ?thesis by blast
qed

lemma chain_tab_release:
  "chain_tab good key bucket dat c L \<Longrightarrow> release_all (ch_list c) (ch_heap c) = Some (Inr Map.empty)"
  by (auto simp: chain_tab_def chain_abs_def release_all_ok)

lemma chain_tab_fetch:
  assumes "chain_tab good key bucket dat c L" and "\<And>e h. good e h \<Longrightarrow> hash_of e = int h"
  shows "\<exists>as. distinct as \<and> set as = dom (ch_heap c) \<and>
    chain_fetch hash_of c (int (length (ch_list c))) None = Inr (head_of as) \<and>
    (\<forall>i < length as. chain_fetch hash_of c (int (length (ch_list c))) (Some (as ! i)) = Inr (head_of (drop (Suc i) as)))"
proof -
  obtain cs where "chain_ok good c cs" using assms(1) by (auto simp: chain_tab_def chain_abs_def)
  then show ?thesis using assms(2) by (rule chain_fetch_all)
qed

end
