(* ===== verification/Table_Interface.thy ===== *)
theory Table_Interface
  imports ChainTable Bytes
begin

text \<open>
  What the clients of the hash tables rely on: a table holds, for each key, a stack of values;
  adding pushes (a key may be added again), deleting pops, looking up reads the top. The states
  considered are those that calls with acceptable arguments reach from a new table.
\<close>

inductive table_reach ::
    "('t \<Rightarrow> 'k \<Rightarrow> 'v \<Rightarrow> ('t \<times> 'p option) run) \<Rightarrow> ('t \<Rightarrow> 'k \<Rightarrow> 't run) \<Rightarrow> ('k \<Rightarrow> 'v \<Rightarrow> bool) \<Rightarrow> ('k \<Rightarrow> bool) \<Rightarrow>
      't \<Rightarrow> 't \<Rightarrow> ('k \<Rightarrow> 'v list) \<Rightarrow> bool"
  for add del ok key_ok t0
where
  reach_new: "table_reach add del ok key_ok t0 t0 (\<lambda>_. [])"
| reach_add: "table_reach add del ok key_ok t0 t L \<Longrightarrow> ok k v \<Longrightarrow> add t k v = Some (Inr (t', Some a)) \<Longrightarrow>
    table_reach add del ok key_ok t0 t' (L(k := v # L k))"
| reach_full: "table_reach add del ok key_ok t0 t L \<Longrightarrow> ok k v \<Longrightarrow> add t k v = Some (Inr (t', None)) \<Longrightarrow>
    table_reach add del ok key_ok t0 t' L"
| reach_del: "table_reach add del ok key_ok t0 t L \<Longrightarrow> key_ok k \<Longrightarrow> del t k = Some (Inr t') \<Longrightarrow>
    table_reach add del ok key_ok t0 t' (L(k := tl (L k)))"

lemma table_reach_mono:
  assumes "table_reach add del ok key_ok t0 t L" and "\<And>k v. ok k v \<Longrightarrow> ok' k v" and "\<And>k. key_ok k \<Longrightarrow> key_ok' k"
  shows "table_reach add del ok' key_ok' t0 t L"
  using assms(1)
  by (induction rule: table_reach.induct) (auto intro: table_reach.intros assms(2,3) simp del: fun_upd_apply)

locale stack_map =
  fixes abs :: "'t \<Rightarrow> ('k \<Rightarrow> 'v list) \<Rightarrow> bool"
    and room :: "'t \<Rightarrow> bool"
    and ok :: "'k \<Rightarrow> 'v \<Rightarrow> bool"
    and key_ok :: "'k \<Rightarrow> bool"
    and add :: "'t \<Rightarrow> 'k \<Rightarrow> 'v \<Rightarrow> ('t \<times> 'p option) run"
    and del :: "'t \<Rightarrow> 'k \<Rightarrow> 't run"
    and get :: "'t \<Rightarrow> 'k \<Rightarrow> 'v option run"
  assumes add_sim: "abs t L \<Longrightarrow> ok k v \<Longrightarrow> add t k v = Some (Inr (t', p)) \<Longrightarrow>
      abs t' (if p = None then L else L(k := v # L k))"
    and add_room: "abs t L \<Longrightarrow> ok k v \<Longrightarrow> room t \<Longrightarrow> \<exists>t' a. add t k v = Some (Inr (t', Some a))"
    and del_sim: "abs t L \<Longrightarrow> key_ok k \<Longrightarrow> \<exists>t'. del t k = Some (Inr t') \<and> abs t' (L(k := tl (L k)))"
    and get_sim: "abs t L \<Longrightarrow> key_ok k \<Longrightarrow> get t k = Some (Inr (head_of (L k)))"
begin

lemma reach_abs:
  assumes "abs t0 (\<lambda>_. [])" and "table_reach add del ok key_ok t0 t L"
  shows "abs t L"
  using assms(2)
proof (induction rule: table_reach.induct)
  case reach_new
  show ?case by (rule assms(1))
next
  case (reach_add t L k v t' a)
  with add_sim [of t L k v t' "Some a"] show ?case by (simp del: fun_upd_apply)
next
  case (reach_full t L k v t')
  with add_sim [of t L k v t' None] show ?case by simp
next
  case (reach_del t L k t')
  with del_sim [of t L k] show ?case by (auto simp del: fun_upd_apply)
qed

text \<open>In a reachable state every operation ends without a fault and agrees with the stacks.\<close>

lemma reach_correct:
  assumes "abs t0 (\<lambda>_. [])" and "table_reach add del ok key_ok t0 t L"
  shows "key_ok k \<Longrightarrow> get t k = Some (Inr (head_of (L k)))"
    and "key_ok k \<Longrightarrow> \<exists>t'. del t k = Some (Inr t')"
    and "ok k v \<Longrightarrow> room t \<Longrightarrow> \<exists>t' a. add t k v = Some (Inr (t', Some a))"
  using reach_abs [OF assms] get_sim [of t L k] del_sim [of t L k] add_room [of t L k v] by blast+

lemma add_get:
  assumes "abs t L" and "ok k v" and "key_ok k'" and "add t k v = Some (Inr (t', Some a))"
  shows "get t' k' = (if k' = k then Some (Inr (Some v)) else get t k')"
  using add_sim [OF assms(1,2,4)] get_sim [of t L k'] get_sim [of t' _ k'] assms(1,3) by fastforce

end

text \<open>
  The store's malloc is a parameter: it returns NULL, or the address and the content of a block
  that is not in use.
\<close>

type_synonym 'e malloc = "'e heap \<Rightarrow> (int \<times> byte list) option"

definition fresh_malloc :: "'e malloc \<Rightarrow> bool" where
  "fresh_malloc malloc \<longleftrightarrow> (\<forall>hp a junk. malloc hp = Some (a, junk) \<longrightarrow> hp a = None)"

text \<open>A small allocator that meets it.\<close>

definition small_malloc :: "'e malloc" where
  "small_malloc hp = map_option (\<lambda>a. (a, replicate 64 0)) (List.find (\<lambda>a. hp a = None) [8, 16, 24, 32])"

lemma small_malloc_fresh: "fresh_malloc small_malloc"
  by (auto simp: fresh_malloc_def small_malloc_def dest: find_split)

end
