(* ===== verification/IHash.thy ===== *)
theory IHash
  imports Table_Interface
begin

text \<open>
  The integer-keyed hash table of src/src/util/src/ihash.c. Mutex operations are not modelled. The
  hash function pointer is a field, applied to \<open>maxSessions\<close> and the key; pointers to the data of
  a node are its address.
\<close>

section \<open>State and operations\<close>

record IHashNode =
  ih_key :: int
  ih_data :: "byte list"

record IHashObj =
  ih_chain :: "IHashNode chain"
  ih_maxSessions :: int
  ih_dataSize :: nat
  ih_hashFp :: "int \<Rightarrow> int \<Rightarrow> int"

definition taosHashInt :: "int \<Rightarrow> int \<Rightarrow> int" where
  "taosHashInt maxSessions key = key smod maxSessions"

definition taosAddIntHash ::
    "IHashNode malloc \<Rightarrow> IHashObj option \<Rightarrow> int \<Rightarrow> byte list option \<Rightarrow> (IHashObj option \<times> int option) run"
where
  "taosAddIntHash malloc handle key pData =
     (case handle of
        None \<Rightarrow> Some (Inr (None, None))
      | Some pObj \<Rightarrow>
          if ih_maxSessions pObj = 0 then Some (Inr (Some pObj, None))
          else
            let hash = ih_hashFp pObj (ih_maxSessions pObj) key in
            (case malloc (ch_heap (ih_chain pObj)) of
               None \<Rightarrow> Some (Inr (Some pObj, None))
             | Some (a, junk) \<Rightarrow>
                 obind (Some (case pData of
                                None \<Rightarrow> Inr junk
                              | Some d \<Rightarrow> copy_bytes d 0 (ih_dataSize pObj))) (\<lambda>dat.
                 obind (Some (chain_push (ih_chain pObj) hash a \<lparr>ih_key = key, ih_data = dat\<rparr>)) (\<lambda>c.
                   Some (Inr (Some (pObj\<lparr>ih_chain := c\<rparr>), Some a))))))"

definition taosDeleteIntHash :: "IHashObj option \<Rightarrow> int \<Rightarrow> IHashObj option run" where
  "taosDeleteIntHash handle key =
     (case handle of
        None \<Rightarrow> Some (Inr None)
      | Some pObj \<Rightarrow>
          if ih_maxSessions pObj = 0 then Some (Inr (Some pObj))
          else
            obind (chain_delete (\<lambda>nd. ih_key (nd_elem nd) = key) (ih_chain pObj)
                    (ih_hashFp pObj (ih_maxSessions pObj) key)) (\<lambda>(c, r).
              case r of
                None \<Rightarrow> Some (Inr (Some pObj))
              | Some a \<Rightarrow> Some (Inr (Some (pObj\<lparr>ih_chain := chain_free_node c a\<rparr>)))))"

definition taosGetIntHashData :: "IHashObj option \<Rightarrow> int \<Rightarrow> int option run" where
  "taosGetIntHashData handle key =
     (case handle of
        None \<Rightarrow> Some (Inr None)
      | Some pObj \<Rightarrow>
          if ih_maxSessions pObj = 0 then Some (Inr None)
          else
            chain_get (\<lambda>nd. ih_key (nd_elem nd) = key) (ih_chain pObj)
              (ih_hashFp pObj (ih_maxSessions pObj) key))"

text \<open>The last two arguments are the outcomes of the calls of malloc.\<close>

definition taosInitIntHash :: "int \<Rightarrow> nat \<Rightarrow> (int \<Rightarrow> int \<Rightarrow> int) \<Rightarrow> bool \<Rightarrow> bool \<Rightarrow> IHashObj option" where
  "taosInitIntHash maxSessions dataSize fp obj_ok list_ok =
     (if \<not> obj_ok then None
      else if \<not> list_ok then None
      else Some \<lparr>ih_chain = empty_chain (nat maxSessions), ih_maxSessions = maxSessions,
             ih_dataSize = dataSize, ih_hashFp = fp\<rparr>)"

text \<open>The nodes left in the store.\<close>

definition taosCleanUpIntHash :: "IHashObj option \<Rightarrow> IHashNode heap run" where
  "taosCleanUpIntHash handle =
     (case handle of
        None \<Rightarrow> Some (Inr Map.empty)
      | Some pObj \<Rightarrow>
          if ih_maxSessions pObj \<le> 0 then Some (Inr (ch_heap (ih_chain pObj)))
          else release_all (ch_list (ih_chain pObj)) (ch_heap (ih_chain pObj)))"

section \<open>The table as stacks of data\<close>

definition ih_good :: "(int \<Rightarrow> int \<Rightarrow> int) \<Rightarrow> int \<Rightarrow> IHashNode \<Rightarrow> nat \<Rightarrow> bool" where
  "ih_good fp n e h \<longleftrightarrow> fp n (ih_key e) = int h"

definition ih_bucket :: "(int \<Rightarrow> int \<Rightarrow> int) \<Rightarrow> int \<Rightarrow> int \<Rightarrow> nat" where
  "ih_bucket fp n k = nat (fp n k)"

definition ih_abs ::
    "IHashNode malloc \<Rightarrow> (int \<Rightarrow> int \<Rightarrow> int) \<Rightarrow> int \<Rightarrow> nat \<Rightarrow> IHashObj \<Rightarrow> (int \<Rightarrow> byte list list) \<Rightarrow> bool"
where
  "ih_abs malloc fp n sz t L \<longleftrightarrow> fresh_malloc malloc \<and> 0 < n \<and> ih_hashFp t = fp \<and> ih_maxSessions t = n \<and>
     ih_dataSize t = sz \<and> length (ch_list (ih_chain t)) = nat n \<and>
     chain_tab (ih_good fp n) ih_key (ih_bucket fp n) ih_data (ih_chain t) L"

definition ih_room :: "IHashNode malloc \<Rightarrow> IHashObj \<Rightarrow> bool" where
  "ih_room malloc t \<longleftrightarrow> malloc (ch_heap (ih_chain t)) \<noteq> None"

definition ih_key_ok :: "(int \<Rightarrow> int \<Rightarrow> int) \<Rightarrow> int \<Rightarrow> int \<Rightarrow> bool" where
  "ih_key_ok fp n k \<longleftrightarrow> 0 \<le> fp n k \<and> fp n k < n"

definition ih_ok :: "(int \<Rightarrow> int \<Rightarrow> int) \<Rightarrow> int \<Rightarrow> nat \<Rightarrow> int \<Rightarrow> byte list \<Rightarrow> bool" where
  "ih_ok fp n sz k v \<longleftrightarrow> ih_key_ok fp n k \<and> length v = sz"

definition ih_add :: "IHashNode malloc \<Rightarrow> IHashObj \<Rightarrow> int \<Rightarrow> byte list \<Rightarrow> (IHashObj \<times> int option) run" where
  "ih_add malloc t k v =
     obind (taosAddIntHash malloc (Some t) k (Some v)) (\<lambda>(h, p). obind (Some (deref h)) (\<lambda>t'. Some (Inr (t', p))))"

definition ih_del :: "IHashObj \<Rightarrow> int \<Rightarrow> IHashObj run" where
  "ih_del t k = obind (taosDeleteIntHash (Some t) k) (\<lambda>h. Some (deref h))"

text \<open>The data the returned pointer points to.\<close>

definition ih_get :: "IHashObj \<Rightarrow> int \<Rightarrow> byte list option run" where
  "ih_get t k = obind (taosGetIntHashData (Some t) k) (chain_value ih_data (ih_chain t))"

lemma ih_bucket_less:
  assumes "ih_abs malloc fp n sz t L" and "ih_key_ok fp n k"
  shows "ih_bucket fp n k < length (ch_list (ih_chain t))" and "fp n k = int (ih_bucket fp n k)"
  using assms by (auto simp: ih_key_ok_def ih_bucket_def ih_abs_def)

lemma ih_abs_add:
  assumes abs: "ih_abs malloc fp n sz t L" and ok: "ih_ok fp n sz k v"
  shows "case malloc (ch_heap (ih_chain t)) of
      None \<Rightarrow> ih_add malloc t k v = Some (Inr (t, None))
    | Some (a, junk) \<Rightarrow> \<exists>t'. ih_add malloc t k v = Some (Inr (t', Some a)) \<and> ih_abs malloc fp n sz t' (L(k := v # L k))"
proof (cases "malloc (ch_heap (ih_chain t))")
  case None
  with abs show ?thesis by (auto simp: ih_add_def taosAddIntHash_def Let_def)
next
  case (Some p)
  obtain a junk where p: "p = (a, junk)" by (cases p)
  have k: "ih_key_ok fp n k" and v: "copy_bytes v 0 sz = Inr v" using ok by (auto simp: ih_ok_def copy_bytes_def)
  note b = ih_bucket_less [OF abs k]
  have free: "ch_heap (ih_chain t) a = None" and tab: "chain_tab (ih_good fp n) ih_key (ih_bucket fp n) ih_data (ih_chain t) L"
    using abs Some p by (auto simp: ih_abs_def fresh_malloc_def)
  obtain c where c: "chain_push (ih_chain t) (fp n k) a \<lparr>ih_key = k, ih_data = v\<rparr> = Inr c"
    "chain_tab (ih_good fp n) ih_key (ih_bucket fp n) ih_data c (L(k := v # L k))"
    "length (ch_list c) = length (ch_list (ih_chain t))"
    using chain_tab_push [OF tab _ free, of "\<lparr>ih_key = k, ih_data = v\<rparr>" "fp n k"] b by (auto simp: ih_good_def)
  have "ih_add malloc t k v = Some (Inr (t\<lparr>ih_chain := c\<rparr>, Some a))"
    using abs Some p c(1) v by (simp add: ih_add_def taosAddIntHash_def Let_def ih_abs_def)
  moreover have "ih_abs malloc fp n sz (t\<lparr>ih_chain := c\<rparr>) (L(k := v # L k))"
    using abs c by (simp add: ih_abs_def)
  ultimately show ?thesis using Some p by auto
qed

lemma ih_abs_del:
  assumes abs: "ih_abs malloc fp n sz t L" and k: "ih_key_ok fp n k"
  shows "\<exists>t'. ih_del t k = Some (Inr t') \<and> ih_abs malloc fp n sz t' (L(k := tl (L k)))"
proof -
  note b = ih_bucket_less [OF abs k]
  have tab: "chain_tab (ih_good fp n) ih_key (ih_bucket fp n) ih_data (ih_chain t) L" using abs by (simp add: ih_abs_def)
  obtain c r where d: "chain_delete (\<lambda>nd. ih_key (nd_elem nd) = k) (ih_chain t) (fp n k) = Some (Inr (c, r))"
    "chain_tab (ih_good fp n) ih_key (ih_bucket fp n) ih_data (chain_drop c r) (L(k := tl (L k)))"
    "length (ch_list (chain_drop c r)) = length (ch_list (ih_chain t))" "r = None \<longrightarrow> c = ih_chain t"
    using chain_tab_delete [OF tab b] by blast
  have "ih_del t k = Some (Inr (t\<lparr>ih_chain := chain_drop c r\<rparr>))"
    using abs d(1,4) by (cases r) (auto simp: ih_del_def taosDeleteIntHash_def ih_abs_def chain_drop_def)
  moreover have "ih_abs malloc fp n sz (t\<lparr>ih_chain := chain_drop c r\<rparr>) (L(k := tl (L k)))"
    using abs d by (simp add: ih_abs_def)
  ultimately show ?thesis by blast
qed

lemma ih_abs_get:
  assumes abs: "ih_abs malloc fp n sz t L" and k: "ih_key_ok fp n k"
  shows "ih_get t k = Some (Inr (head_of (L k)))"
proof -
  note b = ih_bucket_less [OF abs k]
  have "chain_tab (ih_good fp n) ih_key (ih_bucket fp n) ih_data (ih_chain t) L" using abs by (simp add: ih_abs_def)
  from chain_tab_get [OF this b] abs show ?thesis
    by (auto simp: ih_get_def taosGetIntHashData_def ih_abs_def)
qed

interpretation ih: stack_map "ih_abs malloc fp n sz" "ih_room malloc" "ih_ok fp n sz" "ih_key_ok fp n"
  "ih_add malloc" ih_del ih_get
  for malloc fp n sz
proof
  fix t t' L k v p
  assume a: "ih_abs malloc fp n sz t L" "ih_ok fp n sz k v"
  note step = ih_abs_add [OF a]
  show "ih_abs malloc fp n sz t' (if p = None then L else L(k := v # L k))" if "ih_add malloc t k v = Some (Inr (t', p))"
    using step that a(1) by (auto split: option.splits prod.splits simp del: fun_upd_apply)
  show "\<exists>t' a. ih_add malloc t k v = Some (Inr (t', Some a))" if "ih_room malloc t"
    using step that by (auto simp: ih_room_def split: option.splits)
qed (use ih_abs_del ih_abs_get in blast)+

lemma ih_init_abs:
  "fresh_malloc malloc \<Longrightarrow> 0 < n \<Longrightarrow> taosInitIntHash n sz fp True True = Some t \<Longrightarrow>
    ih_abs malloc fp n sz t (\<lambda>_. [])"
  by (auto simp: taosInitIntHash_def ih_abs_def chain_tab_empty length_empty_chain)

lemma taosHashInt_ok: "0 < n \<Longrightarrow> 0 \<le> k \<Longrightarrow> ih_key_ok taosHashInt n k"
  by (simp add: ih_key_ok_def taosHashInt_def smod_bounds)

section \<open>Correctness\<close>

text \<open>
  C14.
  Through any sequence of calls with non-negative keys on a new table hashed by
  \<open>taosHashInt\<close>, every operation ends without following a bad pointer; a lookup returns the data
  added last for its key and not deleted since; deleting works on present and absent keys; adding
  succeeds whenever malloc does; and the clean-up frees every node once.
\<close>

theorem ihash_correct:
  assumes "fresh_malloc malloc" and "0 < n" and "taosInitIntHash n sz taosHashInt True True = Some t0"
    and "table_reach (ih_add malloc) ih_del (\<lambda>k v. 0 \<le> k \<and> length v = sz) (\<lambda>k. 0 \<le> k) t0 t L"
    and "0 \<le> k" and "length v = sz"
  shows "ih_get t k = Some (Inr (head_of (L k))) \<and>
    (\<exists>t'. ih_del t k = Some (Inr t')) \<and>
    (malloc (ch_heap (ih_chain t)) \<noteq> None \<longrightarrow> (\<exists>t' a. ih_add malloc t k v = Some (Inr (t', Some a)))) \<and>
    taosCleanUpIntHash (Some t) = Some (Inr Map.empty)"
proof -
  have init: "ih_abs malloc taosHashInt n sz t0 (\<lambda>_. [])" using assms(1-3) by (rule ih_init_abs)
  have reach: "table_reach (ih_add malloc) ih_del (ih_ok taosHashInt n sz) (ih_key_ok taosHashInt n) t0 t L"
    by (rule table_reach_mono [OF assms(4)]) (auto simp: ih_ok_def taosHashInt_ok assms(2))
  have k: "ih_key_ok taosHashInt n k" using assms(2,5) by (rule taosHashInt_ok)
  have "taosCleanUpIntHash (Some t) = Some (Inr Map.empty)"
    using ih.reach_abs [OF init reach] by (auto simp: taosCleanUpIntHash_def ih_abs_def dest: chain_tab_release)
  with ih.reach_correct [OF init reach] k assms(6) show ?thesis by (auto simp: ih_ok_def ih_room_def)
qed

theorem ihash_correct_witness:
  "\<exists>t0 t. taosInitIntHash 4 1 taosHashInt True True = Some t0 \<and>
    ih_add small_malloc t0 6 [9] = Some (Inr (t, Some 8)) \<and> ih_get t 6 = Some (Inr (Some [9])) \<and>
    taosCleanUpIntHash (Some t) = Some (Inr Map.empty)"
proof -
  obtain t0 where t0: "taosInitIntHash 4 1 taosHashInt True True = Some t0" by (simp add: taosInitIntHash_def)
  note abs = ih_init_abs [OF small_malloc_fresh zero_less_numeral t0]
  have "ih_ok taosHashInt 4 1 6 [9]" by (simp add: ih_ok_def taosHashInt_ok)
  moreover have "small_malloc (ch_heap (ih_chain t0)) = Some (8, replicate 64 0)"
    using t0 by (auto simp: taosInitIntHash_def small_malloc_def)
  ultimately obtain t where t: "ih_add small_malloc t0 6 [9] = Some (Inr (t, Some 8))"
    using ih_abs_add [OF abs, of 6 "[9]"] by auto
  have "table_reach (ih_add small_malloc) ih_del (\<lambda>k v. 0 \<le> k \<and> length v = 1) (\<lambda>k. 0 \<le> k) t0 t
      ((\<lambda>_. [])(6 := [9] # []))"
    by (rule reach_add [where t = t0]) (simp_all add: reach_new t)
  from ihash_correct [OF small_malloc_fresh _ t0 this, of 6 "[9]"] t0 t show ?thesis by auto
qed

text \<open>
  A negative key that \<open>maxSessions\<close> does not divide hashes to a negative index: looking it up
  or deleting it reads the bucket array before its start.
\<close>

lemma ihash_negative_key:
  assumes "0 < ih_maxSessions t" and "ih_hashFp t = taosHashInt" and "k < 0" and "\<not> ih_maxSessions t dvd k"
  shows "taosGetIntHashData (Some t) k = Some (Inl Out_Of_Bounds) \<and>
    taosDeleteIntHash (Some t) k = Some (Inl Out_Of_Bounds)"
proof -
  have "k smod ih_maxSessions t = - ((- k) mod ih_maxSessions t)"
    using assms(1,3) by (simp add: signed_modulo_int_def sgn_if)
  moreover have "0 \<le> (- k) mod ih_maxSessions t" "(- k) mod ih_maxSessions t \<noteq> 0"
    using assms(1,4) by (auto simp: mod_eq_0_iff_dvd)
  ultimately have "taosHashInt (ih_maxSessions t) k < 0" unfolding taosHashInt_def by linarith
  then have "arr_get (ch_list (ih_chain t)) (taosHashInt (ih_maxSessions t) k) = Inl Out_Of_Bounds"
    by (simp add: arr_get_out)
  with assms(1,2) show ?thesis
    by (simp add: taosGetIntHashData_def taosDeleteIntHash_def chain_get_def chain_delete_def)
qed

end
