(* ===== verification/PoolTable.thy ===== *)
theory PoolTable
  imports Table_Interface MemPool
begin

text \<open>
  Chained tables whose nodes are blocks of a memory pool, the common part of thash.c, hashint.c
  and thaship.c: a node's address is its offset in the pool.
\<close>

section \<open>Operations\<close>

text \<open>
  A node is taken from the pool and made the head of bucket \<open>h\<close>. The pool's NULL is not tested:
  the first field written through it is a fault. \<open>fill\<close> is the outcome of filling the node.
\<close>

definition pool_put :: "'e chain \<Rightarrow> pool_t \<Rightarrow> int \<Rightarrow> 'e res \<Rightarrow> ('e chain \<times> pool_t) run" where
  "pool_put c p h fill =
     obind (Some (taosMemPoolMalloc p)) (\<lambda>(p', r).
     obind (Some (deref r)) (\<lambda>a.
     obind (Some fill) (\<lambda>e.
     obind (Some (chain_push c h a e)) (\<lambda>c'. Some (Inr (c', p'))))))"

definition pool_remove ::
    "('e hnode \<Rightarrow> bool) \<Rightarrow> 'e chain \<Rightarrow> pool_t \<Rightarrow> int \<Rightarrow> ('e chain \<times> pool_t) run" where
  "pool_remove test c p h =
     obind (chain_delete test c h) (\<lambda>(c', r).
       case r of
         None \<Rightarrow> Some (Inr (c, p))
       | Some a \<Rightarrow>
           obind (Some (taosMemPoolFree p (Some a))) (\<lambda>p'. Some (Inr (chain_free_node c' a, p'))))"

section \<open>Invariant\<close>

text \<open>Every block of the pool is either free or a node of the table.\<close>

definition pool_backs :: "'e chain \<Rightarrow> pool_t \<Rightarrow> bool" where
  "pool_backs c p \<longleftrightarrow> mpool_wf p \<and> dom (ch_heap c) \<inter> set (mp_free p) = {} \<and>
     dom (ch_heap c) \<union> set (mp_free p) = mp_blocks p"

definition pool_tab ::
    "('e \<Rightarrow> nat \<Rightarrow> bool) \<Rightarrow> ('e \<Rightarrow> 'k) \<Rightarrow> ('k \<Rightarrow> nat) \<Rightarrow> ('e \<Rightarrow> 'v) \<Rightarrow> int \<Rightarrow> 'e chain \<Rightarrow> pool_t \<Rightarrow>
      ('k \<Rightarrow> 'v list) \<Rightarrow> bool"
where
  "pool_tab good key bucket dat n c p L \<longleftrightarrow> 0 < n \<and> length (ch_list c) = nat n \<and> pool_backs c p \<and>
     chain_tab good key bucket dat c L"

text \<open>A hash value in the range of the bucket array.\<close>

definition in_range :: "int \<Rightarrow> int \<Rightarrow> bool" where
  "in_range n h \<longleftrightarrow> 0 \<le> h \<and> h < n"

lemma pool_tab_bucket:
  assumes "pool_tab good key bucket dat n c p L" and "in_range n h"
  shows "nat h < length (ch_list c)"
  using assms by (auto simp: pool_tab_def in_range_def)

lemma pool_put_full:
  assumes "pool_backs c p" and "mp_free p = []"
  shows "pool_put c p h fill = Some (Inl Null_Deref)"
  using assms mp_alloc_empty [of p] by (simp add: pool_put_def pool_backs_def)

lemma pool_put_ok:
  assumes tab: "pool_tab good key bucket dat n c p L" and h: "in_range n h" and b: "bucket (key e) = nat h"
    and e: "good e (nat h)" and room: "mp_free p \<noteq> []"
  shows "\<exists>c' p'. pool_put c p h (Inr e) = Some (Inr (c', p')) \<and> mp_free p' = tl (mp_free p) \<and>
    pool_tab good key bucket dat n c' p' (L(key e := dat e # L (key e)))"
proof -
  obtain a xs where free: "mp_free p = a # xs" using room by (cases "mp_free p") auto
  have pb: "mpool_wf p" "dom (ch_heap c) \<inter> set (mp_free p) = {}" "dom (ch_heap c) \<union> set (mp_free p) = mp_blocks p"
    using tab by (auto simp: pool_tab_def pool_backs_def)
  obtain p' where p': "taosMemPoolMalloc p = Inr (p', Some a)" "mpool_wf p'" "mp_free p' = xs" "mp_blocks p' = mp_blocks p"
    using mp_alloc_Cons [OF pb(1) free] by blast
  have fresh: "ch_heap c a = None" using pb(2) free by (auto simp: domIff)
  have ct: "chain_tab good key bucket dat c L" and ge: "good e (bucket (key e))"
    and hb: "bucket (key e) < length (ch_list c)" "h = int (bucket (key e))"
    using tab e b h pool_tab_bucket [OF tab h] by (auto simp: pool_tab_def in_range_def)
  have dist: "a \<notin> set xs" using mp_free_distinct [OF pb(1)] free by simp
  obtain c' where c': "chain_push c h a e = Inr c'" "chain_tab good key bucket dat c' (L(key e := dat e # L (key e)))"
    "length (ch_list c') = length (ch_list c)" "dom (ch_heap c') = insert a (dom (ch_heap c))"
    using chain_tab_push [OF ct hb(1) fresh ge hb(2)] by blast
  have "pool_backs c' p'" using pb free dist c'(4) p' by (auto simp: pool_backs_def)
  then show ?thesis using c' p'(1,3) free tab by (auto simp: pool_put_def pool_tab_def)
qed

lemma pool_put_sim:
  assumes "pool_tab good key bucket dat n c p L" and "in_range n h" and "bucket (key e) = nat h"
    and "good e (nat h)" and "pool_put c p h (Inr e) = Some (Inr (c', p'))"
  shows "pool_tab good key bucket dat n c' p' (L(key e := dat e # L (key e)))" and "mp_free p' = tl (mp_free p)"
proof -
  have "mp_free p \<noteq> []"
    using assms(5) pool_put_full [of c p h "Inr e"] assms(1) by (auto simp: pool_tab_def)
  from pool_put_ok [OF assms(1-4) this] assms(5)
  show "pool_tab good key bucket dat n c' p' (L(key e := dat e # L (key e)))" "mp_free p' = tl (mp_free p)" by auto
qed

lemma pool_remove_ok:
  assumes tab: "pool_tab good key bucket dat n c p L" and h: "in_range n h" and b: "bucket k = nat h"
  shows "\<exists>c' p'. pool_remove (\<lambda>nd. key (nd_elem nd) = k) c p h = Some (Inr (c', p')) \<and>
    pool_tab good key bucket dat n c' p' (L(k := tl (L k)))"
proof -
  have ct: "chain_tab good key bucket dat c L" and hb: "bucket k < length (ch_list c)" "h = int (bucket k)"
    using tab h b pool_tab_bucket [OF tab h] by (auto simp: pool_tab_def in_range_def)
  obtain c' r where d: "chain_delete (\<lambda>nd. key (nd_elem nd) = k) c h = Some (Inr (c', r))"
    "chain_tab good key bucket dat (chain_drop c' r) (L(k := tl (L k)))"
    "length (ch_list (chain_drop c' r)) = length (ch_list c)"
    "dom (ch_heap (chain_drop c' r)) = dom (ch_heap c) - set_option r" "set_option r \<subseteq> dom (ch_heap c)"
    "r = None \<longrightarrow> c' = c" using chain_tab_delete [OF ct hb] by blast
  show ?thesis
  proof (cases r)
    case None
    with d tab show ?thesis by (auto simp: pool_remove_def pool_tab_def chain_drop_def)
  next
    case (Some a)
    have pb: "mpool_wf p" "dom (ch_heap c) \<inter> set (mp_free p) = {}" "dom (ch_heap c) \<union> set (mp_free p) = mp_blocks p"
      using tab by (auto simp: pool_tab_def pool_backs_def)
    have a: "a \<in> mp_blocks p" "a \<notin> set (mp_free p)" using d(5) Some pb(2,3) by auto
    obtain p' where p': "mp_release p a = Inr p'" "mpool_wf p'" "mp_free p' = mp_free p @ [a]" "mp_blocks p' = mp_blocks p"
      using mp_release_ok [OF pb(1) a] by blast
    have "pool_backs (chain_free_node c' a) p'"
      using pb p' d(4,5) Some by (auto simp: pool_backs_def chain_drop_def)
    with d Some p'(1) tab show ?thesis
      by (auto simp: pool_remove_def pool_tab_def chain_drop_def mp_release_def)
  qed
qed

lemma pool_get_ok:
  assumes tab: "pool_tab good key bucket dat n c p L" and h: "in_range n h" and b: "bucket k = nat h"
  shows "\<exists>r. chain_get (\<lambda>nd. key (nd_elem nd) = k) c h = Some (Inr r) \<and> chain_value dat c r = Some (Inr (head_of (L k)))"
  using tab h b pool_tab_bucket [OF tab h]
  by (intro chain_tab_get [of good key bucket]) (auto simp: pool_tab_def in_range_def)

text \<open>A new table: an empty chain over a full pool.\<close>

lemma pool_tab_init:
  assumes "taosMemPoolInit n b True True True mem = Some p" and "b * n < 2 ^ 31" and "int (length mem) = b * n"
  shows "pool_tab good key bucket dat n (empty_chain (nat n)) p (\<lambda>_. [])" and "length (mp_free p) = nat n"
proof -
  have "0 < n" "mp_numOfFree p = n" using assms(1) by (auto simp: taosMemPoolInit_def split: if_splits)
  with mp_init [OF assms] show "pool_tab good key bucket dat n (empty_chain (nat n)) p (\<lambda>_. [])"
    "length (mp_free p) = nat n" by (simp_all add: pool_tab_def pool_backs_def chain_tab_empty mp_free_def)
qed

end
