(* ===== verification/SdbIntHash.thy ===== *)
theory SdbIntHash
  imports PoolTable
begin

text \<open>
  The integer-keyed hash of the meta-data store, src/src/sdb/src/hashint.c: chained buckets whose
  nodes come from a memory pool of \<open>maxSessions\<close> blocks.
\<close>

section \<open>State and operations\<close>

record SLongHash =
  lh_key :: "32 word"
  lh_hash :: int
  lh_data :: "byte list"

record SHashObj_int =
  si_chain :: "SLongHash chain"
  si_pool :: pool_t
  si_maxSessions :: int
  si_dataSize :: nat

definition sdbHashLong :: "int \<Rightarrow> 32 word \<Rightarrow> int" where
  "sdbHashLong maxSessions ip = (uint (drop_bit 16 ip) + uint (ip AND 0xFFFF)) smod maxSessions"

text \<open>The second component tells whether the returned pointer, the table itself, is not NULL.\<close>

definition sdbAddIntHash ::
    "SHashObj_int option \<Rightarrow> 32 word \<Rightarrow> byte list \<Rightarrow> (SHashObj_int option \<times> bool) run"
where
  "sdbAddIntHash handle key dat =
     (case handle of
        None \<Rightarrow> Some (Inr (None, False))
      | Some pObj \<Rightarrow>
          if si_maxSessions pObj = 0 then Some (Inr (Some pObj, False))
          else
            let hash = sdbHashLong (si_maxSessions pObj) key in
            obind (pool_put (si_chain pObj) (si_pool pObj) hash
                    (rbind (copy_bytes dat 0 (si_dataSize pObj)) (\<lambda>d.
                       Inr \<lparr>lh_key = key, lh_hash = hash, lh_data = d\<rparr>)))
              (\<lambda>(c, p). Some (Inr (Some (pObj\<lparr>si_chain := c, si_pool := p\<rparr>), True))))"

definition sdbDeleteIntHash :: "SHashObj_int option \<Rightarrow> 32 word \<Rightarrow> SHashObj_int option run" where
  "sdbDeleteIntHash handle key =
     (case handle of
        None \<Rightarrow> Some (Inr None)
      | Some pObj \<Rightarrow>
          if si_maxSessions pObj = 0 then Some (Inr (Some pObj))
          else
            obind (pool_remove (\<lambda>nd. lh_key (nd_elem nd) = key) (si_chain pObj) (si_pool pObj)
                    (sdbHashLong (si_maxSessions pObj) key))
              (\<lambda>(c, p). Some (Inr (Some (pObj\<lparr>si_chain := c, si_pool := p\<rparr>)))))"

definition sdbGetIntHashData :: "SHashObj_int option \<Rightarrow> 32 word \<Rightarrow> int option run" where
  "sdbGetIntHashData handle key =
     (case handle of
        None \<Rightarrow> Some (Inr None)
      | Some pObj \<Rightarrow>
          if si_maxSessions pObj = 0 then Some (Inr None)
          else chain_get (\<lambda>nd. lh_key (nd_elem nd) = key) (si_chain pObj)
            (sdbHashLong (si_maxSessions pObj) key))"

text \<open>
  \<open>sizeof(SLongHash)\<close> is 24. The arguments after \<open>dataSize\<close> are the outcomes of the
  allocations: the pool's, the bucket array's, the object's.
\<close>

definition sdbOpenIntHash ::
    "int \<Rightarrow> nat \<Rightarrow> (int \<Rightarrow> int \<Rightarrow> pool_t option) \<Rightarrow> bool \<Rightarrow> bool \<Rightarrow> SHashObj_int option"
where
  "sdbOpenIntHash maxSessions dataSize pool_init list_ok obj_ok =
     (case pool_init maxSessions (24 + int dataSize) of
        None \<Rightarrow> None
      | Some p \<Rightarrow>
          if \<not> list_ok then None
          else if \<not> obj_ok then None
          else Some \<lparr>si_chain = empty_chain (nat maxSessions), si_pool = p, si_maxSessions = maxSessions,
                 si_dataSize = dataSize\<rparr>)"

text \<open>The handle afterwards, and the pool object the pool's clean-up leaves allocated.\<close>

definition sdbCloseIntHash :: "SHashObj_int option \<Rightarrow> SHashObj_int option \<times> pool_t option" where
  "sdbCloseIntHash handle =
     (case handle of
        None \<Rightarrow> (None, None)
      | Some pObj \<Rightarrow>
          if si_maxSessions pObj = 0 then (Some pObj, None)
          else (None, taosMemPoolCleanUp (si_pool pObj)))"

text \<open>The next node after \<open>ptr\<close>, and the data of that node for \<open>*ppMeta\<close>.\<close>

definition sdbFetchIntHashData ::
    "SHashObj_int option \<Rightarrow> int option \<Rightarrow> (int option \<times> byte list option) res" where
  "sdbFetchIntHashData handle ptr =
     (case handle of
        None \<Rightarrow> Inr (None, None)
      | Some pObj \<Rightarrow>
          if si_maxSessions pObj \<le> 0 then Inr (None, None)
          else
            rbind (chain_fetch lh_hash (si_chain pObj) (si_maxSessions pObj) ptr) (\<lambda>p.
              case p of
                None \<Rightarrow> Inr (None, None)
              | Some a \<Rightarrow> rbind (load (ch_heap (si_chain pObj)) a) (\<lambda>nd. Inr (Some a, Some (lh_data (nd_elem nd))))))"

section \<open>The table as stacks of data\<close>

definition si_good :: "int \<Rightarrow> SLongHash \<Rightarrow> nat \<Rightarrow> bool" where
  "si_good n e h \<longleftrightarrow> sdbHashLong n (lh_key e) = int h \<and> lh_hash e = int h"

definition si_bucket :: "int \<Rightarrow> 32 word \<Rightarrow> nat" where
  "si_bucket n k = nat (sdbHashLong n k)"

definition si_abs :: "int \<Rightarrow> nat \<Rightarrow> SHashObj_int \<Rightarrow> (32 word \<Rightarrow> byte list list) \<Rightarrow> bool" where
  "si_abs n sz t L \<longleftrightarrow> si_maxSessions t = n \<and> si_dataSize t = sz \<and>
     pool_tab (si_good n) lh_key (si_bucket n) lh_data n (si_chain t) (si_pool t) L"

definition si_add :: "SHashObj_int \<Rightarrow> 32 word \<Rightarrow> byte list \<Rightarrow> (SHashObj_int \<times> unit option) run" where
  "si_add t k v = obind (sdbAddIntHash (Some t) k v) (\<lambda>(h, b).
     obind (Some (deref h)) (\<lambda>t'. Some (Inr (t', if b then Some () else None))))"

definition si_del :: "SHashObj_int \<Rightarrow> 32 word \<Rightarrow> SHashObj_int run" where
  "si_del t k = obind (sdbDeleteIntHash (Some t) k) (\<lambda>h. Some (deref h))"

definition si_get :: "SHashObj_int \<Rightarrow> 32 word \<Rightarrow> byte list option run" where
  "si_get t k = obind (sdbGetIntHashData (Some t) k) (chain_value lh_data (si_chain t))"

lemma sdbHashLong_range: "0 < n \<Longrightarrow> in_range n (sdbHashLong n k)"
  unfolding sdbHashLong_def in_range_def
  by (intro conjI smod_bounds) (simp_all add: add_nonneg_nonneg)

lemma si_hash:
  assumes "si_abs n sz t L"
  shows "in_range n (sdbHashLong n k)" and "si_bucket n k = nat (sdbHashLong n k)"
  using assms sdbHashLong_range [of n k] by (auto simp: si_abs_def pool_tab_def si_bucket_def)

lemma si_put:
  assumes "si_abs n sz t L" and "length v = sz"
  shows "si_add t k v = obind (pool_put (si_chain t) (si_pool t) (sdbHashLong n k)
      (Inr \<lparr>lh_key = k, lh_hash = sdbHashLong n k, lh_data = v\<rparr>))
    (\<lambda>(c, p). Some (Inr (t\<lparr>si_chain := c, si_pool := p\<rparr>, Some ())))"
proof -
  have "si_maxSessions t = n" "si_maxSessions t \<noteq> 0" "copy_bytes v 0 (si_dataSize t) = Inr v"
    using assms by (auto simp: si_abs_def pool_tab_def copy_bytes_def)
  then show ?thesis
    by (auto simp: si_add_def sdbAddIntHash_def Let_def obind_def split: option.splits sum.splits)
qed

lemma si_good_new:
  assumes "si_abs n sz t L"
  shows "si_good n \<lparr>lh_key = k, lh_hash = sdbHashLong n k, lh_data = v\<rparr> (nat (sdbHashLong n k))"
  using si_hash(1) [OF assms, of k] by (simp add: si_good_def in_range_def)

interpretation si: stack_map "si_abs n sz" "\<lambda>t. mp_free (si_pool t) \<noteq> []" "\<lambda>k v. length v = sz" "\<lambda>k. True"
  si_add si_del si_get
  for n sz
proof
  fix t L and k :: "32 word"
  assume abs: "si_abs n sz t L"
  then have tab: "pool_tab (si_good n) lh_key (si_bucket n) lh_data n (si_chain t) (si_pool t) L"
    by (simp add: si_abs_def)
  note h = si_hash [OF abs, of k] and g = si_good_new [OF abs, of k]
  show "si_abs n sz t' (if p = None then L else L(k := v # L k))"
    if "length v = sz" "si_add t k v = Some (Inr (t', p))" for v t' p
    using that abs si_put [OF abs that(1)] pool_put_sim [OF tab h(1) _ g, of v] h(2)
    by (auto simp: obind_eq_Inr si_abs_def)
  show "\<exists>t' a. si_add t k v = Some (Inr (t', Some a))"
    if "length v = sz" "mp_free (si_pool t) \<noteq> []" for v
    using that si_put [OF abs that(1)] pool_put_ok [OF tab h(1) _ g that(2), of v] h(2) by auto
  show "\<exists>t'. si_del t k = Some (Inr t') \<and> si_abs n sz t' (L(k := tl (L k)))"
    using abs pool_remove_ok [OF tab h]
    by (auto simp: si_del_def sdbDeleteIntHash_def si_abs_def pool_tab_def)
  show "si_get t k = Some (Inr (head_of (L k)))"
    using abs pool_get_ok [OF tab h] by (auto simp: si_get_def sdbGetIntHashData_def si_abs_def pool_tab_def)
qed

lemma si_add_free:
  assumes abs: "si_abs n sz t L" and v: "length v = sz" and add: "si_add t k v = Some (Inr (t', p))"
  shows "mp_free (si_pool t') = tl (mp_free (si_pool t))"
proof -
  have tab: "pool_tab (si_good n) lh_key (si_bucket n) lh_data n (si_chain t) (si_pool t) L"
    using abs by (simp add: si_abs_def)
  show ?thesis
    using add si_put [OF abs v, of k] pool_put_sim(2) [OF tab si_hash(1) [OF abs] _ si_good_new [OF abs]]
      si_hash(2) [OF abs, of k] by (auto simp: obind_eq_Inr)
qed

lemma si_open_abs:
  assumes "sdbOpenIntHash n sz (\<lambda>m b. taosMemPoolInit m b True True True mem) True True = Some t"
    and "(24 + int sz) * n < 2 ^ 31" and "int (length mem) = (24 + int sz) * n"
  shows "si_abs n sz t (\<lambda>_. [])" and "length (mp_free (si_pool t)) = nat n"
proof -
  obtain p where p: "taosMemPoolInit n (24 + int sz) True True True mem = Some p"
    and t: "t = \<lparr>si_chain = empty_chain (nat n), si_pool = p, si_maxSessions = n, si_dataSize = sz\<rparr>"
    using assms(1) by (auto simp: sdbOpenIntHash_def split: option.splits)
  show "si_abs n sz t (\<lambda>_. [])" "length (mp_free (si_pool t)) = nat n"
    unfolding t si_abs_def using pool_tab_init [OF p assms(2,3)] by simp_all
qed

section \<open>Correctness\<close>

text \<open>
  C15.
  Through any sequence of calls on a new table, every operation ends without following a bad
  pointer: a lookup returns the data added last for its key and not deleted since, deleting works on
  present and absent keys, and adding succeeds whenever the pool has a free block.
\<close>

theorem sdb_int_hash_correct:
  assumes "sdbOpenIntHash n sz (\<lambda>m b. taosMemPoolInit m b True True True mem) True True = Some t0"
    and "(24 + int sz) * n < 2 ^ 31" and "int (length mem) = (24 + int sz) * n"
    and "table_reach si_add si_del (\<lambda>k v. length v = sz) (\<lambda>k. True) t0 t L" and "length v = sz"
  shows "si_get t k = Some (Inr (head_of (L k))) \<and> (\<exists>t'. si_del t k = Some (Inr t')) \<and>
    (mp_free (si_pool t) \<noteq> [] \<longrightarrow> (\<exists>t'. si_add t k v = Some (Inr (t', Some ()))))"
  using si.reach_correct [OF si_open_abs(1) [OF assms(1-3)] assms(4)] assms(5) by auto

text \<open>
  Adding to a full table writes through the NULL pointer the pool returns.
\<close>

theorem sdb_int_hash_full:
  assumes "sdbOpenIntHash n sz (\<lambda>m b. taosMemPoolInit m b True True True mem) True True = Some t0"
    and "(24 + int sz) * n < 2 ^ 31" and "int (length mem) = (24 + int sz) * n"
    and "table_reach si_add si_del (\<lambda>k v. length v = sz) (\<lambda>k. True) t0 t L"
    and "mp_free (si_pool t) = []" and "length v = sz"
  shows "si_add t k v = Some (Inl Null_Deref)"
proof -
  have abs: "si_abs n sz t L" using si.reach_abs [OF si_open_abs(1) [OF assms(1-3)] assms(4)] .
  then have "pool_backs (si_chain t) (si_pool t)" by (simp add: si_abs_def pool_tab_def)
  from pool_put_full [OF this assms(5)] si_put [OF abs assms(6)] show ?thesis by simp
qed

text \<open>
  Starting from NULL and following the pointers it returns, \<open>sdbFetchIntHashData\<close> visits every
  node of the table exactly once and then returns NULL.
\<close>

theorem sdb_int_hash_fetch:
  assumes "sdbOpenIntHash n sz (\<lambda>m b. taosMemPoolInit m b True True True mem) True True = Some t0"
    and "(24 + int sz) * n < 2 ^ 31" and "int (length mem) = (24 + int sz) * n"
    and "table_reach si_add si_del (\<lambda>k v. length v = sz) (\<lambda>k. True) t0 t L"
  shows "\<exists>as. distinct as \<and> set as = dom (ch_heap (si_chain t)) \<and>
    map_sum id fst (sdbFetchIntHashData (Some t) None) = Inr (head_of as) \<and>
    (\<forall>i < length as. map_sum id fst (sdbFetchIntHashData (Some t) (Some (as ! i))) = Inr (head_of (drop (Suc i) as)))"
proof -
  have abs: "si_abs n sz t L" using si.reach_abs [OF si_open_abs(1) [OF assms(1-3)] assms(4)] .
  then have n: "0 < n" "si_maxSessions t = n" "int (length (ch_list (si_chain t))) = n"
    and tab: "chain_tab (si_good n) lh_key (si_bucket n) lh_data (si_chain t) L"
    by (auto simp: si_abs_def pool_tab_def)
  obtain as where as: "distinct as" "set as = dom (ch_heap (si_chain t))"
    and f0: "chain_fetch lh_hash (si_chain t) n None = Inr (head_of as)"
    and f: "\<forall>i < length as. chain_fetch lh_hash (si_chain t) n (Some (as ! i)) = Inr (head_of (drop (Suc i) as))"
    using chain_tab_fetch [OF tab, of lh_hash] n(3) by (auto simp: si_good_def)
  have fetch: "map_sum id fst (sdbFetchIntHashData (Some t) ptr) = Inr (head_of xs)"
    if "chain_fetch lh_hash (si_chain t) n ptr = Inr (head_of xs)" "set xs \<subseteq> dom (ch_heap (si_chain t))" for ptr xs
    using that n(1,2) by (cases xs) (auto simp: sdbFetchIntHashData_def load_def)
  have "set (drop i as) \<subseteq> dom (ch_heap (si_chain t))" for i using as(2) set_drop_subset [of i as] by simp
  with fetch f0 f as show ?thesis by (intro exI [of _ as]) auto
qed

text \<open>A table of two blocks, filled.\<close>

lemma si_example:
  obtains t0 t1 t2 where
    "sdbOpenIntHash 2 1 (\<lambda>m b. taosMemPoolInit m b True True True (replicate 50 0)) True True = Some t0"
    and "si_add t0 1 [5] = Some (Inr (t1, Some ()))" and "si_add t1 3 [6] = Some (Inr (t2, Some ()))"
    and "table_reach si_add si_del (\<lambda>k v. length v = 1) (\<lambda>k. True) t0 t2
      ((\<lambda>_. [])(1 := [[5]], 3 := [[6]]))"
    and "mp_free (si_pool t2) = []"
proof -
  obtain t0 where t0: "sdbOpenIntHash 2 1 (\<lambda>m b. taosMemPoolInit m b True True True (replicate 50 0)) True True = Some t0"
    by (simp add: sdbOpenIntHash_def taosMemPoolInit_def)
  note a0 = si_open_abs [OF t0]
  have a0': "si_abs 2 1 t0 (\<lambda>_. [])" "length (mp_free (si_pool t0)) = 2" using a0 by simp_all
  then have "mp_free (si_pool t0) \<noteq> []" by auto
  then obtain t1 where t1: "si_add t0 1 [5] = Some (Inr (t1, Some ()))"
    using si.add_room [OF a0'(1), of "[5]" 1] by auto
  have a1: "si_abs 2 1 t1 ((\<lambda>_. [])(1 := [[5]]))" using si.add_sim [OF a0'(1) _ t1] by simp
  have f1: "length (mp_free (si_pool t1)) = 1" using si_add_free [OF a0'(1) _ t1] a0'(2) by simp
  then have "mp_free (si_pool t1) \<noteq> []" by auto
  then obtain t2 where t2: "si_add t1 3 [6] = Some (Inr (t2, Some ()))"
    using si.add_room [OF a1, of "[6]" 3] by auto
  have "table_reach si_add si_del (\<lambda>k v. length v = 1) (\<lambda>k. True) t0 t1 ((\<lambda>_. [])(1 := [5] # []))"
    by (rule reach_add [where t = t0]) (simp_all add: reach_new t1)
  then have "table_reach si_add si_del (\<lambda>k v. length v = 1) (\<lambda>k. True) t0 t2
      (((\<lambda>_. [])(1 := [5] # []))(3 := [6] # ((\<lambda>_. [])(1 := [5] # [])) (3 :: 32 word)))"
    by (rule reach_add) (simp_all add: t2)
  moreover have "mp_free (si_pool t2) = []" using si_add_free [OF a1 _ t2] f1 by (cases "mp_free (si_pool t1)") auto
  ultimately show ?thesis using that t0 t1 t2 by simp
qed

theorem sdb_int_hash_correct_witness:
  "\<exists>t. si_get t 3 = Some (Inr (Some [6])) \<and> si_get t 1 = Some (Inr (Some [5])) \<and> si_get t 9 = Some (Inr None)"
proof -
  obtain t0 t1 t2 where t0: "sdbOpenIntHash 2 1 (\<lambda>m b. taosMemPoolInit m b True True True (replicate 50 0)) True True = Some t0"
    and "si_add t0 1 [5] = Some (Inr (t1, Some ()))" and "si_add t1 3 [6] = Some (Inr (t2, Some ()))"
    and r: "table_reach si_add si_del (\<lambda>k v. length v = 1) (\<lambda>k. True) t0 t2 ((\<lambda>_. [])(1 := [[5]], 3 := [[6]]))"
    and f: "mp_free (si_pool t2) = []"
    by (rule si_example)
  note c = sdb_int_hash_correct [OF t0 _ _ r, of "[0]"]
  show ?thesis using c [of 3] c [of 1] c [of 9] by (intro exI [of _ t2]) simp
qed

theorem sdb_int_hash_full_witness: "\<exists>t. si_add t 7 [1] = Some (Inl Null_Deref)"
proof -
  obtain t0 t1 t2 where t0: "sdbOpenIntHash 2 1 (\<lambda>m b. taosMemPoolInit m b True True True (replicate 50 0)) True True = Some t0"
    and "si_add t0 1 [5] = Some (Inr (t1, Some ()))" and "si_add t1 3 [6] = Some (Inr (t2, Some ()))"
    and r: "table_reach si_add si_del (\<lambda>k v. length v = 1) (\<lambda>k. True) t0 t2 ((\<lambda>_. [])(1 := [[5]], 3 := [[6]]))"
    and f: "mp_free (si_pool t2) = []"
    by (rule si_example)
  from sdb_int_hash_full [OF t0 _ _ r f, of "[1]" 7] show ?thesis by auto
qed

theorem sdb_int_hash_fetch_witness:
  "\<exists>t as. distinct as \<and> set as = dom (ch_heap (si_chain t)) \<and>
    map_sum id fst (sdbFetchIntHashData (Some t) None) = Inr (head_of as)"
proof -
  obtain t0 t1 t2 where t0: "sdbOpenIntHash 2 1 (\<lambda>m b. taosMemPoolInit m b True True True (replicate 50 0)) True True = Some t0"
    and "si_add t0 1 [5] = Some (Inr (t1, Some ()))" and "si_add t1 3 [6] = Some (Inr (t2, Some ()))"
    and r: "table_reach si_add si_del (\<lambda>k v. length v = 1) (\<lambda>k. True) t0 t2 ((\<lambda>_. [])(1 := [[5]], 3 := [[6]]))"
    and f: "mp_free (si_pool t2) = []"
    by (rule si_example)
  from sdb_int_hash_fetch [OF t0 _ _ r] show ?thesis by auto
qed

end
