(* ===== verification/CString.thy ===== *)
theory CString
  imports Bytes
begin

text \<open>
  C strings: a \<open>char *\<close> is the list of bytes from the pointer to the end of the object it points
  into; the string is what stands before the first zero byte.
\<close>

fun cstrlen :: "byte list \<Rightarrow> nat res" where
  "cstrlen [] = Inl Out_Of_Bounds"
| "cstrlen (b # bs) = (if b = 0 then Inr 0 else rbind (cstrlen bs) (\<lambda>n. Inr (Suc n)))"

definition cstr :: "byte list \<Rightarrow> byte list res" where
  "cstr s = rbind (cstrlen s) (\<lambda>n. Inr (take n s))"

text \<open>A string without its terminator.\<close>

definition nonzero :: "byte list \<Rightarrow> bool" where
  "nonzero k \<longleftrightarrow> 0 \<notin> set k"

lemma nonzero_Cons [simp]: "nonzero (b # bs) \<longleftrightarrow> b \<noteq> 0 \<and> nonzero bs"
  by (auto simp: nonzero_def)

lemma nonzero_Nil [simp]: "nonzero []"
  by (simp add: nonzero_def)

lemma cstrlen_nonzero [simp]: "nonzero k \<Longrightarrow> cstrlen (k @ 0 # r) = Inr (length k)"
  by (induction k) auto

lemma cstr_nonzero [simp]: "nonzero k \<Longrightarrow> cstr (k @ 0 # r) = Inr k"
  by (simp add: cstr_def)

lemma cstrlen_split: "cstrlen s = Inr n \<Longrightarrow> \<exists>r. s = take n s @ 0 # r \<and> nonzero (take n s) \<and> n < length s"
proof (induction s arbitrary: n)
  case (Cons b bs)
  show ?case
  proof (cases "b = 0")
    case True
    with Cons.prems show ?thesis by auto
  next
    case False
    with Cons.prems obtain m where m: "cstrlen bs = Inr m" "n = Suc m" by (auto simp: rbind_eq_Inr)
    with Cons.IH [of m] False show ?thesis by auto
  qed
qed simp

text \<open>The first byte of a string, of the string followed by its terminator.\<close>

lemma arr_get_string: "arr_get (k @ 0 # r) 0 = Inr (case k of [] \<Rightarrow> 0 | b # _ \<Rightarrow> b)"
  by (cases k) auto

text \<open>The sum of the characters, sign-extended as on the platforms whose \<open>char\<close> is signed.\<close>

fun char_sum :: "byte list \<Rightarrow> 32 word \<Rightarrow> 32 word res" where
  "char_sum [] hash = Inl Out_Of_Bounds"
| "char_sum (b # bs) hash = (if b = 0 then Inr hash else char_sum bs (hash + scast b))"

lemma char_sum_total: "nonzero k \<Longrightarrow> \<exists>h. \<forall>r. char_sum (k @ 0 # r) hash = Inr h"
  by (induction k arbitrary: hash) auto

end
