(* ===== verification/SdbStrHash.thy ===== *)
theory SdbStrHash
  imports Table_Interface CString
begin

text \<open>
  The string-keyed hash of the meta-data store, src/src/sdb/src/hashstr.c. Keys are copied into a
  field of \<open>TSDB_METER_ID_LEN\<close> bytes; a node remembers its bucket, for the iteration.
\<close>

section \<open>State and operations\<close>

definition TSDB_METER_ID_LEN :: nat where
  "TSDB_METER_ID_LEN = 32 + 64 + 2 * 1 + 9 + 10"

record SHashNode_sdb =
  ss_string :: "byte list"
  ss_hash :: int
  ss_data :: "byte list"

record SHashObj_sdb =
  ss_chain :: "SHashNode_sdb chain"
  ss_maxSessions :: int
  ss_dataSize :: nat

text \<open>The two loops of \<open>sdbHashString\<close>: ints while four bytes are left, then characters.\<close>

function sdb_sum :: "byte list \<Rightarrow> nat \<Rightarrow> 32 word \<Rightarrow> 32 word res" where
  "sdb_sum c len hash =
     (if 4 \<le> len then rbind (copy_bytes c 0 4) (\<lambda>w. sdb_sum (drop 4 c) (len - 4) (hash + of_le_bytes w))
      else if 0 < len then rbind (arr_get c 0) (\<lambda>b. sdb_sum (drop 1 c) (len - 1) (hash + scast b))
      else Inr hash)"
  by pat_completeness auto
termination
  by (relation "measure (\<lambda>(c, len, hash). len)") auto

declare sdb_sum.simps [simp del]

definition sdbHashString :: "int \<Rightarrow> byte list \<Rightarrow> int res" where
  "sdbHashString maxSessions string =
     rbind (cstrlen string) (\<lambda>len.
     rbind (sdb_sum string len 0) (\<lambda>hash.
       let m = word_of_int maxSessions; hashv = hash div m in
       Inr (sint ((hashv + hash mod m) mod m))))"

definition sdbAddStrHash ::
    "SHashNode_sdb malloc \<Rightarrow> SHashObj_sdb option \<Rightarrow> byte list \<Rightarrow> byte list \<Rightarrow> (SHashObj_sdb option \<times> int option) run"
where
  "sdbAddStrHash malloc handle key pData =
     (case handle of
        None \<Rightarrow> Some (Inr (None, None))
      | Some pObj \<Rightarrow>
          if ss_maxSessions pObj = 0 then Some (Inr (Some pObj, None))
          else
            obind (Some (sdbHashString (ss_maxSessions pObj) key)) (\<lambda>hash.
              (case malloc (ch_heap (ss_chain pObj)) of
                 None \<Rightarrow> Some (Inl Null_Deref)
               | Some (a, _) \<Rightarrow>
                   obind (Some (cstr key)) (\<lambda>str.
                   if TSDB_METER_ID_LEN \<le> length str then Some (Inl Out_Of_Bounds)
                   else
                     obind (Some (copy_bytes pData 0 (ss_dataSize pObj))) (\<lambda>dat.
                     obind (Some (chain_push (ss_chain pObj) hash a
                              \<lparr>ss_string = str, ss_hash = hash, ss_data = dat\<rparr>)) (\<lambda>c.
                       Some (Inr (Some (pObj\<lparr>ss_chain := c\<rparr>), Some a))))))))"

definition sdbDeleteStrHash :: "SHashObj_sdb option \<Rightarrow> byte list \<Rightarrow> SHashObj_sdb option run" where
  "sdbDeleteStrHash handle key =
     (case handle of
        None \<Rightarrow> Some (Inr None)
      | Some pObj \<Rightarrow>
          if ss_maxSessions pObj = 0 then Some (Inr (Some pObj))
          else
            obind (Some (sdbHashString (ss_maxSessions pObj) key)) (\<lambda>hash.
            obind (Some (cstr key)) (\<lambda>str.
            obind (chain_delete (\<lambda>nd. ss_string (nd_elem nd) = str) (ss_chain pObj) hash) (\<lambda>(c, r).
              case r of
                None \<Rightarrow> Some (Inr (Some pObj))
              | Some a \<Rightarrow> Some (Inr (Some (pObj\<lparr>ss_chain := chain_free_node c a\<rparr>)))))))"

definition sdbGetStrHashData :: "SHashObj_sdb option \<Rightarrow> byte list \<Rightarrow> int option run" where
  "sdbGetStrHashData handle key =
     (case handle of
        None \<Rightarrow> Some (Inr None)
      | Some pObj \<Rightarrow>
          if ss_maxSessions pObj = 0 then Some (Inr None)
          else
            obind (Some (sdbHashString (ss_maxSessions pObj) key)) (\<lambda>hash.
            obind (Some (cstr key)) (\<lambda>str.
              chain_get (\<lambda>nd. ss_string (nd_elem nd) = str) (ss_chain pObj) hash)))"

text \<open>The last two arguments are the outcomes of the calls of malloc.\<close>

definition sdbOpenStrHash :: "int \<Rightarrow> nat \<Rightarrow> bool \<Rightarrow> bool \<Rightarrow> SHashObj_sdb option" where
  "sdbOpenStrHash maxSessions dataSize obj_ok list_ok =
     (if \<not> obj_ok then None
      else if \<not> list_ok then None
      else Some \<lparr>ss_chain = empty_chain (nat maxSessions), ss_maxSessions = maxSessions, ss_dataSize = dataSize\<rparr>)"

text \<open>The nodes left in the store.\<close>

definition sdbCloseStrHash :: "SHashObj_sdb option \<Rightarrow> SHashNode_sdb heap run" where
  "sdbCloseStrHash handle =
     (case handle of
        None \<Rightarrow> Some (Inr Map.empty)
      | Some pObj \<Rightarrow>
          if ss_maxSessions pObj \<le> 0 then Some (Inr (ch_heap (ss_chain pObj)))
          else release_all (ch_list (ss_chain pObj)) (ch_heap (ss_chain pObj)))"

text \<open>The next node after \<open>ptr\<close>, and the data of that node for \<open>*ppMeta\<close>.\<close>

definition sdbFetchStrHashData ::
    "SHashObj_sdb option \<Rightarrow> int option \<Rightarrow> (int option \<times> byte list option) res" where
  "sdbFetchStrHashData handle ptr =
     (case handle of
        None \<Rightarrow> Inr (None, None)
      | Some pObj \<Rightarrow>
          if ss_maxSessions pObj \<le> 0 then Inr (None, None)
          else
            rbind (chain_fetch ss_hash (ss_chain pObj) (ss_maxSessions pObj) ptr) (\<lambda>p.
              case p of
                None \<Rightarrow> Inr (None, None)
              | Some a \<Rightarrow> rbind (load (ch_heap (ss_chain pObj)) a) (\<lambda>nd. Inr (Some a, Some (ss_data (nd_elem nd))))))"

section \<open>The hash function\<close>

lemma sdb_sum_total: "\<exists>h. \<forall>r. sdb_sum (k @ 0 # r) (length k) hash = Inr h"
proof (induction "length k" arbitrary: k hash rule: less_induct)
  case less
  consider "4 \<le> length k" | "0 < length k" "length k < 4" | "k = []" by (cases k) force+
  then show ?case
  proof cases
    case 1
    then obtain h where "\<forall>r. sdb_sum (drop 4 k @ 0 # r) (length (drop 4 k)) (hash + of_le_bytes (take 4 k)) = Inr h"
      using less.hyps [of "drop 4 k"] by fastforce
    with 1 have "\<forall>r. sdb_sum (k @ 0 # r) (length k) hash = Inr h"
      by (subst sdb_sum.simps) (simp add: copy_bytes_def)
    then show ?thesis ..
  next
    case 2
    then obtain b bs where k: "k = b # bs" by (cases k) auto
    then obtain h where "\<forall>r. sdb_sum (bs @ 0 # r) (length bs) (hash + scast b) = Inr h"
      using less.hyps [of bs] by fastforce
    with 2 k have "\<forall>r. sdb_sum (k @ 0 # r) (length k) hash = Inr h"
      by (subst sdb_sum.simps) simp
    then show ?thesis ..
  qed (simp add: sdb_sum.simps)
qed

lemma word_hash_range:
  assumes "0 < n" and "n < 2 ^ 31"
  shows "0 \<le> sint ((x :: 32 word) mod word_of_int n)" and "sint (x mod word_of_int n) < n"
proof -
  have "uint (word_of_int n :: 32 word) = n" using assms by (simp add: uint_word_of_int_eq take_bit_int_eq_self)
  then have u: "uint (x mod word_of_int n) = uint x mod n" by (simp add: uint_mod_distrib)
  have "uint (x mod word_of_int n) < 2 ^ 31"
    unfolding u by (rule less_trans [OF pos_mod_bound [OF assms(1)] assms(2)])
  moreover have "- (2 ^ 31) \<le> uint (x mod word_of_int n)"
    by (rule order_trans [OF _ uint_ge_0]) simp
  ultimately have "signed_take_bit 31 (uint (x mod word_of_int n)) = uint (x mod word_of_int n)"
    by (intro signed_take_bit_int_eq_self)
  then have "sint (x mod word_of_int n) = uint (x mod word_of_int n)" by (simp add: sint_uint)
  with u assms show "0 \<le> sint (x mod word_of_int n)" "sint (x mod word_of_int n) < n" by simp_all
qed

text \<open>The hash depends on the string only, and lies in the bucket array.\<close>

lemma sdbHashString_total:
  assumes "0 < n" and "n < 2 ^ 31" and "nonzero k"
  obtains h where "h < nat n" and "\<And>r. sdbHashString n (k @ 0 # r) = Inr (int h)"
proof -
  obtain w where w: "\<And>r. sdb_sum (k @ 0 # r) (length k) 0 = Inr w" using sdb_sum_total [of k 0] by blast
  let ?m = "word_of_int n :: 32 word"
  let ?h = "sint ((w div ?m + w mod ?m) mod ?m)"
  note range = word_hash_range [OF assms(1,2), of "w div ?m + w mod ?m"]
  show ?thesis
  proof (rule that [of "nat ?h"])
    show "nat ?h < nat n" using range assms(1) by (simp add: nat_less_eq_zless)
    show "sdbHashString n (k @ 0 # r) = Inr (int (nat ?h))" for r
      using range(1) assms(3) w by (simp add: sdbHashString_def Let_def)
  qed
qed


section \<open>The table as stacks of data\<close>

definition ss_key_ok :: "byte list \<Rightarrow> bool" where
  "ss_key_ok k \<longleftrightarrow> nonzero k"

definition ss_ok :: "nat \<Rightarrow> byte list \<Rightarrow> byte list \<Rightarrow> bool" where
  "ss_ok sz k v \<longleftrightarrow> nonzero k \<and> length k < TSDB_METER_ID_LEN \<and> length v = sz"

definition ss_bucket :: "int \<Rightarrow> byte list \<Rightarrow> nat" where
  "ss_bucket n k = (case sdbHashString n (k @ [0]) of Inl _ \<Rightarrow> 0 | Inr h \<Rightarrow> nat h)"

definition ss_good :: "int \<Rightarrow> SHashNode_sdb \<Rightarrow> nat \<Rightarrow> bool" where
  "ss_good n e h \<longleftrightarrow> ss_bucket n (ss_string e) = h \<and> ss_hash e = int h"

definition ss_abs ::
    "SHashNode_sdb malloc \<Rightarrow> int \<Rightarrow> nat \<Rightarrow> SHashObj_sdb \<Rightarrow> (byte list \<Rightarrow> byte list list) \<Rightarrow> bool"
where
  "ss_abs malloc n sz t L \<longleftrightarrow> fresh_malloc malloc \<and> 0 < n \<and> n < 2 ^ 31 \<and> ss_maxSessions t = n \<and>
     ss_dataSize t = sz \<and> length (ch_list (ss_chain t)) = nat n \<and>
     chain_tab (ss_good n) ss_string (ss_bucket n) ss_data (ss_chain t) L"

definition ss_room :: "SHashNode_sdb malloc \<Rightarrow> SHashObj_sdb \<Rightarrow> bool" where
  "ss_room malloc t \<longleftrightarrow> malloc (ch_heap (ss_chain t)) \<noteq> None"

definition ss_add ::
    "SHashNode_sdb malloc \<Rightarrow> SHashObj_sdb \<Rightarrow> byte list \<Rightarrow> byte list \<Rightarrow> (SHashObj_sdb \<times> int option) run"
where
  "ss_add malloc t k v =
     obind (sdbAddStrHash malloc (Some t) (k @ [0]) v) (\<lambda>(h, p). obind (Some (deref h)) (\<lambda>t'. Some (Inr (t', p))))"

definition ss_del :: "SHashObj_sdb \<Rightarrow> byte list \<Rightarrow> SHashObj_sdb run" where
  "ss_del t k = obind (sdbDeleteStrHash (Some t) (k @ [0])) (\<lambda>h. Some (deref h))"

definition ss_get :: "SHashObj_sdb \<Rightarrow> byte list \<Rightarrow> byte list option run" where
  "ss_get t k = obind (sdbGetStrHashData (Some t) (k @ [0])) (chain_value ss_data (ss_chain t))"

lemma ss_hash_ok:
  assumes "ss_abs malloc n sz t L" and "nonzero k"
  shows "sdbHashString n (k @ 0 # r) = Inr (int (ss_bucket n k))"
    and "ss_bucket n k < length (ch_list (ss_chain t))" and "ss_maxSessions t = n" and "n \<noteq> 0"
proof -
  have n: "0 < n" "n < 2 ^ 31" "length (ch_list (ss_chain t)) = nat n" "ss_maxSessions t = n"
    using assms(1) by (auto simp: ss_abs_def)
  obtain h where h: "h < nat n" "\<And>r. sdbHashString n (k @ 0 # r) = Inr (int h)"
    using sdbHashString_total [OF n(1,2) assms(2)] by metis
  then show "sdbHashString n (k @ 0 # r) = Inr (int (ss_bucket n k))"
    "ss_bucket n k < length (ch_list (ss_chain t))" using n by (simp_all add: ss_bucket_def)
  show "ss_maxSessions t = n" "n \<noteq> 0" using n by auto
qed

lemma ss_abs_add:
  assumes abs: "ss_abs malloc n sz t L" and ok: "ss_ok sz k v"
  shows "case malloc (ch_heap (ss_chain t)) of
      None \<Rightarrow> ss_add malloc t k v = Some (Inl Null_Deref)
    | Some (a, junk) \<Rightarrow> \<exists>t'. ss_add malloc t k v = Some (Inr (t', Some a)) \<and> ss_abs malloc n sz t' (L(k := v # L k))"
proof -
  have k: "nonzero k" "\<not> TSDB_METER_ID_LEN \<le> length k" and v: "copy_bytes v 0 (ss_dataSize t) = Inr v"
    using ok abs by (auto simp: ss_ok_def copy_bytes_def ss_abs_def)
  note hash = ss_hash_ok [OF abs k(1)]
  show ?thesis
  proof (cases "malloc (ch_heap (ss_chain t))")
    case None
    then show ?thesis by (simp add: ss_add_def sdbAddStrHash_def hash)
  next
    case (Some p)
    obtain a junk where p: "p = (a, junk)" by (cases p)
    let ?e = "\<lparr>ss_string = k, ss_hash = int (ss_bucket n k), ss_data = v\<rparr>"
    have free: "ch_heap (ss_chain t) a = None" and
      tab: "chain_tab (ss_good n) ss_string (ss_bucket n) ss_data (ss_chain t) L"
      using abs Some p by (auto simp: ss_abs_def fresh_malloc_def)
    obtain c where c: "chain_push (ss_chain t) (int (ss_bucket n k)) a ?e = Inr c"
      "chain_tab (ss_good n) ss_string (ss_bucket n) ss_data c (L(k := v # L k))"
      "length (ch_list c) = length (ch_list (ss_chain t))"
      using chain_tab_push [OF tab _ free, of ?e] hash(2) by (auto simp: ss_good_def)
    have "ss_add malloc t k v = Some (Inr (t\<lparr>ss_chain := c\<rparr>, Some a))"
      using Some p c(1) v k(2) cstr_nonzero [OF k(1)] by (simp add: ss_add_def sdbAddStrHash_def hash)
    moreover have "ss_abs malloc n sz (t\<lparr>ss_chain := c\<rparr>) (L(k := v # L k))"
      using abs c by (simp add: ss_abs_def)
    ultimately show ?thesis using Some p by auto
  qed
qed

lemma ss_abs_del:
  assumes abs: "ss_abs malloc n sz t L" and k: "ss_key_ok k"
  shows "\<exists>t'. ss_del t k = Some (Inr t') \<and> ss_abs malloc n sz t' (L(k := tl (L k)))"
proof -
  have k': "nonzero k" using k by (simp add: ss_key_ok_def)
  note hash = ss_hash_ok [OF abs k']
  have tab: "chain_tab (ss_good n) ss_string (ss_bucket n) ss_data (ss_chain t) L" using abs by (simp add: ss_abs_def)
  obtain c r where d: "chain_delete (\<lambda>nd. ss_string (nd_elem nd) = k) (ss_chain t) (int (ss_bucket n k)) = Some (Inr (c, r))"
    "chain_tab (ss_good n) ss_string (ss_bucket n) ss_data (chain_drop c r) (L(k := tl (L k)))"
    "length (ch_list (chain_drop c r)) = length (ch_list (ss_chain t))" "r = None \<longrightarrow> c = ss_chain t"
    using chain_tab_delete [OF tab hash(2) refl] by blast
  have "ss_del t k = Some (Inr (t\<lparr>ss_chain := chain_drop c r\<rparr>))"
    using d(1,4) k' by (cases r) (auto simp: ss_del_def sdbDeleteStrHash_def hash chain_drop_def)
  moreover have "ss_abs malloc n sz (t\<lparr>ss_chain := chain_drop c r\<rparr>) (L(k := tl (L k)))"
    using abs d by (simp add: ss_abs_def)
  ultimately show ?thesis by blast
qed

text \<open>A lookup, whatever follows the terminator of the key.\<close>

lemma ss_get_buffer:
  assumes abs: "ss_abs malloc n sz t L" and k: "nonzero k"
  shows "obind (sdbGetStrHashData (Some t) (k @ 0 # r)) (chain_value ss_data (ss_chain t)) = Some (Inr (head_of (L k)))"
proof -
  note hash = ss_hash_ok [OF abs k]
  have "chain_tab (ss_good n) ss_string (ss_bucket n) ss_data (ss_chain t) L" using abs by (simp add: ss_abs_def)
  from chain_tab_get [OF this hash(2) refl] k show ?thesis
    by (auto simp: sdbGetStrHashData_def hash)
qed

lemma ss_abs_get: "ss_abs malloc n sz t L \<Longrightarrow> ss_key_ok k \<Longrightarrow> ss_get t k = Some (Inr (head_of (L k)))"
  using ss_get_buffer [of malloc n sz t L k "[]"] by (simp add: ss_get_def ss_key_ok_def)

interpretation ss: stack_map "ss_abs malloc n sz" "ss_room malloc" "ss_ok sz" ss_key_ok
  "ss_add malloc" ss_del ss_get
  for malloc n sz
proof
  fix t t' L k v p
  assume a: "ss_abs malloc n sz t L" "ss_ok sz k v"
  note step = ss_abs_add [OF a]
  show "ss_abs malloc n sz t' (if p = None then L else L(k := v # L k))" if "ss_add malloc t k v = Some (Inr (t', p))"
    using step that a(1) by (auto split: option.splits prod.splits simp del: fun_upd_apply)
  show "\<exists>t' a. ss_add malloc t k v = Some (Inr (t', Some a))" if "ss_room malloc t"
    using step that by (auto simp: ss_room_def split: option.splits)
qed (use ss_abs_del ss_abs_get in blast)+

lemma ss_open_abs:
  "fresh_malloc malloc \<Longrightarrow> 0 < n \<Longrightarrow> n < 2 ^ 31 \<Longrightarrow> sdbOpenStrHash n sz True True = Some t \<Longrightarrow>
    ss_abs malloc n sz t (\<lambda>_. [])"
  by (auto simp: sdbOpenStrHash_def ss_abs_def chain_tab_empty length_empty_chain)

section \<open>Correctness\<close>

text \<open>
  C16.
  Through any sequence of calls on a new table, with keys shorter than \<open>TSDB_METER_ID_LEN\<close>: a
  lookup, whatever bytes follow the terminator of its key, returns the data added last for that
  string and not deleted since; deleting ends without a bad access; adding succeeds whenever malloc
  does; the iteration visits every node exactly once; closing frees every node.
\<close>

theorem sdb_str_hash_correct:
  assumes "fresh_malloc malloc" and "0 < n" and "n < 2 ^ 31" and "sdbOpenStrHash n sz True True = Some t0"
    and "table_reach (ss_add malloc) ss_del (ss_ok sz) ss_key_ok t0 t L"
    and "ss_ok sz k v"
  shows "obind (sdbGetStrHashData (Some t) (k @ 0 # r)) (chain_value ss_data (ss_chain t)) = Some (Inr (head_of (L k))) \<and>
    (\<exists>t'. ss_del t k = Some (Inr t')) \<and>
    (malloc (ch_heap (ss_chain t)) \<noteq> None \<longrightarrow> (\<exists>t' a. ss_add malloc t k v = Some (Inr (t', Some a)))) \<and>
    (\<exists>as. distinct as \<and> set as = dom (ch_heap (ss_chain t)) \<and>
      map_sum id fst (sdbFetchStrHashData (Some t) None) = Inr (head_of as) \<and>
      (\<forall>i < length as. map_sum id fst (sdbFetchStrHashData (Some t) (Some (as ! i))) = Inr (head_of (drop (Suc i) as)))) \<and>
    sdbCloseStrHash (Some t) = Some (Inr Map.empty)"
proof (intro conjI)
  have init: "ss_abs malloc n sz t0 (\<lambda>_. [])" using assms(1-4) by (rule ss_open_abs)
  note abs = ss.reach_abs [OF init assms(5)] and ok = ss.reach_correct [OF init assms(5)]
  have k: "nonzero k" "ss_key_ok k" using assms(6) by (simp_all add: ss_ok_def ss_key_ok_def)
  show "obind (sdbGetStrHashData (Some t) (k @ 0 # r)) (chain_value ss_data (ss_chain t)) = Some (Inr (head_of (L k)))"
    using abs k(1) by (rule ss_get_buffer)
  show "\<exists>t'. ss_del t k = Some (Inr t')" using k(2) by (rule ok(2))
  show "malloc (ch_heap (ss_chain t)) \<noteq> None \<longrightarrow> (\<exists>t' a. ss_add malloc t k v = Some (Inr (t', Some a)))"
    using ok(3) [OF assms(6)] by (simp add: ss_room_def)
  have n: "0 < n" "ss_maxSessions t = n" "int (length (ch_list (ss_chain t))) = n"
    and tab: "chain_tab (ss_good n) ss_string (ss_bucket n) ss_data (ss_chain t) L"
    using abs by (auto simp: ss_abs_def)
  show "sdbCloseStrHash (Some t) = Some (Inr Map.empty)"
    using chain_tab_release [OF tab] n by (simp add: sdbCloseStrHash_def)
  obtain as where as: "distinct as" "set as = dom (ch_heap (ss_chain t))"
    and f0: "chain_fetch ss_hash (ss_chain t) n None = Inr (head_of as)"
    and f: "\<forall>i < length as. chain_fetch ss_hash (ss_chain t) n (Some (as ! i)) = Inr (head_of (drop (Suc i) as))"
    using chain_tab_fetch [OF tab, of ss_hash] n(3) by (auto simp: ss_good_def)
  have fetch: "map_sum id fst (sdbFetchStrHashData (Some t) ptr) = Inr (head_of xs)"
    if "chain_fetch ss_hash (ss_chain t) n ptr = Inr (head_of xs)" "set xs \<subseteq> dom (ch_heap (ss_chain t))" for ptr xs
    using that n(1,2) by (cases xs) (auto simp: sdbFetchStrHashData_def load_def)
  have "set (drop i as) \<subseteq> dom (ch_heap (ss_chain t))" for i using as(2) set_drop_subset [of i as] by simp
  with fetch f0 f as show "\<exists>as. distinct as \<and> set as = dom (ch_heap (ss_chain t)) \<and>
      map_sum id fst (sdbFetchStrHashData (Some t) None) = Inr (head_of as) \<and>
      (\<forall>i < length as. map_sum id fst (sdbFetchStrHashData (Some t) (Some (as ! i))) = Inr (head_of (drop (Suc i) as)))"
    by (intro exI [of _ as]) auto
qed

theorem sdb_str_hash_correct_witness:
  "\<exists>t0 t. sdbOpenStrHash 4 1 True True = Some t0 \<and>
    ss_add small_malloc t0 [97, 98] [9] = Some (Inr (t, Some 8)) \<and>
    obind (sdbGetStrHashData (Some t) [97, 98, 0, 7]) (chain_value ss_data (ss_chain t)) = Some (Inr (Some [9]))"
proof -
  obtain t0 where t0: "sdbOpenStrHash 4 1 True True = Some t0" by (simp add: sdbOpenStrHash_def)
  have n: "(0 :: int) < 4" "(4 :: int) < 2 ^ 31" by simp_all
  note abs = ss_open_abs [OF small_malloc_fresh n t0]
  have ok: "ss_ok 1 [97, 98] [9]" by (simp add: ss_ok_def TSDB_METER_ID_LEN_def)
  moreover have "small_malloc (ch_heap (ss_chain t0)) = Some (8, replicate 64 0)"
    using t0 by (auto simp: sdbOpenStrHash_def small_malloc_def)
  ultimately obtain t where t: "ss_add small_malloc t0 [97, 98] [9] = Some (Inr (t, Some 8))"
    using ss_abs_add [OF abs, of "[97, 98]" "[9]"] by auto
  have "table_reach (ss_add small_malloc) ss_del (ss_ok 1) ss_key_ok t0 t ((\<lambda>_. [])([97, 98] := [9] # []))"
    by (rule reach_add [where t = t0]) (simp_all add: reach_new t ok del: One_nat_def)
  from sdb_str_hash_correct [OF small_malloc_fresh n t0 this ok, of "[7]"] t0 t show ?thesis by auto
qed

text \<open>
  Adding a key of \<open>TSDB_METER_ID_LEN\<close> characters or more writes past the end of the node's
  string field.
\<close>

lemma sdb_str_hash_long_key:
  assumes "0 < ss_maxSessions t" and "ss_maxSessions t < 2 ^ 31" and "nonzero k" and "TSDB_METER_ID_LEN \<le> length k"
    and "malloc (ch_heap (ss_chain t)) \<noteq> None"
  shows "sdbAddStrHash malloc (Some t) (k @ 0 # r) v = Some (Inl Out_Of_Bounds)"
proof -
  obtain h where "\<And>r. sdbHashString (ss_maxSessions t) (k @ 0 # r) = Inr (int h)"
    using sdbHashString_total [OF assms(1-3)] by blast
  with assms show ?thesis by (auto simp: sdbAddStrHash_def)
qed

end
