(* ===== verification/StrHash.thy ===== *)
theory StrHash
  imports Table_Interface CString
begin

text \<open>
  The string-keyed hash table of src/src/util/src/shash.c. The hash function pointer is a field,
  applied to \<open>maxSessions\<close> and the buffer that holds the key. Mutex operations are not modelled.
\<close>

section \<open>State and operations\<close>

record SHashNode =
  sn_string :: "byte list"
  sn_data :: "byte list"

record SHashObj =
  sh_chain :: "SHashNode chain"
  sh_maxSessions :: "32 word"
  sh_dataSize :: "32 word"
  sh_hashFp :: "32 word \<Rightarrow> byte list \<Rightarrow> 32 word res"

text \<open>The loop of \<open>taosHashString\<close>: an int at \<open>c\<close> is added, \<open>c\<close> advances by four bytes.\<close>

function int_sum :: "byte list \<Rightarrow> 32 word \<Rightarrow> 32 word res" where
  "int_sum c hash =
     rbind (arr_get c 0) (\<lambda>b.
       if b = 0 then Inr hash
       else rbind (copy_bytes c 0 4) (\<lambda>w. int_sum (drop 4 c) (hash + of_le_bytes w)))"
  by pat_completeness auto
termination
  by (relation "measure (\<lambda>(c, hash). length c)") (auto simp: copy_bytes_def split: if_splits)

declare int_sum.simps [simp del]

definition taosHashString :: "32 word \<Rightarrow> byte list \<Rightarrow> 32 word res" where
  "taosHashString maxSessions string =
     rbind (int_sum string 0) (\<lambda>hash.
       let hashv = hash div maxSessions in
       Inr ((hashv + hash mod maxSessions) mod maxSessions))"

definition taosHashStringStep1 :: "32 word \<Rightarrow> byte list \<Rightarrow> 32 word res" where
  "taosHashStringStep1 maxSessions string =
     rbind (char_sum string 0) (\<lambda>hash.
       let hashv = hash div maxSessions in
       Inr ((hashv + hash mod maxSessions) mod maxSessions))"

text \<open>
  The checks and the hash that open every operation: \<open>None\<close> when the operation returns at once.
\<close>

definition sh_enter :: "SHashObj option \<Rightarrow> byte list option \<Rightarrow> (SHashObj \<times> byte list \<times> int) option res" where
  "sh_enter handle string =
     (case handle of
        None \<Rightarrow> Inr None
      | Some pObj \<Rightarrow>
          if sh_maxSessions pObj = 0 then Inr None
          else
            (case string of
               None \<Rightarrow> Inr None
             | Some s \<Rightarrow>
                 rbind (arr_get s 0) (\<lambda>c.
                   if c = 0 then Inr None
                   else rbind (sh_hashFp pObj (sh_maxSessions pObj) s) (\<lambda>hash.
                     rbind (cstr s) (\<lambda>str. Inr (Some (pObj, str, uint hash)))))))"

text \<open>\<open>(size_t)dataSize\<close> of a negative int is a count no buffer holds.\<close>

definition taosAddStrHashWithSize ::
    "SHashNode malloc \<Rightarrow> SHashObj option \<Rightarrow> byte list option \<Rightarrow> byte list option \<Rightarrow> int \<Rightarrow>
      (SHashObj option \<times> int option) run"
where
  "taosAddStrHashWithSize malloc handle string pData dataSize =
     obind (Some (sh_enter handle string)) (\<lambda>e.
       case e of
         None \<Rightarrow> Some (Inr (handle, None))
       | Some (pObj, str, hash) \<Rightarrow>
           (case malloc (ch_heap (sh_chain pObj)) of
              None \<Rightarrow> Some (Inl Null_Deref)
            | Some (a, _) \<Rightarrow>
                obind (Some (deref pData)) (\<lambda>d.
                obind (Some (copy_bytes d 0 (nat (dataSize mod 2 ^ 64)))) (\<lambda>dat.
                obind (Some (chain_push (sh_chain pObj) hash a \<lparr>sn_string = str, sn_data = dat\<rparr>)) (\<lambda>c.
                  Some (Inr (Some (pObj\<lparr>sh_chain := c\<rparr>), Some a)))))))"

definition taosAddStrHash ::
    "SHashNode malloc \<Rightarrow> SHashObj option \<Rightarrow> byte list option \<Rightarrow> byte list option \<Rightarrow>
      (SHashObj option \<times> int option) run"
where
  "taosAddStrHash malloc handle string pData =
     (case string of
        None \<Rightarrow> Some (Inr (handle, None))
      | Some s \<Rightarrow>
          obind (Some (arr_get s 0)) (\<lambda>c.
            if c = 0 then Some (Inr (handle, None))
            else obind (Some (deref handle)) (\<lambda>pObj.
              taosAddStrHashWithSize malloc handle string pData (sint (sh_dataSize pObj)))))"

text \<open>
  The loop of \<open>taosDeleteStrHashNode\<close>: a node with another string is tested again, without a
  step to the next node.
\<close>

partial_function (option) find_node ::
  "byte list \<Rightarrow> int \<Rightarrow> SHashNode heap \<Rightarrow> int option \<Rightarrow> int option run"
where
  "find_node str pDeleteNode hp p =
     (case p of
        None \<Rightarrow> Some (Inr None)
      | Some a \<Rightarrow>
          (case load hp a of
             Inl e \<Rightarrow> Some (Inl e)
           | Inr nd \<Rightarrow>
               if sn_string (nd_elem nd) \<noteq> str then find_node str pDeleteNode hp p
               else if a = pDeleteNode then Some (Inr (Some a))
               else find_node str pDeleteNode hp (nd_next nd)))"

definition taosDeleteStrHashNode :: "SHashObj option \<Rightarrow> byte list option \<Rightarrow> int \<Rightarrow> SHashObj option run" where
  "taosDeleteStrHashNode handle string pDeleteNode =
     obind (Some (sh_enter handle string)) (\<lambda>e.
       case e of
         None \<Rightarrow> Some (Inr handle)
       | Some (pObj, str, hash) \<Rightarrow>
           obind (Some (arr_get (ch_list (sh_chain pObj)) hash)) (\<lambda>p.
           obind (find_node str pDeleteNode (ch_heap (sh_chain pObj)) p) (\<lambda>r.
             case r of
               None \<Rightarrow> Some (Inr handle)
             | Some a \<Rightarrow>
                 obind (Some (chain_unlink (sh_chain pObj) hash a)) (\<lambda>c.
                   Some (Inr (Some (pObj\<lparr>sh_chain := chain_free_node c a\<rparr>)))))))"

definition taosDeleteStrHash :: "SHashObj option \<Rightarrow> byte list option \<Rightarrow> SHashObj option run" where
  "taosDeleteStrHash handle string =
     obind (Some (sh_enter handle string)) (\<lambda>e.
       case e of
         None \<Rightarrow> Some (Inr handle)
       | Some (pObj, str, hash) \<Rightarrow>
           obind (chain_delete (\<lambda>nd. sn_string (nd_elem nd) = str) (sh_chain pObj) hash) (\<lambda>(c, r).
             case r of
               None \<Rightarrow> Some (Inr (Some pObj))
             | Some a \<Rightarrow> Some (Inr (Some (pObj\<lparr>sh_chain := chain_free_node c a\<rparr>)))))"

definition taosGetStrHashData :: "SHashObj option \<Rightarrow> byte list option \<Rightarrow> int option run" where
  "taosGetStrHashData handle string =
     obind (Some (sh_enter handle string)) (\<lambda>e.
       case e of
         None \<Rightarrow> Some (Inr None)
       | Some (pObj, str, hash) \<Rightarrow>
           chain_get (\<lambda>nd. sn_string (nd_elem nd) = str) (sh_chain pObj) hash)"

text \<open>The last two arguments are the outcomes of the calls of malloc.\<close>

definition taosInitStrHash ::
    "32 word \<Rightarrow> 32 word \<Rightarrow> (32 word \<Rightarrow> byte list \<Rightarrow> 32 word res) \<Rightarrow> bool \<Rightarrow> bool \<Rightarrow> SHashObj option"
where
  "taosInitStrHash maxSessions dataSize fp obj_ok list_ok =
     (if \<not> obj_ok then None
      else if \<not> list_ok then None
      else Some \<lparr>sh_chain = empty_chain (unat maxSessions), sh_maxSessions = maxSessions,
             sh_dataSize = dataSize, sh_hashFp = fp\<rparr>)"

text \<open>
  Releasing a list with a callback on the data of every node before it is freed: the data passed
  to the callback are collected in order.
\<close>

partial_function (option) release_with ::
  "SHashNode heap \<Rightarrow> int option \<Rightarrow> byte list list \<Rightarrow> (SHashNode heap \<times> byte list list) run"
where
  "release_with hp p seen =
     (case p of
        None \<Rightarrow> Some (Inr (hp, seen))
      | Some a \<Rightarrow>
          (case load hp a of
             Inl e \<Rightarrow> Some (Inl e)
           | Inr nd \<Rightarrow> release_with (hp(a := None)) (nd_next nd) (seen @ [sn_data (nd_elem nd)])))"

primrec release_all_with ::
  "int option list \<Rightarrow> SHashNode heap \<Rightarrow> byte list list \<Rightarrow> (SHashNode heap \<times> byte list list) run"
where
  "release_all_with [] hp seen = Some (Inr (hp, seen))"
| "release_all_with (p # ps) hp seen = obind (release_with hp p seen) (\<lambda>(hp1, seen1). release_all_with ps hp1 seen1)"

text \<open>The nodes left in the store and the data the callback was applied to.\<close>

definition taosCleanUpStrHashWithFp :: "SHashObj option \<Rightarrow> (SHashNode heap \<times> byte list list) run" where
  "taosCleanUpStrHashWithFp handle =
     (case handle of
        None \<Rightarrow> Some (Inr (Map.empty, []))
      | Some pObj \<Rightarrow>
          if sh_maxSessions pObj = 0 then Some (Inr (ch_heap (sh_chain pObj), []))
          else release_all_with (ch_list (sh_chain pObj)) (ch_heap (sh_chain pObj)) [])"

definition taosCleanUpStrHash :: "SHashObj option \<Rightarrow> SHashNode heap run" where
  "taosCleanUpStrHash handle = obind (taosCleanUpStrHashWithFp handle) (\<lambda>(hp, _). Some (Inr hp))"

text \<open>The visit stops at the first node whose data make the callback return non-zero.\<close>

primrec visit_all ::
  "(byte list \<Rightarrow> int) \<Rightarrow> int option list \<Rightarrow> SHashNode heap \<Rightarrow> int option run"
where
  "visit_all fp [] hp = Some (Inr None)"
| "visit_all fp (p # ps) hp =
     obind (chain_find (\<lambda>nd. fp (sn_data (nd_elem nd)) \<noteq> 0) hp p) (\<lambda>r.
       case r of None \<Rightarrow> visit_all fp ps hp | Some a \<Rightarrow> Some (Inr (Some a)))"

definition taosVisitStrHashWithFp :: "SHashObj option \<Rightarrow> (byte list \<Rightarrow> int) \<Rightarrow> int option run" where
  "taosVisitStrHashWithFp handle fp =
     (case handle of
        None \<Rightarrow> Some (Inr None)
      | Some pObj \<Rightarrow>
          if sh_maxSessions pObj = 0 then Some (Inr None)
          else visit_all fp (ch_list (sh_chain pObj)) (ch_heap (sh_chain pObj)))"


section \<open>Loops over the lists\<close>

lemma release_with_dseg:
  assumes "dseg hp pr p as l None" and "distinct as"
  shows "release_with hp p seen =
    Some (Inr (\<lambda>a. if a \<in> set as then None else hp a, seen @ map (\<lambda>a. sn_data (nd_elem (the (hp a)))) as))"
  using assms
proof (induction as arbitrary: hp pr p seen)
  case Nil
  then show ?case by (simp add: release_with.simps)
next
  case (Cons a as)
  then obtain nd where nd: "p = Some a" "hp a = Some nd" "dseg hp (Some a) (nd_next nd) as l None" by auto
  have "dseg (hp(a := None)) (Some a) (nd_next nd) as l None"
    using nd(3) Cons.prems(2) by (subst dseg_cong [of as _ hp]) auto
  note IH = Cons.IH [OF this, of "seen @ [sn_data (nd_elem nd)]"]
  have e1: "(\<lambda>b. if b \<in> set as then None else (hp(a := None)) b) = (\<lambda>b. if b \<in> set (a # as) then None else hp b)"
    by (auto simp: fun_eq_iff)
  have e2: "map (\<lambda>b. sn_data (nd_elem (the ((hp(a := None)) b)))) as = map (\<lambda>b. sn_data (nd_elem (the (hp b)))) as"
    using Cons.prems(2) by auto
  have rec: "release_with (hp(a := None)) (nd_next nd) (seen @ [sn_data (nd_elem nd)]) =
      Some (Inr (\<lambda>b. if b \<in> set (a # as) then None else hp b,
        seen @ map (\<lambda>b. sn_data (nd_elem (the (hp b)))) (a # as)))"
    using IH Cons.prems(2) unfolding e1 e2 by (simp add: nd(2) del: fun_upd_apply)
  have "load hp a = Inr nd" using nd(2) by (simp add: load_def)
  then show ?case unfolding nd(1) by (subst release_with.simps) (simp only: option.case sum.case rec)
qed

lemma release_all_with_segs:
  assumes "list_all2 (\<lambda>p as. \<exists>l. dseg hp None p as l None) ps cs" and "distinct (concat cs)"
  shows "release_all_with ps hp seen =
    Some (Inr (\<lambda>a. if a \<in> set (concat cs) then None else hp a,
      seen @ map (\<lambda>a. sn_data (nd_elem (the (hp a)))) (concat cs)))"
  using assms
proof (induction cs arbitrary: ps hp seen rule: list.induct)
  case Nil
  then show ?case by simp
next
  case (Cons as cs)
  then obtain p qs where ps: "ps = p # qs" and p: "\<exists>l. dseg hp None p as l None"
    and qs: "list_all2 (\<lambda>p as. \<exists>l. dseg hp None p as l None) qs cs" by (auto simp: list_all2_Cons2)
  let ?hp = "\<lambda>a. if a \<in> set as then None else hp a"
  let ?dat = "\<lambda>hp a. sn_data (nd_elem (the (hp a)))"
  have dist: "distinct as" "distinct (concat cs)" "set as \<inter> set (concat cs) = {}" using Cons.prems(2) by auto
  obtain l where "dseg hp None p as l None" using p ..
  note step = release_with_dseg [OF this dist(1), of seen]
  have "list_all2 (\<lambda>p as. \<exists>l. dseg ?hp None p as l None) qs cs"
  proof (rule list.rel_mono_strong [OF qs])
    fix q bs
    assume "q \<in> set qs" "bs \<in> set cs" and "\<exists>l. dseg hp None q bs l None"
    moreover from \<open>bs \<in> set cs\<close> dist(3) have "\<And>b. b \<in> set bs \<Longrightarrow> ?hp b = hp b" by auto
    ultimately show "\<exists>l. dseg ?hp None q bs l None" by (simp add: dseg_cong [of bs ?hp hp])
  qed
  note IH = Cons.IH [OF this dist(2), of "seen @ map (?dat hp) as"]
  have "(\<lambda>a. if a \<in> set (concat cs) then None else ?hp a) = (\<lambda>a. if a \<in> set (concat (as # cs)) then None else hp a)"
    by (auto simp: fun_eq_iff)
  moreover have "map (?dat ?hp) (concat cs) = map (?dat hp) (concat cs)" using dist(3) by auto
  ultimately show ?case unfolding ps by (simp add: step IH)
qed

lemma visit_all_segs:
  assumes "list_all2 (\<lambda>p as. \<exists>l. dseg hp None p as l None) ps cs"
  shows "visit_all fp ps hp = Some (Inr (List.find (\<lambda>a. fp (sn_data (nd_elem (the (hp a)))) \<noteq> 0) (concat cs)))"
  using assms
proof (induction ps cs rule: list_all2_induct)
  case (Cons p ps as cs)
  obtain l where "dseg hp None p as l None" using Cons.hyps(1) by blast
  note find = chain_find_dseg [OF this, of "\<lambda>nd. fp (sn_data (nd_elem nd)) \<noteq> 0"]
  have "List.find P (as @ bs) = (case List.find P as of None \<Rightarrow> List.find P bs | Some a \<Rightarrow> Some a)" for P and bs :: "int list"
    by (induction as) auto
  then show ?case by (auto simp: find Cons.IH split: option.split)
qed simp

lemma chain_ok_segs:
  assumes "chain_ok good c cs"
  shows "list_all2 (\<lambda>p as. \<exists>l. dseg (ch_heap c) None p as l None) (ch_list c) cs"
  using chain_okD(1,5) [OF assms] by (auto simp: list_all2_conv_all_nth)

text \<open>
  The search of \<open>taosDeleteStrHashNode\<close> never ends once it stands at a node with another string.
\<close>

lemma find_node_stuck:
  assumes "hp a = Some nd" and "sn_string (nd_elem nd) \<noteq> str"
  shows "find_node str del hp (Some a) = None"
proof -
  have stuck: "s = str \<and> h = hp \<longrightarrow> p \<noteq> Some a" if "find_node s d h p = Some y" for s d h p y
    using that
  proof (rule find_node.raw_induct [rotated, of s d h p y "\<lambda>s d h p y. s = str \<and> h = hp \<longrightarrow> p \<noteq> Some a"])
    fix fn s d h p y
    assume IH: "\<And>s d h p y. fn s d h p = Some y \<Longrightarrow> s = str \<and> h = hp \<longrightarrow> p \<noteq> Some a"
      and step: "(case p of None \<Rightarrow> Some (Inr None)
        | Some a \<Rightarrow> (case load h a of Inl e \<Rightarrow> Some (Inl e)
           | Inr nd \<Rightarrow> if sn_string (nd_elem nd) \<noteq> s then fn s d h p
               else if a = d then Some (Inr (Some a)) else fn s d h (nd_next nd))) = Some y"
    show "s = str \<and> h = hp \<longrightarrow> p \<noteq> Some a"
    proof (intro impI notI)
      assume e: "s = str \<and> h = hp" "p = Some a"
      with step assms have "fn s d h p = Some y" by (simp add: load_def)
      from IH [OF this] e show False by blast
    qed
  qed
  show ?thesis
  proof (cases "find_node str del hp (Some a)")
    case (Some y)
    from stuck [OF this] show ?thesis by simp
  qed
qed


section \<open>The hash functions\<close>

lemma fold_hash_less: "0 < n \<Longrightarrow> (h div n + h mod n) mod n < (n :: 32 word)"
  by (rule word_mod_less_divisor)

text \<open>The bytewise hash depends on the string only, and lies in the bucket array.\<close>

lemma step1_total:
  assumes "0 < n" and "nonzero k"
  obtains h where "h < n" and "\<And>r. taosHashStringStep1 n (k @ 0 # r) = Inr h"
proof -
  obtain h where h: "\<And>r. char_sum (k @ 0 # r) 0 = Inr h" using char_sum_total [OF assms(2)] by blast
  show ?thesis
    by (rule that [of "(h div n + h mod n) mod n"]) (simp_all add: fold_hash_less assms(1) taosHashStringStep1_def h Let_def)
qed

section \<open>The table as stacks of data\<close>

definition sh_key_ok :: "(32 word \<Rightarrow> byte list \<Rightarrow> 32 word res) \<Rightarrow> 32 word \<Rightarrow> byte list \<Rightarrow> bool" where
  "sh_key_ok fp n k \<longleftrightarrow> k \<noteq> [] \<and> nonzero k \<and> (case fp n (k @ [0]) of Inl _ \<Rightarrow> False | Inr h \<Rightarrow> h < n)"

definition sh_bucket :: "(32 word \<Rightarrow> byte list \<Rightarrow> 32 word res) \<Rightarrow> 32 word \<Rightarrow> byte list \<Rightarrow> nat" where
  "sh_bucket fp n k = (case fp n (k @ [0]) of Inl _ \<Rightarrow> 0 | Inr h \<Rightarrow> unat h)"

definition sh_good :: "(32 word \<Rightarrow> byte list \<Rightarrow> 32 word res) \<Rightarrow> 32 word \<Rightarrow> SHashNode \<Rightarrow> nat \<Rightarrow> bool" where
  "sh_good fp n e h \<longleftrightarrow> sh_bucket fp n (sn_string e) = h"

definition sh_abs ::
    "SHashNode malloc \<Rightarrow> (32 word \<Rightarrow> byte list \<Rightarrow> 32 word res) \<Rightarrow> 32 word \<Rightarrow> SHashObj \<Rightarrow>
      (byte list \<Rightarrow> byte list list) \<Rightarrow> bool"
where
  "sh_abs malloc fp n t L \<longleftrightarrow> fresh_malloc malloc \<and> 0 < n \<and> sh_hashFp t = fp \<and> sh_maxSessions t = n \<and>
     length (ch_list (sh_chain t)) = unat n \<and>
     chain_tab (sh_good fp n) sn_string (sh_bucket fp n) sn_data (sh_chain t) L"

definition sh_room :: "SHashNode malloc \<Rightarrow> SHashObj \<Rightarrow> bool" where
  "sh_room malloc t \<longleftrightarrow> malloc (ch_heap (sh_chain t)) \<noteq> None"

definition sh_ok :: "(32 word \<Rightarrow> byte list \<Rightarrow> 32 word res) \<Rightarrow> 32 word \<Rightarrow> byte list \<Rightarrow> byte list \<Rightarrow> bool" where
  "sh_ok fp n k v \<longleftrightarrow> sh_key_ok fp n k \<and> length v < 2 ^ 31"

definition sh_add :: "SHashNode malloc \<Rightarrow> SHashObj \<Rightarrow> byte list \<Rightarrow> byte list \<Rightarrow> (SHashObj \<times> int option) run" where
  "sh_add malloc t k v =
     obind (taosAddStrHashWithSize malloc (Some t) (Some (k @ [0])) (Some v) (int (length v)))
       (\<lambda>(h, p). obind (Some (deref h)) (\<lambda>t'. Some (Inr (t', p))))"

definition sh_del :: "SHashObj \<Rightarrow> byte list \<Rightarrow> SHashObj run" where
  "sh_del t k = obind (taosDeleteStrHash (Some t) (Some (k @ [0]))) (\<lambda>h. Some (deref h))"

definition sh_get :: "SHashObj \<Rightarrow> byte list \<Rightarrow> byte list option run" where
  "sh_get t k = obind (taosGetStrHashData (Some t) (Some (k @ [0]))) (chain_value sn_data (sh_chain t))"

lemma sh_enter_ok:
  assumes "sh_abs malloc fp n t L" and "sh_key_ok fp n k"
  shows "sh_enter (Some t) (Some (k @ [0])) = Inr (Some (t, k, int (sh_bucket fp n k)))"
    and "sh_bucket fp n k < length (ch_list (sh_chain t))"
proof -
  obtain h where h: "fp n (k @ [0]) = Inr h" "h < n" and k: "k \<noteq> []" "nonzero k"
    using assms(2) by (auto simp: sh_key_ok_def split: sum.splits)
  have "n \<noteq> 0" using h(2) by auto
  moreover obtain b bs where "k = b # bs" "b \<noteq> 0" using k by (cases k) auto
  ultimately show "sh_enter (Some t) (Some (k @ [0])) = Inr (Some (t, k, int (sh_bucket fp n k)))"
    using assms(1) h k(2) cstr_nonzero [OF k(2), of "[]"]
    by (simp add: sh_enter_def sh_abs_def sh_bucket_def)
  show "sh_bucket fp n k < length (ch_list (sh_chain t))"
    using assms(1) h by (simp add: sh_abs_def sh_bucket_def word_less_nat_alt)
qed

lemma sh_abs_add:
  assumes abs: "sh_abs malloc fp n t L" and ok: "sh_ok fp n k v"
  shows "case malloc (ch_heap (sh_chain t)) of
      None \<Rightarrow> sh_add malloc t k v = Some (Inl Null_Deref)
    | Some (a, junk) \<Rightarrow> \<exists>t'. sh_add malloc t k v = Some (Inr (t', Some a)) \<and> sh_abs malloc fp n t' (L(k := v # L k))"
proof -
  have k: "sh_key_ok fp n k" and v: "copy_bytes v 0 (nat (int (length v) mod 2 ^ 64)) = Inr v"
    using ok by (auto simp: sh_ok_def copy_bytes_def)
  note enter = sh_enter_ok [OF abs k]
  show ?thesis
  proof (cases "malloc (ch_heap (sh_chain t))")
    case None
    then show ?thesis by (simp add: sh_add_def taosAddStrHashWithSize_def enter(1))
  next
    case (Some p)
    obtain a junk where p: "p = (a, junk)" by (cases p)
    let ?e = "\<lparr>sn_string = k, sn_data = v\<rparr>"
    have free: "ch_heap (sh_chain t) a = None" and
      tab: "chain_tab (sh_good fp n) sn_string (sh_bucket fp n) sn_data (sh_chain t) L"
      using abs Some p by (auto simp: sh_abs_def fresh_malloc_def)
    obtain c where c: "chain_push (sh_chain t) (int (sh_bucket fp n k)) a ?e = Inr c"
      "chain_tab (sh_good fp n) sn_string (sh_bucket fp n) sn_data c (L(k := v # L k))"
      "length (ch_list c) = length (ch_list (sh_chain t))"
      using chain_tab_push [OF tab _ free, of ?e] enter(2) by (auto simp: sh_good_def)
    have "sh_add malloc t k v = Some (Inr (t\<lparr>sh_chain := c\<rparr>, Some a))"
      using Some p c(1) v by (simp add: sh_add_def taosAddStrHashWithSize_def enter(1))
    moreover have "sh_abs malloc fp n (t\<lparr>sh_chain := c\<rparr>) (L(k := v # L k))"
      using abs c by (simp add: sh_abs_def)
    ultimately show ?thesis using Some p by auto
  qed
qed

lemma sh_abs_del:
  assumes abs: "sh_abs malloc fp n t L" and k: "sh_key_ok fp n k"
  shows "\<exists>t'. sh_del t k = Some (Inr t') \<and> sh_abs malloc fp n t' (L(k := tl (L k)))"
proof -
  note enter = sh_enter_ok [OF abs k]
  have tab: "chain_tab (sh_good fp n) sn_string (sh_bucket fp n) sn_data (sh_chain t) L" using abs by (simp add: sh_abs_def)
  obtain c r where d: "chain_delete (\<lambda>nd. sn_string (nd_elem nd) = k) (sh_chain t) (int (sh_bucket fp n k)) = Some (Inr (c, r))"
    "chain_tab (sh_good fp n) sn_string (sh_bucket fp n) sn_data (chain_drop c r) (L(k := tl (L k)))"
    "length (ch_list (chain_drop c r)) = length (ch_list (sh_chain t))" "r = None \<longrightarrow> c = sh_chain t"
    using chain_tab_delete [OF tab enter(2) refl] by blast
  have "sh_del t k = Some (Inr (t\<lparr>sh_chain := chain_drop c r\<rparr>))"
    using d(1,4) by (cases r) (auto simp: sh_del_def taosDeleteStrHash_def enter(1) chain_drop_def)
  moreover have "sh_abs malloc fp n (t\<lparr>sh_chain := chain_drop c r\<rparr>) (L(k := tl (L k)))"
    using abs d by (simp add: sh_abs_def)
  ultimately show ?thesis by blast
qed

lemma sh_abs_get:
  assumes abs: "sh_abs malloc fp n t L" and k: "sh_key_ok fp n k"
  shows "sh_get t k = Some (Inr (head_of (L k)))"
proof -
  note enter = sh_enter_ok [OF abs k]
  have "chain_tab (sh_good fp n) sn_string (sh_bucket fp n) sn_data (sh_chain t) L" using abs by (simp add: sh_abs_def)
  from chain_tab_get [OF this enter(2) refl] show ?thesis
    by (auto simp: sh_get_def taosGetStrHashData_def enter(1))
qed

interpretation sh: stack_map "sh_abs malloc fp n" "sh_room malloc" "sh_ok fp n" "sh_key_ok fp n"
  "sh_add malloc" sh_del sh_get
  for malloc fp n
proof
  fix t t' L k v p
  assume a: "sh_abs malloc fp n t L" "sh_ok fp n k v"
  note step = sh_abs_add [OF a]
  show "sh_abs malloc fp n t' (if p = None then L else L(k := v # L k))" if "sh_add malloc t k v = Some (Inr (t', p))"
    using step that a(1) by (auto split: option.splits prod.splits simp del: fun_upd_apply)
  show "\<exists>t' a. sh_add malloc t k v = Some (Inr (t', Some a))" if "sh_room malloc t"
    using step that by (auto simp: sh_room_def split: option.splits)
qed (use sh_abs_del sh_abs_get in blast)+

lemma sh_init_abs:
  "fresh_malloc malloc \<Longrightarrow> 0 < n \<Longrightarrow> taosInitStrHash n sz fp True True = Some t \<Longrightarrow>
    sh_abs malloc fp n t (\<lambda>_. [])"
  by (auto simp: taosInitStrHash_def sh_abs_def chain_tab_empty length_empty_chain)

lemma step1_key_ok: "0 < n \<Longrightarrow> k \<noteq> [] \<Longrightarrow> nonzero k \<Longrightarrow> sh_key_ok taosHashStringStep1 n k"
  by (rule step1_total [of n k]) (auto simp: sh_key_ok_def)

text \<open>A lookup with the bytewise hash does not read past the terminator of its key.\<close>

lemma step1_get_buffer:
  assumes "sh_hashFp t = taosHashStringStep1" and "nonzero k"
  shows "taosGetStrHashData (Some t) (Some (k @ 0 # r)) = taosGetStrHashData (Some t) (Some (k @ [0]))"
proof (cases "sh_maxSessions t = 0")
  case False
  then have "0 < sh_maxSessions t" by (simp add: word_neq_0_conv)
  then obtain h where "\<And>r. taosHashStringStep1 (sh_maxSessions t) (k @ 0 # r) = Inr h"
    using step1_total assms(2) by metis
  with assms False show ?thesis by (simp add: taosGetStrHashData_def sh_enter_def arr_get_string)
qed (simp add: taosGetStrHashData_def sh_enter_def)

lemma clean_up_visits:
  assumes "sh_abs malloc fp n t L"
  shows "\<exists>as. distinct as \<and> set as = dom (ch_heap (sh_chain t)) \<and>
    taosCleanUpStrHashWithFp (Some t) = Some (Inr (Map.empty, map (\<lambda>a. sn_data (elem_at (sh_chain t) a)) as)) \<and>
    (\<forall>fp. taosVisitStrHashWithFp (Some t) fp =
      Some (Inr (List.find (\<lambda>a. fp (sn_data (elem_at (sh_chain t) a)) \<noteq> 0) as)))"
proof -
  obtain cs where ok: "chain_ok (sh_good fp n) (sh_chain t) cs"
    using assms by (auto simp: sh_abs_def chain_tab_def chain_abs_def)
  note segs = chain_ok_segs [OF ok] and cc = chain_ok_concat [OF ok]
  have n: "sh_maxSessions t \<noteq> 0" using assms by (auto simp: sh_abs_def)
  have "(\<lambda>a. if a \<in> set (concat cs) then None else ch_heap (sh_chain t) a) = Map.empty"
    using cc(2) by (auto simp: fun_eq_iff dom_def simp del: set_concat)
  with release_all_with_segs [OF segs cc(1), of "[]"] n
  have "taosCleanUpStrHashWithFp (Some t) = Some (Inr (Map.empty, map (\<lambda>a. sn_data (elem_at (sh_chain t) a)) (concat cs)))"
    by (simp add: taosCleanUpStrHashWithFp_def elem_at_def)
  moreover have "taosVisitStrHashWithFp (Some t) fp =
      Some (Inr (List.find (\<lambda>a. fp (sn_data (elem_at (sh_chain t) a)) \<noteq> 0) (concat cs)))" for fp
    using visit_all_segs [OF segs, of fp] n by (simp add: taosVisitStrHashWithFp_def elem_at_def)
  ultimately show ?thesis using cc by blast
qed


section \<open>Correctness\<close>

text \<open>
  C17.
  Through any sequence of calls on a new table hashed by \<open>taosHashStringStep1\<close>: a lookup,
  whatever bytes follow the terminator of its key, returns the data added last for that string and
  not deleted since; deleting a present or an absent string ends without a bad access; adding
  succeeds whenever malloc does.
\<close>

theorem str_hash_correct:
  assumes "fresh_malloc malloc" and "0 < n" and "taosInitStrHash n sz taosHashStringStep1 True True = Some t0"
    and "table_reach (sh_add malloc) sh_del (\<lambda>k v. k \<noteq> [] \<and> nonzero k \<and> length v < 2 ^ 31)
      (\<lambda>k. k \<noteq> [] \<and> nonzero k) t0 t L"
    and "k \<noteq> []" and "nonzero k" and "length v < 2 ^ 31"
  shows "obind (taosGetStrHashData (Some t) (Some (k @ 0 # r))) (chain_value sn_data (sh_chain t)) =
      Some (Inr (head_of (L k))) \<and>
    (\<exists>t'. sh_del t k = Some (Inr t')) \<and>
    (malloc (ch_heap (sh_chain t)) \<noteq> None \<longrightarrow> (\<exists>t' a. sh_add malloc t k v = Some (Inr (t', Some a))))"
proof -
  have init: "sh_abs malloc taosHashStringStep1 n t0 (\<lambda>_. [])" using assms(1-3) by (rule sh_init_abs)
  have reach: "table_reach (sh_add malloc) sh_del (sh_ok taosHashStringStep1 n) (sh_key_ok taosHashStringStep1 n) t0 t L"
    by (rule table_reach_mono [OF assms(4)]) (auto simp: sh_ok_def step1_key_ok assms(2))
  have k: "sh_key_ok taosHashStringStep1 n k" using assms(2,5,6) by (rule step1_key_ok)
  have "sh_hashFp t = taosHashStringStep1" using sh.reach_abs [OF init reach] by (simp add: sh_abs_def)
  note buf = step1_get_buffer [OF this assms(6), of r]
  from sh.reach_correct [OF init reach] k assms(7) show ?thesis
    unfolding buf by (auto simp: sh_ok_def sh_room_def sh_get_def)
qed

theorem str_hash_correct_witness:
  "\<exists>t0 t. taosInitStrHash 4 8 taosHashStringStep1 True True = Some t0 \<and>
    sh_add small_malloc t0 [97, 98] [9] = Some (Inr (t, Some 8)) \<and>
    obind (taosGetStrHashData (Some t) (Some [97, 98, 0, 7, 7])) (chain_value sn_data (sh_chain t)) = Some (Inr (Some [9]))"
proof -
  obtain t0 where t0: "taosInitStrHash 4 8 taosHashStringStep1 True True = Some t0" by (simp add: taosInitStrHash_def)
  have "(0 :: 32 word) < 4" by simp
  note abs = sh_init_abs [OF small_malloc_fresh this t0]
  have "sh_ok taosHashStringStep1 4 [97, 98] [9]" by (simp add: sh_ok_def step1_key_ok)
  moreover have "small_malloc (ch_heap (sh_chain t0)) = Some (8, replicate 64 0)"
    using t0 by (auto simp: taosInitStrHash_def small_malloc_def)
  ultimately obtain t where t: "sh_add small_malloc t0 [97, 98] [9] = Some (Inr (t, Some 8))"
    using sh_abs_add [OF abs, of "[97, 98]" "[9]"] by auto
  have "table_reach (sh_add small_malloc) sh_del (\<lambda>k v. k \<noteq> [] \<and> nonzero k \<and> length v < 2 ^ 31)
      (\<lambda>k. k \<noteq> [] \<and> nonzero k) t0 t ((\<lambda>_. [])([97, 98] := [9] # []))"
    by (rule reach_add [where t = t0]) (simp_all add: reach_new t)
  from str_hash_correct [OF small_malloc_fresh _ t0 this, of "[97, 98]" "[9]" "[7, 7]"] t0 t show ?thesis by auto
qed

text \<open>
  C38.
  In every state reached so, the clean-up calls its callback exactly once on the data of every
  node and leaves no node in the store, and a visit returns a node whose data make its callback
  return non-zero, or NULL when there is none.
\<close>

theorem str_hash_traversal:
  assumes "fresh_malloc malloc" and "0 < n" and "taosInitStrHash n sz taosHashStringStep1 True True = Some t0"
    and "table_reach (sh_add malloc) sh_del (\<lambda>k v. k \<noteq> [] \<and> nonzero k \<and> length v < 2 ^ 31)
      (\<lambda>k. k \<noteq> [] \<and> nonzero k) t0 t L"
  shows "\<exists>as. distinct as \<and> set as = dom (ch_heap (sh_chain t)) \<and>
    taosCleanUpStrHashWithFp (Some t) = Some (Inr (Map.empty, map (\<lambda>a. sn_data (elem_at (sh_chain t) a)) as)) \<and>
    (\<forall>fp. taosVisitStrHashWithFp (Some t) fp =
      Some (Inr (List.find (\<lambda>a. fp (sn_data (elem_at (sh_chain t) a)) \<noteq> 0) as)))"
proof -
  have init: "sh_abs malloc taosHashStringStep1 n t0 (\<lambda>_. [])" using assms(1-3) by (rule sh_init_abs)
  have reach: "table_reach (sh_add malloc) sh_del (sh_ok taosHashStringStep1 n) (sh_key_ok taosHashStringStep1 n) t0 t L"
    by (rule table_reach_mono [OF assms(4)]) (auto simp: sh_ok_def step1_key_ok assms(2))
  from sh.reach_abs [OF init reach] show ?thesis by (rule clean_up_visits)
qed

text \<open>A table with two strings.\<close>

lemma two_strings:
  obtains t0 t1 t n1 n2 where "taosInitStrHash 4 1 taosHashStringStep1 True True = Some t0"
    and "sh_add small_malloc t0 [97, 98] [9] = Some (Inr (t1, Some 8))" and "sh_add small_malloc t1 [99] [7] = Some (Inr (t, Some 16))"
    and "ch_heap (sh_chain t) = [16 \<mapsto> n2, 8 \<mapsto> n1]" and "sn_data (nd_elem n1) = [9]" and "sn_data (nd_elem n2) = [7]"
proof -
  have replicate_4: "replicate 4 (None :: int option) = [None, None, None, None]" by (simp add: numeral_nat)
  obtain t0 where t0: "taosInitStrHash 4 1 taosHashStringStep1 True True = Some t0"
      "t0 = \<lparr>sh_chain = \<lparr>ch_list = [None, None, None, None], ch_heap = Map.empty\<rparr>, sh_maxSessions = 4, sh_dataSize = 1, sh_hashFp = taosHashStringStep1\<rparr>"
    using replicate_4 by (simp add: taosInitStrHash_def empty_chain_def)
  have hash: "taosHashStringStep1 4 [97, 98, 0] = Inr 3" "taosHashStringStep1 4 [99, 0] = Inr 3"
    by (simp_all add: taosHashStringStep1_def Let_def)
  have upd: "[a, b, c, d][3 := x] = [a, b, c, x]" for a b c d x :: "int option" by (simp add: numeral_3_eq_3)
  have "\<exists>t1 t n1 n2. sh_add small_malloc t0 [97, 98] [9] = Some (Inr (t1, Some 8)) \<and> sh_add small_malloc t1 [99] [7] = Some (Inr (t, Some 16)) \<and>
      ch_heap (sh_chain t) = [16 \<mapsto> n2, 8 \<mapsto> n1] \<and> sn_data (nd_elem n1) = [9] \<and> sn_data (nd_elem n2) = [7]"
    by (simp add: t0(2) sh_add_def taosAddStrHashWithSize_def sh_enter_def cstr_def hash small_malloc_def copy_bytes_def chain_push_def load_def Let_def upd)
      (rule exI, rule exI, rule conjI, rule refl, simp)
  then show ?thesis using t0(1) that by blast
qed

theorem str_hash_traversal_witness:
  "\<exists>t0 t1 t seen. taosInitStrHash 4 1 taosHashStringStep1 True True = Some t0 \<and>
    sh_add small_malloc t0 [97, 98] [9] = Some (Inr (t1, Some 8)) \<and> sh_add small_malloc t1 [99] [7] = Some (Inr (t, Some 16)) \<and>
    taosCleanUpStrHashWithFp (Some t) = Some (Inr (Map.empty, seen)) \<and> (seen = [[9], [7]] \<or> seen = [[7], [9]]) \<and>
    taosVisitStrHashWithFp (Some t) (\<lambda>d. if d = [7] then 1 else 0) = Some (Inr (Some 16)) \<and>
    taosVisitStrHashWithFp (Some t) (\<lambda>d. 0) = Some (Inr None)"
proof -
  obtain t0 t1 t n1 n2 where t: "taosInitStrHash 4 1 taosHashStringStep1 True True = Some t0"
      "sh_add small_malloc t0 [97, 98] [9] = Some (Inr (t1, Some 8))" "sh_add small_malloc t1 [99] [7] = Some (Inr (t, Some 16))"
      "ch_heap (sh_chain t) = [16 \<mapsto> n2, 8 \<mapsto> n1]" "sn_data (nd_elem n1) = [9]" "sn_data (nd_elem n2) = [7]" by (rule two_strings)
  let ?reach = "table_reach (sh_add small_malloc) sh_del (\<lambda>k v. k \<noteq> [] \<and> nonzero k \<and> length v < 2 ^ 31) (\<lambda>k. k \<noteq> [] \<and> nonzero k)"
  let ?L = "(\<lambda>_. [])([97, 98] := [9] # []) :: byte list \<Rightarrow> byte list list"
  have "?reach t0 t1 ?L" by (rule reach_add [where t = t0]) (simp_all add: reach_new t)
  then have "?reach t0 t (?L([99] := [7] # ?L [99]))" by (rule reach_add [where t = t1]) (simp_all add: t)
  from str_hash_traversal [OF small_malloc_fresh _ t(1) this] obtain as where as: "distinct as" "set as = {8, 16}"
      "taosCleanUpStrHashWithFp (Some t) = Some (Inr (Map.empty, map (\<lambda>a. sn_data (elem_at (sh_chain t) a)) as))"
      "\<And>fp. taosVisitStrHashWithFp (Some t) fp = Some (Inr (List.find (\<lambda>a. fp (sn_data (elem_at (sh_chain t) a)) \<noteq> 0) as))"
    by (auto simp: t(4) insert_commute)
  have "length as = 2" using distinct_card [OF as(1)] as(2) by simp
  then obtain x y where "as = [x, y]" by (auto simp: numeral_2_eq_2 length_Suc_conv)
  then have two: "as = [8, 16] \<or> as = [16, 8]" using as(2) by (auto simp: doubleton_eq_iff)
  have elems: "sn_data (elem_at (sh_chain t) 8) = [9]" "sn_data (elem_at (sh_chain t) 16) = [7]" using t(4-6) by (simp_all add: elem_at_def)
  have "taosVisitStrHashWithFp (Some t) (\<lambda>d. if d = [7] then 1 else 0) = Some (Inr (Some 16))"
      "taosVisitStrHashWithFp (Some t) (\<lambda>d. 0) = Some (Inr None)"
      "map (\<lambda>a. sn_data (elem_at (sh_chain t) a)) as = [[9], [7]] \<or> map (\<lambda>a. sn_data (elem_at (sh_chain t) a)) as = [[7], [9]]"
    using two elems by (auto simp: as(4))
  then show ?thesis using t(1-3) as(3) by - ((rule exI)+, (rule conjI, assumption)+, assumption)
qed

text \<open>
  C39.
  Deleting a given node never returns, with the table's mutex held, when the first node of the
  bucket holds another string.
\<close>

theorem delete_node_hangs:
  assumes "sh_enter (Some t) (Some s) = Inr (Some (t, str, hash))"
    and "arr_get (ch_list (sh_chain t)) hash = Inr (Some a)" and "ch_heap (sh_chain t) a = Some nd"
    and "sn_string (nd_elem nd) \<noteq> str"
  shows "taosDeleteStrHashNode (Some t) (Some s) del = None"
  using find_node_stuck [of "ch_heap (sh_chain t)" a nd str del, OF assms(3,4)] assms(1,2) by (simp add: taosDeleteStrHashNode_def)

definition two_sessions :: "SHashObj" where
  "two_sessions =
     \<lparr>sh_chain = \<lparr>ch_list = [Some 16], ch_heap = [
          8 \<mapsto> \<lparr>nd_elem = \<lparr>sn_string = [97], sn_data = [1]\<rparr>, nd_prev = Some 16, nd_next = None\<rparr>,
          16 \<mapsto> \<lparr>nd_elem = \<lparr>sn_string = [98], sn_data = [2]\<rparr>, nd_prev = None, nd_next = Some 8\<rparr>]\<rparr>,
      sh_maxSessions = 1, sh_dataSize = 1, sh_hashFp = taosHashStringStep1\<rparr>"

theorem delete_node_hangs_witness:
  "taosDeleteStrHashNode (Some two_sessions) (Some [97, 0]) 8 = None"
proof -
  have "taosHashStringStep1 1 [97, 0] = Inr 0" by (simp add: taosHashStringStep1_def Let_def)
  then have "sh_enter (Some two_sessions) (Some [97, 0]) = Inr (Some (two_sessions, [97], 0))"
    by (simp add: sh_enter_def two_sessions_def cstr_def)
  from delete_node_hangs [OF this, of 16] show ?thesis by (simp add: two_sessions_def)
qed

lemma int_sum_overread:
  assumes "nonzero k" and "length k mod 4 \<noteq> 0"
  shows "int_sum (k @ [0]) hash = Inl Out_Of_Bounds"
  using assms
proof (induction "length k" arbitrary: k hash rule: less_induct)
  case less
  obtain b bs where k: "k = b # bs" "b \<noteq> 0" using less.prems by (cases k) auto
  consider "length k < 3" | "length k = 3" | "4 \<le> length k" by linarith
  then show ?case
  proof cases
    case 1
    with k show ?thesis by (subst int_sum.simps) (simp add: copy_bytes_def)
  next
    case 2
    then have "drop 4 (k @ [0]) = []" by simp
    moreover have "int_sum [] h = Inl Out_Of_Bounds" for h by (subst int_sum.simps) (simp add: arr_get_def)
    ultimately show ?thesis using k 2 by (subst int_sum.simps) (simp add: copy_bytes_def)
  next
    case 3
    then have "length (drop 4 k) mod 4 \<noteq> 0" using less.prems(2) by (simp add: le_mod_geq)
    moreover have "nonzero (drop 4 k)" using less.prems(1) by (auto simp: nonzero_def dest: in_set_dropD)
    ultimately have "int_sum (drop 4 k @ [0]) h = Inl Out_Of_Bounds" for h
      using 3 by (intro less.hyps) auto
    with 3 k show ?thesis by (subst int_sum.simps) (simp add: copy_bytes_def)
  qed
qed

text \<open>
  C40.
  \<open>taosHashString\<close> reads past the end of every string whose length is not a multiple of four,
  when nothing follows the string in memory.
\<close>

theorem hash_string_overread:
  assumes "nonzero k" and "length k mod 4 \<noteq> 0"
  shows "taosHashString n (k @ [0]) = Inl Out_Of_Bounds"
  using int_sum_overread [OF assms] by (simp add: taosHashString_def)

theorem hash_string_overread_witness: "taosHashString 100 [97, 98, 0] = Inl Out_Of_Bounds"
  using hash_string_overread [of "[97, 98]" 100] by simp

end
