(* ===== verification/LongHash.thy ===== *)
theory LongHash
  imports PoolTable
begin

text \<open>
  The hash from 64-bit contents to identifiers, src/src/util/src/thash.c: chained buckets whose
  nodes come from a memory pool. Mutex operations are not modelled; \<open>hashFp\<close> is a field, applied
  to \<open>maxSessions\<close> and the content.
\<close>

section \<open>State and operations\<close>

record SLongHash_id =
  th_id :: "32 word"
  th_cont :: "64 word"

record SHashObj_long =
  th_chain :: "SLongHash_id chain"
  th_pool :: pool_t
  th_hashFp :: "int \<Rightarrow> 64 word \<Rightarrow> int"
  th_maxSessions :: int

definition taosHashUInt64 :: "64 word \<Rightarrow> 64 word" where
  "taosHashUInt64 handle = drop_bit 16 handle + (handle AND 0xFFFF)"

text \<open>The conversions to \<open>int\<close> and the addition wrap at 32 bits.\<close>

definition taosHashLong :: "int \<Rightarrow> 64 word \<Rightarrow> int" where
  "taosHashLong maxSessions ip =
     to_int32 (to_int32 (uint (drop_bit 16 ip)) + to_int32 (uint (ip AND 0xFFFF))) smod maxSessions"

definition taosAddHash :: "SHashObj_long option \<Rightarrow> 64 word \<Rightarrow> 32 word \<Rightarrow> (SHashObj_long option \<times> int) run" where
  "taosAddHash handle cont idn =
     (case handle of
        None \<Rightarrow> Some (Inr (None, -1))
      | Some pObj \<Rightarrow>
          if th_maxSessions pObj = 0 then Some (Inr (Some pObj, -1))
          else
            obind (pool_put (th_chain pObj) (th_pool pObj) (th_hashFp pObj (th_maxSessions pObj) cont)
                    (Inr \<lparr>th_id = idn, th_cont = cont\<rparr>))
              (\<lambda>(c, p). Some (Inr (Some (pObj\<lparr>th_chain := c, th_pool := p\<rparr>), 0))))"

definition taosDeleteHash :: "SHashObj_long option \<Rightarrow> 64 word \<Rightarrow> SHashObj_long option run" where
  "taosDeleteHash handle cont =
     (case handle of
        None \<Rightarrow> Some (Inr None)
      | Some pObj \<Rightarrow>
          if th_maxSessions pObj = 0 then Some (Inr (Some pObj))
          else
            obind (pool_remove (\<lambda>nd. th_cont (nd_elem nd) = cont) (th_chain pObj) (th_pool pObj)
                    (th_hashFp pObj (th_maxSessions pObj) cont))
              (\<lambda>(c, p). Some (Inr (Some (pObj\<lparr>th_chain := c, th_pool := p\<rparr>)))))"

definition taosGetIdFromHash :: "SHashObj_long option \<Rightarrow> 64 word \<Rightarrow> int run" where
  "taosGetIdFromHash handle cont =
     (case handle of
        None \<Rightarrow> Some (Inr (-1))
      | Some pObj \<Rightarrow>
          if th_maxSessions pObj = 0 then Some (Inr (-1))
          else
            obind (chain_get (\<lambda>nd. th_cont (nd_elem nd) = cont) (th_chain pObj)
                    (th_hashFp pObj (th_maxSessions pObj) cont)) (\<lambda>p.
            obind (chain_value th_id (th_chain pObj) p) (\<lambda>v.
              case v of None \<Rightarrow> Some (Inr (-1)) | Some idn \<Rightarrow> Some (Inr (sint idn)))))"

text \<open>\<open>sizeof(SLongHash)\<close> is 32; the arguments after \<open>fp\<close> are the outcomes of the allocations.\<close>

definition taosOpenHash ::
    "int \<Rightarrow> (int \<Rightarrow> 64 word \<Rightarrow> int) \<Rightarrow> (int \<Rightarrow> int \<Rightarrow> pool_t option) \<Rightarrow> bool \<Rightarrow> bool \<Rightarrow> SHashObj_long option"
where
  "taosOpenHash maxSessions fp pool_init list_ok obj_ok =
     (case pool_init maxSessions 32 of
        None \<Rightarrow> None
      | Some p \<Rightarrow>
          if \<not> list_ok then None
          else if \<not> obj_ok then None
          else Some \<lparr>th_chain = empty_chain (nat maxSessions), th_pool = p, th_hashFp = fp,
                 th_maxSessions = maxSessions\<rparr>)"

text \<open>The handle afterwards, and the pool object the pool's clean-up leaves allocated.\<close>

definition taosCloseHash :: "SHashObj_long option \<Rightarrow> SHashObj_long option \<times> pool_t option" where
  "taosCloseHash handle =
     (case handle of
        None \<Rightarrow> (None, None)
      | Some pObj \<Rightarrow>
          if th_maxSessions pObj = 0 then (Some pObj, None)
          else (None, taosMemPoolCleanUp (th_pool pObj)))"

section \<open>The table as stacks of identifiers\<close>

definition th_good :: "(int \<Rightarrow> 64 word \<Rightarrow> int) \<Rightarrow> int \<Rightarrow> SLongHash_id \<Rightarrow> nat \<Rightarrow> bool" where
  "th_good fp n e h \<longleftrightarrow> fp n (th_cont e) = int h"

definition th_bucket :: "(int \<Rightarrow> 64 word \<Rightarrow> int) \<Rightarrow> int \<Rightarrow> 64 word \<Rightarrow> nat" where
  "th_bucket fp n k = nat (fp n k)"

definition th_abs ::
    "(int \<Rightarrow> 64 word \<Rightarrow> int) \<Rightarrow> int \<Rightarrow> SHashObj_long \<Rightarrow> (64 word \<Rightarrow> 32 word list) \<Rightarrow> bool" where
  "th_abs fp n t L \<longleftrightarrow> th_maxSessions t = n \<and> th_hashFp t = fp \<and>
     pool_tab (th_good fp n) th_cont (th_bucket fp n) th_id n (th_chain t) (th_pool t) L"

definition th_add :: "SHashObj_long \<Rightarrow> 64 word \<Rightarrow> 32 word \<Rightarrow> (SHashObj_long \<times> unit option) run" where
  "th_add t k v = obind (taosAddHash (Some t) k v) (\<lambda>(h, code).
     obind (Some (deref h)) (\<lambda>t'. Some (Inr (t', if code = 0 then Some () else None))))"

definition th_del :: "SHashObj_long \<Rightarrow> 64 word \<Rightarrow> SHashObj_long run" where
  "th_del t k = obind (taosDeleteHash (Some t) k) (\<lambda>h. Some (deref h))"

definition th_get :: "SHashObj_long \<Rightarrow> 64 word \<Rightarrow> 32 word option run" where
  "th_get t k = obind (chain_get (\<lambda>nd. th_cont (nd_elem nd) = k) (th_chain t)
     (th_hashFp t (th_maxSessions t) k)) (chain_value th_id (th_chain t))"

lemma th_put:
  assumes "th_abs fp n t L"
  shows "th_add t k v = obind (pool_put (th_chain t) (th_pool t) (fp n k) (Inr \<lparr>th_id = v, th_cont = k\<rparr>))
    (\<lambda>(c, p). Some (Inr (t\<lparr>th_chain := c, th_pool := p\<rparr>, Some ())))"
proof -
  have "th_maxSessions t = n" "th_maxSessions t \<noteq> 0" "th_hashFp t = fp"
    using assms by (auto simp: th_abs_def pool_tab_def)
  then show ?thesis
    by (auto simp: th_add_def taosAddHash_def obind_def split: option.splits sum.splits)
qed

interpretation th: stack_map "th_abs fp n" "\<lambda>t. mp_free (th_pool t) \<noteq> []" "\<lambda>k v. in_range n (fp n k)"
  "\<lambda>k. in_range n (fp n k)" th_add th_del th_get
  for fp n
proof
  fix t L and k :: "64 word"
  assume abs: "th_abs fp n t L" and h: "in_range n (fp n k)"
  then have tab: "pool_tab (th_good fp n) th_cont (th_bucket fp n) th_id n (th_chain t) (th_pool t) L"
    by (simp add: th_abs_def)
  have b: "th_bucket fp n k = nat (fp n k)" by (simp add: th_bucket_def)
  have g: "th_good fp n \<lparr>th_id = v, th_cont = k\<rparr> (nat (fp n k))" for v
    using h by (simp add: th_good_def in_range_def)
  show "th_abs fp n t' (if p = None then L else L(k := v # L k))"
    if "th_add t k v = Some (Inr (t', p))" for v t' p
    using that abs th_put [OF abs] pool_put_sim(1) [OF tab h _ g, of v] b
    by (auto simp: obind_eq_Inr th_abs_def)
  show "\<exists>t' a. th_add t k v = Some (Inr (t', Some a))" if "mp_free (th_pool t) \<noteq> []" for v
    using that th_put [OF abs] pool_put_ok [OF tab h _ g that, of v] b by auto
  show "\<exists>t'. th_del t k = Some (Inr t') \<and> th_abs fp n t' (L(k := tl (L k)))"
    using abs pool_remove_ok [OF tab h b]
    by (auto simp: th_del_def taosDeleteHash_def th_abs_def pool_tab_def)
  show "th_get t k = Some (Inr (head_of (L k)))"
    using abs pool_get_ok [OF tab h b] by (auto simp: th_get_def th_abs_def)
qed

lemma th_open_abs:
  assumes "taosOpenHash n fp (\<lambda>m b. taosMemPoolInit m b True True True mem) True True = Some t"
    and "32 * n < 2 ^ 31" and "int (length mem) = 32 * n"
  shows "th_abs fp n t (\<lambda>_. [])"
proof -
  obtain p where p: "taosMemPoolInit n 32 True True True mem = Some p"
    and t: "t = \<lparr>th_chain = empty_chain (nat n), th_pool = p, th_hashFp = fp, th_maxSessions = n\<rparr>"
    using assms(1) by (auto simp: taosOpenHash_def split: option.splits)
  show ?thesis unfolding t th_abs_def using pool_tab_init(1) [OF p assms(2,3)] by simp
qed

text \<open>Contents below \<open>2 ^ 46\<close> keep the sum non-negative.\<close>

lemma taosHashLong_range:
  assumes "0 < n" and "uint k < 2 ^ 46"
  shows "in_range n (taosHashLong n k)"
proof -
  have "uint (drop_bit 16 k) = drop_bit 16 (uint k)" by (rule bit_eqI) (simp add: bit_uint_iff bit_drop_bit_eq, auto dest: bit_imp_le_length)
  then have "uint (drop_bit 16 k) = uint k div 2 ^ 16" by (simp add: drop_bit_eq_div)
  with assms(2) have a: "0 \<le> uint (drop_bit 16 k)" "uint (drop_bit 16 k) < 2 ^ 30" using uint_ge_0 [of "drop_bit 16 k"] by auto
  have "uint (k AND 0xFFFF) = uint k mod 2 ^ 16"
  proof -
    have "k AND 0xFFFF = take_bit 16 k" by (simp add: take_bit_eq_mask mask_eq_exp_minus_1)
    then have "uint (k AND 0xFFFF) = take_bit 16 (uint k)" by (simp only: unsigned_take_bit_eq)
    then show ?thesis by (simp only: take_bit_eq_mod)
  qed
  then have b: "0 \<le> uint (k AND 0xFFFF)" "uint (k AND 0xFFFF) < 2 ^ 16" by auto
  have c: "- (2 ^ 31) \<le> (0::int)" "(2 ^ 30 + 2 ^ 16 :: int) < 2 ^ 31" "(2 ^ 30 :: int) < 2 ^ 31" "(2 ^ 16 :: int) < 2 ^ 31"
    by simp_all
  have "to_int32 (uint (drop_bit 16 k)) = uint (drop_bit 16 k)"
    by (rule to_int32_id) (use a c in linarith)+
  moreover have "to_int32 (uint (k AND 0xFFFF)) = uint (k AND 0xFFFF)"
    by (rule to_int32_id) (use b c in linarith)+
  moreover have "to_int32 (uint (drop_bit 16 k) + uint (k AND 0xFFFF)) = uint (drop_bit 16 k) + uint (k AND 0xFFFF)"
    by (rule to_int32_id) (use a b c in linarith)+
  ultimately have "to_int32 (to_int32 (uint (drop_bit 16 k)) + to_int32 (uint (k AND 0xFFFF))) =
      uint (drop_bit 16 k) + uint (k AND 0xFFFF)"
    by simp
  then show ?thesis unfolding taosHashLong_def in_range_def using a b assms(1)
    by (simp add: smod_bounds)
qed

section \<open>Correctness\<close>



text \<open>
  \<open>taosHashLong\<close> of a content with bit 47 set and its upper bits clear is negative unless
  \<open>maxSessions\<close> divides the sum: the lookup then reads the bucket array before its start.
\<close>

theorem long_hash_negative:
  assumes "0 < n" and "th_maxSessions t = n" and "th_hashFp t = taosHashLong" and "taosHashLong n k < 0"
  shows "taosGetIdFromHash (Some t) k = Some (Inl Out_Of_Bounds) \<and>
    taosDeleteHash (Some t) k = Some (Inl Out_Of_Bounds)"
  using assms
  by (simp add: taosGetIdFromHash_def taosDeleteHash_def chain_get_def pool_remove_def chain_delete_def arr_get_out)

theorem long_hash_negative_witness:
  "taosHashLong 10 (2 ^ 47) = - 8 \<and>
    taosGetIdFromHash (taosOpenHash 10 taosHashLong (\<lambda>m b. taosMemPoolInit m b True True True (replicate 320 0)) True True)
      (2 ^ 47) = Some (Inl Out_Of_Bounds)"
proof -
  obtain t where t: "taosOpenHash 10 taosHashLong (\<lambda>m b. taosMemPoolInit m b True True True (replicate 320 0)) True True = Some t"
    "th_maxSessions t = 10" "th_hashFp t = taosHashLong"
    by (simp add: taosOpenHash_def taosMemPoolInit_def)
  have "taosHashLong 10 (2 ^ 47) = - 8" by code_simp
  with t long_hash_negative [of 10 t "2 ^ 47"] show ?thesis by simp
qed

end
