(* ===== verification/IpHash.thy ===== *)
theory IpHash
  imports PoolTable
begin

text \<open>
  The hash from IP address and port to a connection, src/src/rpc/src/thaship.c: chained buckets
  whose nodes come from a memory pool. A \<open>void *\<close> value is an integer, 0 for NULL.
\<close>

section \<open>State and operations\<close>

record SIpHash =
  ip_ip :: "32 word"
  ip_port :: "16 word"
  ip_hash :: int
  ip_data :: int

record SHashObj_ip =
  ip_chain :: "SIpHash chain"
  ip_pool :: pool_t
  ip_maxSessions :: int

definition taosHashIp :: "int \<Rightarrow> 32 word \<Rightarrow> 16 word \<Rightarrow> int" where
  "taosHashIp maxSessions ip port =
     (uint (drop_bit 16 ip) + uint (ucast ip :: 16 word) + uint port) smod maxSessions"

text \<open>The second component tells whether the returned pointer, the table itself, is not NULL.\<close>

definition taosAddIpHash ::
    "SHashObj_ip option \<Rightarrow> int \<Rightarrow> 32 word \<Rightarrow> 16 word \<Rightarrow> (SHashObj_ip option \<times> bool) run"
where
  "taosAddIpHash handle dat ip port =
     (case handle of
        None \<Rightarrow> Some (Inr (None, False))
      | Some pObj \<Rightarrow>
          if ip_maxSessions pObj = 0 then Some (Inr (Some pObj, False))
          else
            let hash = taosHashIp (ip_maxSessions pObj) ip port in
            obind (pool_put (ip_chain pObj) (ip_pool pObj) hash
                    (Inr \<lparr>ip_ip = ip, ip_port = port, ip_hash = hash, ip_data = dat\<rparr>))
              (\<lambda>(c, p). Some (Inr (Some (pObj\<lparr>ip_chain := c, ip_pool := p\<rparr>), True))))"

definition ip_test :: "32 word \<Rightarrow> 16 word \<Rightarrow> SIpHash hnode \<Rightarrow> bool" where
  "ip_test ip port nd \<longleftrightarrow> ip_ip (nd_elem nd) = ip \<and> ip_port (nd_elem nd) = port"

definition taosDeleteIpHash :: "SHashObj_ip option \<Rightarrow> 32 word \<Rightarrow> 16 word \<Rightarrow> SHashObj_ip option run" where
  "taosDeleteIpHash handle ip port =
     (case handle of
        None \<Rightarrow> Some (Inr None)
      | Some pObj \<Rightarrow>
          if ip_maxSessions pObj = 0 then Some (Inr (Some pObj))
          else
            obind (pool_remove (ip_test ip port) (ip_chain pObj) (ip_pool pObj)
                    (taosHashIp (ip_maxSessions pObj) ip port))
              (\<lambda>(c, p). Some (Inr (Some (pObj\<lparr>ip_chain := c, ip_pool := p\<rparr>)))))"

definition taosGetIpHash :: "SHashObj_ip option \<Rightarrow> 32 word \<Rightarrow> 16 word \<Rightarrow> int run" where
  "taosGetIpHash handle ip port =
     (case handle of
        None \<Rightarrow> Some (Inr 0)
      | Some pObj \<Rightarrow>
          if ip_maxSessions pObj = 0 then Some (Inr 0)
          else
            obind (chain_get (ip_test ip port) (ip_chain pObj) (taosHashIp (ip_maxSessions pObj) ip port)) (\<lambda>p.
            obind (chain_value ip_data (ip_chain pObj) p) (\<lambda>v.
              case v of None \<Rightarrow> Some (Inr 0) | Some d \<Rightarrow> Some (Inr d))))"

text \<open>\<open>sizeof(SIpHash)\<close> is 40; the arguments after \<open>maxSessions\<close> are the outcomes of the allocations.\<close>

definition taosOpenIpHash :: "int \<Rightarrow> (int \<Rightarrow> int \<Rightarrow> pool_t option) \<Rightarrow> bool \<Rightarrow> bool \<Rightarrow> SHashObj_ip option" where
  "taosOpenIpHash maxSessions pool_init list_ok obj_ok =
     (case pool_init maxSessions 40 of
        None \<Rightarrow> None
      | Some p \<Rightarrow>
          if \<not> list_ok then None
          else if \<not> obj_ok then None
          else Some \<lparr>ip_chain = empty_chain (nat maxSessions), ip_pool = p, ip_maxSessions = maxSessions\<rparr>)"

text \<open>The handle afterwards, and the pool object the pool's clean-up leaves allocated.\<close>

definition taosCloseIpHash :: "SHashObj_ip option \<Rightarrow> SHashObj_ip option \<times> pool_t option" where
  "taosCloseIpHash handle =
     (case handle of
        None \<Rightarrow> (None, None)
      | Some pObj \<Rightarrow>
          if ip_maxSessions pObj = 0 then (Some pObj, None)
          else (None, taosMemPoolCleanUp (ip_pool pObj)))"

section \<open>The table as stacks of connections\<close>

definition ip_key :: "SIpHash \<Rightarrow> 32 word \<times> 16 word" where
  "ip_key e = (ip_ip e, ip_port e)"

definition ip_good :: "int \<Rightarrow> SIpHash \<Rightarrow> nat \<Rightarrow> bool" where
  "ip_good n e h \<longleftrightarrow> taosHashIp n (ip_ip e) (ip_port e) = int h"

definition ip_bucket :: "int \<Rightarrow> 32 word \<times> 16 word \<Rightarrow> nat" where
  "ip_bucket n k = nat (taosHashIp n (fst k) (snd k))"

definition ip_abs :: "int \<Rightarrow> SHashObj_ip \<Rightarrow> (32 word \<times> 16 word \<Rightarrow> int list) \<Rightarrow> bool" where
  "ip_abs n t L \<longleftrightarrow> ip_maxSessions t = n \<and>
     pool_tab (ip_good n) ip_key (ip_bucket n) ip_data n (ip_chain t) (ip_pool t) L"

definition ip_add :: "SHashObj_ip \<Rightarrow> 32 word \<times> 16 word \<Rightarrow> int \<Rightarrow> (SHashObj_ip \<times> unit option) run" where
  "ip_add t k v = obind (taosAddIpHash (Some t) v (fst k) (snd k)) (\<lambda>(h, b).
     obind (Some (deref h)) (\<lambda>t'. Some (Inr (t', if b then Some () else None))))"

definition ip_del :: "SHashObj_ip \<Rightarrow> 32 word \<times> 16 word \<Rightarrow> SHashObj_ip run" where
  "ip_del t k = obind (taosDeleteIpHash (Some t) (fst k) (snd k)) (\<lambda>h. Some (deref h))"

definition ip_get :: "SHashObj_ip \<Rightarrow> 32 word \<times> 16 word \<Rightarrow> int option run" where
  "ip_get t k = obind (chain_get (ip_test (fst k) (snd k)) (ip_chain t)
     (taosHashIp (ip_maxSessions t) (fst k) (snd k))) (chain_value ip_data (ip_chain t))"

lemma ip_test_key: "ip_test (fst k) (snd k) = (\<lambda>nd. ip_key (nd_elem nd) = k)"
  by (cases k) (auto simp: ip_test_def ip_key_def fun_eq_iff)

lemma ip_hash_range:
  assumes "ip_abs n t L"
  shows "in_range n (taosHashIp n (fst k) (snd k))" and "ip_bucket n k = nat (taosHashIp n (fst k) (snd k))"
proof -
  have "0 < n" using assms by (simp add: ip_abs_def pool_tab_def)
  then show "in_range n (taosHashIp n (fst k) (snd k))"
    unfolding taosHashIp_def in_range_def by (intro conjI smod_bounds) (simp_all add: add_nonneg_nonneg)
qed (simp add: ip_bucket_def)

lemma ip_put:
  assumes "ip_abs n t L"
  shows "ip_add t k v = obind (pool_put (ip_chain t) (ip_pool t) (taosHashIp n (fst k) (snd k))
      (Inr \<lparr>ip_ip = fst k, ip_port = snd k, ip_hash = taosHashIp n (fst k) (snd k), ip_data = v\<rparr>))
    (\<lambda>(c, p). Some (Inr (t\<lparr>ip_chain := c, ip_pool := p\<rparr>, Some ())))"
proof -
  have "ip_maxSessions t = n" "ip_maxSessions t \<noteq> 0" using assms by (auto simp: ip_abs_def pool_tab_def)
  then show ?thesis
    by (auto simp: ip_add_def taosAddIpHash_def Let_def obind_def split: option.splits sum.splits)
qed

interpretation ip: stack_map "ip_abs n" "\<lambda>t. mp_free (ip_pool t) \<noteq> []" "\<lambda>k v. True" "\<lambda>k. True" ip_add ip_del ip_get
  for n
proof
  fix t L and k :: "32 word \<times> 16 word"
  assume abs: "ip_abs n t L"
  then have tab: "pool_tab (ip_good n) ip_key (ip_bucket n) ip_data n (ip_chain t) (ip_pool t) L"
    by (simp add: ip_abs_def)
  note h = ip_hash_range [OF abs, of k]
  let ?e = "\<lambda>v. \<lparr>ip_ip = fst k, ip_port = snd k, ip_hash = taosHashIp n (fst k) (snd k), ip_data = v\<rparr>"
  have e: "ip_key (?e v) = k" "ip_data (?e v) = v" for v by (simp_all add: ip_key_def)
  have g: "ip_good n (?e v) (nat (taosHashIp n (fst k) (snd k)))" for v
    using h(1) by (simp add: ip_good_def in_range_def)
  show "ip_abs n t' (if p = None then L else L(k := v # L k))"
    if "ip_add t k v = Some (Inr (t', p))" for v t' p
    using that abs ip_put [OF abs] pool_put_sim(1) [OF tab h(1) _ g, of v] h(2) e [of v]
    by (auto simp: obind_eq_Inr ip_abs_def)
  show "\<exists>t' a. ip_add t k v = Some (Inr (t', Some a))" if "mp_free (ip_pool t) \<noteq> []" for v
    using that ip_put [OF abs] pool_put_ok [OF tab h(1) _ g that, of v] h(2) e [of v] by auto
  show "\<exists>t'. ip_del t k = Some (Inr t') \<and> ip_abs n t' (L(k := tl (L k)))"
    using abs pool_remove_ok [OF tab h]
    by (auto simp: ip_del_def taosDeleteIpHash_def ip_test_key ip_abs_def pool_tab_def)
  show "ip_get t k = Some (Inr (head_of (L k)))"
    using abs pool_get_ok [OF tab h] by (auto simp: ip_get_def ip_test_key ip_abs_def)
qed

lemma ip_open_abs:
  assumes "taosOpenIpHash n (\<lambda>m b. taosMemPoolInit m b True True True mem) True True = Some t"
    and "40 * n < 2 ^ 31" and "int (length mem) = 40 * n"
  shows "ip_abs n t (\<lambda>_. [])"
proof -
  obtain p where p: "taosMemPoolInit n 40 True True True mem = Some p"
    and t: "t = \<lparr>ip_chain = empty_chain (nat n), ip_pool = p, ip_maxSessions = n\<rparr>"
    using assms(1) by (auto simp: taosOpenIpHash_def split: option.splits)
  show ?thesis unfolding t ip_abs_def using pool_tab_init(1) [OF p assms(2,3)] by simp
qed

section \<open>Correctness\<close>

text \<open>
  C19.
  Through any sequence of calls on a new table, \<open>taosGetIpHash\<close> returns the connection added
  last for the address and port and not deleted since, or NULL; no address and port makes an
  operation leave the bucket array; adding succeeds while the pool has a free block.
\<close>

theorem ip_hash_correct:
  assumes "taosOpenIpHash n (\<lambda>m b. taosMemPoolInit m b True True True mem) True True = Some t0"
    and "40 * n < 2 ^ 31" and "int (length mem) = 40 * n"
    and "table_reach ip_add ip_del (\<lambda>k v. True) (\<lambda>k. True) t0 t L"
  shows "taosGetIpHash (Some t) ip port = Some (Inr (case head_of (L (ip, port)) of None \<Rightarrow> 0 | Some d \<Rightarrow> d)) \<and>
    (\<exists>t'. taosDeleteIpHash (Some t) ip port = Some (Inr (Some t'))) \<and>
    (mp_free (ip_pool t) \<noteq> [] \<longrightarrow> (\<exists>t'. taosAddIpHash (Some t) dat ip port = Some (Inr (Some t', True))))"
proof -
  note init = ip_open_abs [OF assms(1-3)]
  have abs: "ip_abs n t L" using ip.reach_abs [OF init assms(4)] .
  then have mx: "ip_maxSessions t \<noteq> 0" by (auto simp: ip_abs_def pool_tab_def)
  have "ip_get t (ip, port) = Some (Inr (head_of (L (ip, port))))" using ip.reach_correct(1) [OF init assms(4)] by simp
  with mx have "taosGetIpHash (Some t) ip port = Some (Inr (case head_of (L (ip, port)) of None \<Rightarrow> 0 | Some d \<Rightarrow> d))"
    by (cases "head_of (L (ip, port))") (auto simp: taosGetIpHash_def ip_get_def obind_eq_Inr)
  moreover have "\<exists>t'. taosDeleteIpHash (Some t) ip port = Some (Inr (Some t'))"
    using ip.reach_correct(2) [OF init assms(4), of "(ip, port)"] mx
    by (auto simp: ip_del_def obind_eq_Inr taosDeleteIpHash_def)
  moreover have "\<exists>t'. taosAddIpHash (Some t) dat ip port = Some (Inr (Some t', True))" if "mp_free (ip_pool t) \<noteq> []"
    using ip.reach_correct(3) [OF init assms(4) _ that, of "(ip, port)" dat] mx
    by (auto simp: ip_add_def obind_eq_Inr taosAddIpHash_def Let_def)
  ultimately show ?thesis by blast
qed

theorem ip_hash_correct_witness:
  "\<exists>t0 t. taosOpenIpHash 4 (\<lambda>m b. taosMemPoolInit m b True True True (replicate 160 0)) True True = Some t0 \<and>
    ip_add t0 (0x7F000001, 6030) 77 = Some (Inr (t, Some ())) \<and>
    taosGetIpHash (Some t) 0x7F000001 6030 = Some (Inr 77) \<and> taosGetIpHash (Some t) 0x7F000001 6031 = Some (Inr 0)"
proof -
  obtain t0 where t0: "taosOpenIpHash 4 (\<lambda>m b. taosMemPoolInit m b True True True (replicate 160 0)) True True = Some t0"
    and f: "mp_free (ip_pool t0) \<noteq> []"
    by (simp add: taosOpenIpHash_def taosMemPoolInit_def mp_free_def mp_free_idx_def ring_slice_def)
  obtain t where t: "ip_add t0 (0x7F000001, 6030) 77 = Some (Inr (t, Some ()))"
    using ip.add_room [OF ip_open_abs [OF t0] _ f, of "(0x7F000001, 6030)" 77] by auto
  have "table_reach ip_add ip_del (\<lambda>k v. True) (\<lambda>k. True) t0 t ((\<lambda>_. [])((0x7F000001, 6030) := 77 # []))"
    by (rule reach_add [where t = t0]) (simp_all add: reach_new t)
  from ip_hash_correct [OF t0 _ _ this, of "0x7F000001" 6030 0]
    ip_hash_correct [OF t0 _ _ this, of "0x7F000001" 6031 0] t0 t show ?thesis by auto
qed

end
