(* ===== verification/Sched.thy ===== *)
theory Sched
  imports Prelude "HOL-Library.Multiset"
begin

text \<open>
  The task scheduler of src/src/util/src/tsched.c: a bounded queue guarded by two semaphores and a
  mutex, filled by the threads that call \<open>taosScheduleTask\<close> and emptied by the worker threads
  that run \<open>taosProcessSchedQueue\<close>. Every blocking call is a step of its own, so that the
  relation \<open>sched_step\<close> covers all interleavings of the threads. The function a worker runs for a message is one
  step that returns: the relation is that of functions which do not schedule on the same queue. SchedHandlers
  treats the others.
\<close>

section \<open>State\<close>

text \<open>Pointers are integers, 0 is NULL.\<close>

record SSchedMsg =
  sm_fp :: int
  sm_tfp :: int
  sm_msg :: int
  sm_ahandle :: int
  sm_thandle :: int

definition zero_msg :: SSchedMsg where
  "zero_msg = \<lparr>sm_fp = 0, sm_tfp = 0, sm_msg = 0, sm_ahandle = 0, sm_thandle = 0\<rparr>"

record SSchedQueue =
  sq_emptySem :: nat
  sq_fullSem :: nat
  sq_mutex :: bool
  sq_fullSlot :: int
  sq_emptySlot :: int
  sq_queueSize :: int
  sq_queue :: "SSchedMsg list"

text \<open>Where a caller of \<open>taosScheduleTask\<close> and a worker stand.\<close>

datatype producer =
    P_Idle
  | P_Wait SSchedMsg
  | P_Lock SSchedMsg
  | P_Put SSchedMsg
  | P_Unlock
  | P_Post

datatype worker =
    W_Wait
  | W_Lock
  | W_Take
  | W_Unlock SSchedMsg
  | W_Post SSchedMsg
  | W_Run SSchedMsg

text \<open>What a worker does with a message: which function it calls, with which arguments.\<close>

datatype dispatch = Call_fp int SSchedMsg | Call_tfp int int int | No_call

section \<open>Steps of the two loops\<close>

definition sem_wait :: "nat \<Rightarrow> nat option" where
  "sem_wait v = (if v = 0 then None else Some (v - 1))"

text \<open>
  One step of \<open>taosScheduleTask\<close>; \<open>None\<close> when the thread blocks or has no call under way. The
  first argument tells that a signal interrupts \<open>sem_wait\<close>, which then fails without taking a
  permit; the code logs the failure and goes on.
\<close>

fun taosScheduleTask :: "bool \<Rightarrow> SSchedQueue \<Rightarrow> producer \<Rightarrow> (SSchedQueue \<times> producer) res option" where
  "taosScheduleTask eintr q P_Idle = None"
| "taosScheduleTask eintr q (P_Wait m) =
     (if eintr then Some (Inr (q, P_Lock m))
      else map_option (\<lambda>v. Inr (q\<lparr>sq_emptySem := v\<rparr>, P_Lock m)) (sem_wait (sq_emptySem q)))"
| "taosScheduleTask eintr q (P_Lock m) =
     (if sq_mutex q then None else Some (Inr (q\<lparr>sq_mutex := True\<rparr>, P_Put m)))"
| "taosScheduleTask eintr q (P_Put m) =
     Some (rbind (arr_set (sq_queue q) (sq_emptySlot q) m) (\<lambda>qu.
       Inr (q\<lparr>sq_queue := qu, sq_emptySlot := (sq_emptySlot q + 1) smod sq_queueSize q\<rparr>, P_Unlock)))"
| "taosScheduleTask eintr q P_Unlock = Some (Inr (q\<lparr>sq_mutex := False\<rparr>, P_Post))"
| "taosScheduleTask eintr q P_Post = Some (Inr (q\<lparr>sq_fullSem := sq_fullSem q + 1\<rparr>, P_Idle))"

text \<open>One step of a worker; interrupted, it waits again.\<close>

fun taosProcessSchedQueue :: "bool \<Rightarrow> SSchedQueue \<Rightarrow> worker \<Rightarrow> (SSchedQueue \<times> worker) res option" where
  "taosProcessSchedQueue eintr q W_Wait =
     (if eintr then Some (Inr (q, W_Wait))
      else map_option (\<lambda>v. Inr (q\<lparr>sq_fullSem := v\<rparr>, W_Lock)) (sem_wait (sq_fullSem q)))"
| "taosProcessSchedQueue eintr q W_Lock =
     (if sq_mutex q then None else Some (Inr (q\<lparr>sq_mutex := True\<rparr>, W_Take)))"
| "taosProcessSchedQueue eintr q W_Take =
     Some (rbind (arr_get (sq_queue q) (sq_fullSlot q)) (\<lambda>m.
       rbind (arr_set (sq_queue q) (sq_fullSlot q) zero_msg) (\<lambda>qu.
         Inr (q\<lparr>sq_queue := qu, sq_fullSlot := (sq_fullSlot q + 1) smod sq_queueSize q\<rparr>, W_Unlock m))))"
| "taosProcessSchedQueue eintr q (W_Unlock m) = Some (Inr (q\<lparr>sq_mutex := False\<rparr>, W_Post m))"
| "taosProcessSchedQueue eintr q (W_Post m) =
     Some (Inr (q\<lparr>sq_emptySem := sq_emptySem q + 1\<rparr>, W_Run m))"
| "taosProcessSchedQueue eintr q (W_Run m) = Some (Inr (q, W_Wait))"

definition run_msg :: "SSchedMsg \<Rightarrow> dispatch" where
  "run_msg m =
     (if sm_fp m \<noteq> 0 then Call_fp (sm_fp m) m
      else if sm_tfp m \<noteq> 0 then Call_tfp (sm_tfp m) (sm_ahandle m) (sm_thandle m)
      else No_call)"

section \<open>Creation and clean-up\<close>

text \<open>
  The scheduler object as the two functions see it: the array of thread handles, whose entries are
  \<open>None\<close> until \<open>pthread_create\<close> sets them.
\<close>

record sched_obj =
  so_queue :: SSchedQueue
  so_numOfThreads :: int
  so_qthread :: "int option list option"

text \<open>Cancelling and joining the threads; the handles are read one after the other.\<close>

function cancel_threads :: "int option list option \<Rightarrow> int \<Rightarrow> int \<Rightarrow> unit res" where
  "cancel_threads qt i n =
     (if i < n then
        rbind (deref qt) (\<lambda>hs.
        rbind (arr_get hs i) (\<lambda>h.
        rbind (case h of None \<Rightarrow> Inl Dangling | Some _ \<Rightarrow> Inr ()) (\<lambda>_. cancel_threads qt (i + 1) n)))
      else Inr ())"
  by pat_completeness auto
termination
  by (relation "measure (\<lambda>(qt, i, n). nat (n - i))") auto

declare cancel_threads.simps [simp del]

definition taosCleanUpScheduler :: "sched_obj option \<Rightarrow> unit res" where
  "taosCleanUpScheduler param =
     (case param of
        None \<Rightarrow> Inr ()
      | Some pSched \<Rightarrow> cancel_threads (so_qthread pSched) 0 (so_numOfThreads pSched))"

text \<open>
  The outcomes of the system calls of \<open>taosInitScheduler\<close>: the return code of
  \<open>pthread_mutex_init\<close>, which is compared with 0 by \<open><\<close>, whether the others succeed, and the handle
  of each thread created.
\<close>

record sched_env =
  se_malloc :: bool
  se_mutex_init :: int
  se_empty_init :: bool
  se_full_init :: bool
  se_queue_malloc :: bool
  se_qthread_malloc :: bool
  se_create :: "nat \<Rightarrow> int option"

fun create_threads :: "int option list \<Rightarrow> int option list \<Rightarrow> int option list \<times> bool" where
  "create_threads acc [] = (acc, True)"
| "create_threads acc (None # hs) = (acc @ None # map (\<lambda>_. None) hs, False)"
| "create_threads acc (Some h # hs) = create_threads (acc @ [Some h]) hs"

definition taosInitScheduler :: "sched_env \<Rightarrow> int \<Rightarrow> int \<Rightarrow> sched_obj option res" where
  "taosInitScheduler env queueSize numOfThreads =
     (if \<not> se_malloc env then Inl Null_Deref
      else
        let q = \<lparr>sq_emptySem = nat queueSize, sq_fullSem = 0, sq_mutex = False, sq_fullSlot = 0, sq_emptySlot = 0,
                 sq_queueSize = queueSize, sq_queue = []\<rparr>;
            obj = \<lparr>so_queue = q, so_numOfThreads = numOfThreads, so_qthread = None\<rparr> in
        if \<not> (0 \<le> se_mutex_init env \<and> se_empty_init env \<and> se_full_init env \<and> se_queue_malloc env)
        then rbind (taosCleanUpScheduler (Some obj)) (\<lambda>_. Inr None)
        else
          let q1 = q\<lparr>sq_queue := replicate (nat queueSize) zero_msg\<rparr> in
          if \<not> se_qthread_malloc env then
            (if numOfThreads \<le> 0 then Inr (Some (obj\<lparr>so_queue := q1\<rparr>)) else Inl Null_Deref)
          else
            let (hs, ok) = create_threads [] (map (se_create env) [0..<nat numOfThreads]);
                obj1 = obj\<lparr>so_queue := q1, so_qthread := Some hs\<rparr> in
            if ok then Inr (Some obj1)
            else rbind (taosCleanUpScheduler (Some obj1)) (\<lambda>_. Inr None))"

section \<open>The system\<close>

text \<open>
  The queue, the threads, and what the properties speak of: the messages in the order they were
  written to the queue, in the order they were read from it, and in the order they were run.
\<close>

record sched_sys =
  sy_q :: SSchedQueue
  sy_prod :: "producer list"
  sy_work :: "worker list"
  sy_in :: "SSchedMsg list"
  sy_out :: "SSchedMsg list"
  sy_run :: "SSchedMsg list"

definition put_of :: "producer \<Rightarrow> SSchedMsg list" where
  "put_of p = (case p of P_Put m \<Rightarrow> [m] | _ \<Rightarrow> [])"

definition take_of :: "worker \<Rightarrow> worker \<Rightarrow> SSchedMsg list" where
  "take_of w w' = (case (w, w') of (W_Take, W_Unlock m) \<Rightarrow> [m] | _ \<Rightarrow> [])"

definition run_of :: "worker \<Rightarrow> SSchedMsg list" where
  "run_of w = (case w of W_Run m \<Rightarrow> [m] | _ \<Rightarrow> [])"

text \<open>\<open>eintr\<close> tells whether callers may be interrupted in \<open>sem_wait\<close>.\<close>

inductive sched_step :: "bool \<Rightarrow> sched_sys \<Rightarrow> sched_sys \<Rightarrow> bool" for eintr where
  step_call: "i < length (sy_prod s) \<Longrightarrow> sy_prod s ! i = P_Idle \<Longrightarrow>
    sched_step eintr s (s\<lparr>sy_prod := (sy_prod s)[i := P_Wait m]\<rparr>)"
| step_prod: "i < length (sy_prod s) \<Longrightarrow> b \<longrightarrow> eintr \<Longrightarrow>
    taosScheduleTask b (sy_q s) (sy_prod s ! i) = Some (Inr (q, p)) \<Longrightarrow>
    sched_step eintr s (s\<lparr>sy_q := q, sy_prod := (sy_prod s)[i := p], sy_in := sy_in s @ put_of (sy_prod s ! i)\<rparr>)"
| step_work: "i < length (sy_work s) \<Longrightarrow>
    taosProcessSchedQueue b (sy_q s) (sy_work s ! i) = Some (Inr (q, w)) \<Longrightarrow>
    sched_step eintr s (s\<lparr>sy_q := q, sy_work := (sy_work s)[i := w],
      sy_out := sy_out s @ take_of (sy_work s ! i) w, sy_run := sy_run s @ run_of (sy_work s ! i)\<rparr>)"

text \<open>A scheduler just created, with idle callers.\<close>

definition sched_init :: "SSchedQueue \<Rightarrow> nat \<Rightarrow> nat \<Rightarrow> sched_sys" where
  "sched_init q callers workers =
     \<lparr>sy_q = q, sy_prod = replicate callers P_Idle, sy_work = replicate workers W_Wait,
      sy_in = [], sy_out = [], sy_run = []\<rparr>"

inductive sched_reach :: "bool \<Rightarrow> sched_sys \<Rightarrow> sched_sys \<Rightarrow> bool" for eintr s0 where
  reach_init: "sched_reach eintr s0 s0"
| reach_step: "sched_reach eintr s0 s \<Longrightarrow> sched_step eintr s s' \<Longrightarrow> sched_reach eintr s0 s'"


section \<open>The invariant\<close>

text \<open>Threads in the critical section; permits of \<open>emptySem\<close> and \<open>fullSem\<close> that threads hold.\<close>

definition prod_in :: "producer \<Rightarrow> nat" where
  "prod_in p = (case p of P_Put _ \<Rightarrow> 1 | P_Unlock \<Rightarrow> 1 | _ \<Rightarrow> 0)"

definition work_in :: "worker \<Rightarrow> nat" where
  "work_in w = (case w of W_Take \<Rightarrow> 1 | W_Unlock _ \<Rightarrow> 1 | _ \<Rightarrow> 0)"

definition prod_slot :: "producer \<Rightarrow> nat" where
  "prod_slot p = (case p of P_Lock _ \<Rightarrow> 1 | P_Put _ \<Rightarrow> 1 | _ \<Rightarrow> 0)"

definition work_slot :: "worker \<Rightarrow> nat" where
  "work_slot w = (case w of W_Unlock _ \<Rightarrow> 1 | W_Post _ \<Rightarrow> 1 | _ \<Rightarrow> 0)"

definition prod_item :: "producer \<Rightarrow> nat" where
  "prod_item p = (case p of P_Unlock \<Rightarrow> 1 | P_Post \<Rightarrow> 1 | _ \<Rightarrow> 0)"

definition work_item :: "worker \<Rightarrow> nat" where
  "work_item w = (case w of W_Lock \<Rightarrow> 1 | W_Take \<Rightarrow> 1 | _ \<Rightarrow> 0)"

definition work_held :: "worker \<Rightarrow> SSchedMsg multiset" where
  "work_held w = (case w of W_Unlock m \<Rightarrow> {#m#} | W_Post m \<Rightarrow> {#m#} | W_Run m \<Rightarrow> {#m#} | _ \<Rightarrow> {#})"

lemmas thread_defs = prod_in_def work_in_def prod_slot_def work_slot_def prod_item_def work_item_def
  work_held_def put_of_def take_of_def run_of_def

abbreviation total :: "('a \<Rightarrow> 'b::comm_monoid_add) \<Rightarrow> 'a list \<Rightarrow> 'b" where
  "total f xs \<equiv> sum_list (map f xs)"

lemma total_update:
  "i < length xs \<Longrightarrow> total f (xs[i := x]) + f (xs ! i) = total f xs + f x"
proof (induction xs arbitrary: i)
  case (Cons a xs)
  then show ?case by (cases i) (auto simp: ac_simps)
qed simp

lemma total_ge: "i < length xs \<Longrightarrow> (f :: 'a \<Rightarrow> nat) (xs ! i) \<le> total f xs"
  using elem_le_sum_list [of i "map f xs"] by simp

lemma total_zero: "(\<And>x. x \<in> set xs \<Longrightarrow> f x = 0) \<Longrightarrow> total f xs = 0"
  by (induction xs) auto

lemma total_replicate: "f x = 0 \<Longrightarrow> total f (replicate n x) = 0"
  by (rule total_zero) auto

text \<open>The ring: \<open>pend\<close> are the messages in the queue, oldest first.\<close>

definition ring_ok :: "SSchedQueue \<Rightarrow> SSchedMsg list \<Rightarrow> bool" where
  "ring_ok q pend \<longleftrightarrow> 0 < sq_queueSize q \<and> int (length (sq_queue q)) = sq_queueSize q \<and>
     0 \<le> sq_fullSlot q \<and> sq_fullSlot q < sq_queueSize q \<and>
     sq_emptySlot q = (sq_fullSlot q + int (length pend)) mod sq_queueSize q \<and>
     length pend \<le> length (sq_queue q) \<and>
     ring_slice (sq_queue q) (nat (sq_fullSlot q)) (length pend) = pend"

definition sched_inv :: "sched_sys \<Rightarrow> bool" where
  "sched_inv s \<longleftrightarrow> (\<exists>pend. ring_ok (sy_q s) pend \<and> sy_in s = sy_out s @ pend \<and>
     total prod_in (sy_prod s) + total work_in (sy_work s) = (if sq_mutex (sy_q s) then 1 else 0) \<and>
     sq_emptySem (sy_q s) + total prod_slot (sy_prod s) + length pend + total work_slot (sy_work s) =
       length (sq_queue (sy_q s)) \<and>
     sq_fullSem (sy_q s) + total prod_item (sy_prod s) + total work_item (sy_work s) = length pend \<and>
     mset (sy_run s) + total work_held (sy_work s) = mset (sy_out s))"

lemma ring_slot:
  assumes "0 \<le> (f::int)" and "f < n"
  shows "nat ((f + int k) mod n) = (nat f + k) mod nat n"
  using assms by (simp add: nat_mod_distrib nat_add_distrib)

lemma ring_ok_push:
  assumes ok: "ring_ok q pend" and room: "length pend < length (sq_queue q)"
  obtains qu where "arr_set (sq_queue q) (sq_emptySlot q) m = Inr qu"
    and "ring_ok (q\<lparr>sq_queue := qu, sq_emptySlot := (sq_emptySlot q + 1) smod sq_queueSize q\<rparr>) (pend @ [m])"
    and "length qu = length (sq_queue q)"
proof -
  let ?n = "sq_queueSize q" and ?e = "sq_emptySlot q" and ?f = "sq_fullSlot q"
  have q: "0 < ?n" "int (length (sq_queue q)) = ?n" "0 \<le> ?f" "?f < ?n" "?e = (?f + int (length pend)) mod ?n"
    "ring_slice (sq_queue q) (nat ?f) (length pend) = pend"
    using ok by (auto simp: ring_ok_def)
  have e: "0 \<le> ?e" "?e < ?n" using q(1,5) by simp_all
  have ne: "nat ?e = (nat ?f + length pend) mod length (sq_queue q)"
    using ring_slot [OF q(3,4), of "length pend"] q(5) by (simp flip: q(2))
  have "ring_slice ((sq_queue q)[nat ?e := m]) (nat ?f) (Suc (length pend)) = pend @ [m]"
    unfolding ne ring_slice_push [OF room] q(6) ..
  moreover have "(?e + 1) smod ?n = (?f + int (length (pend @ [m]))) mod ?n"
    using e q(1,5) by (simp add: smod_nonneg mod_simps ac_simps)
  ultimately have "ring_ok (q\<lparr>sq_queue := (sq_queue q)[nat ?e := m], sq_emptySlot := (?e + 1) smod ?n\<rparr>) (pend @ [m])"
    using q(1-4) room by (simp add: ring_ok_def)
  then show ?thesis using that [of "(sq_queue q)[nat ?e := m]"] e q(2) by simp
qed

lemma ring_ok_pop:
  assumes ok: "ring_ok q (m # pend)"
  obtains qu where "arr_get (sq_queue q) (sq_fullSlot q) = Inr m"
    and "arr_set (sq_queue q) (sq_fullSlot q) z = Inr qu"
    and "ring_ok (q\<lparr>sq_queue := qu, sq_fullSlot := (sq_fullSlot q + 1) smod sq_queueSize q\<rparr>) pend"
    and "length qu = length (sq_queue q)"
proof -
  let ?n = "sq_queueSize q" and ?f = "sq_fullSlot q"
  let ?qu = "(sq_queue q)[nat ?f := z]" and ?f' = "(?f + 1) smod ?n"
  have q: "0 < ?n" "int (length (sq_queue q)) = ?n" "0 \<le> ?f" "?f < ?n"
    "sq_emptySlot q = (?f + int (Suc (length pend))) mod ?n" "Suc (length pend) \<le> length (sq_queue q)"
    and slice: "ring_slice (sq_queue q) (nat ?f) (Suc (length pend)) = m # pend"
    using ok by (auto simp: ring_ok_def)
  have f': "?f' = (?f + 1) mod ?n" "0 \<le> ?f'" "?f' < ?n" using q(1,3) by (simp_all add: smod_nonneg)
  have nf: "nat ?f < length (sq_queue q)" using q(2-4) by linarith
  have nf': "nat ?f' = Suc (nat ?f) mod length (sq_queue q)"
    using ring_slot [OF q(3,4), of 1] f'(1) by (simp flip: q(2))
  have m: "sq_queue q ! nat ?f = m"
    and rest: "ring_slice (sq_queue q) (nat ?f') (length pend) = pend"
    using slice nf nf' by (simp_all add: ring_slice_Suc)
  have "(nat ?f' + i) mod length (sq_queue q) \<noteq> nat ?f" if "i < length pend" for i
  proof
    assume "(nat ?f' + i) mod length (sq_queue q) = nat ?f"
    then have "(nat ?f + Suc i) mod length (sq_queue q) = (nat ?f + 0) mod length (sq_queue q)"
      using nf by (simp add: nf' mod_simps)
    then have "Suc i = 0" by (rule ring_index_inj [rotated 2]) (use that q(6) in auto)
    then show False by simp
  qed
  then have "ring_slice ?qu (nat ?f') (length pend) = pend"
    using ring_slice_cong_frame [of "length pend" "nat ?f'" "sq_queue q" "nat ?f" z] rest by simp
  moreover have "sq_emptySlot q = (?f' + int (length pend)) mod ?n"
    unfolding f'(1) using q(5) by (simp add: mod_simps ac_simps)
  ultimately have "ring_ok (q\<lparr>sq_queue := ?qu, sq_fullSlot := ?f'\<rparr>) pend"
    using q(1,2,6) f'(2,3) by (simp add: ring_ok_def)
  then show ?thesis using that [of ?qu] q(2-4) m by simp
qed


section \<open>The steps keep the invariant\<close>

lemma sched_invE:
  assumes "sched_inv s"
  obtains pend where "ring_ok (sy_q s) pend" and "sy_in s = sy_out s @ pend"
    and "total prod_in (sy_prod s) + total work_in (sy_work s) = (if sq_mutex (sy_q s) then 1 else 0)"
    and "sq_emptySem (sy_q s) + total prod_slot (sy_prod s) + length pend + total work_slot (sy_work s) =
       length (sq_queue (sy_q s))"
    and "sq_fullSem (sy_q s) + total prod_item (sy_prod s) + total work_item (sy_work s) = length pend"
    and "mset (sy_run s) + total work_held (sy_work s) = mset (sy_out s)"
  using assms unfolding sched_inv_def by blast

lemma ring_ok_fields:
  "ring_ok (q\<lparr>sq_emptySem := v\<rparr>) pend = ring_ok q pend"
  "ring_ok (q\<lparr>sq_fullSem := v\<rparr>) pend = ring_ok q pend"
  "ring_ok (q\<lparr>sq_mutex := b\<rparr>) pend = ring_ok q pend"
  by (simp_all add: ring_ok_def)

lemma sched_inv_call:
  assumes inv: "sched_inv s" and i: "i < length (sy_prod s)" and idle: "sy_prod s ! i = P_Idle"
  shows "sched_inv (s\<lparr>sy_prod := (sy_prod s)[i := P_Wait m]\<rparr>)"
proof -
  have "total f ((sy_prod s)[i := P_Wait m]) = total f (sy_prod s)" if "f P_Idle = f (P_Wait m)" for f :: "producer \<Rightarrow> nat"
    using total_update [OF i, of f "P_Wait m"] idle that by simp
  then have "total prod_in ((sy_prod s)[i := P_Wait m]) = total prod_in (sy_prod s)"
    "total prod_slot ((sy_prod s)[i := P_Wait m]) = total prod_slot (sy_prod s)"
    "total prod_item ((sy_prod s)[i := P_Wait m]) = total prod_item (sy_prod s)"
    by (simp_all add: thread_defs)
  with inv show ?thesis by (simp add: sched_inv_def)
qed

lemma sched_inv_prod:
  assumes inv: "sched_inv s" and i: "i < length (sy_prod s)"
    and step: "taosScheduleTask False (sy_q s) (sy_prod s ! i) = Some (Inr (q, p))"
  shows "sched_inv (s\<lparr>sy_q := q, sy_prod := (sy_prod s)[i := p], sy_in := sy_in s @ put_of (sy_prod s ! i)\<rparr>)"
proof -
  let ?p = "sy_prod s ! i"
  obtain pend where ring: "ring_ok (sy_q s) pend" and hist: "sy_in s = sy_out s @ pend"
    and c1: "total prod_in (sy_prod s) + total work_in (sy_work s) = (if sq_mutex (sy_q s) then 1 else 0)"
    and c2: "sq_emptySem (sy_q s) + total prod_slot (sy_prod s) + length pend + total work_slot (sy_work s) =
       length (sq_queue (sy_q s))"
    and c3: "sq_fullSem (sy_q s) + total prod_item (sy_prod s) + total work_item (sy_work s) = length pend"
    and c4: "mset (sy_run s) + total work_held (sy_work s) = mset (sy_out s)"
    using inv by (rule sched_invE)
  note t = total_update [OF i, of prod_in p] total_update [OF i, of prod_slot p] total_update [OF i, of prod_item p]
  note g = total_ge [OF i, of prod_in] total_ge [OF i, of prod_slot]
  have nonput: ?thesis if "ring_ok q pend" "put_of ?p = []" "length (sq_queue q) = length (sq_queue (sy_q s))"
    "total prod_in ((sy_prod s)[i := p]) + total work_in (sy_work s) = (if sq_mutex q then 1 else 0)"
    "sq_emptySem q + total prod_slot ((sy_prod s)[i := p]) = sq_emptySem (sy_q s) + total prod_slot (sy_prod s)"
    "sq_fullSem q + total prod_item ((sy_prod s)[i := p]) = sq_fullSem (sy_q s) + total prod_item (sy_prod s)"
    unfolding sched_inv_def using that hist c2 c3 c4 by (intro exI [of _ pend]) simp
  show ?thesis
  proof (cases ?p)
    case P_Idle
    with step show ?thesis by simp
  next
    case (P_Wait m)
    with step t c1 ring show ?thesis
      by (intro nonput) (auto simp: sem_wait_def thread_defs ring_ok_fields simp del: sum_list_eq_0_iff split: if_splits)
  next
    case (P_Lock m)
    with step t c1 ring show ?thesis
      by (intro nonput) (auto simp: thread_defs ring_ok_fields simp del: sum_list_eq_0_iff split: if_splits)
  next
    case (P_Put m)
    then have "length pend < length (sq_queue (sy_q s))" using g c2 by (simp add: thread_defs)
    with ring obtain qu where "arr_set (sq_queue (sy_q s)) (sq_emptySlot (sy_q s)) m = Inr qu"
      and ring': "ring_ok ((sy_q s)\<lparr>sq_queue := qu, sq_emptySlot := (sq_emptySlot (sy_q s) + 1) smod sq_queueSize (sy_q s)\<rparr>) (pend @ [m])"
      and "length qu = length (sq_queue (sy_q s))" by (rule ring_ok_push)
    with P_Put step have "q = (sy_q s)\<lparr>sq_queue := qu, sq_emptySlot := (sq_emptySlot (sy_q s) + 1) smod sq_queueSize (sy_q s)\<rparr>"
      and "p = P_Unlock" and "put_of ?p = [m]" and len: "length qu = length (sq_queue (sy_q s))"
      by (simp_all add: put_of_def)
    with ring' P_Put t hist c1 c2 c3 c4 show ?thesis
      unfolding sched_inv_def by (intro exI [of _ "pend @ [m]"]) (simp add: thread_defs)
  next
    case P_Unlock
    with step t c1 g ring show ?thesis
      by (intro nonput) (auto simp: thread_defs ring_ok_fields simp del: sum_list_eq_0_iff split: if_splits)
  next
    case P_Post
    with step t c1 ring show ?thesis
      by (intro nonput) (auto simp: thread_defs ring_ok_fields simp del: sum_list_eq_0_iff split: if_splits)
  qed
qed

lemma sched_inv_work:
  assumes inv: "sched_inv s" and i: "i < length (sy_work s)"
    and step: "taosProcessSchedQueue b (sy_q s) (sy_work s ! i) = Some (Inr (q, w))"
  shows "sched_inv (s\<lparr>sy_q := q, sy_work := (sy_work s)[i := w],
      sy_out := sy_out s @ take_of (sy_work s ! i) w, sy_run := sy_run s @ run_of (sy_work s ! i)\<rparr>)"
proof -
  let ?w = "sy_work s ! i"
  obtain pend where ring: "ring_ok (sy_q s) pend" and hist: "sy_in s = sy_out s @ pend"
    and c1: "total prod_in (sy_prod s) + total work_in (sy_work s) = (if sq_mutex (sy_q s) then 1 else 0)"
    and c2: "sq_emptySem (sy_q s) + total prod_slot (sy_prod s) + length pend + total work_slot (sy_work s) =
       length (sq_queue (sy_q s))"
    and c3: "sq_fullSem (sy_q s) + total prod_item (sy_prod s) + total work_item (sy_work s) = length pend"
    and c4: "mset (sy_run s) + total work_held (sy_work s) = mset (sy_out s)"
    using inv by (rule sched_invE)
  note t = total_update [OF i, of work_in w] total_update [OF i, of work_slot w] total_update [OF i, of work_item w]
  note h = total_update [OF i, of work_held w]
  note g = total_ge [OF i, of work_in] total_ge [OF i, of work_item]
  have other: ?thesis if "ring_ok q pend" "take_of ?w w = []" "length (sq_queue q) = length (sq_queue (sy_q s))"
    "total prod_in (sy_prod s) + total work_in ((sy_work s)[i := w]) = (if sq_mutex q then 1 else 0)"
    "sq_emptySem q + total work_slot ((sy_work s)[i := w]) = sq_emptySem (sy_q s) + total work_slot (sy_work s)"
    "sq_fullSem q + total work_item ((sy_work s)[i := w]) = sq_fullSem (sy_q s) + total work_item (sy_work s)"
    "mset (run_of ?w) + total work_held ((sy_work s)[i := w]) = total work_held (sy_work s)"
    unfolding sched_inv_def using that hist c2 c3 c4 by (intro exI [of _ pend]) (simp add: ac_simps)
  show ?thesis
  proof (cases ?w)
    case W_Wait
    with step t h c1 ring show ?thesis
      by (intro other) (auto simp: sem_wait_def thread_defs ring_ok_fields simp del: sum_list_eq_0_iff split: if_splits)
  next
    case W_Lock
    with step t h c1 ring show ?thesis
      by (intro other) (auto simp: thread_defs ring_ok_fields simp del: sum_list_eq_0_iff split: if_splits)
  next
    case W_Take
    then have "pend \<noteq> []" using g c3 by (auto simp: thread_defs simp del: sum_list_eq_0_iff)
    then obtain m rest where pend: "pend = m # rest" by (cases pend) auto
    obtain qu where "arr_get (sq_queue (sy_q s)) (sq_fullSlot (sy_q s)) = Inr m"
      and "arr_set (sq_queue (sy_q s)) (sq_fullSlot (sy_q s)) zero_msg = Inr qu"
      and ring': "ring_ok ((sy_q s)\<lparr>sq_queue := qu, sq_fullSlot := (sq_fullSlot (sy_q s) + 1) smod sq_queueSize (sy_q s)\<rparr>) rest"
      and "length qu = length (sq_queue (sy_q s))" using ring unfolding pend by (rule ring_ok_pop)
    with W_Take step have "q = (sy_q s)\<lparr>sq_queue := qu, sq_fullSlot := (sq_fullSlot (sy_q s) + 1) smod sq_queueSize (sy_q s)\<rparr>"
      and "w = W_Unlock m" and "take_of ?w w = [m]" and "length qu = length (sq_queue (sy_q s))"
      by (auto simp: take_of_def)
    with ring' W_Take t h hist c1 c2 c3 c4 pend show ?thesis
      unfolding sched_inv_def by (intro exI [of _ rest]) (simp add: thread_defs)
  next
    case (W_Unlock m)
    with step t h c1 g ring show ?thesis
      by (intro other) (auto simp: thread_defs ring_ok_fields simp del: sum_list_eq_0_iff split: if_splits)
  next
    case (W_Post m)
    with step t h c1 ring show ?thesis
      by (intro other) (auto simp: thread_defs ring_ok_fields simp del: sum_list_eq_0_iff split: if_splits)
  next
    case (W_Run m)
    with step t h c1 ring show ?thesis
      by (intro other) (auto simp: thread_defs ring_ok_fields ac_simps simp del: sum_list_eq_0_iff split: if_splits)
  qed
qed

lemma sched_inv_step: "sched_step False s s' \<Longrightarrow> sched_inv s \<Longrightarrow> sched_inv s'"
  by (induction rule: sched_step.induct) (auto intro: sched_inv_call sched_inv_prod sched_inv_work)

lemma sched_inv_reach: "sched_reach False s0 s \<Longrightarrow> sched_inv s0 \<Longrightarrow> sched_inv s"
  by (induction rule: sched_reach.induct) (auto intro: sched_inv_step)


section \<open>Schedules\<close>

text \<open>An execution as the list of the threads that move.\<close>

datatype sched_event = Call nat SSchedMsg | Prod nat bool | Work nat bool

fun sched_do :: "bool \<Rightarrow> sched_event \<Rightarrow> sched_sys \<Rightarrow> sched_sys option" where
  "sched_do eintr (Call i m) s =
     (if i < length (sy_prod s) \<and> sy_prod s ! i = P_Idle then Some (s\<lparr>sy_prod := (sy_prod s)[i := P_Wait m]\<rparr>) else None)"
| "sched_do eintr (Prod i b) s =
     (if i < length (sy_prod s) \<and> (b \<longrightarrow> eintr) then
        (case taosScheduleTask b (sy_q s) (sy_prod s ! i) of
           Some (Inr (q, p)) \<Rightarrow>
             Some (s\<lparr>sy_q := q, sy_prod := (sy_prod s)[i := p], sy_in := sy_in s @ put_of (sy_prod s ! i)\<rparr>)
         | _ \<Rightarrow> None)
      else None)"
| "sched_do eintr (Work i b) s =
     (if i < length (sy_work s) then
        (case taosProcessSchedQueue b (sy_q s) (sy_work s ! i) of
           Some (Inr (q, w)) \<Rightarrow>
             Some (s\<lparr>sy_q := q, sy_work := (sy_work s)[i := w],
               sy_out := sy_out s @ take_of (sy_work s ! i) w, sy_run := sy_run s @ run_of (sy_work s ! i)\<rparr>)
         | _ \<Rightarrow> None)
      else None)"

fun sched_exec :: "bool \<Rightarrow> sched_event list \<Rightarrow> sched_sys \<Rightarrow> sched_sys option" where
  "sched_exec eintr [] s = Some s"
| "sched_exec eintr (e # es) s = (case sched_do eintr e s of None \<Rightarrow> None | Some s' \<Rightarrow> sched_exec eintr es s')"

lemma sched_do_step: "sched_do eintr e s = Some s' \<Longrightarrow> sched_step eintr s s'"
  by (cases e) (auto intro: sched_step.intros split: if_splits option.splits sum.splits)

lemma sched_exec_reach:
  "sched_exec eintr es s = Some s' \<Longrightarrow> sched_reach eintr s0 s \<Longrightarrow> sched_reach eintr s0 s'"
  by (induction es arbitrary: s) (auto intro: reach_step dest: sched_do_step split: option.splits)

lemma sched_init_inv:
  assumes "taosInitScheduler env n k = Inr (Some obj)" and "0 < n"
  shows "sched_inv (sched_init (so_queue obj) c w)" and "length (sq_queue (so_queue obj)) = nat n"
proof -
  have q: "so_queue obj = \<lparr>sq_emptySem = nat n, sq_fullSem = 0, sq_mutex = False, sq_fullSlot = 0, sq_emptySlot = 0,
      sq_queueSize = n, sq_queue = replicate (nat n) zero_msg\<rparr>"
    using assms(1) by (auto simp: taosInitScheduler_def Let_def rbind_eq_Inr split: if_splits prod.splits)
  then show "length (sq_queue (so_queue obj)) = nat n" by simp
  show "sched_inv (sched_init (so_queue obj) c w)" unfolding sched_inv_def
    by (intro exI [of _ "[]"]) (use assms(2) in \<open>simp add: q sched_init_def ring_ok_def total_replicate prod_in_def work_in_def prod_slot_def work_slot_def prod_item_def work_item_def work_held_def del: map_replicate\<close>)
qed

lemma queue_length_step:
  "sched_step eintr s s' \<Longrightarrow> length (sq_queue (sy_q s')) = length (sq_queue (sy_q s)) \<and>
    length (sy_work s') = length (sy_work s) \<and> length (sy_prod s') = length (sy_prod s)"
proof (induction rule: sched_step.induct)
  case (step_prod i s b q p)
  have "length (sq_queue q) = length (sq_queue (sy_q s))"
    using step_prod(3) by (cases "sy_prod s ! i") (auto simp: rbind_eq_Inr arr_set_def sem_wait_def split: if_splits)
  then show ?case by simp
next
  case (step_work i s b q w)
  have "length (sq_queue q) = length (sq_queue (sy_q s))"
    using step_work(2) by (cases "sy_work s ! i") (auto simp: rbind_eq_Inr arr_set_def sem_wait_def split: if_splits)
  then show ?case by simp
qed simp

lemma queue_length_reach:
  "sched_reach eintr s0 s \<Longrightarrow> length (sq_queue (sy_q s)) = length (sq_queue (sy_q s0)) \<and>
    length (sy_work s) = length (sy_work s0) \<and> length (sy_prod s) = length (sy_prod s0)"
  by (induction rule: sched_reach.induct) (auto dest: queue_length_step)

lemma sched_no_fault:
  assumes "sched_inv s"
  shows "i < length (sy_prod s) \<Longrightarrow> taosScheduleTask b (sy_q s) (sy_prod s ! i) \<noteq> Some (Inl e)"
    and "i < length (sy_work s) \<Longrightarrow> taosProcessSchedQueue b (sy_q s) (sy_work s ! i) \<noteq> Some (Inl e)"
proof -
  obtain pend where "ring_ok (sy_q s) pend" using assms by (rule sched_invE)
  then have q: "0 \<le> sq_emptySlot (sy_q s)" "sq_emptySlot (sy_q s) < int (length (sq_queue (sy_q s)))"
    "0 \<le> sq_fullSlot (sy_q s)" "sq_fullSlot (sy_q s) < int (length (sq_queue (sy_q s)))"
    by (auto simp: ring_ok_def)
  show "taosScheduleTask b (sy_q s) (sy_prod s ! i) \<noteq> Some (Inl e)"
    by (cases "sy_prod s ! i") (use q in \<open>auto simp: sem_wait_def\<close>)
  show "taosProcessSchedQueue b (sy_q s) (sy_work s ! i) \<noteq> Some (Inl e)"
    by (cases "sy_work s ! i") (use q in \<open>auto simp: sem_wait_def\<close>)
qed

text \<open>When no thread can move, no message is left anywhere.\<close>

lemma blocked_empty:
  assumes inv: "sched_inv s" and w: "sy_work s \<noteq> []"
    and bp: "\<And>i. i < length (sy_prod s) \<Longrightarrow> taosScheduleTask False (sy_q s) (sy_prod s ! i) = None"
    and bw: "\<And>i. i < length (sy_work s) \<Longrightarrow> taosProcessSchedQueue False (sy_q s) (sy_work s ! i) = None"
  shows "mset (sy_run s) = mset (sy_in s)" and "i < length (sy_prod s) \<Longrightarrow> sy_prod s ! i = P_Idle"
proof -
  obtain pend where ring: "ring_ok (sy_q s) pend" and hist: "sy_in s = sy_out s @ pend"
    and c1: "total prod_in (sy_prod s) + total work_in (sy_work s) = (if sq_mutex (sy_q s) then 1 else 0)"
    and c2: "sq_emptySem (sy_q s) + total prod_slot (sy_prod s) + length pend + total work_slot (sy_work s) =
       length (sq_queue (sy_q s))"
    and c3: "sq_fullSem (sy_q s) + total prod_item (sy_prod s) + total work_item (sy_work s) = length pend"
    and c4: "mset (sy_run s) + total work_held (sy_work s) = mset (sy_out s)"
    using inv by (rule sched_invE)
  have "prod_in p = 0" if "p \<in> set (sy_prod s)" for p
    using bp that by (cases p) (fastforce simp: prod_in_def in_set_conv_nth)+
  moreover have "work_in w = 0" if "w \<in> set (sy_work s)" for w
    using bw that by (cases w) (fastforce simp: work_in_def in_set_conv_nth)+
  ultimately have "total prod_in (sy_prod s) = 0" "total work_in (sy_work s) = 0" by (metis total_zero)+
  with c1 have mx: "\<not> sq_mutex (sy_q s)" by (auto simp del: sum_list_eq_0_iff)
  have W: "sy_work s ! j = W_Wait \<and> sq_fullSem (sy_q s) = 0" if "j < length (sy_work s)" for j
    using bw [OF that] mx by (cases "sy_work s ! j") (auto simp: sem_wait_def split: if_splits)
  have P: "sy_prod s ! j = P_Idle \<or> (\<exists>m. sy_prod s ! j = P_Wait m) \<and> sq_emptySem (sy_q s) = 0" if "j < length (sy_prod s)" for j
    using bp [OF that] mx by (cases "sy_prod s ! j") (auto simp: sem_wait_def split: if_splits)
  have "sy_work s = replicate (length (sy_work s)) W_Wait" using W by (intro nth_equalityI) auto
  then obtain k where "sy_work s = replicate k W_Wait" ..
  then have z: "total work_item (sy_work s) = 0" "total work_slot (sy_work s) = 0" "total work_held (sy_work s) = {#}"
    by (simp_all add: total_replicate work_item_def work_slot_def work_held_def del: map_replicate)
  have "x = P_Idle \<or> (\<exists>m. x = P_Wait m)" if "x \<in> set (sy_prod s)" for x
    using P that by (auto simp: in_set_conv_nth)
  then have zp: "total prod_item (sy_prod s) = 0" "total prod_slot (sy_prod s) = 0"
    by (fastforce intro!: total_zero simp: thread_defs)+
  have "sq_fullSem (sy_q s) = 0" using W [of 0] w by simp
  with c3 z zp have pend: "pend = []" by (simp del: sum_list_eq_0_iff)
  then show "mset (sy_run s) = mset (sy_in s)" using c4 z hist by simp
  have "0 < length (sq_queue (sy_q s))" using ring by (auto simp: ring_ok_def)
  then have "0 < sq_emptySem (sy_q s)" using c2 z zp pend by (simp del: sum_list_eq_0_iff)
  then show "i < length (sy_prod s) \<Longrightarrow> sy_prod s ! i = P_Idle" using P [of i] by auto
qed

section \<open>Correctness\<close>

text \<open>
  C20.
  In every interleaving of callers that are not interrupted and workers of a scheduler just
  created: messages leave the queue in the order they entered it, never more than \<open>queueSize\<close> are
  in it, every message taken is run exactly once or still held by a worker, at most one thread is
  in the critical section, and no thread accesses the queue out of its bounds.
\<close>

theorem sched_correct:
  assumes "taosInitScheduler env n k = Inr (Some obj)" and "0 < n"
    and "sched_reach False (sched_init (so_queue obj) callers (nat k)) s"
  shows "(\<exists>pend. sy_in s = sy_out s @ pend \<and> length pend \<le> nat n) \<and>
    mset (sy_run s) + total work_held (sy_work s) = mset (sy_out s) \<and>
    total prod_in (sy_prod s) + total work_in (sy_work s) \<le> 1 \<and>
    (\<forall>i b e. i < callers \<longrightarrow> taosScheduleTask b (sy_q s) (sy_prod s ! i) \<noteq> Some (Inl e)) \<and>
    (\<forall>i b e. i < nat k \<longrightarrow> taosProcessSchedQueue b (sy_q s) (sy_work s ! i) \<noteq> Some (Inl e))"
proof -
  note init = sched_init_inv [OF assms(1,2)]
  have inv: "sched_inv s" using sched_inv_reach [OF assms(3) init(1)] .
  then obtain pend where p: "ring_ok (sy_q s) pend" "sy_in s = sy_out s @ pend"
    "total prod_in (sy_prod s) + total work_in (sy_work s) = (if sq_mutex (sy_q s) then 1 else 0)"
    "mset (sy_run s) + total work_held (sy_work s) = mset (sy_out s)"
    by (rule sched_invE)
  have len: "length (sq_queue (sy_q s)) = nat n" "length (sy_prod s) = callers" "length (sy_work s) = nat k"
    using queue_length_reach [OF assms(3)] init(2) by (simp_all add: sched_init_def)
  have "length pend \<le> nat n" using p(1) len(1) by (simp add: ring_ok_def)
  with p len sched_no_fault [OF inv] show ?thesis by (auto simp del: sum_list_eq_0_iff)
qed

text \<open>
  With functions that do not schedule themselves the scheduler does not deadlock: with at least one worker, when
  no thread can take a step every message that was scheduled has been run, exactly once, and no caller is waiting.
\<close>

lemma sched_no_deadlock:
  assumes "taosInitScheduler env n k = Inr (Some obj)" and "0 < n" and "0 < k"
    and "sched_reach False (sched_init (so_queue obj) callers (nat k)) s"
    and "\<And>i. i < callers \<Longrightarrow> taosScheduleTask False (sy_q s) (sy_prod s ! i) = None"
    and "\<And>i. i < nat k \<Longrightarrow> taosProcessSchedQueue False (sy_q s) (sy_work s ! i) = None"
  shows "mset (sy_run s) = mset (sy_in s) \<and> (\<forall>i < callers. sy_prod s ! i = P_Idle)"
proof -
  note init = sched_init_inv [OF assms(1,2)]
  have inv: "sched_inv s" using sched_inv_reach [OF assms(4) init(1)] .
  have len: "length (sy_prod s) = callers" "length (sy_work s) = nat k"
    using queue_length_reach [OF assms(4)] by (simp_all add: sched_init_def)
  then have "sy_work s \<noteq> []" using assms(3) by auto
  from blocked_empty [OF inv this] assms(5,6) len show ?thesis by auto
qed

text \<open>
  C22.
  When a signal interrupts a caller waiting for a free slot, a message is lost: with a queue of
  one slot, any message \<open>m1\<close> followed by a message \<open>m2\<close> can end with \<open>m2\<close> run, then an all-zero
  message, for which no function is called, and nothing left in the queue.
\<close>

theorem sched_eintr_loses_message:
  assumes "taosInitScheduler env 1 1 = Inr (Some obj)"
  shows "\<exists>s. sched_reach True (sched_init (so_queue obj) 1 1) s \<and> sy_in s = [m1, m2] \<and>
    sy_run s = [m2, zero_msg] \<and> run_msg zero_msg = No_call \<and> sq_fullSem (sy_q s) = 0 \<and> sq_queue (sy_q s) = [zero_msg]"
proof -
  have q: "so_queue obj = \<lparr>sq_emptySem = 1, sq_fullSem = 0, sq_mutex = False, sq_fullSlot = 0, sq_emptySlot = 0,
      sq_queueSize = 1, sq_queue = [zero_msg]\<rparr>"
    using assms by (auto simp: taosInitScheduler_def Let_def rbind_eq_Inr split: if_splits prod.splits)
  let ?put = "\<lambda>b. [Prod 0 b, Prod 0 False, Prod 0 False, Prod 0 False, Prod 0 False]"
  let ?take = "replicate 6 (Work 0 False)"
  have "\<exists>s. sched_exec True (Call 0 m1 # ?put False @ Call 0 m2 # ?put True @ ?take @ ?take)
      (sched_init (so_queue obj) 1 1) = Some s \<and> sy_in s = [m1, m2] \<and>
      sy_run s = [m2, zero_msg] \<and> sq_fullSem (sy_q s) = 0 \<and> sq_queue (sy_q s) = [zero_msg]"
    by (simp add: q sched_init_def sem_wait_def thread_defs numeral_nat smod_nonneg)
  moreover have "run_msg zero_msg = No_call" by (simp add: run_msg_def zero_msg_def)
  ultimately show ?thesis using sched_exec_reach reach_init by blast
qed

text \<open>
  When creating the semaphores or the queue fails and workers were asked for, the clean-up
  follows the NULL array of thread handles.
\<close>

theorem sched_init_failure_faults:
  assumes "se_malloc env" and "0 < k"
    and "\<not> (0 \<le> se_mutex_init env \<and> se_empty_init env \<and> se_full_init env \<and> se_queue_malloc env)"
  shows "taosInitScheduler env n k = Inl Null_Deref"
  using assms by (simp add: taosInitScheduler_def Let_def taosCleanUpScheduler_def cancel_threads.simps [of None 0 k])

section \<open>Witnesses\<close>

definition good_env :: sched_env where
  "good_env = \<lparr>se_malloc = True, se_mutex_init = 0, se_empty_init = True, se_full_init = True, se_queue_malloc = True,
     se_qthread_malloc = True, se_create = (\<lambda>i. Some (int i))\<rparr>"

definition task1 :: SSchedMsg where
  "task1 = \<lparr>sm_fp = 1, sm_tfp = 0, sm_msg = 0, sm_ahandle = 0, sm_thandle = 0\<rparr>"

lemma good_env_init:
  obtains obj where "taosInitScheduler good_env 1 1 = Inr (Some obj)"
    and "so_queue obj = \<lparr>sq_emptySem = 1, sq_fullSem = 0, sq_mutex = False, sq_fullSlot = 0, sq_emptySlot = 0,
      sq_queueSize = 1, sq_queue = [zero_msg]\<rparr>"
proof -
  have "\<exists>obj. taosInitScheduler good_env 1 1 = Inr (Some obj) \<and>
      so_queue obj = \<lparr>sq_emptySem = 1, sq_fullSem = 0, sq_mutex = False, sq_fullSlot = 0, sq_emptySlot = 0,
        sq_queueSize = 1, sq_queue = [zero_msg]\<rparr>"
    by (simp add: taosInitScheduler_def good_env_def Let_def)
  then show ?thesis using that by blast
qed

lemma one_task:
  assumes "so_queue obj = \<lparr>sq_emptySem = 1, sq_fullSem = 0, sq_mutex = False, sq_fullSlot = 0, sq_emptySlot = 0,
      sq_queueSize = 1, sq_queue = [zero_msg]\<rparr>"
  obtains s where "sched_reach False (sched_init (so_queue obj) 1 1) s" and "sy_in s = [task1]" and "sy_run s = [task1]"
    and "sy_prod s = [P_Idle]" and "sy_work s = [W_Wait]" and "sq_fullSem (sy_q s) = 0"
proof -
  have "\<exists>s. sched_exec False (Call 0 task1 # replicate 5 (Prod 0 False) @ replicate 6 (Work 0 False))
      (sched_init (so_queue obj) 1 1) = Some s \<and> sy_in s = [task1] \<and> sy_run s = [task1] \<and>
      sy_prod s = [P_Idle] \<and> sy_work s = [W_Wait] \<and> sq_fullSem (sy_q s) = 0"
    by (simp add: assms sched_init_def sem_wait_def thread_defs numeral_nat smod_nonneg)
  then show ?thesis using that sched_exec_reach reach_init by metis
qed

theorem sched_correct_witness:
  "\<exists>(s::sched_sys) pend. sy_in s = [task1] \<and> sy_in s = sy_out s @ pend \<and> mset (sy_run s) + total work_held (sy_work s) = mset (sy_out s)"
proof -
  obtain obj where obj: "taosInitScheduler good_env 1 1 = Inr (Some obj)"
    and q: "so_queue obj = \<lparr>sq_emptySem = 1, sq_fullSem = 0, sq_mutex = False, sq_fullSlot = 0, sq_emptySlot = 0,
      sq_queueSize = 1, sq_queue = [zero_msg]\<rparr>" by (rule good_env_init)
  obtain s where s: "sched_reach False (sched_init (so_queue obj) 1 1) s" "sy_in s = [task1]" using q by (rule one_task)
  have n: "(0 :: int) < 1" by simp
  have "sched_reach False (sched_init (so_queue obj) 1 (nat 1)) s" using s(1) by simp
  from sched_correct [OF obj n this] s(2) show ?thesis by blast
qed

theorem sched_eintr_loses_message_witness:
  "\<exists>obj s. taosInitScheduler good_env 1 1 = Inr (Some obj) \<and>
    sched_reach True (sched_init (so_queue obj) 1 1) s \<and> sy_in s = [task1, task1] \<and> sy_run s = [task1, zero_msg]"
proof -
  obtain obj where obj: "taosInitScheduler good_env 1 1 = Inr (Some obj)" by (rule good_env_init)
  from sched_eintr_loses_message [OF this, of task1 task1] obj show ?thesis by blast
qed

theorem sched_init_failure_faults_witness:
  "taosInitScheduler (good_env\<lparr>se_queue_malloc := False\<rparr>) 4 2 = Inl Null_Deref"
  using sched_init_failure_faults [of "good_env\<lparr>se_queue_malloc := False\<rparr>" 2 4] by (simp add: good_env_def)

end
