(* ===== verification/SchedHandlers.thy ===== *)
theory SchedHandlers
  imports Sched
begin

text \<open>
  The functions that the workers of src/src/util/src/tsched.c run may call \<open>taosScheduleTask\<close> on the queue of their
  own scheduler. In the client they do: \<open>taosProcessSchedMsg\<close> of src/src/rpc/src/trpc.c, run by a worker of \<open>tscQhandle\<close>,
  ends in \<open>tscQueueAsyncRes\<close> of src/src/client/src/tscAsync.c, which schedules on \<open>tscQhandle\<close>. What the function of a
  message schedules before it returns is a parameter. A worker is then in its loop or in such a function.
\<close>

section \<open>Workers whose functions schedule\<close>

text \<open>A worker in a function: where its call of \<open>taosScheduleTask\<close> stands, and what it schedules after it.\<close>

datatype pool_worker =
    In_Loop worker
  | In_Function producer "SSchedMsg list"

record pool_sys =
  po_q :: SSchedQueue
  po_prod :: "producer list"
  po_work :: "pool_worker list"
  po_run :: "SSchedMsg list"

inductive pool_step :: "(SSchedMsg \<Rightarrow> SSchedMsg list) \<Rightarrow> pool_sys \<Rightarrow> pool_sys \<Rightarrow> bool" for schedules where
  pool_call: "i < length (po_prod s) \<Longrightarrow> po_prod s ! i = P_Idle \<Longrightarrow>
    pool_step schedules s (s\<lparr>po_prod := (po_prod s)[i := P_Wait m]\<rparr>)"
| pool_prod: "i < length (po_prod s) \<Longrightarrow> taosScheduleTask False (po_q s) (po_prod s ! i) = Some (Inr (q, p)) \<Longrightarrow>
    pool_step schedules s (s\<lparr>po_q := q, po_prod := (po_prod s)[i := p]\<rparr>)"
| pool_loop: "i < length (po_work s) \<Longrightarrow> po_work s ! i = In_Loop w \<Longrightarrow> \<forall>m. w \<noteq> W_Run m \<Longrightarrow>
    taosProcessSchedQueue b (po_q s) w = Some (Inr (q, w')) \<Longrightarrow>
    pool_step schedules s (s\<lparr>po_q := q, po_work := (po_work s)[i := In_Loop w']\<rparr>)"
| pool_run: "i < length (po_work s) \<Longrightarrow> po_work s ! i = In_Loop (W_Run m) \<Longrightarrow>
    pool_step schedules s (s\<lparr>po_work := (po_work s)[i := In_Function P_Idle (schedules m)], po_run := po_run s @ [m]\<rparr>)"
| pool_nested_call: "i < length (po_work s) \<Longrightarrow> po_work s ! i = In_Function P_Idle (m # ms) \<Longrightarrow>
    pool_step schedules s (s\<lparr>po_work := (po_work s)[i := In_Function (P_Wait m) ms]\<rparr>)"
| pool_nested: "i < length (po_work s) \<Longrightarrow> po_work s ! i = In_Function p ms \<Longrightarrow>
    taosScheduleTask False (po_q s) p = Some (Inr (q, p')) \<Longrightarrow>
    pool_step schedules s (s\<lparr>po_q := q, po_work := (po_work s)[i := In_Function p' ms]\<rparr>)"
| pool_return: "i < length (po_work s) \<Longrightarrow> po_work s ! i = In_Function P_Idle [] \<Longrightarrow>
    pool_step schedules s (s\<lparr>po_work := (po_work s)[i := In_Loop W_Wait]\<rparr>)"

inductive pool_reach :: "(SSchedMsg \<Rightarrow> SSchedMsg list) \<Rightarrow> pool_sys \<Rightarrow> pool_sys \<Rightarrow> bool" for schedules where
  pool_here: "pool_reach schedules s s"
| pool_on: "pool_reach schedules s s' \<Longrightarrow> pool_step schedules s' s'' \<Longrightarrow> pool_reach schedules s s''"

definition pool_init :: "SSchedQueue \<Rightarrow> nat \<Rightarrow> nat \<Rightarrow> pool_sys" where
  "pool_init q callers workers =
     \<lparr>po_q = q, po_prod = replicate callers P_Idle, po_work = replicate workers (In_Loop W_Wait), po_run = []\<rparr>"

lemma pool_reach_trans: "pool_reach schedules s' s'' \<Longrightarrow> pool_reach schedules s s' \<Longrightarrow> pool_reach schedules s s''"
  by (induction rule: pool_reach.induct) (auto intro: pool_reach.intros)

lemma pool_first: "pool_step schedules s s' \<Longrightarrow> pool_reach schedules s' s'' \<Longrightarrow> pool_reach schedules s s''"
  by (rule pool_reach_trans [OF _ pool_on [OF pool_here]])

section \<open>The state in which all wait\<close>

definition all_wait :: "pool_sys \<Rightarrow> bool" where
  "all_wait s \<longleftrightarrow> sq_emptySem (po_q s) = 0 \<and>
     (\<forall>p \<in> set (po_prod s). p = P_Idle \<or> (\<exists>m. p = P_Wait m)) \<and>
     (\<forall>w \<in> set (po_work s). \<exists>m ms. w = In_Function (P_Wait m) ms)"

lemma all_wait_step:
  assumes "pool_step schedules s s'" and "all_wait s"
  shows "all_wait s' \<and> po_work s' = po_work s \<and> po_run s' = po_run s"
  using assms
proof (induction rule: pool_step.induct)
  case (pool_call i s m)
  then show ?case by (auto simp: all_wait_def dest!: set_update_subset_insert [THEN subsetD])
next
  case (pool_prod i s q p)
  then have "po_prod s ! i = P_Idle \<or> (\<exists>m. po_prod s ! i = P_Wait m)" by (simp add: all_wait_def)
  then have "taosScheduleTask False (po_q s) (po_prod s ! i) = None" using pool_prod(3) by (auto simp: all_wait_def sem_wait_def)
  then show ?case using pool_prod(2) by simp
next
  case (pool_nested i s p ms q p')
  then have "\<exists>m. p = P_Wait m" using nth_mem [of i "po_work s"] by (fastforce simp: all_wait_def)
  then show ?case using pool_nested by (auto simp: all_wait_def sem_wait_def)
next
  case (pool_loop i s w b q w')
  then show ?case using nth_mem [of i "po_work s"] by (auto simp: all_wait_def)
next
  case (pool_run i s m)
  then show ?case using nth_mem [of i "po_work s"] by (auto simp: all_wait_def)
next
  case (pool_nested_call i s m ms)
  then show ?case using nth_mem [of i "po_work s"] by (fastforce simp: all_wait_def)
next
  case (pool_return i s)
  then show ?case using nth_mem [of i "po_work s"] by (fastforce simp: all_wait_def)
qed

lemma all_wait_reach:
  "pool_reach schedules s s' \<Longrightarrow> all_wait s \<Longrightarrow> all_wait s' \<and> po_work s' = po_work s \<and> po_run s' = po_run s"
  by (induction rule: pool_reach.induct) (auto dest: all_wait_step)

section \<open>How it is reached\<close>

text \<open>No thread is in the queue: it holds \<open>pend\<close> and has \<open>n\<close> slots.\<close>

definition calm :: "SSchedQueue \<Rightarrow> nat \<Rightarrow> SSchedMsg list \<Rightarrow> bool" where
  "calm q n pend \<longleftrightarrow> ring_ok q pend \<and> \<not> sq_mutex q \<and> sq_fullSem q = length pend \<and>
     sq_emptySem q + length pend = n \<and> length (sq_queue q) = n"

abbreviation pool_at :: "SSchedQueue \<Rightarrow> producer list \<Rightarrow> pool_worker list \<Rightarrow> SSchedMsg list \<Rightarrow> pool_sys" where
  "pool_at q ps ws run \<equiv> \<lparr>po_q = q, po_prod = ps, po_work = ws, po_run = run\<rparr>"

lemma pool_put:
  assumes q: "calm q n pend" and room: "length pend < n" and ps: "0 < length ps" "ps ! 0 = P_Idle"
  shows "\<exists>q'. calm q' n (pend @ [m]) \<and> pool_reach schedules (pool_at q ps ws run) (pool_at q' ps ws run)"
proof -
  have sem: "sem_wait (sq_emptySem q) = Some (sq_emptySem q - 1)" "\<not> sq_mutex q" using q room by (auto simp: calm_def sem_wait_def)
  let ?q1 = "q\<lparr>sq_emptySem := sq_emptySem q - 1\<rparr>" let ?q2 = "?q1\<lparr>sq_mutex := True\<rparr>"
  have "ring_ok ?q2 pend" "length pend < length (sq_queue ?q2)" using q room by (simp_all add: calm_def ring_ok_def)
  then obtain qu where set: "arr_set (sq_queue ?q2) (sq_emptySlot ?q2) m = Inr qu" "length qu = length (sq_queue ?q2)"
      "ring_ok (?q2\<lparr>sq_queue := qu, sq_emptySlot := (sq_emptySlot ?q2 + 1) smod sq_queueSize ?q2\<rparr>) (pend @ [m])"
    by (rule ring_ok_push)
  let ?q3 = "?q2\<lparr>sq_queue := qu, sq_emptySlot := (sq_emptySlot ?q2 + 1) smod sq_queueSize ?q2\<rparr>"
  let ?q4 = "?q3\<lparr>sq_mutex := False\<rparr>" let ?q5 = "?q4\<lparr>sq_fullSem := sq_fullSem ?q4 + 1\<rparr>"
  have step: "pool_step schedules (pool_at a (ps[0 := x]) ws run) (pool_at b (ps[0 := y]) ws run)"
    if "taosScheduleTask False a x = Some (Inr (b, y))" for a x b y
    using pool_prod [of 0 "pool_at a (ps[0 := x]) ws run" b y schedules] that ps by simp
  have "pool_step schedules (pool_at q ps ws run) (pool_at q (ps[0 := P_Wait m]) ws run)"
    using pool_call [of 0 "pool_at q ps ws run" schedules m] ps by simp
  moreover have "pool_step schedules (pool_at q (ps[0 := P_Wait m]) ws run) (pool_at ?q1 (ps[0 := P_Lock m]) ws run)"
    by (rule step) (simp add: sem)
  moreover have "pool_step schedules (pool_at ?q1 (ps[0 := P_Lock m]) ws run) (pool_at ?q2 (ps[0 := P_Put m]) ws run)"
    by (rule step) (simp add: sem)
  moreover have "pool_step schedules (pool_at ?q2 (ps[0 := P_Put m]) ws run) (pool_at ?q3 (ps[0 := P_Unlock]) ws run)"
    by (rule step) (use set(1) in simp)
  moreover have "pool_step schedules (pool_at ?q3 (ps[0 := P_Unlock]) ws run) (pool_at ?q4 (ps[0 := P_Post]) ws run)" by (rule step) simp
  moreover have "pool_step schedules (pool_at ?q4 (ps[0 := P_Post]) ws run) (pool_at ?q5 (ps[0 := P_Idle]) ws run)" by (rule step) simp
  ultimately have "pool_reach schedules (pool_at q ps ws run) (pool_at ?q5 (ps[0 := P_Idle]) ws run)"
    by - (assumption | rule pool_here | rule pool_first)+
  moreover have "ps[0 := P_Idle] = ps" using ps(2) by (metis list_update_id)
  moreover have "calm ?q5 n (pend @ [m])" using q room set(2,3) by (simp add: calm_def ring_ok_def)
  ultimately show ?thesis by auto
qed

text \<open>A worker takes a message, runs its function and waits there for a slot.\<close>

lemma pool_take:
  assumes q: "calm q n (m # pend)" and work: "j < length ws" "ws ! j = In_Loop W_Wait" and m: "schedules m = m1 # ms"
  shows "\<exists>q'. calm q' n pend \<and>
    pool_reach schedules (pool_at q ps ws run) (pool_at q' ps (ws[j := In_Function (P_Wait m1) ms]) (run @ [m]))"
proof -
  have sem: "sem_wait (sq_fullSem q) = Some (sq_fullSem q - 1)" "\<not> sq_mutex q" using q by (simp_all add: calm_def sem_wait_def)
  let ?q1 = "q\<lparr>sq_fullSem := sq_fullSem q - 1\<rparr>" let ?q2 = "?q1\<lparr>sq_mutex := True\<rparr>"
  have "ring_ok ?q2 (m # pend)" using q by (simp add: calm_def ring_ok_def)
  then obtain qu where pop: "arr_get (sq_queue ?q2) (sq_fullSlot ?q2) = Inr m" "arr_set (sq_queue ?q2) (sq_fullSlot ?q2) zero_msg = Inr qu"
      "ring_ok (?q2\<lparr>sq_queue := qu, sq_fullSlot := (sq_fullSlot ?q2 + 1) smod sq_queueSize ?q2\<rparr>) pend" "length qu = length (sq_queue ?q2)"
    by (rule ring_ok_pop)
  let ?q3 = "?q2\<lparr>sq_queue := qu, sq_fullSlot := (sq_fullSlot ?q2 + 1) smod sq_queueSize ?q2\<rparr>"
  let ?q4 = "?q3\<lparr>sq_mutex := False\<rparr>" let ?q5 = "?q4\<lparr>sq_emptySem := sq_emptySem ?q4 + 1\<rparr>"
  let ?at = "\<lambda>q w. pool_at q ps (ws[j := w])"
  have step: "pool_step schedules (?at a (In_Loop x) run) (?at b (In_Loop y) run)"
    if "taosProcessSchedQueue False a x = Some (Inr (b, y))" "\<forall>m. x \<noteq> W_Run m" for a x b y
    using pool_loop [of j "?at a (In_Loop x) run" x False b y schedules] that work by simp
  have "pool_step schedules (pool_at q ps ws run) (?at ?q1 (In_Loop W_Lock) run)"
    using pool_loop [of j "pool_at q ps ws run" W_Wait False ?q1 W_Lock schedules] work sem by simp
  moreover have "pool_step schedules (?at ?q1 (In_Loop W_Lock) run) (?at ?q2 (In_Loop W_Take) run)" by (rule step) (simp_all add: sem)
  moreover have "pool_step schedules (?at ?q2 (In_Loop W_Take) run) (?at ?q3 (In_Loop (W_Unlock m)) run)"
    by (rule step) (use pop(1,2) in simp_all)
  moreover have "pool_step schedules (?at ?q3 (In_Loop (W_Unlock m)) run) (?at ?q4 (In_Loop (W_Post m)) run)" by (rule step) simp_all
  moreover have "pool_step schedules (?at ?q4 (In_Loop (W_Post m)) run) (?at ?q5 (In_Loop (W_Run m)) run)" by (rule step) simp_all
  moreover have "pool_step schedules (?at ?q5 (In_Loop (W_Run m)) run) (?at ?q5 (In_Function P_Idle (m1 # ms)) (run @ [m]))"
    using pool_run [of j "?at ?q5 (In_Loop (W_Run m)) run" m schedules] work m by simp
  moreover have "pool_step schedules (?at ?q5 (In_Function P_Idle (m1 # ms)) (run @ [m])) (?at ?q5 (In_Function (P_Wait m1) ms) (run @ [m]))"
    using pool_nested_call [of j "?at ?q5 (In_Function P_Idle (m1 # ms)) (run @ [m])" m1 ms schedules] work by simp
  ultimately have "pool_reach schedules (pool_at q ps ws run) (?at ?q5 (In_Function (P_Wait m1) ms) (run @ [m]))"
    by - (assumption | rule pool_here | rule pool_first)+
  moreover have "calm ?q5 n pend" using q pop(3,4) by (simp add: calm_def ring_ok_def)
  ultimately show ?thesis by blast
qed

lemma pool_fill:
  assumes q: "calm q n []" and ps: "0 < length ps" "ps ! 0 = P_Idle"
  shows "i \<le> n \<Longrightarrow> \<exists>q'. calm q' n (replicate i m) \<and> pool_reach schedules (pool_at q ps ws run) (pool_at q' ps ws run)"
proof (induction i)
  case 0
  then show ?case using q pool_here by auto
next
  case (Suc i)
  then obtain q1 where q1: "calm q1 n (replicate i m)" "pool_reach schedules (pool_at q ps ws run) (pool_at q1 ps ws run)" by auto
  obtain q2 where q2: "calm q2 n (replicate i m @ [m])" "pool_reach schedules (pool_at q1 ps ws run) (pool_at q2 ps ws run)"
    using pool_put [OF q1(1) _ ps, of m schedules ws run] Suc.prems by auto
  have "calm q2 n (replicate (Suc i) m)" using q2(1) by (simp add: replicate_append_same)
  then show ?case using pool_reach_trans [OF q2(2) q1(2)] by blast
qed

lemma pool_occupy:
  assumes q: "calm q n []" and "0 < n" and ps: "0 < length ps" "ps ! 0 = P_Idle" and m: "schedules m = m1 # ms"
  shows "j \<le> k \<Longrightarrow> \<exists>q'. calm q' n [] \<and> pool_reach schedules (pool_at q ps (replicate k (In_Loop W_Wait)) [])
    (pool_at q' ps (replicate j (In_Function (P_Wait m1) ms) @ replicate (k - j) (In_Loop W_Wait)) (replicate j m))"
proof (induction j)
  case 0
  then show ?case using q pool_here by auto
next
  case (Suc j)
  let ?ws = "\<lambda>j. replicate j (In_Function (P_Wait m1) ms) @ replicate (k - j) (In_Loop W_Wait)"
  obtain q1 where q1: "calm q1 n []"
      "pool_reach schedules (pool_at q ps (replicate k (In_Loop W_Wait)) []) (pool_at q1 ps (?ws j) (replicate j m))"
    using Suc by auto
  obtain q2 where q2: "calm q2 n [m]" "pool_reach schedules (pool_at q1 ps (?ws j) (replicate j m)) (pool_at q2 ps (?ws j) (replicate j m))"
    using pool_put [OF q1(1) _ ps, of m schedules "?ws j" "replicate j m"] assms(2) by auto
  have "k - j = Suc (k - Suc j)" using Suc.prems by simp
  then have wait: "j < length (?ws j)" "?ws j ! j = In_Loop W_Wait" and upd: "(?ws j)[j := In_Function (P_Wait m1) ms] = ?ws (Suc j)"
    by (simp_all add: nth_append list_update_append) (metis append_Cons append_Nil append_assoc replicate_Suc replicate_append_same)
  have run: "replicate j m @ [m] = replicate (Suc j) m" by (simp add: replicate_append_same)
  obtain q3 where "calm q3 n []" "pool_reach schedules (pool_at q2 ps (?ws j) (replicate j m)) (pool_at q3 ps (?ws (Suc j)) (replicate (Suc j) m))"
    using pool_take [where schedules = schedules, OF q2(1) wait m, of ps "replicate j m"] unfolding upd run by blast
  then show ?case using pool_reach_trans [OF _ pool_reach_trans [OF q2(2) q1(2)]] by blast
qed

text \<open>
  C21.
  A scheduler whose workers run functions that schedule on its own queue deadlocks. With any number of slots, any
  number of workers and a message whose function schedules at least one message, the system can get into a state in which every worker
  waits in \<open>taosScheduleTask\<close> for a slot of the full queue. From then on, whatever callers do, no worker
  moves and no message is run any more.
\<close>

theorem sched_functions_deadlock:
  assumes obj: "taosInitScheduler env n k = Inr (Some obj)" and "0 < n" and "0 < callers" and m: "schedules m \<noteq> []"
  shows "\<exists>s. pool_reach schedules (pool_init (so_queue obj) callers (nat k)) s \<and> po_run s = replicate (nat k) m \<and>
    sq_fullSem (po_q s) = nat n \<and>
    (\<forall>s'. pool_reach schedules s s' \<longrightarrow> po_run s' = po_run s \<and>
      (\<forall>w \<in> set (po_work s'). \<exists>m ms. w = In_Function (P_Wait m) ms \<and> taosScheduleTask False (po_q s') (P_Wait m) = None))"
proof -
  let ?ps = "replicate callers P_Idle" and ?ws = "replicate (nat k) (In_Loop W_Wait)"
  obtain m1 ms where m1: "schedules m = m1 # ms" using m by (cases "schedules m") auto
  let ?w = "replicate (nat k) (In_Function (P_Wait m1) ms)" and ?r = "replicate (nat k) m"
  have q: "calm (so_queue obj) (nat n) []"
    using assms(1,2) by (auto simp: calm_def ring_ok_def ring_slice_def taosInitScheduler_def Let_def rbind_eq_Inr split: if_splits prod.splits)
  have ps: "0 < length ?ps" "?ps ! 0 = P_Idle" "0 < nat n" using assms(2,3) by simp_all
  obtain q1 where q1: "calm q1 (nat n) []" "pool_reach schedules (pool_at (so_queue obj) ?ps ?ws []) (pool_at q1 ?ps ?w ?r)"
    using pool_occupy [where schedules = schedules and j = "nat k" and k = "nat k", OF q ps(3,1,2) m1] by auto
  obtain q2 where q2: "calm q2 (nat n) (replicate (nat n) m)" "pool_reach schedules (pool_at q1 ?ps ?w ?r) (pool_at q2 ?ps ?w ?r)"
    using pool_fill [where i = "nat n", OF q1(1) ps(1,2)] by blast
  let ?t = "pool_at q2 ?ps ?w ?r"
  have wait: "all_wait ?t" using q2(1) by (auto simp: all_wait_def calm_def)
  have stuck: "po_run s' = po_run ?t \<and> (\<forall>w \<in> set (po_work s'). \<exists>m ms. w = In_Function (P_Wait m) ms \<and>
      taosScheduleTask False (po_q s') (P_Wait m) = None)" if "pool_reach schedules ?t s'" for s'
    using all_wait_reach [OF that wait] by (simp add: all_wait_def sem_wait_def)
  have "pool_reach schedules (pool_init (so_queue obj) callers (nat k)) ?t"
    using pool_reach_trans [OF q2(2) q1(2)] by (simp add: pool_init_def)
  moreover have "sq_fullSem (po_q ?t) = nat n" using q2(1) by (simp add: calm_def)
  ultimately show ?thesis using stuck by (intro exI [of _ ?t]) simp
qed

text \<open>One worker, one slot, and a function that schedules a message.\<close>

theorem sched_functions_deadlock_witness:
  "\<exists>obj s. taosInitScheduler good_env 1 1 = Inr (Some obj) \<and>
    pool_reach (\<lambda>m. if m = task1 then [zero_msg] else []) (pool_init (so_queue obj) 1 1) s \<and> po_run s = [task1] \<and>
    (\<forall>s'. pool_reach (\<lambda>m. if m = task1 then [zero_msg] else []) s s' \<longrightarrow> po_run s' = [task1])"
proof -
  obtain obj where obj: "taosInitScheduler good_env 1 1 = Inr (Some obj)" by (rule good_env_init)
  from sched_functions_deadlock [OF this, of 1 "\<lambda>m. if m = task1 then [zero_msg] else []" task1] obj show ?thesis by auto
qed

end
