(* ===== verification/Base64.thy ===== *)
theory Base64
  imports Bytes
begin

text \<open>
  Base-64 encoding and decoding, src/src/util/src/tbase64.c. \<open>char\<close> is signed. The buffers the
  functions allocate have the size the code asks for; a write past it is a fault.
\<close>

section \<open>Tables\<close>

definition basis_64 :: "byte list" where
  "basis_64 = map word_of_nat ([65..<91] @ [97..<123] @ [48..<58] @ [43, 47, 0])"

definition index_64 :: "int list" where
  "index_64 =
     replicate 43 (-1) @ [62] @ replicate 3 (-1) @ [63] @ map int [52..<62] @ replicate 7 (-1) @
     map int [0..<26] @ replicate 6 (-1) @ map int [26..<52] @ replicate 5 (-1)"

definition CHAR64 :: "int \<Rightarrow> int" where
  "CHAR64 c = (if c < 0 \<or> c > 127 then -1 else index_64 ! nat c)"

definition b64_char :: "int \<Rightarrow> byte res" where
  "b64_char i = arr_get basis_64 i"

text \<open>\<open>*out++ = b\<close> into a buffer of \<open>cap\<close> bytes.\<close>

definition b64_put :: "nat \<Rightarrow> byte list \<Rightarrow> byte \<Rightarrow> byte list res" where
  "b64_put cap out b = (if length out < cap then Inr (out @ [b]) else Inl Out_Of_Bounds)"

section \<open>Encoding\<close>

text \<open>The four characters of a group, by their indices; \<open>None\<close> is the padding character.\<close>

fun b64_puts :: "nat \<Rightarrow> byte list \<Rightarrow> int option list \<Rightarrow> byte list res" where
  "b64_puts cap out [] = Inr out"
| "b64_puts cap out (None # is) = rbind (b64_put cap out 61) (\<lambda>out1. b64_puts cap out1 is)"
| "b64_puts cap out (Some i # is) =
     rbind (b64_char i) (\<lambda>c. rbind (b64_put cap out c) (\<lambda>out1. b64_puts cap out1 is))"

definition sextets3 :: "byte \<Rightarrow> byte \<Rightarrow> byte \<Rightarrow> int list" where
  "sextets3 a b c =
     [drop_bit 2 (uint a),
      (push_bit 4 (uint a) AND 0x30) OR drop_bit 4 (uint b),
      (push_bit 2 (uint b) AND 0x3C) OR drop_bit 6 (uint c),
      uint c AND 0x3F]"

function b64_enc :: "nat \<Rightarrow> byte list \<Rightarrow> int \<Rightarrow> byte list \<Rightarrow> byte list res" where
  "b64_enc cap val vlen out =
     (if 3 \<le> vlen then
        rbind (arr_get val 0) (\<lambda>a. rbind (arr_get val 1) (\<lambda>b. rbind (arr_get val 2) (\<lambda>c.
        rbind (b64_puts cap out (map Some (sextets3 a b c))) (\<lambda>out1.
          b64_enc cap (drop 3 val) (vlen - 3) out1))))
      else if 0 < vlen then
        rbind (arr_get val 0) (\<lambda>a.
        let oval = push_bit 4 (uint a) AND 0x30 in
        if 1 < vlen then
          rbind (arr_get val 1) (\<lambda>b.
            b64_puts cap out [Some (drop_bit 2 (uint a)), Some (oval OR drop_bit 4 (uint b)),
              Some (push_bit 2 (uint b) AND 0x3C), None])
        else b64_puts cap out [Some (drop_bit 2 (uint a)), Some oval, None, None])
      else Inr out)"
  by pat_completeness auto
termination
  by (relation "measure (\<lambda>(cap, val, vlen, out). nat vlen)") auto

declare b64_enc.simps [simp del]

text \<open>The second argument is the outcome of malloc.\<close>

definition base64_encode :: "byte list \<Rightarrow> bool \<Rightarrow> int \<Rightarrow> byte list res" where
  "base64_encode val malloc_ok vlen =
     (let cap = nat (to_int32 (vlen * 4) mod 2 ^ 64) div 3 + 10 in
      if \<not> malloc_ok then Inl Null_Deref
      else rbind (b64_enc cap val vlen []) (\<lambda>out. b64_put cap out 0))"

section \<open>Decoding\<close>

text \<open>
  \<open>Inr None\<close> is the jump to \<open>base64_decode_error\<close>. \<open>(unsigned char)\<close> keeps the low eight bits.
\<close>

function b64_dec :: "nat \<Rightarrow> byte list \<Rightarrow> byte list \<Rightarrow> byte list option res" where
  "b64_dec cap val out =
     rbind (arr_get val 0) (\<lambda>v0.
       if v0 = 0 then rbind (b64_put cap out 0) (\<lambda>_. Inr (Some out))
       else if v0 = 10 \<or> v0 = 13 then b64_dec cap (drop 1 val) out
       else
         let c1 = sint v0 in
         if CHAR64 c1 = -1 then Inr None
         else rbind (arr_get val 1) (\<lambda>v1. let c2 = sint v1 in
         if CHAR64 c2 = -1 then Inr None
         else rbind (arr_get val 2) (\<lambda>v2. let c3 = sint v2 in
         if c3 \<noteq> 61 \<and> CHAR64 c3 = -1 then Inr None
         else rbind (arr_get val 3) (\<lambda>v3. let c4 = sint v3 in
         if c4 \<noteq> 61 \<and> CHAR64 c4 = -1 then Inr None
         else
           rbind (b64_put cap out (word_of_int (push_bit 2 (CHAR64 c1) OR drop_bit 4 (CHAR64 c2)))) (\<lambda>o1.
           if c3 = 61 then b64_dec cap (drop 4 val) o1
           else
             rbind (b64_put cap o1 (word_of_int ((push_bit 4 (CHAR64 c2) AND 0xF0) OR drop_bit 2 (CHAR64 c3)))) (\<lambda>o2.
             if c4 = 61 then b64_dec cap (drop 4 val) o2
             else
               rbind (b64_put cap o2 (word_of_int ((push_bit 6 (CHAR64 c3) AND 0xC0) OR CHAR64 c4))) (\<lambda>o3.
                 b64_dec cap (drop 4 val) o3)))))))"
  by pat_completeness auto
termination
  by (relation "measure (\<lambda>(cap, val, out). length val)") (auto simp: arr_get_def split: if_splits)

declare b64_dec.simps [simp del]

text \<open>
  The decoded bytes; \<open>*outlen\<close> is their number. On the error path the buffer is written after it
  has been freed.
\<close>

definition base64_decode :: "byte list \<Rightarrow> bool \<Rightarrow> int \<Rightarrow> byte list res" where
  "base64_decode val malloc_ok inlen =
     (let cap = nat (to_int32 (inlen * 3) mod 2 ^ 64) div 4 + 1 in
      if \<not> malloc_ok then Inl Null_Deref
      else rbind (b64_dec cap val []) (\<lambda>r. case r of None \<Rightarrow> Inl Dangling | Some out \<Rightarrow> Inr out))"


section \<open>The characters\<close>

definition ch :: "int \<Rightarrow> byte" where
  "ch i = basis_64 ! nat i"

definition ch_ok :: "nat \<Rightarrow> bool" where
  "ch_ok i \<longleftrightarrow> (let c = basis_64 ! i in CHAR64 (sint c) = int i \<and> c \<noteq> 0 \<and> c \<noteq> 10 \<and> c \<noteq> 13 \<and> sint c \<noteq> 61)"

lemma ch_ok_all: "list_all ch_ok [0..<64]"
  by code_simp

lemma ch_props:
  assumes "0 \<le> i" and "i < 64"
  shows "CHAR64 (sint (ch i)) = i" and "ch i \<noteq> 0" and "ch i \<noteq> 10" and "ch i \<noteq> 13" and "sint (ch i) \<noteq> 61"
    and "b64_char i = Inr (ch i)" and "i \<noteq> -1"
proof -
  have "ch_ok (nat i)" using ch_ok_all assms by (auto simp: list_all_iff)
  then show "CHAR64 (sint (ch i)) = i" "ch i \<noteq> 0" "ch i \<noteq> 10" "ch i \<noteq> 13" "sint (ch i) \<noteq> 61"
    using assms(1) by (simp_all add: ch_ok_def ch_def Let_def)
  have "length basis_64 = 65" by (simp add: basis_64_def)
  then show "b64_char i = Inr (ch i)" using assms by (simp add: b64_char_def ch_def)
  show "i \<noteq> -1" using assms by simp
qed


section \<open>Sextets\<close>

lemma bit_masks:
  "bit (0x30::int) n \<longleftrightarrow> 4 \<le> n \<and> n < 6"
  "bit (0x3C::int) n \<longleftrightarrow> 2 \<le> n \<and> n < 6"
  "bit (0x3F::int) n \<longleftrightarrow> n < 6"
  "bit (0xF0::int) n \<longleftrightarrow> 4 \<le> n \<and> n < 8"
  "bit (0xC0::int) n \<longleftrightarrow> 6 \<le> n \<and> n < 8"
proof -
  have "(0x30::int) = push_bit 4 (mask 2)" "(0x3C::int) = push_bit 2 (mask 4)" "(0x3F::int) = mask 6"
    "(0xF0::int) = push_bit 4 (mask 4)" "(0xC0::int) = push_bit 6 (mask 2)"
    by (simp_all add: push_bit_eq_mult mask_eq_exp_minus_1)
  then show "bit (0x30::int) n \<longleftrightarrow> 4 \<le> n \<and> n < 6" "bit (0x3C::int) n \<longleftrightarrow> 2 \<le> n \<and> n < 6"
    "bit (0x3F::int) n \<longleftrightarrow> n < 6" "bit (0xF0::int) n \<longleftrightarrow> 4 \<le> n \<and> n < 8" "bit (0xC0::int) n \<longleftrightarrow> 6 \<le> n \<and> n < 8"
    by (auto simp only: bit_push_bit_iff bit_mask_iff) auto
qed

lemmas sextet_bits = bit_masks bit_or_iff bit_and_iff bit_push_bit_iff bit_drop_bit_eq bit_uint_iff comp_def

lemma six_bits: "(\<And>n. 6 \<le> n \<Longrightarrow> \<not> bit i n) \<Longrightarrow> 0 \<le> i \<and> i < (64::int)"
proof -
  assume "\<And>n. 6 \<le> n \<Longrightarrow> \<not> bit i n"
  then have "take_bit 6 i = i" by (intro bit_eqI) (metis bit_take_bit_iff not_less)
  then show ?thesis using take_bit_int_less_exp [of 6 i] take_bit_nonnegative [of 6 i] by simp
qed

lemma sextet_range:
  "0 \<le> drop_bit 2 (uint a) \<and> drop_bit 2 (uint (a::byte)) < 64"
  "0 \<le> (push_bit 4 (uint a) AND 0x30) \<and> (push_bit 4 (uint a) AND 0x30) < 64"
  "0 \<le> (push_bit 2 (uint b) AND 0x3C) \<and> (push_bit 2 (uint (b::byte)) AND 0x3C) < 64"
  "0 \<le> (push_bit 4 (uint a) AND 0x30) OR drop_bit 4 (uint b) \<and> (push_bit 4 (uint a) AND 0x30) OR drop_bit 4 (uint b) < 64"
  "0 \<le> (push_bit 2 (uint b) AND 0x3C) OR drop_bit 6 (uint c) \<and> (push_bit 2 (uint b) AND 0x3C) OR drop_bit 6 (uint (c::byte)) < 64"
  "0 \<le> (uint c AND 0x3F) \<and> (uint c AND 0x3F) < 64"
  by (rule six_bits, simp add: sextet_bits)+

lemma byte_eqI: "(\<And>n. n \<in> {0, 1, 2, 3, 4, 5, 6, 7} \<Longrightarrow> bit a n = bit b n) \<Longrightarrow> a = (b :: byte)"
proof (rule bit_word_eqI)
  fix n
  assume a: "\<And>n. n \<in> {0, 1, 2, 3, 4, 5, 6, 7} \<Longrightarrow> bit a n = bit b n" and n: "n < LENGTH(8)"
  from n have "n \<in> {0, 1, 2, 3, 4, 5, 6, 7}" by auto
  then show "bit a n = bit b n" by (rule a)
qed

lemma joined_first:
  "word_of_int (push_bit 2 (drop_bit 2 (uint a)) OR drop_bit 4 ((push_bit 4 (uint a) AND 0x30) OR drop_bit 4 (uint (b :: byte)))) =
     (a :: byte)"
  by (rule byte_eqI) (simp only: bit_word_of_int_iff sextet_bits, auto simp: numeral_nat)

lemma joined_second:
  "word_of_int ((push_bit 4 ((push_bit 4 (uint (a :: byte)) AND 0x30) OR drop_bit 4 (uint b)) AND 0xF0) OR
     drop_bit 2 ((push_bit 2 (uint b) AND 0x3C) OR drop_bit 6 (uint (c :: byte)))) = (b :: byte)"
  by (rule byte_eqI) (simp only: bit_word_of_int_iff sextet_bits, auto simp: numeral_nat)

lemma joined_third:
  "word_of_int ((push_bit 6 ((push_bit 2 (uint (b :: byte)) AND 0x3C) OR drop_bit 6 (uint c)) AND 0xC0) OR (uint c AND 0x3F)) =
     (c :: byte)"
  by (rule byte_eqI) (simp only: bit_word_of_int_iff sextet_bits, auto simp: numeral_nat)

lemma joined_tail:
  "word_of_int (push_bit 2 (drop_bit 2 (uint a)) OR drop_bit 4 (push_bit 4 (uint a) AND 0x30)) = (a :: byte)"
  "word_of_int ((push_bit 4 ((push_bit 4 (uint (a :: byte)) AND 0x30) OR drop_bit 4 (uint b)) AND 0xF0) OR
     drop_bit 2 (push_bit 2 (uint b) AND 0x3C)) = (b :: byte)"
  using joined_first [of a 0] joined_second [of a b 0] by (simp_all only: unsigned_0 drop_bit_of_0 or.right_neutral)

section \<open>What the encoder writes\<close>

fun enc_idx :: "byte list \<Rightarrow> int option list" where
  "enc_idx [] = []"
| "enc_idx [a] = [Some (drop_bit 2 (uint a)), Some (push_bit 4 (uint a) AND 0x30), None, None]"
| "enc_idx [a, b] = [Some (drop_bit 2 (uint a)), Some ((push_bit 4 (uint a) AND 0x30) OR drop_bit 4 (uint b)),
     Some (push_bit 2 (uint b) AND 0x3C), None]"
| "enc_idx (a # b # c # r) = map Some (sextets3 a b c) @ enc_idx r"

definition idx_char :: "int option \<Rightarrow> byte" where
  "idx_char i = (case i of None \<Rightarrow> 61 | Some j \<Rightarrow> ch j)"

lemma idx_char_simps [simp]: "idx_char None = 61" "idx_char (Some j) = ch j"
  by (simp_all add: idx_char_def)

lemma length_enc_idx: "length (enc_idx v) = 4 * ((length v + 2) div 3)"
  by (induction v rule: enc_idx.induct) (simp_all add: sextets3_def, presburger)

definition six :: "int option \<Rightarrow> bool" where
  "six i \<longleftrightarrow> (case i of None \<Rightarrow> True | Some j \<Rightarrow> 0 \<le> j \<and> j < 64)"

lemma b64_puts_ok:
  "list_all six is \<Longrightarrow> length out + length is \<le> cap \<Longrightarrow> b64_puts cap out is = Inr (out @ map idx_char is)"
proof (induction "is" arbitrary: out)
  case (Cons i "is")
  then show ?case by (cases i) (simp_all add: b64_put_def six_def ch_props(6))
qed simp

lemma sextets3_six: "list_all six (map Some (sextets3 a b c))"
  by (simp add: sextets3_def six_def sextet_range)

lemma b64_enc_ok:
  "length out + length (enc_idx v) \<le> cap \<Longrightarrow>
    b64_enc cap (v @ rest) (int (length v)) out = Inr (out @ map idx_char (enc_idx v))"
proof (induction v arbitrary: out rule: enc_idx.induct)
  case 1
  show ?case by (subst b64_enc.simps) simp
next
  case (2 a)
  have "list_all six (enc_idx [a])" by (simp add: six_def sextet_range)
  note put = b64_puts_ok [OF this 2]
  show ?case by (subst b64_enc.simps) (simp add: Let_def put [unfolded enc_idx.simps] del: b64_puts.simps)
next
  case (3 a b)
  have "list_all six (enc_idx [a, b])" by (simp add: six_def sextet_range)
  note put = b64_puts_ok [OF this 3]
  show ?case by (subst b64_enc.simps) (simp add: Let_def put [unfolded enc_idx.simps] del: b64_puts.simps)
next
  case (4 a b c r)
  let ?g = "map Some (sextets3 a b c)"
  have len: "length ?g = 4" by (simp add: sextets3_def)
  then have "b64_puts cap out ?g = Inr (out @ map idx_char ?g)"
    using 4 by (intro b64_puts_ok sextets3_six) simp
  moreover have "b64_enc cap (r @ rest) (int (length r)) (out @ map idx_char ?g) =
      Inr ((out @ map idx_char ?g) @ map idx_char (enc_idx r))" using 4 len by (intro "4.IH") simp
  ultimately show ?case by (subst b64_enc.simps) simp
qed

section \<open>What the decoder reads\<close>

text \<open>One group of four characters.\<close>

lemma b64_dec_full:
  assumes "\<forall>i \<in> {i1, i2, i3, i4}. 0 \<le> i \<and> i < 64" and "length out + 3 \<le> cap"
  shows "b64_dec cap (ch i1 # ch i2 # ch i3 # ch i4 # r) out =
    b64_dec cap r (out @ [word_of_int (push_bit 2 i1 OR drop_bit 4 i2),
      word_of_int ((push_bit 4 i2 AND 0xF0) OR drop_bit 2 i3), word_of_int ((push_bit 6 i3 AND 0xC0) OR i4)])"
  using assms ch_props [of i1] ch_props [of i2] ch_props [of i3] ch_props [of i4]
  by (subst b64_dec.simps) (simp add: Let_def b64_put_def arr_get_def)

lemma b64_dec_two:
  assumes "\<forall>i \<in> {i1, i2, i3}. 0 \<le> i \<and> i < 64" and "length out + 2 \<le> cap"
  shows "b64_dec cap (ch i1 # ch i2 # ch i3 # 61 # r) out =
    b64_dec cap r (out @ [word_of_int (push_bit 2 i1 OR drop_bit 4 i2),
      word_of_int ((push_bit 4 i2 AND 0xF0) OR drop_bit 2 i3)])"
  using assms ch_props [of i1] ch_props [of i2] ch_props [of i3]
  by (subst b64_dec.simps) (simp add: Let_def b64_put_def arr_get_def)

lemma b64_dec_one:
  assumes "\<forall>i \<in> {i1, i2}. 0 \<le> i \<and> i < 64" and "length out + 1 \<le> cap"
  shows "b64_dec cap (ch i1 # ch i2 # 61 # 61 # r) out =
    b64_dec cap r (out @ [word_of_int (push_bit 2 i1 OR drop_bit 4 i2)])"
  using assms ch_props [of i1] ch_props [of i2]
  by (subst b64_dec.simps) (simp add: Let_def b64_put_def arr_get_def)

lemma b64_dec_ok:
  "length out + length v < cap \<Longrightarrow> b64_dec cap (map idx_char (enc_idx v) @ 0 # r) out = Inr (Some (out @ v))"
proof (induction v arbitrary: out rule: enc_idx.induct)
  case 1
  then show ?case by (subst b64_dec.simps) (simp add: b64_put_def)
next
  case (2 a)
  have "b64_dec cap (0 # r) (out @ [a]) = Inr (Some (out @ [a]))"
    using 2 by (subst b64_dec.simps) (simp add: b64_put_def)
  moreover note b64_dec_one [of "drop_bit 2 (uint a)" "push_bit 4 (uint a) AND 0x30" out cap "0 # r", unfolded joined_tail]
  ultimately show ?case using 2 by (simp add: sextet_range)
next
  case (3 a b)
  have "b64_dec cap (0 # r) (out @ [a, b]) = Inr (Some (out @ [a, b]))"
    using 3 by (subst b64_dec.simps) (simp add: b64_put_def)
  moreover note b64_dec_two [of "drop_bit 2 (uint a)" "(push_bit 4 (uint a) AND 0x30) OR drop_bit 4 (uint b)"
    "push_bit 2 (uint b) AND 0x3C" out cap "0 # r", unfolded joined_tail joined_first]
  ultimately show ?case using 3 by (simp add: sextet_range)
next
  case (4 a b c v)
  note b64_dec_full [of "drop_bit 2 (uint a)" "(push_bit 4 (uint a) AND 0x30) OR drop_bit 4 (uint b)"
    "(push_bit 2 (uint b) AND 0x3C) OR drop_bit 6 (uint c)" "uint c AND 0x3F" out cap
    "map idx_char (enc_idx v) @ 0 # r", unfolded joined_first joined_second joined_third]
  with 4 show ?case by (simp add: sextets3_def sextet_range)
qed

section \<open>Correctness\<close>

text \<open>
  C37.
  Encoding the first \<open>vlen\<close> bytes of a buffer and decoding the result gives these bytes back,
  and neither function writes past the buffer it allocates, as long as the buffer sizes do not
  overflow an int.
\<close>

theorem base64_roundtrip:
  assumes "12 * ((length v + 2) div 3) < 2 ^ 31"
  shows "\<exists>s. base64_encode (v @ rest) True (int (length v)) = Inr (s @ [0]) \<and>
    length s = 4 * ((length v + 2) div 3) \<and>
    base64_decode (s @ 0 # r) True (int (length s)) = Inr v"
proof (intro exI conjI)
  let ?s = "map idx_char (enc_idx v)" and ?n = "(length v + 2) div 3"
  have len: "length ?s = 4 * ?n" by (simp add: length_enc_idx)
  have n: "length v \<le> 3 * ?n" "3 * ?n \<le> length v + 2" by simp_all
  have a: "12 * ?n < 2147483648" using assms by simp
  then have "int (length v) * 4 < 2147483648" using n by linarith
  then have cap: "nat (to_int32 (int (length v) * 4) mod 2 ^ 64) div 3 + 10 = (length v * 4) div 3 + 10" (is "?cap = _")
    by simp
  have "4 * ?n < (length v * 4) div 3 + 10" using n by linarith
  then have "length ?s < ?cap" using cap len by linarith
  then show "base64_encode (v @ rest) True (int (length v)) = Inr (?s @ [0])"
    using b64_enc_ok [of "[]" v ?cap rest] by (simp add: base64_encode_def Let_def b64_put_def)
  show "length ?s = 4 * ?n" by (rule len)
  have "int (length ?s) * 3 < 2147483648" using a len by linarith
  then have cap': "nat (to_int32 (int (length ?s) * 3) mod 2 ^ 64) div 4 + 1 = 3 * ?n + 1" (is "?cap' = _")
    using len by simp
  then have "length v < ?cap'" using n by linarith
  then show "base64_decode (?s @ 0 # r) True (int (length ?s)) = Inr v"
    using b64_dec_ok [of "[]" v ?cap' r] by (simp add: base64_decode_def Let_def)
qed

theorem base64_roundtrip_witness:
  "\<exists>s. base64_encode [77, 97] True 2 = Inr (s @ [0]) \<and> length s = 4 \<and> base64_decode (s @ [0]) True 4 = Inr [77, 97]"
  using base64_roundtrip [of "[77, 97]" "[]" "[]"] by auto

text \<open>
  A character outside the alphabet makes the decoder free its buffer and then write to it.
\<close>

theorem base64_decode_invalid:
  assumes "CHAR64 (sint c) = -1" and "c \<noteq> 0" and "c \<noteq> 10" and "c \<noteq> 13"
  shows "base64_decode (c # r) True n = Inl Dangling"
  using assms by (simp add: base64_decode_def Let_def b64_dec.simps [of _ "c # r"])

theorem base64_decode_invalid_witness: "base64_decode [36, 0] True 1 = Inl Dangling"
proof -
  have "CHAR64 (sint (36 :: byte)) = -1" by code_simp
  from base64_decode_invalid [OF this] show ?thesis by simp
qed

end
