(* ===== verification/Crc32c.thy ===== *)
theory Crc32c
  imports CrcTable Bytes
begin

text \<open>
  The CRC-32C checksum of src/src/util/src/tcrc32c.c and the checksum interface of
  src/src/inc/tchecksum.h: the bitwise routine, the table routines that slice eight, twelve or sixteen
  bytes, and the routine on the crc32 instruction, which folds three streams with shift tables. The
  flag \<open>x64\<close> says whether \<open>_M_X64\<close> is defined, which the build does on a 64-bit machine: the
  registers are then 64 bits wide. A stream is the list of its bytes, its address a number, and
  memory is little-endian.
\<close>

section \<open>The routines\<close>

text \<open>Bit by bit; the register holds the complement of the remainder.\<close>

definition trivial_bit :: "32 word \<Rightarrow> 32 word" where
  "trivial_bit crc = drop_bit 1 crc XOR 0x80000000 XOR ((NOT crc AND 1) * word_of_int POLY)"

fun append_trivial :: "32 word \<Rightarrow> byte list \<Rightarrow> 32 word" where
  "append_trivial crc [] = crc"
| "append_trivial crc (b # bs) = append_trivial ((trivial_bit ^^ 8) (crc XOR ucast b)) bs"

text \<open>A table entry in a register, and the step of the loops over single bytes.\<close>

definition tab :: "int list list \<Rightarrow> nat \<Rightarrow> 'w::len word \<Rightarrow> 'w word" where
  "tab t k i = word_of_int (t ! k ! unat i)"

definition tab_byte :: "'w::len word \<Rightarrow> byte \<Rightarrow> 'w word" where
  "tab_byte crc b = tab crc_table 0 ((crc XOR ucast b) AND 0xff) XOR drop_bit 8 crc"

text \<open>Bytes up to an aligned address.\<close>

fun crc_align :: "nat \<Rightarrow> ('r \<Rightarrow> byte \<Rightarrow> 'r) \<Rightarrow> nat \<Rightarrow> 'r \<Rightarrow> byte list \<Rightarrow> 'r \<times> byte list" where
  "crc_align m upd next crc [] = (crc, [])"
| "crc_align m upd next crc (b # bs) =
     (if next mod m \<noteq> 0 then crc_align m upd (Suc next) (upd crc b) bs else (crc, b # bs))"

text \<open>The word at an offset.\<close>

definition stream_word :: "byte list \<Rightarrow> nat \<Rightarrow> 'w::len word" where
  "stream_word bs off = of_le_bytes (take (LENGTH('w) div 8) (drop off bs))"

definition slice8 :: "64 word \<Rightarrow> byte list \<Rightarrow> 64 word" where
  "slice8 crc0 bs =
     (let crc = crc0 XOR stream_word bs 0 in
      tab crc_table 7 (crc AND 0xff) XOR tab crc_table 6 (drop_bit 8 crc AND 0xff) XOR
      tab crc_table 5 (drop_bit 16 crc AND 0xff) XOR tab crc_table 4 (drop_bit 24 crc AND 0xff) XOR
      tab crc_table 3 (drop_bit 32 crc AND 0xff) XOR tab crc_table 2 (drop_bit 40 crc AND 0xff) XOR
      tab crc_table 1 (drop_bit 48 crc AND 0xff) XOR tab crc_table 0 (drop_bit 56 crc))"

definition slice16 :: "64 word \<Rightarrow> byte list \<Rightarrow> 64 word" where
  "slice16 crc0 bs =
     (let crc = crc0 XOR stream_word bs 0;
          high = stream_word bs 8 in
      tab crc_table 15 (crc AND 0xff) XOR tab crc_table 14 (drop_bit 8 crc AND 0xff) XOR
      tab crc_table 13 (drop_bit 16 crc AND 0xff) XOR tab crc_table 12 (drop_bit 24 crc AND 0xff) XOR
      tab crc_table 11 (drop_bit 32 crc AND 0xff) XOR tab crc_table 10 (drop_bit 40 crc AND 0xff) XOR
      tab crc_table 9 (drop_bit 48 crc AND 0xff) XOR tab crc_table 8 (drop_bit 56 crc) XOR
      tab crc_table 7 (high AND 0xff) XOR tab crc_table 6 (drop_bit 8 high AND 0xff) XOR
      tab crc_table 5 (drop_bit 16 high AND 0xff) XOR tab crc_table 4 (drop_bit 24 high AND 0xff) XOR
      tab crc_table 3 (drop_bit 32 high AND 0xff) XOR tab crc_table 2 (drop_bit 40 high AND 0xff) XOR
      tab crc_table 1 (drop_bit 48 high AND 0xff) XOR tab crc_table 0 (drop_bit 56 high))"

definition slice12 :: "32 word \<Rightarrow> byte list \<Rightarrow> 32 word" where
  "slice12 crc0 bs =
     (let crc = crc0 XOR stream_word bs 0;
          high = stream_word bs 4;
          high2 = stream_word bs 8 in
      tab crc_table 11 (crc AND 0xff) XOR tab crc_table 10 (drop_bit 8 crc AND 0xff) XOR
      tab crc_table 9 (drop_bit 16 crc AND 0xff) XOR tab crc_table 8 (drop_bit 24 crc) XOR
      tab crc_table 7 (high AND 0xff) XOR tab crc_table 6 (drop_bit 8 high AND 0xff) XOR
      tab crc_table 5 (drop_bit 16 high AND 0xff) XOR tab crc_table 4 (drop_bit 24 high) XOR
      tab crc_table 3 (high2 AND 0xff) XOR tab crc_table 2 (drop_bit 8 high2 AND 0xff) XOR
      tab crc_table 1 (drop_bit 16 high2 AND 0xff) XOR tab crc_table 0 (drop_bit 24 high2))"

text \<open>The loops \<open>while (length >= n)\<close> over blocks of \<open>n\<close> bytes.\<close>

function crc_blocks :: "nat \<Rightarrow> ('r \<Rightarrow> byte list \<Rightarrow> 'r) \<Rightarrow> 'r \<Rightarrow> byte list \<Rightarrow> 'r \<times> byte list" where
  "crc_blocks n block crc bs =
     (if 0 < n \<and> n \<le> length bs then crc_blocks n block (block crc bs) (drop n bs) else (crc, bs))"
  by pat_completeness auto
termination
  by (relation "measure (\<lambda>(n, block, crc, bs). length bs)") auto

declare crc_blocks.simps [simp del]

definition append_adler_table :: "32 word \<Rightarrow> nat \<Rightarrow> byte list \<Rightarrow> 32 word" where
  "append_adler_table crci addr input =
     (let (crc1, bs1) = crc_align 8 tab_byte addr (ucast (crci XOR 0xffffffff)) input;
          (crc2, bs2) = crc_blocks 8 slice8 crc1 bs1 in
      ucast (foldl tab_byte crc2 bs2 XOR 0xffffffff))"

definition crc32c_sf :: "bool \<Rightarrow> 32 word \<Rightarrow> nat \<Rightarrow> byte list \<Rightarrow> 32 word" where
  "crc32c_sf x64 crci addr input =
     (if x64 then
        let (crc1, bs1) = crc_align 8 tab_byte addr (ucast (crci XOR 0xffffffff)) input;
            (crc2, bs2) = crc_blocks 16 slice16 crc1 bs1 in
        ucast (foldl tab_byte crc2 bs2) XOR 0xffffffff
      else
        let (crc1, bs1) = crc_align 4 tab_byte addr (crci XOR 0xffffffff) input;
            (crc2, bs2) = crc_blocks 12 slice12 crc1 bs1 in
        foldl tab_byte crc2 bs2 XOR 0xffffffff)"

definition shift_crc :: "int list list \<Rightarrow> 32 word \<Rightarrow> 32 word" where
  "shift_crc shift_table crc =
     tab shift_table 0 (crc AND 0xff) XOR tab shift_table 1 (drop_bit 8 crc AND 0xff) XOR
     tab shift_table 2 (drop_bit 16 crc AND 0xff) XOR tab shift_table 3 (drop_bit 24 crc)"

definition LONG_SHIFT :: nat where "LONG_SHIFT = 8192"
definition SHORT_SHIFT :: nat where "SHORT_SHIFT = 256"

text \<open>
  The routine on the instruction. The intrinsics \<open>_mm_crc32_u8\<close>, \<open>_mm_crc32_u32\<close> and
  \<open>_mm_crc32_u64\<close> are parameters. The inner loop advances three streams a distance \<open>s\<close> apart.
\<close>

record sse42 =
  mm_crc32_u8 :: "32 word \<Rightarrow> byte \<Rightarrow> 32 word"
  mm_crc32_u32 :: "32 word \<Rightarrow> 32 word \<Rightarrow> 32 word"
  mm_crc32_u64 :: "64 word \<Rightarrow> 64 word \<Rightarrow> 64 word"

fun three_streams ::
    "('w word \<Rightarrow> 'w word \<Rightarrow> 'w word) \<Rightarrow> nat \<Rightarrow> nat \<Rightarrow> byte list \<Rightarrow> 'w::len word \<times> 'w word \<times> 'w word \<Rightarrow>
      'w word \<times> 'w word \<times> 'w word"
where
  "three_streams u s 0 bs c = c"
| "three_streams u s (Suc n) bs (crc0, crc1, crc2) =
     three_streams u s n (drop (LENGTH('w) div 8) bs)
       (u crc0 (stream_word bs 0), u crc1 (stream_word bs s), u crc2 (stream_word bs (2 * s)))"

definition hw_block ::
    "('w word \<Rightarrow> 'w word \<Rightarrow> 'w word) \<Rightarrow> int list list \<Rightarrow> nat \<Rightarrow> 'w::len word \<Rightarrow> byte list \<Rightarrow> 'w word"
where
  "hw_block u tbl s crc bs =
     (let (crc0, crc1, crc2) = three_streams u s (s div (LENGTH('w) div 8)) bs (crc, 0, 0);
          crc0 = ucast (shift_crc tbl (ucast crc0)) XOR crc1 in
      ucast (shift_crc tbl (ucast crc0)) XOR crc2)"

fun hw_words ::
    "('w word \<Rightarrow> 'w word \<Rightarrow> 'w word) \<Rightarrow> nat \<Rightarrow> 'w::len word \<Rightarrow> byte list \<Rightarrow> 'w word \<times> byte list"
where
  "hw_words u 0 crc bs = (crc, bs)"
| "hw_words u (Suc n) crc bs = hw_words u n (u crc (stream_word bs 0)) (drop (LENGTH('w) div 8) bs)"

definition hw_body ::
    "(32 word \<Rightarrow> byte \<Rightarrow> 32 word) \<Rightarrow> ('w word \<Rightarrow> 'w word \<Rightarrow> 'w word) \<Rightarrow> 'w::len word \<Rightarrow> nat \<Rightarrow> byte list \<Rightarrow> 32 word"
where
  "hw_body u8 u crc0 addr buf =
     (let byte = \<lambda>crc b. ucast (u8 (ucast crc) b);
          (crc1, bs1) = crc_align 8 byte addr crc0 buf;
          (crc2, bs2) = crc_blocks (3 * LONG_SHIFT) (hw_block u long_shifts LONG_SHIFT) crc1 bs1;
          (crc3, bs3) = crc_blocks (3 * SHORT_SHIFT) (hw_block u short_shifts SHORT_SHIFT) crc2 bs2;
          (crc4, bs4) = hw_words u ((length bs3 - length bs3 mod 8) div (LENGTH('w) div 8)) crc3 bs3 in
      ucast (foldl byte crc4 bs4) XOR 0xffffffff)"

definition crc32c_hw :: "sse42 \<Rightarrow> bool \<Rightarrow> 32 word \<Rightarrow> nat \<Rightarrow> byte list \<Rightarrow> 32 word" where
  "crc32c_hw m x64 crc addr buf =
     (if x64 then hw_body (mm_crc32_u8 m) (mm_crc32_u64 m) (ucast (crc XOR 0xffffffff)) addr buf
      else hw_body (mm_crc32_u8 m) (mm_crc32_u32 m) (crc XOR 0xffffffff) addr buf)"

text \<open>\<open>taosResolveCRC\<close> sets the function pointer \<open>crc32c\<close> by the processor's feature bit.\<close>

type_synonym crc_fn = "32 word \<Rightarrow> nat \<Rightarrow> byte list \<Rightarrow> 32 word"

definition taosResolveCRC :: "sse42 \<Rightarrow> bool \<Rightarrow> bool \<Rightarrow> crc_fn" where
  "taosResolveCRC m x64 sse42 = (if sse42 then crc32c_hw m x64 else crc32c_sf x64)"

text \<open>
  The interface of src/src/inc/tchecksum.h over the pointer, on a buffer of \<open>ssize\<close> bytes at an
  address. \<open>taosCalcChecksumAppend\<close> overwrites the last four bytes and returns -1 on a buffer that
  has no room for them.
\<close>

definition taosCalcChecksum :: "crc_fn \<Rightarrow> 32 word \<Rightarrow> nat \<Rightarrow> byte list \<Rightarrow> 32 word" where
  "taosCalcChecksum crc32c csi addr stream = crc32c csi addr stream"

definition taosCalcChecksumAppend :: "crc_fn \<Rightarrow> 32 word \<Rightarrow> nat \<Rightarrow> byte list \<Rightarrow> int \<times> byte list" where
  "taosCalcChecksumAppend crc32c csi addr stream =
     (if length stream < 4 then (- 1, stream)
      else let body = take (length stream - 4) stream in
        (0, body @ le_bytes 4 (crc32c csi addr body)))"

definition taosCheckChecksum :: "crc_fn \<Rightarrow> nat \<Rightarrow> byte list \<Rightarrow> 32 word \<Rightarrow> bool" where
  "taosCheckChecksum crc32c addr stream checksum \<longleftrightarrow> checksum = crc32c 0 addr stream"

definition taosCheckChecksumWhole :: "crc_fn \<Rightarrow> nat \<Rightarrow> byte list \<Rightarrow> bool" where
  "taosCheckChecksumWhole crc32c addr stream \<longleftrightarrow>
     4 \<le> length stream \<and>
     of_le_bytes (drop (length stream - 4) stream) = crc32c 0 addr (take (length stream - 4) stream)"

section \<open>The remainder\<close>

definition wstep :: "32 word \<Rightarrow> 32 word" where
  "wstep w = drop_bit 1 w XOR (if bit w 0 then word_of_int POLY else 0)"

abbreviation zeros :: "nat \<Rightarrow> 32 word \<Rightarrow> 32 word" where
  "zeros n \<equiv> wstep ^^ (8 * n)"

definition crc_upd :: "32 word \<Rightarrow> byte \<Rightarrow> 32 word" where
  "crc_upd c b = zeros 1 (c XOR ucast b)"

text \<open>
  What the processor manual says of the instructions: the remainder in the low 32 bits of the
  destination is carried over the bytes of the operand, and the other bits are cleared.
\<close>

definition crc_instr :: "('r::len word \<Rightarrow> 'w::len word \<Rightarrow> 'r word) \<Rightarrow> bool" where
  "crc_instr u \<longleftrightarrow> (\<forall>c w. u c w = ucast (foldl crc_upd (ucast c) (le_bytes (LENGTH('w) div 8) w)))"

definition sse42_ok :: "sse42 \<Rightarrow> bool" where
  "sse42_ok m \<longleftrightarrow> crc_instr (mm_crc32_u8 m) \<and> crc_instr (mm_crc32_u32 m) \<and> crc_instr (mm_crc32_u64 m)"

lemma wstep_xor: "wstep (a XOR b) = wstep a XOR wstep b"
  by (rule bit_word_eqI) (auto simp: wstep_def bit_xor_iff bit_drop_bit_eq)

lemma zeros_xor: "(wstep ^^ n) (a XOR b) = (wstep ^^ n) a XOR (wstep ^^ n) b"
  by (induction n) (simp_all add: wstep_xor)

lemma zeros_0 [simp]: "(wstep ^^ n) 0 = 0"
  by (induction n) (simp_all add: wstep_def)

lemma zeros_add: "zeros (m + n) x = zeros m (zeros n x)"
  by (simp add: distrib_left funpow_add)

text \<open>Bits that are shifted in from above come out unchanged.\<close>

lemma wstep_shift:
  assumes "\<not> bit x (31 - n)" and "n \<le> 31"
  shows "wstep (push_bit (Suc n) x) = push_bit n x"
proof (rule bit_word_eqI)
  fix k
  assume k: "k < LENGTH(32)"
  have "\<not> bit (push_bit (Suc n) x) 0" by (simp only: bit_push_bit_iff) simp
  then have "bit (wstep (push_bit (Suc n) x)) k \<longleftrightarrow> bit (push_bit (Suc n) x) (Suc k)"
    by (simp add: wstep_def bit_drop_bit_eq del: push_bit_Suc)
  also have "\<dots> \<longleftrightarrow> n \<le> k \<and> Suc k < 32 \<and> bit x (k - n)" by (simp only: bit_push_bit_iff) simp
  also have "\<dots> \<longleftrightarrow> bit (push_bit n x) k"
    using assms k by (cases "k = 31") (auto simp: bit_push_bit_iff)
  finally show "bit (wstep (push_bit (Suc n) x)) k \<longleftrightarrow> bit (push_bit n x) k" .
qed

lemma funpow_shift:
  "(\<And>m. 32 - n \<le> m \<Longrightarrow> \<not> bit x m) \<Longrightarrow> n \<le> 32 \<Longrightarrow> (wstep ^^ n) (push_bit n x) = x"
proof (induction n arbitrary: x)
  case (Suc n)
  have "wstep (push_bit (Suc n) x) = push_bit n x"
    using Suc.prems(1) [of "31 - n"] Suc.prems(2) by (intro wstep_shift) auto
  then have "(wstep ^^ Suc n) (push_bit (Suc n) x) = (wstep ^^ n) (push_bit n x)" by (simp only: funpow_Suc_right comp_apply)
  also have "\<dots> = x" using Suc.prems by (intro Suc.IH) auto
  finally show ?case .
qed simp

lemma byte_high: "x AND 0xff = (x :: 32 word) \<Longrightarrow> 8 \<le> m \<Longrightarrow> \<not> bit x m"
proof -
  assume "x AND 0xff = x" and "8 \<le> m"
  moreover have "(0xff :: 32 word) = mask 8" by (simp add: mask_eq_exp_minus_1)
  ultimately show ?thesis by (metis bit_and_iff bit_mask_iff not_less)
qed

lemma zeros_shift: "x AND 0xff = x \<Longrightarrow> j \<le> 3 \<Longrightarrow> zeros (n + j) (push_bit (8 * j) x) = zeros n x"
proof -
  assume "x AND 0xff = x" and "j \<le> 3"
  then have "zeros j (push_bit (8 * j) x) = x" using byte_high [of x] by (intro funpow_shift) auto
  then show ?thesis by (simp only: zeros_add)
qed


section \<open>The tables\<close>

lemma lin_xor: "lin vs (a XOR b) = lin vs a XOR lin vs b"
proof (induction vs arbitrary: a b)
  case (Cons v vs)
  have "(a XOR b) div 2 = (a div 2) XOR (b div 2)"
    using drop_bit_xor [of 1 a b] by (simp add: drop_bit_eq_div)
  moreover have "odd (a XOR b) \<longleftrightarrow> odd a \<noteq> odd b" by (simp add: even_xor_iff)
  ultimately show ?case using Cons.IH by (auto simp: xor.assoc xor.left_commute xor.commute)
qed simp

lemma lin_0 [simp]: "lin vs 0 = 0"
  by (induction vs) simp_all

lemma lin_map:
  assumes "\<And>a b. f (a XOR b) = f a XOR f b"
  shows "lin (map f vs) x = f (lin vs x)"
proof -
  have "f 0 = 0" using assms [of 0 0] by simp
  with assms show ?thesis by (induction vs arbitrary: x) simp_all
qed

lemma lin_powers: "lin (map (\<lambda>b. 2 ^ (m + b)) [0..<n]) x = push_bit m (take_bit n x)"
proof (induction n arbitrary: m x)
  case (Suc n)
  have "map (\<lambda>b. 2 ^ (m + b)) [0..<Suc n] = 2 ^ m # map (\<lambda>b. (2::int) ^ (Suc m + b)) [0..<n]"
  proof -
    have "[0..<Suc n] = 0 # map Suc [0..<n]" by (simp add: map_Suc_upt upt_conv_Cons del: upt_Suc)
    then show ?thesis by (simp add: comp_def)
  qed
  then have "lin (map (\<lambda>b. 2 ^ (m + b)) [0..<Suc n]) x =
      (if odd x then 2 ^ m XOR push_bit (Suc m) (take_bit n (x div 2)) else push_bit (Suc m) (take_bit n (x div 2)))"
    by (simp only: lin.simps Suc.IH)
  also have "\<dots> = push_bit m (take_bit (Suc n) x)"
  proof (rule bit_eqI)
    fix k
    show "bit (if odd x then 2 ^ m XOR push_bit (Suc m) (take_bit n (x div 2)) else push_bit (Suc m) (take_bit n (x div 2))) k =
        bit (push_bit m (take_bit (Suc n) x)) k"
    proof (cases "k \<le> m")
      case True
      then show ?thesis by (auto simp: bit_xor_iff bit_push_bit_iff bit_take_bit_iff bit_exp_iff bit_0 simp del: push_bit_Suc)
    next
      case False
      then obtain d where k: "k = Suc (m + d)" by (metis less_iff_Suc_add not_le)
      have "bit (x div 2) d \<longleftrightarrow> bit x (Suc d)" by (simp add: bit_Suc)
      with k show ?thesis
        by (simp add: bit_xor_iff bit_push_bit_iff bit_take_bit_iff bit_exp_iff del: push_bit_Suc take_bit_Suc)
    qed
  qed
  finally show ?case .
qed simp


lemma length_expand [simp]: "length (expand vs) = 2 ^ length vs"
  by (induction vs) (simp_all add: length_concat comp_def sum_list_triv)

lemma nth_pairs: "i < 2 * length xs \<Longrightarrow> concat (map (\<lambda>x. [f x, g x]) xs) ! i = (if odd i then g else f) (xs ! (i div 2))"
proof (induction xs arbitrary: i)
  case (Cons x xs)
  then show ?case by (cases i rule: nat.exhaust; cases "i - 1"; cases "i - 2") (auto simp: less_Suc_eq_0_disj)
qed simp

lemma nth_expand: "i < 2 ^ length vs \<Longrightarrow> expand vs ! i = lin vs (int i)"
proof (induction vs arbitrary: i)
  case (Cons v vs)
  then have "i div 2 < 2 ^ length vs" by (simp add: div_less_iff_less_mult mult.commute)
  moreover have "int i div 2 = int (i div 2)" by (simp add: zdiv_int)
  ultimately show ?case using Cons by (simp add: nth_pairs)
qed simp

text \<open>The steps on integers.\<close>

lemma istep_xor: "istep (a XOR b) = istep a XOR istep b"
  using drop_bit_xor [of 1 a b] by (auto simp: istep_def drop_bit_eq_div even_xor_iff ac_simps)

lemma ibyte_xor: "ibyte (a XOR b) = ibyte a XOR ibyte b"
  by (simp add: ibyte_def istep_xor)

lemma ibyte_pow_xor: "(ibyte ^^ n) (a XOR b) = (ibyte ^^ n) a XOR (ibyte ^^ n) b"
  by (induction n) (simp_all add: ibyte_xor)

lemma uint_wstep: "uint (wstep w) = istep (uint w)"
proof -
  have "uint (word_of_int POLY :: 32 word) = POLY" by (simp add: POLY_def)
  moreover have "bit w 0 \<longleftrightarrow> odd (uint w)" by (simp only: bit_uint_iff flip: bit_0) simp
  moreover have "uint (drop_bit 1 w) = uint w div 2" by (simp add: drop_bit_eq_div uint_div_distrib)
  ultimately show ?thesis by (simp add: wstep_def istep_def unsigned_xor_eq)
qed

lemma uint_zeros: "uint (zeros n w) = (ibyte ^^ n) (uint w)"
proof (induction n)
  case (Suc n)
  have "zeros (Suc n) w = (wstep ^^ 8) (zeros n w)" by (simp add: funpow_add)
  moreover have "uint ((wstep ^^ 8) v) = ibyte (uint v)" for v
    by (simp add: ibyte_def eval_nat_numeral uint_wstep)
  ultimately show ?case using Suc by simp
qed simp

lemma lin_crc_unit: "lin crc_unit x = take_bit 8 x"
proof -
  have "crc_unit = map (\<lambda>b. 2 ^ (0 + b)) [0..<8]" by (simp add: crc_unit_def upt_rec)
  then show ?thesis using lin_powers [of 0 8 x] by simp
qed


definition crc_bases :: "int list list" where
  "crc_bases = [crc_basis_0, crc_basis_1, crc_basis_2, crc_basis_3, crc_basis_4, crc_basis_5, crc_basis_6, crc_basis_7, crc_basis_8, crc_basis_9, crc_basis_10, crc_basis_11, crc_basis_12, crc_basis_13, crc_basis_14, crc_basis_15]"

lemmas crc_base_eqs = crc_base_0 crc_base_1 crc_base_2 crc_base_3 crc_base_4 crc_base_5 crc_base_6 crc_base_7 crc_base_8 crc_base_9 crc_base_10 crc_base_11 crc_base_12 crc_base_13 crc_base_14 crc_base_15
lemmas crc_row_eqs = crc_row_0 crc_row_1 crc_row_2 crc_row_3 crc_row_4 crc_row_5 crc_row_6 crc_row_7 crc_row_8 crc_row_9 crc_row_10 crc_row_11 crc_row_12 crc_row_13 crc_row_14 crc_row_15

lemma crc_bases_eq: "crc_bases = map (\<lambda>k. map (ibyte ^^ Suc k) crc_unit) [0..<16]"
  by (simp add: crc_bases_def crc_base_eqs upt_rec comp_def numeral_nat)

lemma crc_table_eq: "crc_table = map expand crc_bases"
  by (simp add: crc_table_def crc_bases_def crc_row_eqs)

text \<open>Entry \<open>i\<close> of row \<open>k\<close> is \<open>i\<close> followed by \<open>k + 1\<close> zero bytes.\<close>

lemma take_bit_byte:
  assumes "i AND 0xff = (i :: 32 word)"
  shows "take_bit 8 (uint i) = uint i" and "unat i < 256" and "int (unat i) = uint i"
proof -
  have "i AND 0xff = take_bit 8 i" by (simp add: take_bit_eq_mask mask_eq_exp_minus_1)
  with assms have t: "take_bit 8 i = i" by simp
  have "take_bit 8 (uint i) = uint (take_bit 8 i)" by (simp only: unsigned_take_bit_eq)
  then show b: "take_bit 8 (uint i) = uint i" unfolding t .
  show u: "int (unat i) = uint i" by simp
  have "take_bit 8 (uint i) < 256" using take_bit_int_less_exp [of 8 "uint i"] by simp
  then show "unat i < 256" using u unfolding b by linarith
qed

lemma crc_entry:
  assumes "k < 16" and "i AND 0xff = (i :: 32 word)"
  shows "crc_table ! k ! unat i = uint (zeros (Suc k) i)"
proof -
  have i: "take_bit 8 (uint i) = uint i" "unat i < 2 ^ length crc_unit" "int (unat i) = uint i"
    using take_bit_byte [OF assms(2)] by (simp_all add: crc_unit_def)
  have "crc_table ! k = expand (map (ibyte ^^ Suc k) crc_unit)"
    using assms(1) by (simp add: crc_table_eq crc_bases_eq)
  then have "crc_table ! k ! unat i = lin (map (ibyte ^^ Suc k) crc_unit) (uint i)" using i by (simp add: nth_expand)
  also have "\<dots> = (ibyte ^^ Suc k) (uint i)" using i(1) lin_map [of "ibyte ^^ Suc k", OF ibyte_pow_xor] by (simp add: lin_crc_unit)
  also have "\<dots> = uint (zeros (Suc k) i)" by (rule uint_zeros [symmetric])
  finally show ?thesis .
qed

lemma tab_crc_table: "k < 16 \<Longrightarrow> i AND 0xff = (i :: 32 word) \<Longrightarrow> tab crc_table k i = zeros (Suc k) i"
  by (simp add: tab_def crc_entry del: mult_Suc_right)

section \<open>Bytes and words\<close>

lemma mask8: "(0xff :: 32 word) = mask 8"
  by (simp add: mask_eq_exp_minus_1)

lemma byte_and [simp]: "(x AND 0xff) AND 0xff = (x AND 0xff :: 32 word)" "ucast (b :: byte) AND 0xff = (ucast b :: 32 word)"
proof -
  show "(x AND 0xff) AND 0xff = (x AND 0xff :: 32 word)" by (simp add: and.assoc)
  show "ucast b AND 0xff = (ucast b :: 32 word)"
    unfolding mask8 by (intro bit_word_eqI) (auto simp: bit_and_iff bit_mask_iff bit_ucast_iff dest: bit_imp_le_length)
qed

lemma top_byte [simp]: "drop_bit 24 x AND 0xff = drop_bit 24 (x :: 32 word)"
  unfolding mask8 by (intro bit_word_eqI) (auto simp: bit_and_iff bit_mask_iff bit_drop_bit_eq dest: bit_imp_le_length)

lemma word_bytes:
  "x = (x AND 0xff) XOR push_bit 8 (drop_bit 8 x AND 0xff) XOR push_bit 16 (drop_bit 16 x AND 0xff) XOR
    push_bit 24 (drop_bit 24 (x :: 32 word))"
proof (rule bit_word_eqI)
  fix n
  assume n: "n < LENGTH(32)"
  consider "n < 8" | "8 \<le> n" "n < 16" | "16 \<le> n" "n < 24" | "24 \<le> n" by linarith
  then show "bit x n \<longleftrightarrow> bit ((x AND 0xff) XOR push_bit 8 (drop_bit 8 x AND 0xff) XOR push_bit 16 (drop_bit 16 x AND 0xff) XOR
      push_bit 24 (drop_bit 24 x)) n"
    using n unfolding mask8 by cases (auto simp: bit_xor_iff bit_and_iff bit_push_bit_iff bit_drop_bit_eq bit_mask_iff)
qed

text \<open>Zero bytes after a word, by its four bytes.\<close>

lemma zeros_word:
  "zeros (n + 4) x = zeros (n + 4) (x AND 0xff) XOR zeros (n + 3) (drop_bit 8 x AND 0xff) XOR
    zeros (n + 2) (drop_bit 16 x AND 0xff) XOR zeros (n + 1) (drop_bit 24 x)"
proof -
  have "zeros (n + 4) x = zeros (n + 4) ((x AND 0xff) XOR push_bit 8 (drop_bit 8 x AND 0xff) XOR
      push_bit 16 (drop_bit 16 x AND 0xff) XOR push_bit 24 (drop_bit 24 x))"
    using word_bytes [of x] by simp
  then show ?thesis
    using zeros_shift [of "drop_bit 8 x AND 0xff" 1 "n + 3"] zeros_shift [of "drop_bit 16 x AND 0xff" 2 "n + 2"]
      zeros_shift [of "drop_bit 24 x" 3 "n + 1"]
    by (simp add: zeros_xor ac_simps)
qed


lemma drop_bit_8_ucast [simp]: "drop_bit 8 (c XOR ucast (b :: byte)) = drop_bit 8 (c :: 32 word)"
  by (rule bit_word_eqI) (auto simp: bit_drop_bit_eq bit_xor_iff bit_ucast_iff dest: bit_imp_le_length)

lemma low_byte: "x = (x AND 0xff) XOR push_bit 8 (drop_bit 8 (x :: 32 word))"
proof (rule bit_word_eqI)
  fix n
  assume "n < LENGTH(32)"
  then show "bit x n \<longleftrightarrow> bit ((x AND 0xff) XOR push_bit 8 (drop_bit 8 x)) n"
    unfolding mask8 by (cases "n < 8") (auto simp: bit_xor_iff bit_and_iff bit_mask_iff bit_push_bit_iff bit_drop_bit_eq)
qed

lemma zeros_1_high: "zeros 1 (push_bit 8 (drop_bit 8 x)) = drop_bit 8 (x :: 32 word)"
proof -
  have "\<not> bit (drop_bit 8 x) m" if "32 - 8 \<le> m" for m using that by (auto simp: bit_drop_bit_eq dest: bit_imp_le_length)
  then show ?thesis using funpow_shift [of 8 "drop_bit 8 x"] by simp
qed

lemma tab_byte_eq: "tab_byte = crc_upd"
proof (intro ext)
  fix c :: "32 word" and b :: byte
  let ?x = "c XOR ucast b"
  have "zeros 1 ?x = zeros 1 ((?x AND 0xff) XOR push_bit 8 (drop_bit 8 ?x))" by (rule arg_cong [OF low_byte])
  also have "\<dots> = zeros 1 (?x AND 0xff) XOR drop_bit 8 ?x" by (simp only: zeros_xor [of "8 * 1"] zeros_1_high)
  also have "zeros 1 (?x AND 0xff) = tab crc_table 0 (?x AND 0xff)"
    using tab_crc_table [of 0 "?x AND 0xff"] by (simp only: byte_and One_nat_def zero_less_numeral)
  also have "drop_bit 8 ?x = drop_bit 8 c" by (rule drop_bit_8_ucast)
  finally show "tab_byte c b = crc_upd c b" by (simp only: tab_byte_def crc_upd_def)
qed

lemma of_le_bytes_high: "8 * length bs \<le> m \<Longrightarrow> \<not> bit (of_le_bytes bs :: 32 word) m"
  by (simp add: bit_of_le_bytes) (metis div_le_mono div_mult_self_is_m less_le_not_le not_less zero_less_numeral mult.commute)

lemma crc_le:
  assumes "length bs \<le> 4"
  shows "foldl crc_upd c bs = zeros (length bs) (c XOR of_le_bytes bs)"
  using assms
proof (induction bs arbitrary: c)
  case (Cons b bs)
  let ?w = "of_le_bytes bs :: 32 word"
  have z: "(wstep ^^ 8) (push_bit 8 ?w) = ?w"
    using funpow_shift [of 8 ?w] of_le_bytes_high [of bs] Cons.prems by simp
  have "of_le_bytes (b # bs) = (ucast b XOR push_bit 8 ?w :: 32 word)"
    by (rule bit_word_eqI) (auto simp: bit_or_iff bit_xor_iff bit_push_bit_iff bit_ucast_iff dest: bit_imp_le_length)
  then have "zeros (length (b # bs)) (c XOR of_le_bytes (b # bs)) = zeros (length bs + 1) (c XOR ucast b XOR push_bit 8 ?w)"
    by (simp add: xor.assoc)
  also have "\<dots> = zeros (length bs) (zeros 1 (c XOR ucast b) XOR ?w)"
    unfolding zeros_add by (simp only: zeros_xor [of 8] z mult_1_right xor.assoc)
  also have "\<dots> = foldl crc_upd c (b # bs)" using Cons.IH [of "crc_upd c b"] Cons.prems by (simp add: crc_upd_def [of c b])
  finally show ?case by simp
qed simp

lemma foldl_take4: "4 \<le> length bs \<Longrightarrow> foldl crc_upd c bs = foldl crc_upd (zeros 4 (c XOR stream_word bs 0)) (drop 4 bs)"
  using crc_le [of "take 4 bs" c] by (subst append_take_drop_id [of 4 bs, symmetric]) (simp only: foldl_append, simp add: stream_word_def)

lemma stream_word_drop: "stream_word (drop n bs) m = stream_word bs (n + m)"
  by (simp add: stream_word_def add.commute)

lemma zeros_tab:
  assumes "n < 13"
  shows "tab crc_table (n + 3) (x AND 0xff) XOR tab crc_table (n + 2) (drop_bit 8 x AND 0xff) XOR
    tab crc_table (n + 1) (drop_bit 16 x AND 0xff) XOR tab crc_table n (drop_bit 24 x) = zeros (n + 4) x"
proof -
  have "Suc (n + 3) = n + 4" "Suc (n + 2) = n + 3" "Suc (n + 1) = n + 2" "Suc n = n + 1" by simp_all
  with assms zeros_word [of n x] show ?thesis by (simp only: tab_crc_table byte_and top_byte)
qed

lemma zeros_rows:
  "tab crc_table 11 (x AND 0xff) XOR tab crc_table 10 (drop_bit 8 x AND 0xff) XOR
    tab crc_table 9 (drop_bit 16 x AND 0xff) XOR tab crc_table 8 (drop_bit 24 x) = zeros 12 x"
  "tab crc_table 7 (x AND 0xff) XOR tab crc_table 6 (drop_bit 8 x AND 0xff) XOR
    tab crc_table 5 (drop_bit 16 x AND 0xff) XOR tab crc_table 4 (drop_bit 24 x) = zeros 8 x"
  "tab crc_table 3 (x AND 0xff) XOR tab crc_table 2 (drop_bit 8 x AND 0xff) XOR
    tab crc_table 1 (drop_bit 16 x AND 0xff) XOR tab crc_table 0 (drop_bit 24 x) = zeros 4 x"
  using zeros_tab [of 8 x] zeros_tab [of 4 x] zeros_tab [of 0 x] by (simp_all add: numeral_2_eq_2)

lemma slice12_ok:
  assumes "12 \<le> length bs"
  shows "foldl crc_upd c bs = foldl crc_upd (slice12 c bs) (drop 12 bs)"
proof -
  let ?w = "stream_word bs"
  have "foldl crc_upd c bs = foldl crc_upd (zeros 4 (zeros 4 (zeros 4 (c XOR ?w 0) XOR ?w 4) XOR ?w 8)) (drop 12 bs)"
    using assms by (simp add: foldl_take4 [of bs] foldl_take4 [of "drop 4 bs"] foldl_take4 [of "drop 8 bs"] stream_word_drop)
  also have "zeros 4 (zeros 4 (zeros 4 (c XOR ?w 0) XOR ?w 4) XOR ?w 8) =
      zeros 12 (c XOR ?w 0) XOR zeros 8 (?w 4) XOR zeros 4 (?w 8)"
    using zeros_add [of 4 4] zeros_add [of 4 8] by (simp add: zeros_xor xor.assoc)
  also have "\<dots> = slice12 c bs" by (simp only: slice12_def Let_def xor.assoc flip: zeros_rows)
  finally show ?thesis .
qed


section \<open>The loops\<close>

text \<open>A loop carries the remainder over a prefix of the stream.\<close>

definition adv :: "32 word \<Rightarrow> byte list \<Rightarrow> 'w::len word \<times> byte list \<Rightarrow> bool" where
  "adv c bs r \<longleftrightarrow> (\<exists>c'. fst r = ucast c' \<and> foldl crc_upd c' (snd r) = foldl crc_upd c bs)"

lemma crc_align_adv:
  assumes "\<And>c b. upd (ucast c) b = (ucast (crc_upd c b) :: 'w::len word)"
  shows "adv c bs (crc_align m upd a (ucast c :: 'w word) bs)"
  by (induction bs arbitrary: a c) (auto simp: adv_def assms)

lemma crc_blocks_adv:
  assumes "\<And>c bs. n \<le> length bs \<Longrightarrow> \<exists>c'. block (ucast c) bs = (ucast c' :: 'w::len word) \<and> foldl crc_upd c' (drop n bs) = foldl crc_upd c bs"
  shows "adv c bs (crc_blocks n block (ucast c :: 'w word) bs)"
proof (induction "length bs" arbitrary: c bs rule: less_induct)
  case less
  show ?case
  proof (cases "0 < n \<and> n \<le> length bs")
    case True
    then obtain c' where c': "block (ucast c) bs = (ucast c' :: 'w word)" "foldl crc_upd c' (drop n bs) = foldl crc_upd c bs"
      using assms by blast
    have "adv c' (drop n bs) (crc_blocks n block (ucast c' :: 'w word) (drop n bs))" using True by (intro less) auto
    then show ?thesis using c' True by (simp add: adv_def crc_blocks.simps [of n block "ucast c" bs])
  next
    case False
    then show ?thesis by (auto simp: adv_def crc_blocks.simps [of n block "ucast c" bs])
  qed
qed

lemma xor_ones: "x XOR 0xffffffff = NOT (x :: 32 word)"
proof -
  have "(0xffffffff :: 32 word) = - 1" by simp
  then show ?thesis by (simp only:) (rule bit_word_eqI, simp add: bit_xor_iff bit_not_iff)
qed

text \<open>The bitwise routine keeps the complement.\<close>

lemma drop_bit_1_not: "drop_bit 1 (NOT w) XOR 0x80000000 = NOT (drop_bit 1 (w :: 32 word))"
proof (rule bit_word_eqI)
  fix n
  assume n: "n < LENGTH(32)"
  have "(0x80000000 :: 32 word) = push_bit 31 1" by simp
  then have "bit (0x80000000 :: 32 word) n \<longleftrightarrow> n = 31"
    by (simp only: bit_push_bit_iff bit_1_iff) auto
  with n show "bit (drop_bit 1 (NOT w) XOR 0x80000000) n \<longleftrightarrow> bit (NOT (drop_bit 1 w)) n"
    by (simp only: bit_xor_iff bit_drop_bit_eq bit_not_iff comp_apply possible_bit_word)
      (auto dest: bit_imp_le_length)
qed

lemma trivial_bit_eq: "trivial_bit (NOT w) = NOT (wstep w)"
proof -
  have "NOT (NOT w) AND 1 = (if bit w 0 then 1 else 0)"
    by (simp add: and_one_eq mod_2_eq_odd bit_0)
  then have "trivial_bit (NOT w) = NOT (drop_bit 1 w) XOR (if bit w 0 then word_of_int POLY else 0)"
    unfolding trivial_bit_def drop_bit_1_not xor.assoc [symmetric] by (cases "bit w 0") (simp_all del: bit_0)
  also have "\<dots> = NOT (wstep w)"
    by (rule bit_word_eqI) (simp add: wstep_def bit_xor_iff bit_not_iff del: drop_bit_xor)
  finally show ?thesis .
qed

lemma trivial_bits: "(trivial_bit ^^ n) (NOT w) = NOT ((wstep ^^ n) w)"
  by (induction n) (simp_all add: trivial_bit_eq)

lemma append_trivial_eq: "append_trivial (NOT c) bs = NOT (foldl crc_upd c bs)"
proof (induction bs arbitrary: c)
  case (Cons b bs)
  have "NOT c XOR ucast b = NOT (c XOR ucast b)"
    by (rule bit_word_eqI) (simp add: bit_xor_iff bit_not_iff)
  then show ?case using Cons trivial_bits [of 8 "c XOR ucast b"] by (simp add: crc_upd_def)
qed simp


section \<open>Registers of 64 bits\<close>

lemma and_ff: "x AND 0xff = (take_bit 8 x :: 32 word)" "y AND 0xff = (take_bit 8 y :: 64 word)"
  by (simp_all add: take_bit_eq_mask mask_eq_exp_minus_1)

lemma tab_64:
  assumes "k < 16"
  shows "tab crc_table k (x AND 0xff :: 64 word) = ucast (tab crc_table k (ucast x AND 0xff :: 32 word))"
proof -
  have u: "unat (x AND 0xff) = unat (ucast x AND 0xff :: 32 word)"
    by (simp only: and_ff unsigned_take_bit_eq unsigned_ucast_eq) (simp add: take_bit_take_bit)
  have "crc_table ! k ! unat (ucast x AND 0xff :: 32 word) = uint (zeros (Suc k) (ucast x AND 0xff :: 32 word))"
    using assms by (intro crc_entry) simp_all
  then show ?thesis unfolding tab_def u by simp
qed

lemma byte_half: "m \<le> 24 \<Longrightarrow> ucast (drop_bit m (x :: 64 word)) AND 0xff = (drop_bit m (ucast x) AND 0xff :: 32 word)"
  unfolding and_ff by (rule bit_word_eqI) (auto simp: bit_take_bit_iff bit_drop_bit_eq bit_ucast_iff)

lemma zeros_tab_64:
  assumes "n < 13"
  shows "tab crc_table (n + 3) (x AND 0xff) XOR tab crc_table (n + 2) (drop_bit 8 x AND 0xff) XOR
    tab crc_table (n + 1) (drop_bit 16 x AND 0xff) XOR tab crc_table n (drop_bit 24 x AND 0xff) =
    (ucast (zeros (n + 4) (ucast x)) :: 64 word)"
proof -
  have "ucast (drop_bit 24 x) AND 0xff = (drop_bit 24 (ucast x) :: 32 word)"
    using byte_half [of 24 x] top_byte [of "ucast x"] by simp
  with assms show ?thesis
    by (simp only: tab_64 byte_half flip: zeros_tab) (simp add: tab_64 byte_half unsigned_xor_eq)
qed

lemma top_byte_64: "drop_bit 56 x AND 0xff = drop_bit 56 (x :: 64 word)"
  unfolding and_ff by (rule bit_word_eqI) (auto simp: bit_take_bit_iff bit_drop_bit_eq dest: bit_imp_le_length)

text \<open>Eight table entries take a 64-bit register over its bytes.\<close>

definition row8 :: "nat \<Rightarrow> 64 word \<Rightarrow> 64 word" where
  "row8 n x = tab crc_table (n + 7) (x AND 0xff) XOR tab crc_table (n + 6) (drop_bit 8 x AND 0xff) XOR
    tab crc_table (n + 5) (drop_bit 16 x AND 0xff) XOR tab crc_table (n + 4) (drop_bit 24 x AND 0xff) XOR
    tab crc_table (n + 3) (drop_bit 32 x AND 0xff) XOR tab crc_table (n + 2) (drop_bit 40 x AND 0xff) XOR
    tab crc_table (n + 1) (drop_bit 48 x AND 0xff) XOR tab crc_table n (drop_bit 56 x)"

lemma row8_eq:
  assumes "n < 9"
  shows "row8 n x = ucast (zeros (n + 8) (ucast x) XOR zeros (n + 4) (ucast (drop_bit 32 x)))"
proof -
  have n: "n + 4 + 3 = n + 7" "n + 4 + 2 = n + 6" "n + 4 + 1 = n + 5" "n + 4 + 4 = n + 8" by simp_all
  have d: "drop_bit 8 (drop_bit 32 x) = drop_bit 40 x" "drop_bit 16 (drop_bit 32 x) = drop_bit 48 x"
    "drop_bit 24 (drop_bit 32 x) AND 0xff = drop_bit 56 x" by (simp_all add: drop_bit_drop_bit top_byte_64)
  show ?thesis
    using zeros_tab_64 [of "n + 4" x] zeros_tab_64 [of n "drop_bit 32 x"] assms
    by (simp only: row8_def unsigned_xor_eq n d flip: xor.assoc)
qed

lemma tab_byte_64: "tab_byte (ucast c) b = (ucast (crc_upd c b) :: 64 word)"
proof -
  have "ucast (ucast c XOR ucast b :: 64 word) AND 0xff = ((c XOR ucast b) AND 0xff :: 32 word)"
    unfolding and_ff by (rule bit_word_eqI) (auto simp: bit_take_bit_iff bit_xor_iff bit_ucast_iff)
  moreover have "drop_bit 8 (ucast c) = (ucast (drop_bit 8 c) :: 64 word)"
    by (rule bit_word_eqI) (auto simp: bit_drop_bit_eq bit_ucast_iff dest: bit_imp_le_length)
  ultimately have "tab_byte (ucast c) b = (ucast (tab_byte c b) :: 64 word)"
    by (simp only: tab_byte_def tab_64 unsigned_xor_eq zero_less_numeral)
  then show ?thesis by (simp only: tab_byte_eq)
qed

lemma stream_word_64:
  assumes "n + 8 \<le> length bs"
  shows "(ucast (stream_word bs n :: 64 word) :: 32 word) = stream_word bs n"
    and "(ucast (drop_bit 32 (stream_word bs n :: 64 word)) :: 32 word) = stream_word bs (n + 4)"
proof -
  have "(32 + k) div 8 = 4 + k div 8" "(32 + k) mod 8 = k mod 8" for k :: nat by presburger+
  with assms show "(ucast (stream_word bs n :: 64 word) :: 32 word) = stream_word bs n"
    and "(ucast (drop_bit 32 (stream_word bs n :: 64 word)) :: 32 word) = stream_word bs (n + 4)"
    by (auto intro!: bit_word_eqI simp: stream_word_def bit_ucast_iff bit_drop_bit_eq bit_of_le_bytes add.assoc)
qed

section \<open>The shift tables\<close>

lemma lin_take: "lin (take n vs) x = lin vs (take_bit n x)"
proof (induction vs arbitrary: n x)
  case (Cons v vs)
  then show ?case by (cases n) (simp_all add: take_bit_Suc bit_0)
qed simp

lemma lin_drop: "lin (drop n vs) x = lin vs (push_bit n x)"
proof (induction n arbitrary: vs)
  case (Suc n)
  then show ?case by (cases vs) (simp_all add: push_bit_double)
qed simp

definition zeros_op :: "nat \<Rightarrow> int list \<Rightarrow> bool" where
  "zeros_op m vs \<longleftrightarrow> length vs = 32 \<and> (\<forall>w :: 32 word. lin vs (uint w) = uint (zeros m w))"

lemma zeros_op_base: "zeros_op 1 crc_zeros_0"
proof -
  have eq: "crc_zeros_0 = map ibyte (map (\<lambda>b. 2 ^ (0 + b)) [0..<32])" by (simp only: crc_zeros_base map_map comp_def add_0)
  have "lin crc_zeros_0 (uint w) = uint (zeros 1 w)" for w :: "32 word"
  proof -
    have "take_bit 32 w = w" by (simp add: take_bit_word_eq_self)
    then have "take_bit 32 (uint w) = uint w" by (metis unsigned_take_bit_eq)
    then have "lin crc_zeros_0 (uint w) = ibyte (uint w)"
      unfolding eq by (simp only: lin_map [of ibyte, OF ibyte_xor] lin_powers push_bit_0_id id_apply)
    then show ?thesis using uint_zeros [of 1 w] by simp
  qed
  moreover have "length crc_zeros_0 = 32" by (simp only: eq length_map length_upt diff_zero)
  ultimately show ?thesis by (simp add: zeros_op_def)
qed

lemma zeros_op_sq: "zeros_op m vs \<Longrightarrow> vs' = map (lin vs) vs \<Longrightarrow> zeros_op (m + m) vs'"
  unfolding zeros_op_def zeros_add by (simp add: lin_map lin_xor)

lemmas zeros_op_rows =
  zeros_op_base zeros_op_sq [OF _ crc_zeros_sq_1] zeros_op_sq [OF _ crc_zeros_sq_2]
  zeros_op_sq [OF _ crc_zeros_sq_3] zeros_op_sq [OF _ crc_zeros_sq_4] zeros_op_sq [OF _ crc_zeros_sq_5]
  zeros_op_sq [OF _ crc_zeros_sq_6] zeros_op_sq [OF _ crc_zeros_sq_7] zeros_op_sq [OF _ crc_zeros_sq_8]
  zeros_op_sq [OF _ crc_zeros_sq_9] zeros_op_sq [OF _ crc_zeros_sq_10] zeros_op_sq [OF _ crc_zeros_sq_11]
  zeros_op_sq [OF _ crc_zeros_sq_12] zeros_op_sq [OF _ crc_zeros_sq_13]

lemma zeros_op_short: "zeros_op SHORT_SHIFT crc_zeros_8"
proof -
  have "\<exists>m. m = SHORT_SHIFT \<and> zeros_op m crc_zeros_8"
    by (rule exI, rule conjI [rotated], (rule zeros_op_rows)+) (simp add: SHORT_SHIFT_def)
  then show ?thesis by simp
qed

lemma zeros_op_long: "zeros_op LONG_SHIFT crc_zeros_13"
proof -
  have "\<exists>m. m = LONG_SHIFT \<and> zeros_op m crc_zeros_13"
    by (rule exI, rule conjI [rotated], (rule zeros_op_rows)+) (simp add: LONG_SHIFT_def)
  then show ?thesis by simp
qed

lemma uint_push_byte:
  assumes "j \<le> 3"
  shows "uint (push_bit (8 * j) (x AND 0xff :: 32 word)) = push_bit (8 * j) (uint (x AND 0xff))"
proof -
  have "push_bit (8 * j) (uint (x AND 0xff)) = take_bit 32 (push_bit (8 * j) (uint (x AND 0xff)))"
    using assms unfolding and_ff
    by (intro bit_eqI) (auto simp: bit_take_bit_iff bit_push_bit_iff bit_uint_iff)
  moreover have "uint (push_bit n y) = take_bit 32 (push_bit n (uint y))" for n and y :: "32 word"
    by (simp add: unsigned_push_bit_eq)
  ultimately show ?thesis by metis
qed

lemma shift_row:
  assumes "zeros_op m vs" and "j \<le> 3" and "t ! j = expand (take 8 (drop (8 * j) vs))"
  shows "tab t j (x AND 0xff) = zeros m (push_bit (8 * j) (x AND 0xff) :: 32 word)"
proof -
  let ?i = "x AND 0xff :: 32 word"
  have i: "take_bit 8 (uint ?i) = uint ?i" "unat ?i < 256" "int (unat ?i) = uint ?i"
    using take_bit_byte [of ?i] by simp_all
  have len: "length (take 8 (drop (8 * j) vs)) = 8" using assms(1,2) by (simp add: zeros_op_def)
  have "t ! j ! unat ?i = lin (take 8 (drop (8 * j) vs)) (uint ?i)" using nth_expand [of "unat ?i" "take 8 (drop (8 * j) vs)"] i(2,3) len assms(3) by simp
  also have "\<dots> = lin vs (push_bit (8 * j) (uint ?i))" by (simp only: lin_take lin_drop i(1))
  also have "\<dots> = uint (zeros m (push_bit (8 * j) ?i))"
    using assms(1) by (simp only: zeros_op_def flip: uint_push_byte [OF assms(2)])
  finally show ?thesis by (simp add: tab_def)
qed

lemma shift_crc_zeros:
  assumes "zeros_op m vs" and "\<And>j. j \<le> 3 \<Longrightarrow> t ! j = expand (take 8 (drop (8 * j) vs))"
  shows "shift_crc t x = zeros m x"
proof -
  note row = shift_row [OF assms(1) _ assms(2)]
  have "shift_crc t x = zeros m (x AND 0xff) XOR zeros m (push_bit 8 (drop_bit 8 x AND 0xff)) XOR
      zeros m (push_bit 16 (drop_bit 16 x AND 0xff)) XOR zeros m (push_bit 24 (drop_bit 24 x))"
    unfolding shift_crc_def using row [of 0 x] row [of 1 "drop_bit 8 x"] row [of 2 "drop_bit 16 x"] row [of 3 "drop_bit 24 x"]
    by simp
  also have "\<dots> = zeros m ((x AND 0xff) XOR push_bit 8 (drop_bit 8 x AND 0xff) XOR
      push_bit 16 (drop_bit 16 x AND 0xff) XOR push_bit 24 (drop_bit 24 x))"
    by (simp only: zeros_xor)
  also have "\<dots> = zeros m x" by (rule arg_cong [OF word_bytes, symmetric])
  finally show ?thesis .
qed

lemma le_3: "j \<le> (3::nat) \<Longrightarrow> j = 0 \<or> j = 1 \<or> j = 2 \<or> j = 3"
  by auto

lemma shift_crc_long: "shift_crc long_shifts x = zeros LONG_SHIFT x"
  by (rule shift_crc_zeros [OF zeros_op_long])
    (auto dest!: le_3 simp: long_shifts_def long_row_0 long_row_1 long_row_2 long_row_3)

lemma shift_crc_short: "shift_crc short_shifts x = zeros SHORT_SHIFT x"
  by (rule shift_crc_zeros [OF zeros_op_short])
    (auto dest!: le_3 simp: short_shifts_def short_row_0 short_row_1 short_row_2 short_row_3)

section \<open>The instruction\<close>

lemma crc_linear: "foldl crc_upd (c XOR d) bs = zeros (length bs) c XOR foldl crc_upd d bs"
proof (induction bs arbitrary: c d)
  case (Cons b bs)
  have "crc_upd (c XOR d) b = zeros 1 c XOR crc_upd d b" by (simp only: crc_upd_def zeros_xor xor.assoc)
  then have "foldl crc_upd (c XOR d) (b # bs) = zeros (length bs) (zeros 1 c) XOR foldl crc_upd d (b # bs)"
    by (simp only: foldl_Cons Cons.IH)
  then show ?case using zeros_add [of "length bs" 1 c] by (simp only: list.size One_nat_def)
qed simp

lemma crc_zeros: "foldl crc_upd c bs = zeros (length bs) c XOR foldl crc_upd 0 bs"
  using crc_linear [of c 0 bs] by simp

definition word_instr :: "('w::len word \<Rightarrow> 'w word \<Rightarrow> 'w word) \<Rightarrow> bool" where
  "word_instr u \<longleftrightarrow> crc_instr u \<and> (LENGTH('w) = 32 \<or> LENGTH('w) = 64)"

lemma ucast_back: "32 \<le> LENGTH('w) \<Longrightarrow> (ucast (ucast c :: 'w::len word) :: 32 word) = c"
  by (intro bit_word_eqI) (simp add: bit_ucast_iff)

lemma word_instr_word:
  fixes u :: "'w::len word \<Rightarrow> 'w word \<Rightarrow> 'w word"
  assumes "word_instr u" and "off + LENGTH('w) div 8 \<le> length bs"
  shows "u (ucast c) (stream_word bs off) = ucast (foldl crc_upd c (take (LENGTH('w) div 8) (drop off bs)))"
proof -
  have "(ucast (ucast c :: 'w word) :: 32 word) = c" using assms(1) by (intro ucast_back) (auto simp: word_instr_def)
  moreover have "le_bytes (LENGTH('w) div 8) (stream_word bs off :: 'w word) = take (LENGTH('w) div 8) (drop off bs)"
    unfolding stream_word_def using assms by (intro le_bytes_of_le_bytes) auto
  ultimately show ?thesis using assms(1) by (simp only: word_instr_def crc_instr_def)
qed

lemma foldl_take_add: "foldl f c (take (m + n) xs) = foldl f (foldl f c (take m xs)) (take n (drop m xs))"
  by (simp only: take_add foldl_append)

lemma three_streams_ok:
  fixes u :: "'w::len word \<Rightarrow> 'w word \<Rightarrow> 'w word"
  assumes u: "word_instr u"
  shows "2 * s + n * (LENGTH('w) div 8) \<le> length bs \<Longrightarrow>
    three_streams u s n bs (ucast c0, ucast c1, ucast c2) =
      (ucast (foldl crc_upd c0 (take (n * (LENGTH('w) div 8)) bs)),
       ucast (foldl crc_upd c1 (take (n * (LENGTH('w) div 8)) (drop s bs))),
       ucast (foldl crc_upd c2 (take (n * (LENGTH('w) div 8)) (drop (2 * s) bs))))"
proof (induction n arbitrary: bs c0 c1 c2)
  case (Suc n)
  let ?p = "LENGTH('w) div 8"
  have le: "off + ?p \<le> length bs" if "off \<le> 2 * s" for off using Suc.prems that by simp
  have "2 * s + n * ?p \<le> length (drop ?p bs)" using Suc.prems by simp
  from Suc.IH [OF this] show ?case
    using word_instr_word [OF u le [of 0]] word_instr_word [OF u le [of s]] word_instr_word [OF u le [of "2 * s"]]
    by (simp add: foldl_take_add add.commute [of s] add.commute [of "2 * s"])
qed simp

lemma hw_block_ok:
  fixes u :: "'w::len word \<Rightarrow> 'w word \<Rightarrow> 'w word"
  assumes u: "word_instr u" and tbl: "\<And>x. shift_crc tbl x = zeros s x"
    and s: "LENGTH('w) div 8 dvd s" and len: "3 * s \<le> length bs"
  shows "hw_block u tbl s (ucast c) bs = ucast (foldl crc_upd c (take (3 * s) bs))"
proof -
  let ?F = "foldl crc_upd"
  let ?a = "take s bs" and ?b = "take s (drop s bs)" and ?d = "take s (drop (2 * s) bs)"
  have ls: "length ?b = s" "length ?d = s" using len by simp_all
  have n: "s div (LENGTH('w) div 8) * (LENGTH('w) div 8) = s" using s by simp
  have w: "32 \<le> LENGTH('w)" using u by (auto simp: word_instr_def)
  have "three_streams u s (s div (LENGTH('w) div 8)) bs (ucast c, 0, 0) = (ucast (?F c ?a), ucast (?F 0 ?b), ucast (?F 0 ?d))"
    using three_streams_ok [OF u, of s "s div (LENGTH('w) div 8)" bs c 0 0] len unfolding n by simp
  then have "hw_block u tbl s (ucast c) bs = ucast (zeros s (zeros s (?F c ?a) XOR ?F 0 ?b) XOR ?F 0 ?d)"
    by (simp add: hw_block_def tbl ucast_back [OF w] flip: unsigned_xor_eq)
  also have "zeros s (zeros s (?F c ?a) XOR ?F 0 ?b) XOR ?F 0 ?d = ?F (?F (?F c ?a) ?b) ?d"
    using crc_zeros [of "?F c ?a" ?b] crc_zeros [of "?F (?F c ?a) ?b" ?d] ls by simp
  also have "\<dots> = ?F c (take (s + s + s) bs)" unfolding foldl_take_add by (simp add: mult_2)
  also have "s + s + s = 3 * s" by simp
  finally show ?thesis .
qed

lemma hw_words_adv:
  fixes u :: "'w::len word \<Rightarrow> 'w word \<Rightarrow> 'w word"
  assumes u: "word_instr u"
  shows "n * (LENGTH('w) div 8) \<le> length bs \<Longrightarrow> adv c bs (hw_words u n (ucast c) bs)"
proof (induction n arbitrary: c bs)
  case (Suc n)
  let ?p = "LENGTH('w) div 8"
  have eq: "u (ucast c) (stream_word bs 0) = ucast (foldl crc_upd c (take ?p bs))"
    using word_instr_word [OF u, of 0 bs c] Suc.prems by simp
  have "adv (foldl crc_upd c (take ?p bs)) (drop ?p bs) (hw_words u n (ucast (foldl crc_upd c (take ?p bs))) (drop ?p bs))"
    using Suc.prems by (intro Suc.IH) simp
  moreover have "foldl crc_upd (foldl crc_upd c (take ?p bs)) (drop ?p bs) = foldl crc_upd c bs"
    by (simp flip: foldl_append)
  ultimately show ?case by (simp add: adv_def eq)
qed (auto simp: adv_def)

lemma hw_block_adv:
  fixes u :: "'w::len word \<Rightarrow> 'w word \<Rightarrow> 'w word"
  assumes "word_instr u" and "\<And>x. shift_crc tbl x = zeros s x" and "LENGTH('w) div 8 dvd s"
  shows "adv c bs (crc_blocks (3 * s) (hw_block u tbl s) (ucast c :: 'w word) bs)"
proof (rule crc_blocks_adv)
  fix c bs
  assume "3 * s \<le> length (bs :: byte list)"
  then have "hw_block u tbl s (ucast c) bs = ucast (foldl crc_upd c (take (3 * s) bs))"
    using hw_block_ok [of u tbl s bs c] assms by blast
  moreover have "foldl crc_upd (foldl crc_upd c (take (3 * s) bs)) (drop (3 * s) bs) = foldl crc_upd c bs"
    by (simp flip: foldl_append)
  ultimately show "\<exists>c'. hw_block u tbl s (ucast c) bs = ucast c' \<and> foldl crc_upd c' (drop (3 * s) bs) = foldl crc_upd c bs"
    by blast
qed

lemma advE:
  assumes "adv c bs r" obtains c' bs' where "r = (ucast c', bs')" and "foldl crc_upd c' bs' = foldl crc_upd c bs"
  using assms unfolding adv_def by (metis prod.collapse)

lemma foldl_ucast:
  assumes "\<And>c b. upd (ucast c) b = (ucast (crc_upd c b) :: 'w::len word)"
  shows "foldl upd (ucast c) bs = ucast (foldl crc_upd c bs)"
  by (induction bs arbitrary: c) (simp_all add: assms)

lemma hw_body_ok:
  fixes u :: "'w::len word \<Rightarrow> 'w word \<Rightarrow> 'w word"
  assumes u: "word_instr u" and u8: "crc_instr u8"
  shows "hw_body u8 u (ucast c) a bs = NOT (foldl crc_upd c bs)"
proof -
  let ?byte = "\<lambda>(crc :: 'w word) b. ucast (u8 (ucast crc) b) :: 'w word"
  let ?p = "LENGTH('w) div 8"
  have w: "32 \<le> LENGTH('w)" and p: "?p dvd LONG_SHIFT" "?p dvd SHORT_SHIFT" "?p dvd 8"
    using u by (auto simp: word_instr_def LONG_SHIFT_def SHORT_SHIFT_def)
  have "u8 c b = crc_upd c b" for c b using u8 by (simp add: crc_instr_def le_bytes_def)
  then have byte: "?byte (ucast c) b = ucast (crc_upd c b)" for c b by (simp only: ucast_back [OF w])
  obtain c1 bs1 where 1: "crc_align 8 ?byte a (ucast c) bs = (ucast c1, bs1)" "foldl crc_upd c1 bs1 = foldl crc_upd c bs"
    by (rule advE [OF crc_align_adv [of ?byte, OF byte]])
  obtain c2 bs2 where 2: "crc_blocks (3 * LONG_SHIFT) (hw_block u long_shifts LONG_SHIFT) (ucast c1) bs1 = (ucast c2, bs2)"
      "foldl crc_upd c2 bs2 = foldl crc_upd c1 bs1"
    by (rule advE [OF hw_block_adv [OF u shift_crc_long p(1)]])
  obtain c3 bs3 where 3: "crc_blocks (3 * SHORT_SHIFT) (hw_block u short_shifts SHORT_SHIFT) (ucast c2) bs2 = (ucast c3, bs3)"
      "foldl crc_upd c3 bs3 = foldl crc_upd c2 bs2"
    by (rule advE [OF hw_block_adv [OF u shift_crc_short p(2)]])
  let ?n = "(length bs3 - length bs3 mod 8) div ?p"
  have "?n * ?p \<le> length bs3" by (rule order_trans [OF div_times_less_eq_dividend]) simp
  then obtain c4 bs4 where 4: "hw_words u ?n (ucast c3) bs3 = (ucast c4, bs4)" "foldl crc_upd c4 bs4 = foldl crc_upd c3 bs3"
    using advE [OF hw_words_adv [OF u]] by metis
  have "foldl ?byte (ucast c4) bs4 = ucast (foldl crc_upd c4 bs4)" by (rule foldl_ucast) (rule byte)
  then have "hw_body u8 u (ucast c) a bs = ucast (ucast (foldl crc_upd c bs) :: 'w word) XOR 0xffffffff"
    using 1 2 3 4 by (simp add: hw_body_def Let_def)
  then show ?thesis by (simp add: ucast_back [OF w] xor_ones)
qed

lemma crc32c_hw_eq:
  assumes "sse42_ok m"
  shows "crc32c_hw m x64 crc a bs = NOT (foldl crc_upd (NOT crc) bs)"
proof (cases x64)
  case True
  have "word_instr (mm_crc32_u64 m)" using assms by (simp add: word_instr_def sse42_ok_def)
  then show ?thesis using hw_body_ok [of "mm_crc32_u64 m" "mm_crc32_u8 m" "NOT crc"] True assms
    by (simp only: crc32c_hw_def if_True xor_ones sse42_ok_def)
next
  case False
  have "word_instr (mm_crc32_u32 m)" using assms by (simp add: word_instr_def sse42_ok_def)
  then show ?thesis using hw_body_ok [of "mm_crc32_u32 m" "mm_crc32_u8 m" "NOT crc"] False assms
    by (simp add: crc32c_hw_def xor_ones sse42_ok_def)
qed

section \<open>The table routines\<close>

lemma foldl_take8: "8 \<le> length bs \<Longrightarrow>
    foldl crc_upd c bs = foldl crc_upd (zeros 8 (c XOR stream_word bs 0) XOR zeros 4 (stream_word bs 4)) (drop 8 bs)"
  using zeros_add [of 4 4] by (simp add: foldl_take4 [of bs] foldl_take4 [of "drop 4 bs"] stream_word_drop zeros_xor)

lemma half_xor:
  "(ucast (ucast c XOR x :: 64 word) :: 32 word) = c XOR ucast x"
  "(ucast (drop_bit 32 (ucast (c :: 32 word) XOR x :: 64 word)) :: 32 word) = ucast (drop_bit 32 x)"
proof -
  have "\<not> bit c (32 + n)" for n using bit_imp_le_length [of c "32 + n"] by auto
  then show "(ucast (ucast c XOR x :: 64 word) :: 32 word) = c XOR ucast x"
    and "(ucast (drop_bit 32 (ucast c XOR x :: 64 word)) :: 32 word) = ucast (drop_bit 32 x)"
    by (auto intro!: bit_word_eqI simp: bit_xor_iff bit_ucast_iff bit_drop_bit_eq simp del: drop_bit_xor)
qed

lemma slice8_rows: "slice8 crc bs = row8 0 (crc XOR stream_word bs 0)"
  by (simp only: slice8_def row8_def Let_def add_0)

lemma slice16_rows: "slice16 crc bs = row8 8 (crc XOR stream_word bs 0) XOR row8 0 (stream_word bs 8)"
proof -
  have n: "8 + 7 = (15::nat)" "8 + 6 = (14::nat)" "8 + 5 = (13::nat)" "8 + 4 = (12::nat)" "8 + 3 = (11::nat)" "8 + 2 = (10::nat)"
    "8 + 1 = (9::nat)" by simp_all
  show ?thesis by (simp only: slice16_def row8_def Let_def add_0 n xor.assoc)
qed

lemma row8_first:
  "8 \<le> length bs \<Longrightarrow> n < 9 \<Longrightarrow>
    row8 n (ucast c XOR stream_word bs 0) = ucast (zeros (n + 8) (c XOR stream_word bs 0) XOR zeros (n + 4) (stream_word bs 4))"
  using stream_word_64 [of 0 bs] by (simp only: row8_eq half_xor add_0)

lemma row8_word:
  "k + 8 \<le> length bs \<Longrightarrow> n < 9 \<Longrightarrow>
    row8 n (stream_word bs k) = ucast (zeros (n + 8) (stream_word bs k) XOR zeros (n + 4) (stream_word bs (k + 4)))"
  using stream_word_64 [of k bs] by (simp only: row8_eq)

lemma slice8_eq: "8 \<le> length bs \<Longrightarrow> slice8 (ucast c) bs = ucast (zeros 8 (c XOR stream_word bs 0) XOR zeros 4 (stream_word bs 4))"
  using row8_first [of bs 0 c] by (simp only: slice8_rows add_0 zero_less_numeral)

lemma slice16_eq:
  assumes "16 \<le> length bs"
  shows "slice16 (ucast c) bs =
    ucast (zeros 16 (c XOR stream_word bs 0) XOR zeros 12 (stream_word bs 4) XOR zeros 8 (stream_word bs 8) XOR zeros 4 (stream_word bs 12))"
proof -
  have n: "8 + 8 = (16::nat)" "8 + 4 = (12::nat)" by simp_all
  have "row8 8 (ucast c XOR stream_word bs 0) = ucast (zeros 16 (c XOR stream_word bs 0) XOR zeros 12 (stream_word bs 4))"
    using row8_first [of bs 8 c] assms unfolding n by simp
  moreover have "row8 0 (stream_word bs 8) = ucast (zeros 8 (stream_word bs 8) XOR zeros 4 (stream_word bs 12))"
    using row8_word [of 8 bs 0] assms unfolding n add_0 by simp
  ultimately show ?thesis by (simp only: slice16_rows unsigned_xor_eq xor.assoc)
qed

lemma slice8_step:
  "8 \<le> length bs \<Longrightarrow> \<exists>c'. slice8 (ucast c) bs = ucast c' \<and> foldl crc_upd c' (drop 8 bs) = foldl crc_upd c bs"
  using slice8_eq [of bs c] foldl_take8 [of bs c] by auto

lemma slice16_step:
  assumes "16 \<le> length bs"
  shows "\<exists>c'. slice16 (ucast c) bs = ucast c' \<and> foldl crc_upd c' (drop 16 bs) = foldl crc_upd c bs"
proof -
  let ?c = "zeros 8 (c XOR stream_word bs 0) XOR zeros 4 (stream_word bs 4)"
  have "foldl crc_upd c bs = foldl crc_upd (zeros 8 (?c XOR stream_word bs 8) XOR zeros 4 (stream_word bs 12)) (drop 16 bs)"
    using assms foldl_take8 [of bs c] foldl_take8 [of "drop 8 bs" ?c] by (simp add: stream_word_drop)
  also have "zeros 8 (?c XOR stream_word bs 8) =
      zeros 16 (c XOR stream_word bs 0) XOR zeros 12 (stream_word bs 4) XOR zeros 8 (stream_word bs 8)"
    using zeros_add [of 8 8] zeros_add [of 8 4] by (simp add: zeros_xor xor.assoc)
  finally have "foldl crc_upd c bs = foldl crc_upd (zeros 16 (c XOR stream_word bs 0) XOR zeros 12 (stream_word bs 4) XOR
      zeros 8 (stream_word bs 8) XOR zeros 4 (stream_word bs 12)) (drop 16 bs)"
    unfolding xor.assoc .
  note step = this
  show ?thesis by (intro exI conjI, rule slice16_eq [OF assms], rule step [symmetric])
qed

lemma slice12_step:
  "12 \<le> length bs \<Longrightarrow> \<exists>c'. slice12 (ucast c) bs = ucast c' \<and> foldl crc_upd c' (drop 12 bs) = foldl crc_upd c bs"
  using slice12_ok [of bs c] by auto

text \<open>The three table routines have one shape.\<close>

lemma table_routine:
  fixes block :: "'w::len word \<Rightarrow> byte list \<Rightarrow> 'w word"
  assumes "\<And>c b. upd (ucast c) b = (ucast (crc_upd c b) :: 'w word)"
    and "\<And>c bs. n \<le> length bs \<Longrightarrow> \<exists>c'. block (ucast c) bs = ucast c' \<and> foldl crc_upd c' (drop n bs) = foldl crc_upd c bs"
    and "crc_align m upd a (ucast c) bs = (r1, bs1)" and "crc_blocks n block r1 bs1 = (r2, bs2)"
  shows "foldl upd r2 bs2 = ucast (foldl crc_upd c bs)"
proof -
  obtain c1 where 1: "r1 = ucast c1" "foldl crc_upd c1 bs1 = foldl crc_upd c bs"
    using advE [OF crc_align_adv [of upd c bs m a, OF assms(1)]] assms(3) by (metis prod.inject)
  obtain c2 where 2: "r2 = ucast c2" "foldl crc_upd c2 bs2 = foldl crc_upd c1 bs1"
    using advE [OF crc_blocks_adv [of n block c1 bs1, OF assms(2)]] assms(4) 1(1) by (metis prod.inject)
  from 1 2 show ?thesis using foldl_ucast [of upd c2 bs2, OF assms(1)] by simp
qed

lemma crc32c_sf_eq: "crc32c_sf x64 crci a bs = NOT (foldl crc_upd (NOT crci) bs)"
proof (cases x64)
  case True
  obtain r1 bs1 r2 bs2 where "crc_align 8 tab_byte a (ucast (NOT crci) :: 64 word) bs = (r1, bs1)" "crc_blocks 16 slice16 r1 bs1 = (r2, bs2)"
    by (metis surj_pair)
  then show ?thesis
    using True table_routine [of tab_byte 16 slice16 8 a "NOT crci" bs r1 bs1 r2 bs2, OF tab_byte_64 slice16_step]
      ucast_back [where 'w = 64]
    by (simp add: crc32c_sf_def xor_ones)
next
  case False
  obtain r1 bs1 r2 bs2 where "crc_align 4 tab_byte a (NOT crci) bs = (r1, bs1)" "crc_blocks 12 slice12 r1 bs1 = (r2, bs2)"
    by (metis surj_pair)
  then show ?thesis
    using False table_routine [of tab_byte 12 slice12 4 a "NOT crci" bs r1 bs1 r2 bs2, OF _ slice12_step]
    by (simp add: crc32c_sf_def xor_ones tab_byte_eq)
qed

lemma append_adler_eq: "append_adler_table crci a bs = NOT (foldl crc_upd (NOT crci) bs)"
proof -
  obtain r1 bs1 r2 bs2 where "crc_align 8 tab_byte a (ucast (NOT crci) :: 64 word) bs = (r1, bs1)" "crc_blocks 8 slice8 r1 bs1 = (r2, bs2)"
    by (metis surj_pair)
  moreover have "(ucast (ucast x XOR 0xffffffff :: 64 word) :: 32 word) = NOT x" for x
    using half_xor(1) [of x "0xffffffff"] by (simp add: xor_ones)
  ultimately show ?thesis
    using table_routine [of tab_byte 8 slice8 8 a "NOT crci" bs r1 bs1 r2 bs2, OF tab_byte_64 slice8_step]
    by (simp add: append_adler_table_def xor_ones)
qed

section \<open>Error detection\<close>

lemma wstep_eq_0: "wstep x = 0 \<Longrightarrow> x = 0"
proof -
  assume 0: "wstep x = 0"
  have "bit (word_of_int POLY :: 32 word) 31" by (simp add: POLY_def)
  then have "bit (wstep x) 31 \<longleftrightarrow> bit x 0"
    by (auto simp: wstep_def bit_xor_iff bit_drop_bit_eq simp del: bit_0 dest: bit_imp_le_length)
  with 0 have x0: "\<not> bit x 0" by simp
  with 0 have "drop_bit 1 x = 0" by (simp add: wstep_def)
  then have "\<not> bit x (Suc n)" for n using bit_drop_bit_eq [of 1 x] by (metis bit_0_eq bot_apply bot_bool_def comp_apply plus_1_eq_Suc)
  with x0 show "x = 0" by (intro bit_word_eqI) (metis bit_0_eq bot_apply bot_bool_def not0_implies_Suc)
qed

lemma xor_cancel: "a XOR b = a XOR c \<longleftrightarrow> b = (c :: 32 word)" "b XOR a = c XOR a \<longleftrightarrow> b = (c :: 32 word)"
proof -
  show left: "a XOR b = a XOR c \<longleftrightarrow> b = c"
  proof
    assume "a XOR b = a XOR c"
    then have "a XOR (a XOR b) = a XOR (a XOR c)" by simp
    then show "b = c" by (simp flip: xor.assoc)
  qed simp
  show "b XOR a = c XOR a \<longleftrightarrow> b = c" unfolding xor.commute [of _ a] by (rule left)
qed

lemma zeros_inj: "(wstep ^^ n) x = (wstep ^^ n) y \<longleftrightarrow> x = y"
proof
  have zero: "(wstep ^^ n) z = 0 \<Longrightarrow> z = 0" for z by (induction n) (auto dest: wstep_eq_0)
  assume "(wstep ^^ n) x = (wstep ^^ n) y"
  then have "(wstep ^^ n) (x XOR y) = 0" by (simp add: zeros_xor)
  then have "x XOR y = 0" by (rule zero)
  then show "x = y" using xor_cancel(1) [of x x y] by simp
qed simp

lemma crc_inj: "foldl crc_upd c bs = foldl crc_upd d bs \<longleftrightarrow> c = d"
  by (induction bs arbitrary: c d) (simp_all add: crc_upd_def zeros_inj xor_cancel)

lemma crc_burst:
  assumes "length w = length w'" and "length w \<le> 4" and "w \<noteq> w'"
  shows "foldl crc_upd c w \<noteq> foldl crc_upd c w'"
proof
  assume "foldl crc_upd c w = foldl crc_upd c w'"
  then have "c XOR of_le_bytes w = c XOR (of_le_bytes w' :: 32 word)" using assms by (simp add: crc_le zeros_inj)
  then have "(of_le_bytes w :: 32 word) = of_le_bytes w'" by (simp only: xor_cancel)
  moreover have "le_bytes (length v) (of_le_bytes v :: 32 word) = v" if "length v \<le> 4" for v
    using that by (intro le_bytes_of_le_bytes) auto
  ultimately show False using assms by metis
qed

section \<open>The properties\<close>

text \<open>C23.
  The ways of computing the checksum agree: the table routines, for both register widths, and the
  routine on the crc32 instruction return what the bitwise routine returns, for every initial value,
  every stream and every address it starts at. The literal tables, the alignment loops and the
  folding of three streams through the shift tables are all covered, and so is \<open>taosResolveCRC\<close>:
  which routine it installs cannot be observed.
\<close>

theorem crc32c_routines_agree:
  assumes "sse42_ok m"
  shows "crc32c_sf x64 crc a bs = append_trivial crc bs \<and>
    crc32c_hw m x64 crc a bs = append_trivial crc bs \<and>
    append_adler_table crc a bs = append_trivial crc bs \<and>
    taosResolveCRC m x64 sse42 crc a bs = append_trivial crc bs"
  using append_trivial_eq [of "NOT crc" bs] crc32c_hw_eq [OF assms]
  by (simp add: crc32c_sf_eq append_adler_eq taosResolveCRC_def)

definition sse42_model :: sse42 where
  "sse42_model =
     \<lparr>mm_crc32_u8 = \<lambda>c b. foldl crc_upd c (le_bytes 1 b),
      mm_crc32_u32 = \<lambda>c w. foldl crc_upd c (le_bytes 4 w),
      mm_crc32_u64 = \<lambda>c w. ucast (foldl crc_upd (ucast c) (le_bytes 8 w))\<rparr>"

lemma sse42_model_ok: "sse42_ok sse42_model"
  by (simp add: sse42_ok_def crc_instr_def sse42_model_def)

text \<open>The published check value of CRC-32C, the checksum of the digits 1 to 9.\<close>

lemma crc32c_check_value: "append_trivial 0 [0x31, 0x32, 0x33, 0x34, 0x35, 0x36, 0x37, 0x38, 0x39] = 0xe3069283"
proof -
  have "crc_table ! 0 = crc_table_0" by (simp add: crc_table_def)
  then have "foldl tab_byte (- 1) [0x31, 0x32, 0x33, 0x34, 0x35, 0x36, 0x37, 0x38, 0x39] = (0x1cf96d7c :: 32 word)"
    by (simp add: tab_byte_def tab_def crc_table_0_def mask_eq_exp_minus_1)
  then show ?thesis
    using append_trivial_eq [of "NOT 0" "[0x31, 0x32, 0x33, 0x34, 0x35, 0x36, 0x37, 0x38, 0x39]"] by (simp only: tab_byte_eq) simp
qed

theorem crc32c_routines_agree_witness:
  "sse42_ok sse42_model \<and>
    crc32c_hw sse42_model True 0 3 [0x31, 0x32, 0x33, 0x34, 0x35, 0x36, 0x37, 0x38, 0x39] = 0xe3069283"
  using crc32c_routines_agree [OF sse42_model_ok, of True 0 3 "[0x31, 0x32, 0x33, 0x34, 0x35, 0x36, 0x37, 0x38, 0x39]"] sse42_model_ok
  by (simp only: crc32c_check_value)

text \<open>A checksum can be continued: the checksum of a stream followed by another is the checksum of the
  second started from the checksum of the first, wherever the two are stored.
\<close>

theorem crc32c_incremental:
  "crc32c_sf x64 crc a (xs @ ys) = crc32c_sf x64 (crc32c_sf x64 crc b xs) d ys"
  by (simp add: crc32c_sf_eq)

text \<open>
  What \<open>taosCalcChecksumAppend\<close> writes, \<open>taosCheckChecksumWhole\<close> accepts, and a change confined to
  four consecutive bytes before the checksum is detected.
\<close>

lemma append_whole:
  assumes "crc32c = taosResolveCRC m x64 sse42" and "sse42_ok m"
    and "taosCalcChecksumAppend crc32c 0 a s = (0, s')"
  obtains body where "s' = body @ le_bytes 4 (NOT (foldl crc_upd (NOT 0) body))" and "body = take (length s - 4) s"
    and "4 \<le> length s" and "\<And>b x. taosCheckChecksumWhole crc32c b x \<longleftrightarrow> 4 \<le> length x \<and>
      of_le_bytes (drop (length x - 4) x) = NOT (foldl crc_upd (NOT 0) (take (length x - 4) x))"
proof -
  have crc: "crc32c c a bs = NOT (foldl crc_upd (NOT c) bs)" for c a bs
    using assms(1) crc32c_hw_eq [OF assms(2)] by (simp add: taosResolveCRC_def crc32c_sf_eq)
  then show ?thesis using that assms(3)
    by (simp add: taosCalcChecksumAppend_def taosCheckChecksumWhole_def Let_def split: if_splits)
qed


text \<open>C24.
  A buffer that \<open>taosCalcChecksumAppend\<close> signed, with start value 0, keeps its size and its bytes
  before the checksum, and \<open>taosCheckChecksumWhole\<close> accepts it at any address. When up to four
  consecutive bytes before the checksum are then changed, it is rejected.
\<close>

theorem checksum_detects:
  assumes "taosCalcChecksumAppend (taosResolveCRC m x64 sse42) 0 a s = (0, s')" and "sse42_ok m"
  shows "length s' = length s \<and> take (length s - 4) s' = take (length s - 4) s \<and>
    taosCheckChecksumWhole (taosResolveCRC m x64 sse42) b s' \<and>
    (\<forall>p w w' q. s' = p @ w @ q \<and> 4 \<le> length q \<and> length w \<le> 4 \<and> length w' = length w \<and> w' \<noteq> w \<longrightarrow>
      \<not> taosCheckChecksumWhole (taosResolveCRC m x64 sse42) b (p @ w' @ q))"
proof -
  let ?sum = "\<lambda>body. NOT (foldl crc_upd (NOT 0) body) :: 32 word"
  obtain body where s': "s' = body @ le_bytes 4 (?sum body)" and body: "body = take (length s - 4) s" "4 \<le> length s"
    and check: "\<And>b x. taosCheckChecksumWhole (taosResolveCRC m x64 sse42) b x \<longleftrightarrow> 4 \<le> length x \<and>
      of_le_bytes (drop (length x - 4) x) = ?sum (take (length x - 4) x)"
    using append_whole [OF refl assms(2,1)] by metis
  have "\<not> taosCheckChecksumWhole (taosResolveCRC m x64 sse42) b (p @ w' @ q)"
    if "s' = p @ w @ q" "4 \<le> length q" "length w \<le> 4" "length w' = length w" "w' \<noteq> w" for p w w' q
  proof -
    let ?q = "take (length q - 4) q" and ?c = "drop (length q - 4) q"
    have "(p @ w @ ?q) @ ?c = body @ le_bytes 4 (?sum body)" using that(1) s' by simp
    then have "body = p @ w @ ?q" and "?c = le_bytes 4 (?sum body)"
      using append_eq_append_conv [of "p @ w @ ?q" body ?c "le_bytes 4 (?sum body)"] that(2) by simp_all
    moreover have "?sum (p @ w @ ?q) \<noteq> ?sum (p @ w' @ ?q)"
      using crc_burst [of w w'] that(3-5) by (auto simp: crc_inj)
    ultimately have "of_le_bytes ?c \<noteq> ?sum (p @ w' @ ?q)" by simp
    then show ?thesis using that(2) by (simp add: check)
  qed
  then show ?thesis using s' body by (auto simp: check)
qed

theorem checksum_detects_witness:
  "sse42_ok sse42_model \<and>
    (\<exists>s'. taosCalcChecksumAppend (taosResolveCRC sse42_model True True) 0 16 [1, 2, 3, 4, 0, 0, 0, 0] = (0, [1, 2, 3, 4] @ s') \<and>
      taosCheckChecksumWhole (taosResolveCRC sse42_model True True) 5 ([1, 2, 3, 4] @ s') \<and>
      \<not> taosCheckChecksumWhole (taosResolveCRC sse42_model True True) 5 ([1, 7, 3, 4] @ s'))"
proof -
  let ?crc = "taosResolveCRC sse42_model True True"
  let ?sum = "le_bytes 4 (?crc 0 16 [1, 2, 3, 4])"
  have app: "taosCalcChecksumAppend ?crc 0 16 [1, 2, 3, 4, 0, 0, 0, 0] = (0, [1, 2, 3, 4] @ ?sum)"
    by (simp add: taosCalcChecksumAppend_def)
  note d = checksum_detects [OF app sse42_model_ok, of 5]
  have "taosCheckChecksumWhole ?crc 5 ([1, 2, 3, 4] @ ?sum)" using d by blast
  moreover have "\<not> taosCheckChecksumWhole ?crc 5 ([1] @ [7] @ ([3, 4] @ ?sum))"
  proof -
    have "[1, 2, 3, 4] @ ?sum = [1] @ [2] @ ([3, 4] @ ?sum) \<and> 4 \<le> length ([3, 4] @ ?sum) \<and> length [2 :: byte] \<le> 4 \<and>
        length [7 :: byte] = length [2 :: byte] \<and> [7] \<noteq> [2 :: byte]" by simp
    with d show ?thesis by blast
  qed
  ultimately show ?thesis using app sse42_model_ok by auto
qed

end
