(* ===== verification/LoserTree.thy ===== *)
theory LoserTree
  imports Prelude
begin

text \<open>
  The loser tree of src/src/util/src/tlosertree.c, with which the query layer merges sorted sources.
  The array \<open>pNode\<close> holds the winner at 0, the losers of the matches at 1 to \<open>n - 1\<close> and the leaves at
  \<open>n\<close> to \<open>2 n - 1\<close>. The comparison is a call through \<open>comparaFn\<close> with the argument \<open>param\<close>, whose
  content changes between two adjustments; what a comparison has to guarantee is the locale
  \<open>merge_order\<close>.
\<close>

section \<open>The tree\<close>

record SLoserTreeNode =
  ln_index :: int
  ln_pData :: nat

record SLoserTreeInfo =
  lt_numOfEntries :: int
  lt_totalEntries :: int
  lt_pNode :: "SLoserTreeNode list"

type_synonym 's merge_compare_fn = "SLoserTreeNode \<Rightarrow> SLoserTreeNode \<Rightarrow> 's \<Rightarrow> int res"

definition init_node :: "int \<Rightarrow> nat \<Rightarrow> SLoserTreeNode \<Rightarrow> SLoserTreeNode" where
  "init_node numOfEntries i nd =
     (if int i < numOfEntries then nd\<lparr>ln_index := -1\<rparr> else nd\<lparr>ln_index := int i - numOfEntries\<rparr>)"

definition tLoserTreeInit :: "SLoserTreeInfo \<Rightarrow> SLoserTreeInfo res" where
  "tLoserTreeInit t =
     (if lt_totalEntries t AND 1 = 0 \<and> to_int32 (2 * lt_numOfEntries t) = lt_totalEntries t then
        if lt_totalEntries t \<le> int (length (lt_pNode t)) then
          let k = nat (lt_totalEntries t) in
          Inr (t\<lparr>lt_pNode := map2 (init_node (lt_numOfEntries t)) [0..<k] (take k (lt_pNode t)) @ drop k (lt_pNode t)\<rparr>)
        else Inl Out_Of_Bounds
      else Inl Assert_Failed)"

text \<open>
  The loop of \<open>tLoserTreeAdjust\<close>: the leaf is played against the losers on its path. It stops at a
  node no leaf has reached yet (\<open>None\<close>); past the root it is the winner.
\<close>

function adjust_loop ::
    "'s merge_compare_fn \<Rightarrow> 's \<Rightarrow> SLoserTreeNode list \<Rightarrow> nat \<Rightarrow> SLoserTreeNode \<Rightarrow>
      (SLoserTreeNode list \<times> SLoserTreeNode option) res"
where
  "adjust_loop comparaFn param nodes parentId kLeaf =
     (if 0 < parentId then
        rbind (arr_get nodes (int parentId)) (\<lambda>p.
          if ln_index p = -1 then rbind (arr_set nodes (int parentId) kLeaf) (\<lambda>nodes'. Inr (nodes', None))
          else
            rbind (comparaFn p kLeaf param) (\<lambda>ret.
              if ret < 0 then
                rbind (arr_set nodes (int parentId) kLeaf) (\<lambda>nodes'.
                  adjust_loop comparaFn param nodes' (parentId div 2) p)
              else adjust_loop comparaFn param nodes (parentId div 2) kLeaf))
      else Inr (nodes, Some kLeaf))"
  by pat_completeness auto
termination
  by (relation "measure (\<lambda>(f, s, nodes, parentId, kLeaf). parentId)") auto

declare adjust_loop.simps [simp del]

text \<open>The code compares the leaf with the initial node by \<open>memcmp\<close>, padding included; here the fields are compared.\<close>

definition tLoserTreeAdjust ::
    "'s merge_compare_fn \<Rightarrow> 's \<Rightarrow> SLoserTreeInfo \<Rightarrow> int \<Rightarrow> SLoserTreeInfo res"
where
  "tLoserTreeAdjust comparaFn param t idx =
     (if idx \<le> lt_totalEntries t - 1 \<and> lt_numOfEntries t \<le> idx \<and> 2 \<le> lt_totalEntries t then
        if lt_totalEntries t = 2 then
          rbind (arr_get (lt_pNode t) 0) (\<lambda>a.
          rbind (arr_get (lt_pNode t) 1) (\<lambda>b.
            Inr (t\<lparr>lt_pNode := (lt_pNode t)[0 := a\<lparr>ln_index := 0\<rparr>, 1 := b\<lparr>ln_index := 0\<rparr>]\<rparr>)))
        else
          rbind (arr_get (lt_pNode t) idx) (\<lambda>leaf.
          rbind (adjust_loop comparaFn param (lt_pNode t) (nat (idx div 2)) leaf) (\<lambda>(nodes, w).
            case w of
              None \<Rightarrow> Inr (t\<lparr>lt_pNode := nodes\<rparr>)
            | Some kLeaf \<Rightarrow>
                rbind (arr_get nodes 1) (\<lambda>loser.
                  if kLeaf \<noteq> loser then
                    rbind (arr_set nodes 0 kLeaf) (\<lambda>nodes'. Inr (t\<lparr>lt_pNode := nodes'\<rparr>))
                  else Inr (t\<lparr>lt_pNode := nodes\<rparr>))))
      else Inl Assert_Failed)"

text \<open>The loop \<open>for (i = totalEntries - 1; i >= numOfEntries; i--)\<close>, with \<open>m\<close> leaves to go.\<close>

fun adjust_all :: "'s merge_compare_fn \<Rightarrow> 's \<Rightarrow> nat \<Rightarrow> SLoserTreeInfo \<Rightarrow> SLoserTreeInfo res" where
  "adjust_all comparaFn param 0 t = Inr t"
| "adjust_all comparaFn param (Suc m) t =
     rbind (tLoserTreeAdjust comparaFn param t (lt_numOfEntries t + int m)) (adjust_all comparaFn param m)"

definition tLoserTreeRebuild :: "'s merge_compare_fn \<Rightarrow> 's \<Rightarrow> SLoserTreeInfo \<Rightarrow> SLoserTreeInfo res" where
  "tLoserTreeRebuild comparaFn param t =
     (if lt_totalEntries t AND 1 = 0 then
        rbind (tLoserTreeInit t) (\<lambda>t1.
          adjust_all comparaFn param (nat (lt_totalEntries t1 - lt_numOfEntries t1)) t1)
      else Inl Assert_Failed)"

definition TSDB_CODE_CLI_OUT_OF_MEMORY :: int where "TSDB_CODE_CLI_OUT_OF_MEMORY = 81"

text \<open>
  \<open>calloc\<close> tells whether the allocation succeeds; the nodes it returns are zero. The size passed is
  meaningful for a count of at least 0 that survives the shift.
\<close>

definition tLoserTreeCreate ::
    "bool \<Rightarrow> int \<Rightarrow> 's \<Rightarrow> 's merge_compare_fn \<Rightarrow> (int \<times> SLoserTreeInfo option) res"
where
  "tLoserTreeCreate calloc numOfEntries param compareFn =
     (let totalEntries = to_int32 (2 * numOfEntries) in
      if \<not> calloc then Inr (TSDB_CODE_CLI_OUT_OF_MEMORY, None)
      else
        rbind (tLoserTreeInit
            \<lparr>lt_numOfEntries = numOfEntries, lt_totalEntries = totalEntries,
             lt_pNode = replicate (nat totalEntries) \<lparr>ln_index = 0, ln_pData = 0\<rparr>\<rparr>) (\<lambda>t.
        rbind (adjust_all compareFn param (nat (totalEntries - numOfEntries)) t) (\<lambda>t'. Inr (0, Some t'))))"

section \<open>Positions below a node\<close>

definition below :: "nat \<Rightarrow> nat \<Rightarrow> bool" where
  "below v x \<longleftrightarrow> (\<exists>k. x div 2 ^ k = v)"

lemma below_refl [simp]: "below v v"
  unfolding below_def by (rule exI [of _ 0]) simp

lemma div_pow_Suc: "(x::nat) div 2 ^ Suc k = x div 2 ^ k div 2"
  by (simp only: power_Suc mult.commute [of 2] div_mult2_eq)

lemma below_half: "below (v div 2) v"
  unfolding below_def by (rule exI [of _ 1]) simp

lemma below_trans: "below u v \<Longrightarrow> below v x \<Longrightarrow> below u x"
  unfolding below_def by (metis div_mult2_eq power_add)

lemma below_step: "below (2 * v) x \<Longrightarrow> below v x" "below (Suc (2 * v)) x \<Longrightarrow> below v x"
  using below_trans [OF below_half [of "2 * v"]] below_trans [OF below_half [of "Suc (2 * v)"]] by auto

lemma below_cases: "below v x \<Longrightarrow> x = v \<or> below (2 * v) x \<or> below (Suc (2 * v)) x"
proof -
  assume "below v x"
  then obtain k where k: "x div 2 ^ k = v" by (auto simp: below_def)
  show ?thesis
  proof (cases k)
    case 0
    with k show ?thesis by simp
  next
    case (Suc j)
    then have "x div 2 ^ j div 2 = v" using k by (simp only: div_pow_Suc)
    moreover have "y div 2 = v \<Longrightarrow> y = 2 * v \<or> y = Suc (2 * v)" for y :: nat by presburger
    ultimately have "x div 2 ^ j = 2 * v \<or> x div 2 ^ j = Suc (2 * v)" by blast
    then show ?thesis unfolding below_def by blast
  qed
qed

lemma below_le: "below v x \<Longrightarrow> v \<le> x"
  unfolding below_def by (metis div_le_dividend)

lemma below_disjoint:
  assumes "0 < v" and "below (2 * v) x" and "below (Suc (2 * v)) x"
  shows False
proof -
  obtain i j where ij: "x div 2 ^ i = 2 * v" "x div 2 ^ j = Suc (2 * v)" using assms(2,3) by (auto simp: below_def)
  have half: "y div 2 ^ d \<le> y div 2" if d: "0 < d" for y d :: nat
  proof -
    obtain e where "d = Suc e" using gr0_implies_Suc [OF d] by blast
    then show ?thesis by (simp only: power_Suc div_mult2_eq div_le_dividend)
  qed
  have split: "x div 2 ^ b = x div 2 ^ a div 2 ^ (b - a)" if "a < b" for a b
    using that by (metis div_mult2_eq le_add_diff_inverse less_imp_le_nat power_add)
  consider "i = j" | "i < j" | "j < i" by linarith
  then show False
  proof cases
    case 2
    then show False using ij split [OF 2] half [of "j - i" "2 * v"] by simp
  next
    case 3
    then show False using ij split [OF 3] half [of "i - j" "Suc (2 * v)"] assms(1) by simp
  qed (use ij in simp)
qed

lemma below_root: "1 \<le> x \<Longrightarrow> below 1 x"
proof (induction x rule: less_induct)
  case (less x)
  show ?case
  proof (cases "x = 1")
    case False
    with less have "below 1 (x div 2)" by (intro less.IH) auto
    then show ?thesis using below_half by (rule below_trans)
  qed simp
qed

section \<open>Matches\<close>

text \<open>
  \<open>part K a n S v r\<close>: among the leaves below \<open>v\<close> those in \<open>S\<close> have entered. A node two of whose
  sides have sent a winner holds the loser and has sent the winner up, \<open>r = Some w\<close>; a node only one side
  has reached holds what came and has sent nothing; an untouched node is marked by the index -1.
\<close>

inductive part ::
    "(SLoserTreeNode \<Rightarrow> 'k::linorder) \<Rightarrow> SLoserTreeNode list \<Rightarrow> nat \<Rightarrow> nat set \<Rightarrow> nat \<Rightarrow> SLoserTreeNode option \<Rightarrow> bool"
  for K a n S
where
  leaf_in: "n \<le> v \<Longrightarrow> v < 2 * n \<Longrightarrow> v \<in> S \<Longrightarrow> part K a n S v (Some (a ! v))"
| leaf_out: "n \<le> v \<Longrightarrow> v < 2 * n \<Longrightarrow> v \<notin> S \<Longrightarrow> part K a n S v None"
| none: "0 < v \<Longrightarrow> v < n \<Longrightarrow> part K a n S (2 * v) None \<Longrightarrow> part K a n S (Suc (2 * v)) None \<Longrightarrow>
    ln_index (a ! v) = -1 \<Longrightarrow> part K a n S v None"
| left: "0 < v \<Longrightarrow> v < n \<Longrightarrow> part K a n S (2 * v) (Some x) \<Longrightarrow> part K a n S (Suc (2 * v)) None \<Longrightarrow>
    a ! v = x \<Longrightarrow> part K a n S v None"
| right: "0 < v \<Longrightarrow> v < n \<Longrightarrow> part K a n S (2 * v) None \<Longrightarrow> part K a n S (Suc (2 * v)) (Some x) \<Longrightarrow>
    a ! v = x \<Longrightarrow> part K a n S v None"
| both: "0 < v \<Longrightarrow> v < n \<Longrightarrow> part K a n S (2 * v) (Some x) \<Longrightarrow> part K a n S (Suc (2 * v)) (Some y) \<Longrightarrow>
    w = x \<and> a ! v = y \<or> w = y \<and> a ! v = x \<Longrightarrow> K w \<le> K (a ! v) \<Longrightarrow> part K a n S v (Some w)"

lemma part_bounds: "part K a n S v r \<Longrightarrow> 0 < n \<and> 0 < v \<and> v < 2 * n"
  by (induction rule: part.induct) auto

text \<open>The winner is a leaf below the node, and all leaves below it have entered.\<close>

lemma part_leaf: "part K a n S v (Some w) \<Longrightarrow> \<exists>x. n \<le> x \<and> x < 2 * n \<and> x \<in> S \<and> below v x \<and> w = a ! x"
proof (induction v "Some w" arbitrary: w rule: part.induct)
  case (both v x y w)
  then show ?case by (metis below_step)
qed (metis below_refl)

lemma part_entered: "part K a n S v (Some w) \<Longrightarrow> below v x \<Longrightarrow> n \<le> x \<Longrightarrow> x < 2 * n \<Longrightarrow> x \<in> S"
proof (induction v "Some w" arbitrary: w rule: part.induct)
  case (leaf_in v)
  then show ?case using below_cases [of v x] below_le [of "2 * v" x] below_le [of "Suc (2 * v)" x] by auto
next
  case (both v x' y w)
  then show ?case using below_cases [of v x] by auto
qed

lemma part_min: "part K a n S v (Some w) \<Longrightarrow> below v x \<Longrightarrow> n \<le> x \<Longrightarrow> x < 2 * n \<Longrightarrow> K w \<le> K (a ! x)"
proof (induction v "Some w" arbitrary: w rule: part.induct)
  case (leaf_in v)
  then show ?case using below_cases [of v x] below_le [of "2 * v" x] below_le [of "Suc (2 * v)" x] by auto
next
  case (both v x' y w)
  then show ?case using below_cases [of v x] by (auto intro: order_trans)
qed

text \<open>What a part says depends on the nodes, the entered leaves and the keys below it only.\<close>

definition agree ::
    "(SLoserTreeNode \<Rightarrow> 'k) \<Rightarrow> SLoserTreeNode list \<Rightarrow> nat set \<Rightarrow> (SLoserTreeNode \<Rightarrow> 'k) \<Rightarrow> SLoserTreeNode list \<Rightarrow> nat set \<Rightarrow>
      nat \<Rightarrow> nat \<Rightarrow> bool"
where
  "agree K a S K' a' S' n v \<longleftrightarrow>
     (\<forall>x. below v x \<longrightarrow> x < 2 * n \<longrightarrow>
       a' ! x = a ! x \<and> (x \<in> S' \<longleftrightarrow> x \<in> S) \<and> (n \<le> x \<longrightarrow> K' (a ! x) = K (a ! x)))"

lemma agree_sub:
  "agree K a S K' a' S' n v \<Longrightarrow> agree K a S K' a' S' n (2 * v)"
  "agree K a S K' a' S' n v \<Longrightarrow> agree K a S K' a' S' n (Suc (2 * v))"
  using below_step unfolding agree_def by blast+

lemma agree_at: "agree K a S K' a' S' n v \<Longrightarrow> v < 2 * n \<Longrightarrow> a' ! v = a ! v \<and> (v \<in> S' \<longleftrightarrow> v \<in> S)"
  unfolding agree_def by (metis below_refl)

lemma part_frame: "part K a n S v r \<Longrightarrow> agree K a S K' a' S' n v \<Longrightarrow> part K' a' n S' v r"
proof (induction rule: part.induct)
  case (leaf_in v)
  then show ?case using part.leaf_in [of n v S' K' a'] agree_at [of K a S K' a' S' n v] by simp
next
  case (leaf_out v)
  then show ?case using part.leaf_out [of n v S' K' a'] agree_at [of K a S K' a' S' n v] by simp
next
  case (none v)
  then show ?case using part.none [of v n K' a' S'] agree_sub [OF none.prems] agree_at [OF none.prems] by simp
next
  case (left v x)
  then show ?case using part.left [of v n K' a' S' x] agree_sub [OF left.prems] agree_at [OF left.prems] by simp
next
  case (right v x)
  then show ?case using part.right [of v n K' a' S' x] agree_sub [OF right.prems] agree_at [OF right.prems] by simp
next
  case (both v x y w)
  obtain i j where ij: "n \<le> i" "i < 2 * n" "below v i" "x = a ! i" "n \<le> j" "j < 2 * n" "below v j" "y = a ! j"
    using part_leaf [OF both.hyps(3)] part_leaf [OF both.hyps(4)] below_step by metis
  then have "K' x = K x" "K' y = K y" using both.prems unfolding agree_def by auto
  moreover have "a' ! v = a ! v" using agree_at [OF both.prems] both.hyps(2) by simp
  ultimately show ?case using part.both [of v n K' a' S' x y w] both agree_sub [OF both.prems] by metis
qed

text \<open>A part consists of parts.\<close>

lemma part_sub:
  assumes "part K a n S 1 r" and "1 \<le> v" and "v < 2 * n"
  shows "\<exists>r. part K a n S v r"
  using assms(2,3)
proof (induction v rule: less_induct)
  case (less v)
  show ?case
  proof (cases "v = 1")
    case True
    with assms(1) show ?thesis by blast
  next
    case False
    then have "v div 2 < v" "1 \<le> v div 2" "v div 2 < 2 * n" using less.prems by auto
    then obtain r where "part K a n S (v div 2) r" using less.IH [of "v div 2"] by blast
    moreover have "v = 2 * (v div 2) \<or> v = Suc (2 * (v div 2))" by presburger
    moreover have "v div 2 < n" using less.prems by simp
    ultimately show ?thesis by (cases rule: part.cases) auto
  qed
qed

lemma part_out: "part K a n S v r \<Longrightarrow> below v u \<Longrightarrow> n \<le> u \<Longrightarrow> u < 2 * n \<Longrightarrow> u \<notin> S \<Longrightarrow> r = None"
  by (cases r) (auto dest: part_entered)

text \<open>The two children of a node, in either order.\<close>

definition kids :: "nat \<Rightarrow> nat \<Rightarrow> nat \<Rightarrow> bool" where
  "kids q c z \<longleftrightarrow> c = 2 * q \<and> z = Suc (2 * q) \<or> c = Suc (2 * q) \<and> z = 2 * q"

lemma kids_exist: "\<exists>z. kids (c div 2) c z"
proof -
  have "c = 2 * (c div 2) \<or> c = Suc (2 * (c div 2))" by presburger
  then show ?thesis unfolding kids_def by blast
qed

lemma kids_disjoint: "kids q c z \<Longrightarrow> 0 < q \<Longrightarrow> below z x \<Longrightarrow> \<not> below c x"
  unfolding kids_def using below_disjoint by blast

lemma waiting_node:
  assumes "part K a n S q None" and "q < n" and "kids q c z" and "below c u" "n \<le> u" "u < 2 * n" "u \<notin> S"
  obtains rz where "part K a n S z rz" and "rz = None \<and> ln_index (a ! q) = -1 \<or> rz = Some (a ! q)"
  using assms(1)
proof (cases rule: part.cases)
  case none
  then show ?thesis using that assms(3) unfolding kids_def by blast
next
  case (left x)
  then have "c \<noteq> 2 * q" using part_out [OF left(3)] assms(4-7) by blast
  then show ?thesis using that left assms(3) unfolding kids_def by blast
next
  case (right x)
  then have "c \<noteq> Suc (2 * q)" using part_out [OF right(4)] assms(4-7) by blast
  then show ?thesis using that right assms(3) unfolding kids_def by blast
qed (use assms(2) in simp)

lemma keep_waiting:
  "0 < q \<Longrightarrow> q < n \<Longrightarrow> kids q c z \<Longrightarrow> part K a n S c None \<Longrightarrow> part K a n S z rz \<Longrightarrow>
    rz = None \<and> ln_index (a ! q) = -1 \<or> rz = Some (a ! q) \<Longrightarrow> part K a n S q None"
  unfolding kids_def using part.none [of q n K a S] part.left [of q n K a S "a ! q"] part.right [of q n K a S "a ! q"] by auto

lemma first_arrival:
  "0 < q \<Longrightarrow> q < n \<Longrightarrow> kids q c z \<Longrightarrow> part K a n S c (Some (a ! q)) \<Longrightarrow> part K a n S z None \<Longrightarrow> part K a n S q None"
  unfolding kids_def using part.left [of q n K a S "a ! q"] part.right [of q n K a S "a ! q"] by auto

lemma second_arrival:
  "0 < q \<Longrightarrow> q < n \<Longrightarrow> kids q c z \<Longrightarrow> part K a n S c (Some x) \<Longrightarrow> part K a n S z (Some y) \<Longrightarrow>
    w = x \<and> a ! q = y \<or> w = y \<and> a ! q = x \<Longrightarrow> K w \<le> K (a ! q) \<Longrightarrow> part K a n S q (Some w)"
  unfolding kids_def using part.both [of q n K a S x y w] part.both [of q n K a S y x w] by auto

text \<open>Leaf \<open>u\<close> enters: what is not below \<open>v\<close> stays as it is.\<close>

lemma part_aside:
  assumes "part K a n S z rz" and "below v u" and "\<And>x. below z x \<Longrightarrow> \<not> below v x"
    and "\<And>x. \<not> below v x \<Longrightarrow> x < 2 * n \<Longrightarrow> b ! x = a ! x"
  shows "part K b n (insert u S) z rz"
  using assms by (intro part_frame [OF assms(1)]) (auto simp: agree_def)

lemma part_update: "part K b n S v r \<Longrightarrow> q < v \<Longrightarrow> part K (b[q := y]) n S v r"
proof (rule part_frame)
  assume "q < v"
  then have "x \<noteq> q" if "below v x" for x using below_le [OF that] by simp
  then show "agree K b S K (b[q := y]) S n v" unfolding agree_def by (metis nth_list_update_neq)
qed

lemma part_replace:
  assumes root: "part K a n S 1 r" and u: "n \<le> u" "u < 2 * n" "u \<notin> S"
    and v: "1 \<le> v" "below v u" and new: "part K b n (insert u S) v None"
    and off: "\<And>x. \<not> below v x \<Longrightarrow> x < 2 * n \<Longrightarrow> b ! x = a ! x"
  shows "part K b n (insert u S) 1 None"
  using v new off
proof (induction v rule: less_induct)
  case (less v)
  show ?case
  proof (cases "v = 1")
    case True
    with less.prems show ?thesis by simp
  next
    case False
    let ?q = "v div 2"
    have q: "1 \<le> ?q" "?q < v" "0 < ?q" using False less.prems(1) by auto
    have qn: "?q < n" using part_bounds [OF less.prems(3)] by auto
    have bq: "below ?q u" using below_trans [OF below_half less.prems(2)] .
    obtain z where z: "kids ?q v z" using kids_exist by blast
    obtain rq where "part K a n S ?q rq" using part_sub [OF root q(1)] qn by auto
    then have "part K a n S ?q None" using part_out bq u by metis
    then obtain rz where rz: "part K a n S z rz" "rz = None \<and> ln_index (a ! ?q) = -1 \<or> rz = Some (a ! ?q)"
      using waiting_node qn z less.prems(2) u by metis
    have "b ! ?q = a ! ?q" using less.prems(4) [of ?q] q(2) qn below_le [of v ?q] by auto
    moreover have "part K b n (insert u S) z rz"
      using part_aside [OF rz(1) less.prems(2) kids_disjoint [OF z q(3)] less.prems(4)] by blast
    ultimately have "part K b n (insert u S) ?q None" using keep_waiting [OF q(3) qn z less.prems(3)] rz(2) by metis
    moreover have "b ! x = a ! x" if "\<not> below ?q x" "x < 2 * n" for x
      using that less.prems(4) below_trans [OF below_half] by blast
    ultimately show ?thesis using less.IH [OF q(2) q(1) bq] by blast
  qed
qed

text \<open>A part all of whose leaves have entered has sent its winner, and in an untouched one nothing waits.\<close>

lemma part_full: "part K a n S v r \<Longrightarrow> S = {n..<2 * n} \<Longrightarrow> r \<noteq> None"
  by (induction rule: part.induct) auto

lemma part_init:
  assumes "\<And>v. 0 < v \<Longrightarrow> v < n \<Longrightarrow> ln_index (a ! v) = -1"
  shows "0 < v \<Longrightarrow> v < 2 * n \<Longrightarrow> part K a n {} v None"
proof (induction "2 * n - v" arbitrary: v rule: less_induct)
  case less
  show ?case
  proof (cases "v < n")
    case True
    then have "part K a n {} (2 * v) None" "part K a n {} (Suc (2 * v)) None" using less by simp_all
    then show ?thesis using part.none [of v n K a "{}"] less.prems True assms by simp
  next
    case False
    then show ?thesis using less.prems by (intro part.leaf_out) auto
  qed
qed

text \<open>The winner of the whole differs from the loser of the last match.\<close>

lemma root_distinct:
  assumes "part K a n S 1 (Some w)" and "2 \<le> n"
    and inj: "\<And>x y. n \<le> x \<Longrightarrow> x < 2 * n \<Longrightarrow> n \<le> y \<Longrightarrow> y < 2 * n \<Longrightarrow> a ! x = a ! y \<Longrightarrow> x = y"
  shows "w \<noteq> a ! 1"
  using assms(1)
proof (cases rule: part.cases)
  case (both x y)
  obtain i j where "n \<le> i" "i < 2 * n" "below 2 i" "x = a ! i" "n \<le> j" "j < 2 * n" "below 3 j" "y = a ! j"
    using part_leaf [OF both(3)] part_leaf [OF both(4)] by (auto simp: numeral_3_eq_3)
  moreover from this have "i \<noteq> j" using below_disjoint [of 1 i] by (auto simp: numeral_3_eq_3 numeral_2_eq_2)
  ultimately show ?thesis using both(5) inj by metis
qed (use assms(2) in simp_all)

text \<open>When the winner leaves, every match on its path is waiting for a new opponent.\<close>

lemma part_remove:
  assumes "part K a n S v (Some w)" and "w = a ! u" and "n \<le> u" "u < 2 * n"
    and inj: "\<And>x y. n \<le> x \<Longrightarrow> x < 2 * n \<Longrightarrow> n \<le> y \<Longrightarrow> y < 2 * n \<Longrightarrow> a ! x = a ! y \<Longrightarrow> x = y"
    and keys: "\<And>x. n \<le> x \<Longrightarrow> x < 2 * n \<Longrightarrow> x \<noteq> u \<Longrightarrow> K' (a ! x) = K (a ! x)"
  shows "part K' a n (S - {u}) v None"
  using assms(1,2)
proof (induction v "Some w" rule: part.induct)
  case (leaf_in v)
  then have "v = u" using inj assms(3,4) by metis
  then show ?case using leaf_in by (intro part.leaf_out) auto
next
  case (both v x y)
  have aside: "part K' a n (S - {u}) z r" if "part K a n S z r" "\<not> below z u" for z r
    using that keys by (intro part_frame [OF that(1)]) (auto simp: agree_def)
  obtain i j where ij: "n \<le> i" "i < 2 * n" "below (2 * v) i" "x = a ! i" "n \<le> j" "j < 2 * n" "below (Suc (2 * v)) j" "y = a ! j"
    using part_leaf [OF both.hyps(3)] part_leaf [OF both.hyps(5)] by metis
  from both.hyps(7) show ?case
  proof
    assume w: "w = x \<and> a ! v = y"
    then have "i = u" using ij inj assms(2-4) by metis
    then have "\<not> below (Suc (2 * v)) u" using below_disjoint both.hyps(1) ij(3) by blast
    then show ?thesis using part.right [of v n K' a "S - {u}" y] both aside w by blast
  next
    assume w: "w = y \<and> a ! v = x"
    then have "j = u" using ij inj assms(2-4) by metis
    then have "\<not> below (2 * v) u" using below_disjoint both.hyps(1) ij(7) by blast
    then show ?thesis using part.left [of v n K' a "S - {u}" x] both aside w by blast
  qed
qed

text \<open>The tree between two operations: leaf \<open>i\<close> carries index \<open>i\<close>.\<close>

definition lt_wf :: "nat \<Rightarrow> SLoserTreeInfo \<Rightarrow> bool" where
  "lt_wf n t \<longleftrightarrow> 0 < n \<and> n < 2 ^ 30 \<and> lt_numOfEntries t = int n \<and> lt_totalEntries t = 2 * int n \<and>
     length (lt_pNode t) = 2 * n \<and> (\<forall>i < n. ln_index (lt_pNode t ! (n + i)) = int i)"

lemma lt_wf_leaf: "lt_wf n t \<Longrightarrow> n \<le> z \<Longrightarrow> z < 2 * n \<Longrightarrow> ln_index (lt_pNode t ! z) = int z - int n"
proof -
  assume wf: "lt_wf n t" and z: "n \<le> z" "z < 2 * n"
  then have "ln_index (lt_pNode t ! (n + (z - n))) = int (z - n)" unfolding lt_wf_def by (metis add_less_cancel_left le_add_diff_inverse mult_2)
  with z show ?thesis by simp
qed

lemma lt_wf_inj:
  assumes "lt_wf n t" and "n \<le> x" "x < 2 * n" and "n \<le> y" "y < 2 * n" and "lt_pNode t ! x = lt_pNode t ! y"
  shows "x = y"
proof -
  have "int x - int n = int y - int n"
    using lt_wf_leaf [OF assms(1,2,3)] lt_wf_leaf [OF assms(1,4,5)] assms(6) by metis
  then show ?thesis by simp
qed

lemma lt_wf_update:
  "lt_wf n t \<Longrightarrow> length b = 2 * n \<Longrightarrow> (\<And>x. n \<le> x \<Longrightarrow> b ! x = lt_pNode t ! x) \<Longrightarrow> lt_wf n (t\<lparr>lt_pNode := b\<rparr>)"
  by (simp add: lt_wf_def)

section \<open>What a comparison guarantees\<close>

locale merge_order =
  fixes cmp :: "'s merge_compare_fn"
    and key :: "'s \<Rightarrow> SLoserTreeNode \<Rightarrow> 'k::linorder"
    and ok :: "'s \<Rightarrow> SLoserTreeNode \<Rightarrow> bool"
  assumes cmp_ok: "ok s x \<Longrightarrow> ok s y \<Longrightarrow>
    \<exists>r. cmp x y s = Inr r \<and> (if r < 0 then key s x \<le> key s y else key s y \<le> key s x)"
begin

lemma climb:
  assumes root: "part (key s) a n S 1 None" and u: "n \<le> u" "u < 2 * n" "u \<notin> S"
    and leaves: "\<And>x. n \<le> x \<Longrightarrow> x < 2 * n \<Longrightarrow> ok s (a ! x) \<and> ln_index (a ! x) \<noteq> -1"
  shows "1 \<le> c \<Longrightarrow> below c u \<Longrightarrow> part (key s) b n (insert u S) c (Some w) \<Longrightarrow> 2 * n \<le> length b \<Longrightarrow>
    (\<And>x. \<not> below c x \<Longrightarrow> x < 2 * n \<Longrightarrow> b ! x = a ! x) \<Longrightarrow> (\<And>x. n \<le> x \<Longrightarrow> x < 2 * n \<Longrightarrow> b ! x = a ! x) \<Longrightarrow>
    \<exists>b' r. adjust_loop cmp s b (c div 2) w = Inr (b', r) \<and> part (key s) b' n (insert u S) 1 r \<and>
      length b' = length b \<and> (\<forall>x. x = 0 \<or> n \<le> x \<longrightarrow> b' ! x = b ! x)"
proof (induction c arbitrary: b w rule: less_induct)
  case (less c)
  show ?case
  proof (cases "c = 1")
    case True
    then show ?thesis using less.prems by (simp add: adjust_loop.simps)
  next
    case False
    let ?q = "c div 2"
    have q: "1 \<le> ?q" "?q < c" "0 < ?q" using False less.prems(1) by auto
    have qn: "?q < n" using part_bounds [OF less.prems(3)] by auto
    have bq: "below ?q u" using below_trans [OF below_half less.prems(2)] .
    obtain z where z: "kids ?q c z" using kids_exist by blast
    obtain rq where "part (key s) a n S ?q rq" using part_sub [OF root q(1)] qn by auto
    then have "part (key s) a n S ?q None" using part_out bq u by metis
    then obtain rz where rz: "part (key s) a n S z rz" "rz = None \<and> ln_index (a ! ?q) = -1 \<or> rz = Some (a ! ?q)"
      using waiting_node qn z less.prems(2) u by metis
    have bq_a: "b ! ?q = a ! ?q" using less.prems(5) [of ?q] q(2) qn below_le [of c ?q] by auto
    have z_b: "part (key s) b n (insert u S) z rz"
      using part_aside [OF rz(1) less.prems(2) kids_disjoint [OF z q(3)] less.prems(5)] by blast
    have qz: "?q < z" using z q(1) by (auto simp: kids_def)
    have get: "arr_get b (int ?q) = Inr (a ! ?q)" and set: "arr_set b (int ?q) y = Inr (b[?q := y])" for y
      using qn less.prems(4) bq_a by simp_all
    have len: "?q < length b" using qn less.prems(4) by simp
    have off: "b[?q := y] ! x = a ! x" if "\<not> below ?q x" "x < 2 * n" for x y
      using that less.prems(5) below_trans [OF below_half] by (metis below_refl nth_list_update_neq)
    have off0: "b ! x = a ! x" if "\<not> below ?q x" "x < 2 * n" for x
      using that less.prems(5) below_trans [OF below_half] by blast
    have leaf: "b[?q := y] ! x = a ! x" if "n \<le> x" "x < 2 * n" for x y using that less.prems(6) qn by simp
    from rz(2) show ?thesis
    proof
      assume 1: "rz = None \<and> ln_index (a ! ?q) = -1"
      let ?b = "b[?q := w]"
      have "part (key s) ?b n (insert u S) ?q None"
        using first_arrival [OF q(3) qn z, of "key s" ?b] part_update [OF less.prems(3) q(2)] part_update [OF z_b qz] 1 len by simp
      then have "part (key s) ?b n (insert u S) 1 None" using part_replace [OF root u q(1) bq _ off] by blast
      moreover have "adjust_loop cmp s b ?q w = Inr (?b, None)" using 1 q(3) get set by (simp add: adjust_loop.simps)
      ultimately show ?thesis using qn q(3) by auto
    next
      assume 2: "rz = Some (a ! ?q)"
      obtain i j where ij: "n \<le> i" "i < 2 * n" "a ! ?q = a ! i" "n \<le> j" "j < 2 * n" "w = a ! j"
        using part_leaf [OF rz(1) [unfolded 2]] part_leaf [OF less.prems(3)] less.prems(6) by metis
      then obtain r where r: "cmp (a ! ?q) w s = Inr r"
          "if r < 0 then key s (a ! ?q) \<le> key s w else key s w \<le> key s (a ! ?q)"
        using cmp_ok leaves by metis
      have idx: "ln_index (a ! ?q) \<noteq> -1" using ij leaves by metis
      show ?thesis
      proof (cases "r < 0")
        case True
        let ?b = "b[?q := w]"
        have "part (key s) ?b n (insert u S) ?q (Some (a ! ?q))"
          using second_arrival [OF q(3) qn z part_update [OF less.prems(3) q(2)] part_update [OF z_b [unfolded 2] qz], of "a ! ?q" w]
            r(2) True len by simp
        then have "\<exists>b' r. adjust_loop cmp s ?b (?q div 2) (a ! ?q) = Inr (b', r) \<and> part (key s) b' n (insert u S) 1 r \<and>
            length b' = length ?b \<and> (\<forall>x. x = 0 \<or> n \<le> x \<longrightarrow> b' ! x = ?b ! x)"
          using less.prems(4) by (intro less.IH [OF q(2) q(1) bq] off leaf) simp_all
        moreover have "adjust_loop cmp s b ?q w = adjust_loop cmp s ?b (?q div 2) (a ! ?q)"
          using True q(3) get set r(1) idx by (simp add: adjust_loop.simps [of cmp s b ?q w])
        ultimately show ?thesis using qn q(3) by auto
      next
        case False
        have "part (key s) b n (insert u S) ?q (Some w)"
          using second_arrival [OF q(3) qn z less.prems(3)] z_b 2 r(2) False bq_a by metis
        then have "\<exists>b' r. adjust_loop cmp s b (?q div 2) w = Inr (b', r) \<and> part (key s) b' n (insert u S) 1 r \<and>
            length b' = length b \<and> (\<forall>x. x = 0 \<or> n \<le> x \<longrightarrow> b' ! x = b ! x)"
          using less.IH [OF q(2) q(1) bq _ less.prems(4) off0 less.prems(6)] by blast
        moreover have "adjust_loop cmp s b ?q w = adjust_loop cmp s b (?q div 2) w"
          using False q(3) get r(1) idx by (simp add: adjust_loop.simps [of cmp s b ?q w])
        ultimately show ?thesis by metis
      qed
    qed
  qed
qed

text \<open>A leaf that has not entered yet enters.\<close>

lemma adjust_enter:
  assumes wf: "lt_wf n t" and n: "2 \<le> n" and u: "n \<le> u" "u < 2 * n" "u \<notin> S"
    and root: "part (key s) (lt_pNode t) n S 1 None" and leaves: "\<And>x. n \<le> x \<Longrightarrow> x < 2 * n \<Longrightarrow> ok s (lt_pNode t ! x)"
  shows "\<exists>t' r. tLoserTreeAdjust cmp s t (int u) = Inr t' \<and> lt_wf n t' \<and> part (key s) (lt_pNode t') n (insert u S) 1 r \<and>
    (\<forall>w. r = Some w \<longrightarrow> lt_pNode t' ! 0 = w) \<and> (\<forall>x. n \<le> x \<longrightarrow> lt_pNode t' ! x = lt_pNode t ! x)"
proof -
  let ?a = "lt_pNode t"
  have len: "length ?a = 2 * n" using wf by (simp add: lt_wf_def)
  have "ok s (?a ! x) \<and> ln_index (?a ! x) \<noteq> -1" if "n \<le> x" "x < 2 * n" for x
    using leaves [OF that] lt_wf_leaf [OF wf that] that by simp
  moreover have "part (key s) ?a n (insert u S) u (Some (?a ! u))" using u by (intro part.leaf_in) auto
  ultimately obtain b r where b: "adjust_loop cmp s ?a (u div 2) (?a ! u) = Inr (b, r)" "part (key s) b n (insert u S) 1 r"
      "length b = length ?a" "\<And>x. x = 0 \<or> n \<le> x \<Longrightarrow> b ! x = ?a ! x"
    using climb [OF root u, of u ?a "?a ! u"] u n len by auto
  have adj: "tLoserTreeAdjust cmp s t (int u) = (case r of None \<Rightarrow> Inr (t\<lparr>lt_pNode := b\<rparr>) | Some w \<Rightarrow>
      if w \<noteq> b ! 1 then Inr (t\<lparr>lt_pNode := b[0 := w]\<rparr>) else Inr (t\<lparr>lt_pNode := b\<rparr>))"
    using wf n u len b(1,3) by (auto simp: tLoserTreeAdjust_def lt_wf_def nat_div_distrib split: option.splits)
  have wf_b: "lt_wf n (t\<lparr>lt_pNode := b\<rparr>)" using lt_wf_update [OF wf] b(3,4) len by simp
  show ?thesis
  proof (cases r)
    case None
    then show ?thesis using adj b(2,4) wf_b by auto
  next
    case (Some w)
    have "w \<noteq> b ! 1" using root_distinct b(2) Some n lt_wf_inj [OF wf_b] by (metis SLoserTreeInfo.select_convs(3) SLoserTreeInfo.surjective SLoserTreeInfo.update_convs(3))
    moreover have "part (key s) (b[0 := w]) n (insert u S) 1 r" using b(2) by (rule part_update) simp
    moreover have "lt_wf n (t\<lparr>lt_pNode := b[0 := w]\<rparr>)" using lt_wf_update [OF wf] b(3,4) len n by simp
    ultimately show ?thesis using adj b(3,4) Some len n by auto
  qed
qed

text \<open>\<open>lt_ready\<close>: all leaves have entered and the winner is in node 0.\<close>

definition lt_ready :: "'s \<Rightarrow> nat \<Rightarrow> SLoserTreeInfo \<Rightarrow> bool" where
  "lt_ready s n t \<longleftrightarrow> lt_wf n t \<and> (n = 1 \<longrightarrow> ln_index (lt_pNode t ! 0) = 0) \<and>
     (2 \<le> n \<longrightarrow> part (key s) (lt_pNode t) n {n..<2 * n} 1 (Some (lt_pNode t ! 0)))"

lemma adjust_single:
  assumes "lt_wf 1 t"
  shows "\<exists>t'. tLoserTreeAdjust cmp s t 1 = Inr t' \<and> lt_ready s 1 t' \<and> (\<forall>x. 1 \<le> x \<longrightarrow> lt_pNode t' ! x = lt_pNode t ! x)"
proof -
  let ?t = "t\<lparr>lt_pNode := (lt_pNode t)[0 := (lt_pNode t ! 0)\<lparr>ln_index := 0\<rparr>, 1 := (lt_pNode t ! 1)\<lparr>ln_index := 0\<rparr>]\<rparr>"
  have "lt_pNode ?t ! x = lt_pNode t ! x" if "1 \<le> x" for x
    using assms that by (cases "x = 1") (simp_all add: lt_wf_def)
  moreover have "tLoserTreeAdjust cmp s t 1 = Inr ?t" and "lt_ready s 1 ?t"
    using assms by (simp_all add: tLoserTreeAdjust_def lt_wf_def lt_ready_def)
  ultimately show ?thesis by blast
qed

lemma adjust_all_enter:
  assumes n: "2 \<le> n"
  shows "m \<le> n \<Longrightarrow> lt_wf n t \<Longrightarrow>
    part (key s) (lt_pNode t) n {n + m..<2 * n} 1 r \<Longrightarrow> (\<forall>w. r = Some w \<longrightarrow> lt_pNode t ! 0 = w) \<Longrightarrow>
    (\<And>x. n \<le> x \<Longrightarrow> x < 2 * n \<Longrightarrow> ok s (lt_pNode t ! x)) \<Longrightarrow>
    \<exists>t'. adjust_all cmp s m t = Inr t' \<and> lt_ready s n t' \<and> (\<forall>x. n \<le> x \<longrightarrow> lt_pNode t' ! x = lt_pNode t ! x)"
proof (induction m arbitrary: t r)
  case 0
  then obtain w where "r = Some w" using part_full [OF 0(3)] by auto
  with 0 n show ?case by (auto simp: lt_ready_def)
next
  case (Suc m)
  have "part (key s) (lt_pNode t) n {n + Suc m..<2 * n} 1 None"
    using part_out [OF Suc.prems(3), of "n + m"] Suc.prems(1,3) below_root [of "n + m"] n by auto
  then obtain t1 r1 where t1: "tLoserTreeAdjust cmp s t (int (n + m)) = Inr t1" "lt_wf n t1"
      "part (key s) (lt_pNode t1) n (insert (n + m) {n + Suc m..<2 * n}) 1 r1" "\<forall>w. r1 = Some w \<longrightarrow> lt_pNode t1 ! 0 = w"
      "\<forall>x. n \<le> x \<longrightarrow> lt_pNode t1 ! x = lt_pNode t ! x"
    using adjust_enter [OF Suc.prems(2) n, of "n + m" "{n + Suc m..<2 * n}" s] Suc.prems(1,5) by auto
  have "insert (n + m) {n + Suc m..<2 * n} = {n + m..<2 * n}" using Suc.prems(1) by auto
  then obtain t' where t': "adjust_all cmp s m t1 = Inr t'" "lt_ready s n t'" "\<forall>x. n \<le> x \<longrightarrow> lt_pNode t' ! x = lt_pNode t1 ! x"
    using Suc.IH [of t1 r1] Suc.prems t1 by auto
  have "lt_numOfEntries t = int n" using Suc.prems(2) by (simp add: lt_wf_def)
  then have "adjust_all cmp s (Suc m) t = Inr t'" using t1(1) t'(1) by simp
  with t' t1(5) show ?case by auto
qed

text \<open>Building the tree, and a new key for the winner.\<close>

lemma build_ready:
  assumes wf: "lt_wf n t" and init: "\<And>v. v < n \<Longrightarrow> ln_index (lt_pNode t ! v) = -1"
    and ok: "\<And>x. n \<le> x \<Longrightarrow> x < 2 * n \<Longrightarrow> ok s (lt_pNode t ! x)"
  shows "\<exists>t'. adjust_all cmp s n t = Inr t' \<and> lt_ready s n t' \<and>
    (\<forall>x. n \<le> x \<longrightarrow> x < 2 * n \<longrightarrow> lt_pNode t' ! x = lt_pNode t ! x)"
proof (cases "n = 1")
  case True
  have "lt_numOfEntries t = 1" using wf True by (simp add: lt_wf_def)
  moreover obtain t' where t': "tLoserTreeAdjust cmp s t 1 = Inr t'" "lt_ready s 1 t'" "\<forall>x. 1 \<le> x \<longrightarrow> lt_pNode t' ! x = lt_pNode t ! x"
    using adjust_single wf True by blast
  ultimately show ?thesis using True by auto
next
  case False
  then have n: "2 \<le> n" using wf by (simp add: lt_wf_def)
  then have "part (key s) (lt_pNode t) n {n + n..<2 * n} 1 None" using part_init [of n "lt_pNode t" 1 "key s"] init by simp
  then show ?thesis using adjust_all_enter [OF n, of n t s None] wf ok by auto
qed

lemma ready_winner:
  assumes "lt_ready s n t" and "2 \<le> n"
  obtains u where "n \<le> u" "u < 2 * n" "lt_pNode t ! 0 = lt_pNode t ! u" "ln_index (lt_pNode t ! 0) = int u - int n"
proof -
  have "part (key s) (lt_pNode t) n {n..<2 * n} 1 (Some (lt_pNode t ! 0))" and wf: "lt_wf n t" using assms by (auto simp: lt_ready_def)
  then obtain u where u: "n \<le> u" "u < 2 * n" "lt_pNode t ! 0 = lt_pNode t ! u" using part_leaf by metis
  then show ?thesis using that lt_wf_leaf [OF wf u(1,2)] by metis
qed

lemma adjust_ready:
  assumes ready: "lt_ready s n t" and u: "int u = ln_index (lt_pNode t ! 0) + int n"
    and keys: "\<And>x. n \<le> x \<Longrightarrow> x < 2 * n \<Longrightarrow> x \<noteq> u \<Longrightarrow> key s' (lt_pNode t ! x) = key s (lt_pNode t ! x)"
    and ok: "\<And>x. n \<le> x \<Longrightarrow> x < 2 * n \<Longrightarrow> ok s' (lt_pNode t ! x)"
  shows "\<exists>t'. tLoserTreeAdjust cmp s' t (int u) = Inr t' \<and> lt_ready s' n t' \<and>
    (\<forall>x. n \<le> x \<longrightarrow> x < 2 * n \<longrightarrow> lt_pNode t' ! x = lt_pNode t ! x)"
proof (cases "n = 1")
  case True
  then have "lt_wf 1 t" "u = 1" using ready u by (simp_all add: lt_ready_def)
  then show ?thesis using adjust_single [of t s'] True by auto
next
  case False
  have wf: "lt_wf n t" and n: "2 \<le> n" using ready False by (auto simp: lt_ready_def lt_wf_def)
  obtain x where x: "n \<le> x" "x < 2 * n" "lt_pNode t ! 0 = lt_pNode t ! x" "ln_index (lt_pNode t ! 0) = int x - int n"
    using ready_winner [OF ready n] .
  then have ux: "u = x" using u by simp
  let ?S = "{n..<2 * n} - {u}"
  have "part (key s) (lt_pNode t) n {n..<2 * n} 1 (Some (lt_pNode t ! 0))" using ready n by (simp add: lt_ready_def)
  then have "part (key s') (lt_pNode t) n ?S 1 None"
    using part_remove [of "key s" "lt_pNode t" n _ 1 "lt_pNode t ! 0" u "key s'"] x ux lt_wf_inj [OF wf] keys by blast
  then obtain t' r where t': "tLoserTreeAdjust cmp s' t (int u) = Inr t'" "lt_wf n t'"
      "part (key s') (lt_pNode t') n (insert u ?S) 1 r" "\<forall>w. r = Some w \<longrightarrow> lt_pNode t' ! 0 = w"
      "\<forall>x. n \<le> x \<longrightarrow> lt_pNode t' ! x = lt_pNode t ! x"
    using adjust_enter [OF wf n, of u ?S s'] x(1,2) ux ok by auto
  have all: "insert u ?S = {n..<2 * n}" using x(1,2) ux by auto
  then obtain w where "r = Some w" using part_full [OF t'(3)] by auto
  then have "lt_ready s' n t'" using t' all n by (auto simp: lt_ready_def)
  with t' show ?thesis by auto
qed

text \<open>Node 0 names a leaf with the least key.\<close>

lemma ready_min:
  assumes "lt_ready s n t"
  shows "\<exists>i < n. ln_index (lt_pNode t ! 0) = int i \<and> (\<forall>j < n. key s (lt_pNode t ! (n + i)) \<le> key s (lt_pNode t ! (n + j)))"
proof (cases "n = 1")
  case True
  with assms show ?thesis by (simp add: lt_ready_def)
next
  case False
  then have n: "2 \<le> n" using assms by (auto simp: lt_ready_def lt_wf_def)
  obtain u where u: "n \<le> u" "u < 2 * n" "lt_pNode t ! 0 = lt_pNode t ! u" "ln_index (lt_pNode t ! 0) = int u - int n"
    using ready_winner [OF assms n] .
  have "part (key s) (lt_pNode t) n {n..<2 * n} 1 (Some (lt_pNode t ! u))" using assms n u(3) by (simp add: lt_ready_def)
  then have "key s (lt_pNode t ! u) \<le> key s (lt_pNode t ! (n + j))" if "j < n" for j
    using part_min [of "key s" "lt_pNode t" n _ 1 _ "n + j"] that below_root [of "n + j"] n by auto
  then show ?thesis using u by (intro exI [of _ "u - n"]) auto
qed

end

section \<open>Creation\<close>

lemma init_ok:
  assumes "lt_numOfEntries t = int n" "lt_totalEntries t = 2 * int n" "length (lt_pNode t) = 2 * n" "0 < n" "n < 2 ^ 30"
  obtains t' where "tLoserTreeInit t = Inr t'" and "lt_wf n t'" and "\<And>v. v < n \<Longrightarrow> ln_index (lt_pNode t' ! v) = -1"
    and "\<And>i. i < n \<Longrightarrow> lt_pNode t' ! (n + i) = (lt_pNode t ! (n + i))\<lparr>ln_index := int i\<rparr>"
proof -
  let ?nodes = "map2 (init_node (int n)) [0..<2 * n] (lt_pNode t)"
  have "(2 * int n) AND 1 = 0" by (simp add: and_one_eq)
  moreover have "to_int32 (2 * int n) = 2 * int n" using assms(5) by simp
  ultimately have "tLoserTreeInit t = Inr (t\<lparr>lt_pNode := ?nodes\<rparr>)"
    using assms by (simp add: tLoserTreeInit_def Let_def nat_mult_distrib)
  moreover have nth: "?nodes ! v = init_node (int n) v (lt_pNode t ! v)" if "v < 2 * n" for v using that assms(3) by simp
  moreover have "lt_wf n (t\<lparr>lt_pNode := ?nodes\<rparr>)" using assms nth by (simp add: lt_wf_def init_node_def)
  ultimately show ?thesis using that [of "t\<lparr>lt_pNode := ?nodes\<rparr>"] by (simp add: init_node_def)
qed

context merge_order
begin

lemma create_ready:
  assumes "0 < n" and "n < 2 ^ 30" and ok: "\<And>i. i < n \<Longrightarrow> ok s \<lparr>ln_index = int i, ln_pData = 0\<rparr>"
  shows "\<exists>t. tLoserTreeCreate True (int n) s cmp = Inr (0, Some t) \<and> lt_ready s n t \<and>
    (\<forall>i < n. lt_pNode t ! (n + i) = \<lparr>ln_index = int i, ln_pData = 0\<rparr>)"
proof -
  let ?t = "\<lparr>lt_numOfEntries = int n, lt_totalEntries = 2 * int n, lt_pNode = replicate (2 * n) \<lparr>ln_index = 0, ln_pData = 0\<rparr>\<rparr>"
  obtain t1 where t1: "tLoserTreeInit ?t = Inr t1" "lt_wf n t1" "\<And>v. v < n \<Longrightarrow> ln_index (lt_pNode t1 ! v) = -1"
      "\<And>i. i < n \<Longrightarrow> lt_pNode t1 ! (n + i) = (lt_pNode ?t ! (n + i))\<lparr>ln_index := int i\<rparr>"
    using init_ok [of ?t n] assms(1,2) by auto
  have leaf: "lt_pNode t1 ! (n + i) = \<lparr>ln_index = int i, ln_pData = 0\<rparr>" if "i < n" for i using t1(4) that by simp
  have "ok s (lt_pNode t1 ! x)" if "n \<le> x" "x < 2 * n" for x using leaf [of "x - n"] ok [of "x - n"] that by simp
  then obtain t where t: "adjust_all cmp s n t1 = Inr t" "lt_ready s n t"
      "\<And>x. n \<le> x \<Longrightarrow> x < 2 * n \<Longrightarrow> lt_pNode t ! x = lt_pNode t1 ! x"
    using build_ready [OF t1(2,3)] by blast
  have "to_int32 (2 * int n) = 2 * int n" using assms(2) by simp
  then have "tLoserTreeCreate True (int n) s cmp = Inr (0, Some t)"
    using t1(1) t(1) by (simp add: tLoserTreeCreate_def Let_def nat_mult_distrib)
  then show ?thesis using t leaf by auto
qed

lemma rebuild_ready:
  assumes wf: "lt_wf n t" and ok: "\<And>x. n \<le> x \<Longrightarrow> x < 2 * n \<Longrightarrow> ok s (lt_pNode t ! x)"
  shows "\<exists>t'. tLoserTreeRebuild cmp s t = Inr t' \<and> lt_ready s n t' \<and>
    (\<forall>x. n \<le> x \<longrightarrow> x < 2 * n \<longrightarrow> lt_pNode t' ! x = lt_pNode t ! x)"
proof -
  have e: "lt_numOfEntries t = int n" "lt_totalEntries t = 2 * int n" "length (lt_pNode t) = 2 * n" "0 < n" "n < 2 ^ 30"
    using wf by (simp_all add: lt_wf_def)
  obtain t1 where t1: "tLoserTreeInit t = Inr t1" "lt_wf n t1" "\<And>v. v < n \<Longrightarrow> ln_index (lt_pNode t1 ! v) = -1"
      "\<And>i. i < n \<Longrightarrow> lt_pNode t1 ! (n + i) = (lt_pNode t ! (n + i))\<lparr>ln_index := int i\<rparr>"
    using init_ok [OF e] by blast
  have leaf: "lt_pNode t1 ! x = lt_pNode t ! x" if "n \<le> x" "x < 2 * n" for x
    using t1(4) [of "x - n"] lt_wf_leaf [OF wf that] that by (cases "lt_pNode t ! x") simp
  then obtain t' where t': "adjust_all cmp s n t1 = Inr t'" "lt_ready s n t'"
      "\<And>x. n \<le> x \<Longrightarrow> x < 2 * n \<Longrightarrow> lt_pNode t' ! x = lt_pNode t1 ! x"
    using build_ready [OF t1(2,3)] ok by metis
  have "tLoserTreeRebuild cmp s t = Inr t'"
    using t1(1,2) t'(1) e(2) by (simp add: tLoserTreeRebuild_def lt_wf_def and_one_eq)
  then show ?thesis using t' leaf by auto
qed

end

end
