(* ===== verification/BlockOrder.thy ===== *)
theory BlockOrder
  imports LoserTree "HOL-Library.Product_Lexorder" "HOL-Library.Multiset"
begin

text \<open>
  The access order of the data blocks of a query, src/src/system/src/vnodeQueryImpl.c: the blocks of
  all with_blocks meters are merged by their offset in the data file with a loser tree
  (\<open>createDataBlocksInfoEx\<close>). The allocations of the working arrays succeed; whether the tree can be
  allocated is a parameter. A pointer to a block is represented by the block, which is only read, and a
  pointer to a meter by its position in the argument array.
\<close>

section \<open>Data\<close>

record SCompBlock =
  cb_last :: int
  cb_offset :: int
  cb_algorithm :: int
  cb_numOfPoints :: int
  cb_sversion :: int
  cb_len :: int
  cb_numOfCols :: int
  cb_keyFirst :: int
  cb_keyLast :: int

record SMeterDataInfo =
  md_numOfBlocks :: int
  md_start :: int
  md_pBlock :: "SCompBlock list"
  md_groupIdx :: int

record SMeterDataBlockInfoEx =
  bi_compBlock :: "SCompBlock option"
  bi_fields :: "nat option"
  bi_pMeterDataInfo :: "nat option"
  bi_blockIndex :: int
  bi_groupIdx :: int

record SBlockOrderSupporter =
  so_numOfMeters :: int
  so_pDataBlockInfoEx :: "SMeterDataBlockInfoEx list list"
  so_blockIndexArray :: "int list"
  so_numOfBlocksPerMeter :: "int list"

definition zero_ex :: SMeterDataBlockInfoEx where
  "zero_ex = \<lparr>bi_compBlock = None, bi_fields = None, bi_pMeterDataInfo = None, bi_blockIndex = 0, bi_groupIdx = 0\<rparr>"

section \<open>Operations\<close>

definition freeDataBlockFieldInfo :: "SMeterDataBlockInfoEx list \<Rightarrow> int \<Rightarrow> SMeterDataBlockInfoEx list res" where
  "freeDataBlockFieldInfo ex len =
     (if len \<le> int (length ex) then
        Inr (map (bi_fields_update (\<lambda>_. None)) (take (nat len) ex) @ drop (nat len) ex)
      else Inl Out_Of_Bounds)"

definition blockAccessOrderComparator :: "SBlockOrderSupporter merge_compare_fn" where
  "blockAccessOrderComparator pLeft pRight sp =
     rbind (arr_get (so_blockIndexArray sp) (ln_index pLeft)) (\<lambda>leftBlock.
     rbind (arr_get (so_blockIndexArray sp) (ln_index pRight)) (\<lambda>rightBlock.
     rbind (arr_get (so_numOfBlocksPerMeter sp) (ln_index pLeft)) (\<lambda>leftNum.
       if leftNum < leftBlock then Inr 1
       else
         rbind (arr_get (so_numOfBlocksPerMeter sp) (ln_index pRight)) (\<lambda>rightNum.
           if rightNum < rightBlock then Inr (-1)
           else
             rbind (arr_get (so_pDataBlockInfoEx sp) (ln_index pLeft)) (\<lambda>ls.
             rbind (arr_get ls leftBlock) (\<lambda>l.
             rbind (arr_get (so_pDataBlockInfoEx sp) (ln_index pRight)) (\<lambda>rs.
             rbind (arr_get rs rightBlock) (\<lambda>r.
             rbind (deref (bi_compBlock l)) (\<lambda>lb.
             rbind (deref (bi_compBlock r)) (\<lambda>rb.
               Inr (if cb_offset rb < cb_offset lb then 1 else -1)))))))))))"

text \<open>The blocks of meter \<open>j\<close>, from block \<open>k\<close> on.\<close>

fun meter_blocks :: "nat \<Rightarrow> SMeterDataInfo \<Rightarrow> nat \<Rightarrow> nat \<Rightarrow> SMeterDataBlockInfoEx list res" where
  "meter_blocks j m k 0 = Inr []"
| "meter_blocks j m k (Suc n) =
     rbind (arr_get (md_pBlock m) (int k)) (\<lambda>b.
     rbind (meter_blocks j m (Suc k) n) (\<lambda>rest.
       Inr (\<lparr>bi_compBlock = Some b, bi_fields = None, bi_pMeterDataInfo = Some j,
             bi_blockIndex = md_start m + int k, bi_groupIdx = md_groupIdx m\<rparr> # rest)))"

text \<open>The loop over the meters: \<open>q\<close> counts the meters that have blocks, \<open>cnt\<close> the blocks.\<close>

fun collect_meters ::
    "nat \<Rightarrow> SMeterDataInfo list \<Rightarrow> SBlockOrderSupporter \<Rightarrow> int \<Rightarrow> int \<Rightarrow> (SBlockOrderSupporter \<times> int \<times> int) res"
where
  "collect_meters j [] sp q cnt = Inr (sp, q, cnt)"
| "collect_meters j (m # ms) sp q cnt =
     (if md_numOfBlocks m = 0 then collect_meters (Suc j) ms sp q cnt
      else
        rbind (arr_set (so_numOfBlocksPerMeter sp) q (md_numOfBlocks m)) (\<lambda>nums.
        rbind (meter_blocks j m 0 (nat (md_numOfBlocks m))) (\<lambda>bs.
        rbind (arr_set (so_pDataBlockInfoEx sp) q bs) (\<lambda>exs.
          collect_meters (Suc j) ms (sp\<lparr>so_numOfBlocksPerMeter := nums, so_pDataBlockInfoEx := exs\<rparr>)
            (q + 1) (cnt + int (nat (md_numOfBlocks m)))))))"

function order_loop ::
    "SBlockOrderSupporter \<Rightarrow> SLoserTreeInfo \<Rightarrow> SMeterDataBlockInfoEx list \<Rightarrow> int \<Rightarrow> int \<Rightarrow> SMeterDataBlockInfoEx list res"
where
  "order_loop sp tree ex numOfTotal cnt =
     (if numOfTotal < cnt then
        rbind (arr_get (lt_pNode tree) 0) (\<lambda>w. let pos = ln_index w in
        rbind (arr_get (so_pDataBlockInfoEx sp) pos) (\<lambda>bs.
        rbind (arr_get (so_blockIndexArray sp) pos) (\<lambda>index.
        rbind (arr_get bs index) (\<lambda>b.
        rbind (arr_set ex numOfTotal b) (\<lambda>ex1.
        rbind (arr_get (so_numOfBlocksPerMeter sp) pos) (\<lambda>num.
        rbind (arr_set (so_blockIndexArray sp) pos (if num \<le> index + 1 then num + 1 else index + 1)) (\<lambda>idxs.
          let sp1 = sp\<lparr>so_blockIndexArray := idxs\<rparr> in
        rbind (tLoserTreeAdjust blockAccessOrderComparator sp1 tree (pos + so_numOfMeters sp1)) (\<lambda>tree1.
          order_loop sp1 tree1 ex1 (numOfTotal + 1) cnt))))))))
      else Inr ex)"
  by pat_completeness auto
termination
  by (relation "measure (\<lambda>(sp, tree, ex, numOfTotal, cnt). nat (cnt - numOfTotal))") auto

declare order_loop.simps [simp del]

text \<open>The bit fields \<open>last\<close> and \<open>offset\<close> of a block are integers, and the log line of a failed allocation is left out.\<close>

definition createDataBlocksInfoEx ::
    "bool \<Rightarrow> SMeterDataInfo list \<Rightarrow> SMeterDataBlockInfoEx list \<Rightarrow> int \<Rightarrow> int \<Rightarrow>
      (int \<times> SMeterDataBlockInfoEx list \<times> int) res"
where
  "createDataBlocksInfoEx calloc meters ex numOfCompBlocks nAllocBlocksInfoSize =
     rbind (freeDataBlockFieldInfo ex nAllocBlocksInfoSize) (\<lambda>ex0.
       let numOfMeters = length meters;
           grow = nAllocBlocksInfoSize = 0 \<or> nAllocBlocksInfoSize < numOfCompBlocks;
           ex1 = (if grow then replicate (nat numOfCompBlocks) zero_ex else ex0);
           nAlloc = (if grow then numOfCompBlocks else nAllocBlocksInfoSize);
           sp = \<lparr>so_numOfMeters = int numOfMeters, so_pDataBlockInfoEx = replicate numOfMeters [],
                  so_blockIndexArray = replicate numOfMeters 0, so_numOfBlocksPerMeter = replicate numOfMeters 0\<rparr> in
       rbind (collect_meters 0 meters sp 0 0) (\<lambda>(sp1, q, cnt).
         if cnt \<le> numOfCompBlocks \<and> q \<le> int numOfMeters then
           let sp2 = sp1\<lparr>so_numOfMeters := q\<rparr> in
           rbind (tLoserTreeCreate calloc q sp2 blockAccessOrderComparator) (\<lambda>(code, tree).
             if 0 < cnt then
               rbind (deref tree) (\<lambda>t. rbind (order_loop sp2 t ex1 0 cnt) (\<lambda>ex2. Inr (cnt, ex2, nAlloc)))
             else Inr (cnt, ex1, nAlloc))
         else Inl Assert_Failed))"

section \<open>The comparison\<close>

text \<open>
  Meter \<open>q\<close> has blocks left at \<open>blockIndexArray[q]\<close>; an index past the number of blocks marks an
  exhausted meter, which sorts after all others.
\<close>

definition so_wf :: "SBlockOrderSupporter \<Rightarrow> bool" where
  "so_wf sp \<longleftrightarrow> 0 \<le> so_numOfMeters sp \<and> so_numOfMeters sp \<le> int (length (so_blockIndexArray sp)) \<and>
     length (so_numOfBlocksPerMeter sp) = length (so_blockIndexArray sp) \<and>
     length (so_pDataBlockInfoEx sp) = length (so_blockIndexArray sp) \<and>
     (\<forall>q < nat (so_numOfMeters sp).
        so_numOfBlocksPerMeter sp ! q = int (length (so_pDataBlockInfoEx sp ! q)) \<and>
        (0 \<le> so_blockIndexArray sp ! q \<and> so_blockIndexArray sp ! q < int (length (so_pDataBlockInfoEx sp ! q)) \<or>
         so_blockIndexArray sp ! q = int (length (so_pDataBlockInfoEx sp ! q)) + 1) \<and>
        (\<forall>e \<in> set (so_pDataBlockInfoEx sp ! q). bi_compBlock e \<noteq> None))"

definition offset_of :: "SMeterDataBlockInfoEx \<Rightarrow> int" where
  "offset_of e = (case bi_compBlock e of None \<Rightarrow> 0 | Some b \<Rightarrow> cb_offset b)"

definition remaining :: "SBlockOrderSupporter \<Rightarrow> nat \<Rightarrow> SMeterDataBlockInfoEx list" where
  "remaining sp q = drop (nat (so_blockIndexArray sp ! q)) (so_pDataBlockInfoEx sp ! q)"

definition block_key :: "SBlockOrderSupporter \<Rightarrow> SLoserTreeNode \<Rightarrow> nat \<times> int" where
  "block_key sp nd =
     (case remaining sp (nat (ln_index nd)) of [] \<Rightarrow> (1, 0) | e # _ \<Rightarrow> (0, offset_of e))"

definition block_ok :: "SBlockOrderSupporter \<Rightarrow> SLoserTreeNode \<Rightarrow> bool" where
  "block_ok sp nd \<longleftrightarrow> so_wf sp \<and> 0 \<le> ln_index nd \<and> ln_index nd < so_numOfMeters sp"

lemma remaining_cases:
  assumes "so_wf sp" and "q < nat (so_numOfMeters sp)"
  obtains (blocks) e where "so_blockIndexArray sp ! q < so_numOfBlocksPerMeter sp ! q" "0 \<le> so_blockIndexArray sp ! q"
      "remaining sp q = e # drop (Suc (nat (so_blockIndexArray sp ! q))) (so_pDataBlockInfoEx sp ! q)"
      "e = so_pDataBlockInfoEx sp ! q ! nat (so_blockIndexArray sp ! q)" "bi_compBlock e \<noteq> None"
      "so_blockIndexArray sp ! q < int (length (so_pDataBlockInfoEx sp ! q))"
  | (empty) "so_numOfBlocksPerMeter sp ! q < so_blockIndexArray sp ! q" "remaining sp q = []"
proof -
  let ?i = "so_blockIndexArray sp ! q" and ?bs = "so_pDataBlockInfoEx sp ! q"
  have num: "so_numOfBlocksPerMeter sp ! q = int (length ?bs)" and e: "\<forall>e \<in> set ?bs. bi_compBlock e \<noteq> None"
    and i: "0 \<le> ?i \<and> ?i < int (length ?bs) \<or> ?i = int (length ?bs) + 1"
    using assms unfolding so_wf_def by blast+
  from i show ?thesis
  proof
    assume i: "0 \<le> ?i \<and> ?i < int (length ?bs)"
    then have n: "nat ?i < length ?bs" by linarith
    then have "remaining sp q = ?bs ! nat ?i # drop (Suc (nat ?i)) ?bs" by (simp add: remaining_def Cons_nth_drop_Suc)
    moreover have "bi_compBlock (?bs ! nat ?i) \<noteq> None" using e nth_mem [OF n] by blast
    ultimately show ?thesis using i num by (intro blocks) simp_all
  next
    assume "?i = int (length ?bs) + 1"
    then show ?thesis using num by (intro empty) (simp_all add: remaining_def)
  qed
qed

lemma comparator_reads:
  assumes "block_ok sp x"
  shows "arr_get (so_blockIndexArray sp) (ln_index x) = Inr (so_blockIndexArray sp ! nat (ln_index x))"
    and "arr_get (so_numOfBlocksPerMeter sp) (ln_index x) = Inr (so_numOfBlocksPerMeter sp ! nat (ln_index x))"
    and "arr_get (so_pDataBlockInfoEx sp) (ln_index x) = Inr (so_pDataBlockInfoEx sp ! nat (ln_index x))"
    and "nat (ln_index x) < nat (so_numOfMeters sp)" and "so_wf sp"
  using assms unfolding block_ok_def so_wf_def by simp_all

lemma comparator_order:
  assumes x: "block_ok sp x" and y: "block_ok sp y"
  shows "\<exists>r. blockAccessOrderComparator x y sp = Inr r \<and>
    (if r < 0 then block_key sp x \<le> block_key sp y else block_key sp y \<le> block_key sp x)"
proof -
  let ?i = "nat (ln_index x)" and ?j = "nat (ln_index y)"
  note reads = comparator_reads(1-3) [OF x] comparator_reads(1-3) [OF y]
  from comparator_reads(5,4) [OF x] show ?thesis
  proof (cases rule: remaining_cases)
    case empty
    then have "blockAccessOrderComparator x y sp = Inr 1" unfolding blockAccessOrderComparator_def reads by simp
    moreover have "block_key sp y \<le> (1, 0)" by (simp add: block_key_def less_eq_prod_def split: list.split)
    moreover have "block_key sp x = (1, 0)" by (simp add: block_key_def empty(2))
    ultimately show ?thesis by simp
  next
    case (blocks e)
    note b = this
    from comparator_reads(5,4) [OF y] show ?thesis
    proof (cases rule: remaining_cases)
      case empty
      then have "blockAccessOrderComparator x y sp = Inr (-1)"
        using b(1) unfolding blockAccessOrderComparator_def reads by simp
      moreover have "block_key sp x = (0, offset_of e)" "block_key sp y = (1, 0)"
        by (simp_all add: block_key_def b(3) empty(2))
      ultimately show ?thesis by simp
    next
      case (blocks f)
      obtain eb fb where eb: "bi_compBlock e = Some eb" and fb: "bi_compBlock f = Some fb" using b(5) blocks(5) by blast
      have "arr_get (so_pDataBlockInfoEx sp ! ?i) (so_blockIndexArray sp ! ?i) = Inr e"
        and "arr_get (so_pDataBlockInfoEx sp ! ?j) (so_blockIndexArray sp ! ?j) = Inr f"
        using b(2,4,6) blocks(2,4,6) by (simp_all add: arr_get_def)
      then have "blockAccessOrderComparator x y sp = Inr (if cb_offset fb < cb_offset eb then 1 else -1)"
        using b(1) blocks(1) eb fb unfolding blockAccessOrderComparator_def reads by simp
      moreover have "block_key sp x = (0, cb_offset eb)" "block_key sp y = (0, cb_offset fb)"
        by (simp_all add: block_key_def b(3) blocks(3) offset_of_def eb fb)
      ultimately show ?thesis by simp
    qed
  qed
qed

interpretation block_tree: merge_order blockAccessOrderComparator block_key block_ok
  by unfold_locales (rule comparator_order)

section \<open>The merge\<close>

text \<open>One round: the next block of meter \<open>q\<close> is taken.\<close>

definition take_block :: "SBlockOrderSupporter \<Rightarrow> nat \<Rightarrow> SBlockOrderSupporter" where
  "take_block sp q =
     (let num = so_numOfBlocksPerMeter sp ! q; index = so_blockIndexArray sp ! q in
      sp\<lparr>so_blockIndexArray := (so_blockIndexArray sp)[q := if num \<le> index + 1 then num + 1 else index + 1]\<rparr>)"

lemma take_block_wf:
  assumes wf: "so_wf sp" and q: "q < nat (so_numOfMeters sp)" and ne: "remaining sp q \<noteq> []"
  shows "so_wf (take_block sp q)" and "remaining (take_block sp q) q = tl (remaining sp q)"
    and "p \<noteq> q \<Longrightarrow> remaining (take_block sp q) p = remaining sp p"
proof -
  have num: "so_numOfBlocksPerMeter sp ! q = int (length (so_pDataBlockInfoEx sp ! q))" using wf q by (simp add: so_wf_def)
  have len: "q < length (so_blockIndexArray sp)" using wf q unfolding so_wf_def by linarith
  from wf q obtain e where i: "so_blockIndexArray sp ! q < int (length (so_pDataBlockInfoEx sp ! q))" "0 \<le> so_blockIndexArray sp ! q"
      "remaining sp q = e # drop (Suc (nat (so_blockIndexArray sp ! q))) (so_pDataBlockInfoEx sp ! q)"
    using ne by (cases rule: remaining_cases) simp_all
  show "so_wf (take_block sp q)"
    using wf i(1,2) num len by (auto simp: so_wf_def take_block_def Let_def nth_list_update)
  show "remaining (take_block sp q) q = tl (remaining sp q)"
  proof -
    let ?i = "so_blockIndexArray sp ! q" and ?bs = "so_pDataBlockInfoEx sp ! q"
    have "remaining (take_block sp q) q = drop (nat (if int (length ?bs) \<le> ?i + 1 then int (length ?bs) + 1 else ?i + 1)) ?bs"
      using num len by (simp add: remaining_def take_block_def Let_def)
    also have "\<dots> = drop (Suc (nat ?i)) ?bs" using i(2) by (cases "int (length ?bs) \<le> ?i + 1") (auto simp: nat_add_distrib)
    finally show ?thesis using i(3) by simp
  qed
  show "p \<noteq> q \<Longrightarrow> remaining (take_block sp q) p = remaining sp p"
    by (simp add: remaining_def take_block_def Let_def)
qed

lemma take_block_same [simp]:
  "so_numOfMeters (take_block sp q) = so_numOfMeters sp"
  "so_pDataBlockInfoEx (take_block sp q) = so_pDataBlockInfoEx sp"
  by (simp_all add: take_block_def Let_def)

text \<open>A tree that is ready for the supporter, leaf \<open>i\<close> standing for meter \<open>i\<close>.\<close>

definition tree_for :: "SBlockOrderSupporter \<Rightarrow> SLoserTreeInfo \<Rightarrow> bool" where
  "tree_for sp t \<longleftrightarrow>
     (let n = nat (so_numOfMeters sp) in
      block_tree.lt_ready sp n t \<and> (\<forall>i < n. lt_pNode t ! (n + i) = \<lparr>ln_index = int i, ln_pData = 0\<rparr>))"

lemma tree_head:
  assumes "tree_for sp t" and "so_wf sp" and some: "p < nat (so_numOfMeters sp)" "remaining sp p \<noteq> []"
  obtains q where "q < nat (so_numOfMeters sp)" "arr_get (lt_pNode t) 0 = Inr (lt_pNode t ! 0)" "ln_index (lt_pNode t ! 0) = int q"
    "remaining sp q \<noteq> []"
    "\<And>p e es. p < nat (so_numOfMeters sp) \<Longrightarrow> remaining sp p = e # es \<Longrightarrow> offset_of (hd (remaining sp q)) \<le> offset_of e"
proof -
  let ?n = "nat (so_numOfMeters sp)"
  have ready: "block_tree.lt_ready sp ?n t" and leaf: "\<And>i. i < ?n \<Longrightarrow> lt_pNode t ! (?n + i) = \<lparr>ln_index = int i, ln_pData = 0\<rparr>"
    using assms(1) by (auto simp: tree_for_def Let_def)
  obtain q where q: "q < ?n" "ln_index (lt_pNode t ! 0) = int q"
      "\<And>j. j < ?n \<Longrightarrow> block_key sp (lt_pNode t ! (?n + q)) \<le> block_key sp (lt_pNode t ! (?n + j))"
    using block_tree.ready_min [OF ready] by blast
  have key: "block_key sp (lt_pNode t ! (?n + j)) = (case remaining sp j of [] \<Rightarrow> (1, 0) | e # _ \<Rightarrow> (0, offset_of e))" if "j < ?n" for j
    using leaf [OF that] by (simp add: block_key_def)
  have "remaining sp q \<noteq> []" using q(3) [OF some(1)] key [OF q(1)] key [OF some(1)] some(2) by (auto split: list.splits)
  moreover have "offset_of (hd (remaining sp q)) \<le> offset_of e" if "p < ?n" "remaining sp p = e # es" for p e es
    using q(3) [OF that(1)] key [OF q(1)] key [OF that(1)] that(2) \<open>remaining sp q \<noteq> []\<close> by (auto split: list.splits)
  moreover have "0 < length (lt_pNode t)" using ready by (simp add: block_tree.lt_ready_def lt_wf_def)
  ultimately show ?thesis using that q(1,2) by simp
qed

lemma tree_adjust:
  assumes t: "tree_for sp t" and wf: "so_wf sp" and q: "q < nat (so_numOfMeters sp)" "ln_index (lt_pNode t ! 0) = int q"
    and ne: "remaining sp q \<noteq> []"
  obtains t' where "tLoserTreeAdjust blockAccessOrderComparator (take_block sp q) t (int q + so_numOfMeters sp) = Inr t'"
    and "tree_for (take_block sp q) t'"
proof -
  let ?n = "nat (so_numOfMeters sp)" and ?s = "take_block sp q"
  have ready: "block_tree.lt_ready sp ?n t" and leaf: "\<And>i. i < ?n \<Longrightarrow> lt_pNode t ! (?n + i) = \<lparr>ln_index = int i, ln_pData = 0\<rparr>"
    using t by (auto simp: tree_for_def Let_def)
  have u: "int (q + ?n) = ln_index (lt_pNode t ! 0) + int ?n" using q(2) by simp
  have pos: "\<exists>i < ?n. x = ?n + i" if "?n \<le> x" "x < 2 * ?n" for x using that by (intro exI [of _ "x - ?n"]) auto
  have "block_key ?s (lt_pNode t ! x) = block_key sp (lt_pNode t ! x)" if "?n \<le> x" "x < 2 * ?n" "x \<noteq> q + ?n" for x
    using pos [OF that(1,2)] that(3) leaf take_block_wf(3) [OF wf q(1) ne] by (auto simp: block_key_def add.commute)
  moreover have "block_ok ?s (lt_pNode t ! x)" if "?n \<le> x" "x < 2 * ?n" for x
    using pos [OF that] leaf take_block_wf(1) [OF wf q(1) ne] by (auto simp: block_ok_def)
  ultimately obtain t' where "tLoserTreeAdjust blockAccessOrderComparator ?s t (int (q + ?n)) = Inr t'" "block_tree.lt_ready ?s ?n t'"
      "\<And>x. ?n \<le> x \<Longrightarrow> x < 2 * ?n \<Longrightarrow> lt_pNode t' ! x = lt_pNode t ! x"
    using block_tree.adjust_ready [OF ready u, of ?s] by blast
  moreover have "int (q + ?n) = int q + so_numOfMeters sp" using wf by (simp add: so_wf_def)
  ultimately show ?thesis using that [of t'] leaf by (simp add: tree_for_def Let_def)
qed

text \<open>
  \<open>merged n R bs\<close>: \<open>bs\<close> holds the elements of the \<open>n\<close> lists, each list in its order, and is sorted by
  offset when the lists are.
\<close>

definition merged :: "nat \<Rightarrow> (nat \<Rightarrow> SMeterDataBlockInfoEx list) \<Rightarrow> SMeterDataBlockInfoEx list \<Rightarrow> bool" where
  "merged n R bs \<longleftrightarrow> mset bs = (\<Sum>q < n. mset (R q)) \<and>
     (\<forall>q < n. \<forall>P. (\<forall>p < n. p \<noteq> q \<longrightarrow> (\<forall>e \<in> set (R p). \<not> P e)) \<longrightarrow> filter P bs = filter P (R q)) \<and>
     ((\<forall>q < n. sorted (map offset_of (R q))) \<longrightarrow> sorted (map offset_of bs))"

lemma sum_upd: "q < (n::nat) \<Longrightarrow> (\<Sum>p < n. f (R p)) = f (R q) + (\<Sum>p \<in> {..<n} - {q}. f (R p) :: 'a::comm_monoid_add)"
  by (simp add: sum.remove)

lemma merged_step:
  assumes m: "merged n R' bs" and q: "q < n" "R q = e # R' q" and same: "\<And>p. p \<noteq> q \<Longrightarrow> R' p = R p"
    and least: "\<And>p f fs. p < n \<Longrightarrow> R p = f # fs \<Longrightarrow> offset_of e \<le> offset_of f"
  shows "merged n R (e # bs)"
proof -
  have rest: "(\<Sum>p \<in> {..<n} - {q}. mset (R' p)) = (\<Sum>p \<in> {..<n} - {q}. mset (R p))" using same by (intro sum.cong) auto
  have ms': "mset bs = (\<Sum>p < n. mset (R' p))" using m by (simp add: merged_def)
  then have ms: "mset (e # bs) = (\<Sum>p < n. mset (R p))"
    using sum_upd [OF q(1), of mset R] sum_upd [OF q(1), of mset R'] rest q(2) by simp
  have "filter P (e # bs) = filter P (R r)"
    if "r < n" and P: "\<forall>p < n. p \<noteq> r \<longrightarrow> (\<forall>f \<in> set (R p). \<not> P f)" for r P
  proof -
    have sub: "set (R' p) \<subseteq> set (R p)" for p using same q(2) by (cases "p = q") auto
    then have "\<forall>p < n. p \<noteq> r \<longrightarrow> (\<forall>f \<in> set (R' p). \<not> P f)" using P by (meson subsetD)
    then have "filter P bs = filter P (R' r)" using m that(1) by (simp add: merged_def)
    moreover have "\<not> P e" if "r \<noteq> q" using P q that by auto
    ultimately show ?thesis using same q(2) by (cases "r = q") auto
  qed
  moreover have "sorted (map offset_of (e # bs))" if s: "\<forall>p < n. sorted (map offset_of (R p))"
  proof -
    have s': "\<forall>p < n. sorted (map offset_of (R' p))" using s same q by (metis list.simps(9) sorted_simps(2))
    have "offset_of e \<le> offset_of f" if "f \<in> set bs" for f
    proof -
      from that have "f \<in># (\<Sum>p < n. mset (R' p))" using ms' by (metis in_multiset_in_set)
      then obtain p where p: "p < n" "f \<in> set (R' p)" by (auto simp: set_mset_sum)
      then have "f \<in> set (R p)" using same q(2) by (cases "p = q") auto
      then show ?thesis using s p(1) least [OF p(1)] by (cases "R p") fastforce+
    qed
    moreover have "sorted (map offset_of bs)" using m s' by (simp add: merged_def)
    ultimately show ?thesis by simp
  qed
  ultimately show ?thesis using ms unfolding merged_def by blast
qed

lemma order_loop_step:
  assumes wf: "so_wf sp" and q: "q < nat (so_numOfMeters sp)" "remaining sp q \<noteq> []" and m: "0 \<le> m" "m < cnt" "cnt \<le> int (length ex)"
    and w: "arr_get (lt_pNode t) 0 = Inr (lt_pNode t ! 0)" "ln_index (lt_pNode t ! 0) = int q"
    and adj: "tLoserTreeAdjust blockAccessOrderComparator (take_block sp q) t (int q + so_numOfMeters sp) = Inr t'"
  shows "order_loop sp t ex m cnt = order_loop (take_block sp q) t' (ex[nat m := hd (remaining sp q)]) (m + 1) cnt"
proof -
  have len: "q < length (so_blockIndexArray sp)" "length (so_numOfBlocksPerMeter sp) = length (so_blockIndexArray sp)"
      "length (so_pDataBlockInfoEx sp) = length (so_blockIndexArray sp)"
    using wf q(1) unfolding so_wf_def by linarith+
  from wf q(1) obtain e where e: "remaining sp q = e # drop (Suc (nat (so_blockIndexArray sp ! q))) (so_pDataBlockInfoEx sp ! q)"
      "arr_get (so_pDataBlockInfoEx sp ! q) (so_blockIndexArray sp ! q) = Inr e"
    using q(2) by (cases rule: remaining_cases) (simp_all add: arr_get_def)
  have "sp\<lparr>so_blockIndexArray := (so_blockIndexArray sp)[q := if so_numOfBlocksPerMeter sp ! q \<le> so_blockIndexArray sp ! q + 1
      then so_numOfBlocksPerMeter sp ! q + 1 else so_blockIndexArray sp ! q + 1]\<rparr> = take_block sp q"
    by (simp add: take_block_def Let_def)
  moreover have "arr_set ex m e = Inr (ex[nat m := e])" using m by simp
  ultimately show ?thesis
    using len e adj w m(2) by (simp add: order_loop.simps [of sp t ex m cnt] Let_def arr_get_nat)
qed

lemma order_loop_ok:
  assumes "so_wf sp" and "tree_for sp t" and "0 \<le> m" and "cnt \<le> int (length ex)"
    and "cnt = m + int (\<Sum>q < nat (so_numOfMeters sp). length (remaining sp q))"
  shows "\<exists>bs. order_loop sp t ex m cnt = Inr (take (nat m) ex @ bs @ drop (nat cnt) ex) \<and>
    merged (nat (so_numOfMeters sp)) (remaining sp) bs"
  using assms
proof (induction "nat (cnt - m)" arbitrary: sp t ex m)
  case 0
  then have "cnt = m" by linarith
  then have "(\<Sum>q < nat (so_numOfMeters sp). length (remaining sp q)) = 0" using 0(6) by linarith
  then have "\<forall>q < nat (so_numOfMeters sp). remaining sp q = []" by simp
  moreover have "order_loop sp t ex m cnt = Inr ex" using \<open>cnt = m\<close> by (simp add: order_loop.simps)
  ultimately show ?case using \<open>cnt = m\<close> by (simp add: merged_def)
next
  case (Suc k)
  let ?n = "nat (so_numOfMeters sp)" and ?R = "remaining sp"
  have lt: "m < cnt" using Suc.hyps(2) by linarith
  then have "(\<Sum>q < ?n. length (?R q)) \<noteq> 0" using Suc.prems(5) by linarith
  then obtain p where p: "p < ?n" "?R p \<noteq> []" by auto
  obtain q where q: "q < ?n" "arr_get (lt_pNode t) 0 = Inr (lt_pNode t ! 0)" "ln_index (lt_pNode t ! 0) = int q" "?R q \<noteq> []"
      "\<And>p f fs. p < ?n \<Longrightarrow> ?R p = f # fs \<Longrightarrow> offset_of (hd (?R q)) \<le> offset_of f"
    using tree_head [OF Suc.prems(2,1) p] by blast
  obtain t' where t': "tLoserTreeAdjust blockAccessOrderComparator (take_block sp q) t (int q + so_numOfMeters sp) = Inr t'"
      "tree_for (take_block sp q) t'"
    using tree_adjust [OF Suc.prems(2,1) q(1,3,4)] .
  let ?s = "take_block sp q" and ?e = "hd (?R q)"
  note tb = take_block_wf [OF Suc.prems(1) q(1,4)]
  have "(\<Sum>p \<in> {..<?n} - {q}. length (remaining ?s p)) = (\<Sum>p \<in> {..<?n} - {q}. length (?R p))" using tb(3) by (intro sum.cong) auto
  then have sum: "(\<Sum>p < ?n. length (?R p)) = Suc (\<Sum>p < ?n. length (remaining ?s p))"
    using sum_upd [OF q(1), of length ?R] sum_upd [OF q(1), of length "remaining ?s"] tb(2) q(4) by (simp add: Suc_diff_Suc)
  have "k = nat (cnt - (m + 1))" using Suc.hyps(2) by linarith
  then obtain bs where bs: "order_loop ?s t' (ex[nat m := ?e]) (m + 1) cnt =
        Inr (take (nat (m + 1)) (ex[nat m := ?e]) @ bs @ drop (nat cnt) (ex[nat m := ?e]))"
      "merged ?n (remaining ?s) bs"
    using Suc.hyps(1) [OF _ tb(1) t'(2), of "m + 1" "ex[nat m := ?e]"] Suc.prems(3-5) sum by auto
  have "take (nat (m + 1)) (ex[nat m := ?e]) = take (nat m) ex @ [?e]"
    using lt Suc.prems(3,4) by (simp add: nat_add_distrib take_Suc_conv_app_nth)
  moreover have "merged ?n ?R (?e # bs)"
    using merged_step [OF bs(2) q(1), of ?R ?e] tb(2,3) q(4,5) by (metis list.collapse)
  moreover have "drop (nat cnt) (ex[nat m := ?e]) = drop (nat cnt) ex" using lt Suc.prems(3) by simp
  ultimately show ?case
    using order_loop_step [OF Suc.prems(1) q(1,4) Suc.prems(3) lt Suc.prems(4) q(2,3) t'(1)] bs(1)
    by (intro exI [of _ "?e # bs"]) simp
qed

section \<open>Collecting the blocks\<close>

definition meter_infos :: "nat \<Rightarrow> SMeterDataInfo \<Rightarrow> SMeterDataBlockInfoEx list" where
  "meter_infos j m =
     map (\<lambda>k. \<lparr>bi_compBlock = Some (md_pBlock m ! k), bi_fields = None, bi_pMeterDataInfo = Some j,
        bi_blockIndex = md_start m + int k, bi_groupIdx = md_groupIdx m\<rparr>) [0..<length (md_pBlock m)]"

lemma meter_blocks_ok:
  assumes "md_numOfBlocks m = int (length (md_pBlock m))"
  shows "meter_blocks j m 0 (nat (md_numOfBlocks m)) = Inr (meter_infos j m)"
proof -
  have "k + n = length (md_pBlock m) \<Longrightarrow> meter_blocks j m k n =
      Inr (map (\<lambda>k. \<lparr>bi_compBlock = Some (md_pBlock m ! k), bi_fields = None, bi_pMeterDataInfo = Some j,
        bi_blockIndex = md_start m + int k, bi_groupIdx = md_groupIdx m\<rparr>) [k..<length (md_pBlock m)])" for k n
    by (induction n arbitrary: k) (simp_all add: upt_conv_Cons)
  from this [of 0] show ?thesis using assms by (simp add: meter_infos_def)
qed

text \<open>The meters from \<open>j\<close> on that have blocks.\<close>

definition with_blocks :: "SMeterDataInfo list \<Rightarrow> nat \<Rightarrow> nat list" where
  "with_blocks meters j = filter (\<lambda>j. md_numOfBlocks (meters ! j) \<noteq> 0) [j..<length meters]"

abbreviation infos :: "SMeterDataInfo list \<Rightarrow> nat \<Rightarrow> SMeterDataBlockInfoEx list" where
  "infos meters j \<equiv> meter_infos j (meters ! j)"

lemma collect_ok:
  assumes "\<And>m. m \<in> set meters \<Longrightarrow> md_numOfBlocks m = int (length (md_pBlock m))"
  shows "j \<le> length meters \<Longrightarrow> q + length (with_blocks meters j) \<le> length (so_pDataBlockInfoEx sp) \<Longrightarrow>
    length (so_numOfBlocksPerMeter sp) = length (so_pDataBlockInfoEx sp) \<Longrightarrow>
    collect_meters j (drop j meters) sp (int q) cnt =
      (let Q = with_blocks meters j; L = map (infos meters) Q in
       Inr (sp\<lparr>so_numOfBlocksPerMeter := take q (so_numOfBlocksPerMeter sp) @ map (int \<circ> length) L @ drop (q + length L) (so_numOfBlocksPerMeter sp),
               so_pDataBlockInfoEx := take q (so_pDataBlockInfoEx sp) @ L @ drop (q + length L) (so_pDataBlockInfoEx sp)\<rparr>,
            int (q + length L), cnt + int (sum_list (map length L))))"
proof (induction "length meters - j" arbitrary: j q sp cnt)
  case 0
  then have "with_blocks meters j = []" "drop j meters = []" by (simp_all add: with_blocks_def)
  then show ?case by (simp add: Let_def)
next
  case (Suc k)
  let ?m = "meters ! j"
  have j: "j < length meters" using Suc.hyps(2) by simp
  have ms: "drop j meters = ?m # drop (Suc j) meters" using j by (simp add: Cons_nth_drop_Suc)
  have num: "md_numOfBlocks ?m = int (length (md_pBlock ?m))" using assms j by simp
  have IH: "k = length meters - Suc j" "Suc j \<le> length meters" using Suc.hyps(2) by simp_all
  show ?case
  proof (cases "md_numOfBlocks ?m = 0")
    case True
    then have "with_blocks meters j = with_blocks meters (Suc j)" using j by (simp add: with_blocks_def upt_conv_Cons)
    then show ?thesis using Suc.hyps(1) [OF IH] Suc.prems True ms by simp
  next
    case False
    then have Q: "with_blocks meters j = j # with_blocks meters (Suc j)" using j by (simp add: with_blocks_def upt_conv_Cons)
    have len: "length (meter_infos j ?m) = length (md_pBlock ?m)" by (simp add: meter_infos_def)
    have qlen: "q < length (so_pDataBlockInfoEx sp)" using Suc.prems(2) Q by simp
    let ?sp = "sp\<lparr>so_numOfBlocksPerMeter := (so_numOfBlocksPerMeter sp)[q := md_numOfBlocks ?m],
      so_pDataBlockInfoEx := (so_pDataBlockInfoEx sp)[q := meter_infos j ?m]\<rparr>"
    have "collect_meters j (drop j meters) sp (int q) cnt =
        collect_meters (Suc j) (drop (Suc j) meters) ?sp (int (Suc q)) (cnt + int (length (md_pBlock ?m)))"
      using False qlen Suc.prems(3) meter_blocks_ok [OF num, of j] num by (simp add: ms add.commute)
    also have "\<dots> = (let Q = with_blocks meters (Suc j); L = map (infos meters) Q in
       Inr (?sp\<lparr>so_numOfBlocksPerMeter := take (Suc q) (so_numOfBlocksPerMeter ?sp) @ map (int \<circ> length) L @ drop (Suc q + length L) (so_numOfBlocksPerMeter ?sp),
               so_pDataBlockInfoEx := take (Suc q) (so_pDataBlockInfoEx ?sp) @ L @ drop (Suc q + length L) (so_pDataBlockInfoEx ?sp)\<rparr>,
            int (Suc q + length L), cnt + int (length (md_pBlock ?m)) + int (sum_list (map length L))))"
      using Suc.hyps(1) [OF IH, of "Suc q" ?sp] Suc.prems Q by simp
    finally show ?thesis
      using qlen Suc.prems(3) num len by (simp add: Q Let_def take_Suc_conv_app_nth comp_def)
  qed
qed

section \<open>The access order\<close>

lemma supporter_ready:
  fixes meters :: "SMeterDataInfo list"
  defines "Q \<equiv> with_blocks meters 0"
  assumes m: "\<And>m. m \<in> set meters \<Longrightarrow> md_numOfBlocks m = int (length (md_pBlock m))"
    and sp: "sp = \<lparr>so_numOfMeters = int (length Q), so_pDataBlockInfoEx = map (infos meters) Q @ X,
      so_blockIndexArray = replicate (length Q + length X) 0, so_numOfBlocksPerMeter = map (int \<circ> length) (map (infos meters) Q) @ Y\<rparr>"
    and "length Y = length X"
  shows "so_wf sp" and "\<And>q. q < length Q \<Longrightarrow> remaining sp q = infos meters (Q ! q)"
proof -
  have ne: "infos meters (Q ! q) \<noteq> []" if "q < length Q" for q
  proof -
    have "Q ! q \<in> set Q" using that by simp
    then have "Q ! q < length meters" "md_numOfBlocks (meters ! (Q ! q)) \<noteq> 0" by (auto simp: Q_def with_blocks_def)
    then show ?thesis using m by (auto simp: meter_infos_def)
  qed
  show "so_wf sp"
    using ne assms(4) by (auto simp: so_wf_def sp nth_append) (auto simp: meter_infos_def)
  show "remaining sp q = infos meters (Q ! q)" if "q < length Q" for q using that by (simp add: remaining_def sp nth_append)
qed

lemma length_infos [simp]: "length (meter_infos j m) = length (md_pBlock m)"
  by (simp add: meter_infos_def)

lemma total_blocks:
  assumes "\<And>m. m \<in> set meters \<Longrightarrow> md_numOfBlocks m = int (length (md_pBlock m))"
  shows "sum_list (map length (map (infos meters) (with_blocks meters 0))) = (\<Sum>m \<leftarrow> meters. length (md_pBlock m))"
proof -
  have "sum_list (map length (map (infos meters) (with_blocks meters 0))) = (\<Sum>j \<leftarrow> [0..<length meters]. length (md_pBlock (meters ! j)))"
    unfolding with_blocks_def map_map using assms by (subst sum_list_map_filter) (auto simp: comp_def)
  also have "\<dots> = (\<Sum>m \<leftarrow> map ((!) meters) [0..<length meters]. length (md_pBlock m))" by (simp add: comp_def)
  finally show ?thesis by (simp only: map_nth)
qed

lemma merged_meters:
  fixes meters :: "SMeterDataInfo list"
  defines "Q \<equiv> with_blocks meters 0"
  assumes m: "\<And>m. m \<in> set meters \<Longrightarrow> md_numOfBlocks m = int (length (md_pBlock m))"
    and merged: "merged (length Q) (\<lambda>q. infos meters (Q ! q)) bs"
  shows "length bs = (\<Sum>m \<leftarrow> meters. length (md_pBlock m))"
    and "j < length meters \<Longrightarrow> filter (\<lambda>e. bi_pMeterDataInfo e = Some j) bs = meter_infos j (meters ! j)"
    and "\<forall>m \<in> set meters. sorted (map cb_offset (md_pBlock m)) \<Longrightarrow> sorted (map offset_of bs)"
proof -
  have tag: "bi_pMeterDataInfo e = Some i" if "e \<in> set (infos meters i)" for e i using that by (auto simp: meter_infos_def)
  have inQ: "i \<in> set Q \<longleftrightarrow> i < length meters \<and> md_numOfBlocks (meters ! i) \<noteq> 0" for i by (auto simp: Q_def with_blocks_def)
  have dist: "distinct Q" by (simp add: Q_def with_blocks_def)
  have "length bs = size (\<Sum>q < length Q. mset (infos meters (Q ! q)))" using merged by (metis merged_def size_mset)
  also have "\<dots> = (\<Sum>q < length Q. length (infos meters (Q ! q)))" by simp
  also have "\<dots> = sum_list (map length (map (infos meters) Q))" by (simp add: sum_list_sum_nth atLeast0LessThan)
  finally show len: "length bs = (\<Sum>m \<leftarrow> meters. length (md_pBlock m))" using total_blocks [OF m] by (simp add: Q_def)
  let ?P = "\<lambda>e. bi_pMeterDataInfo e = Some j"
  have pick: "filter ?P bs = filter ?P (infos meters (Q ! q))" if "q < length Q" "\<And>p. p < length Q \<Longrightarrow> p \<noteq> q \<Longrightarrow> Q ! p \<noteq> j" for q
    using merged that tag by (simp add: merged_def)
  show "filter ?P bs = meter_infos j (meters ! j)" if j: "j < length meters"
  proof (cases "j \<in> set Q")
    case True
    then obtain q where q: "q < length Q" "Q ! q = j" by (auto simp: in_set_conv_nth)
    then have "filter ?P bs = filter ?P (infos meters j)" using pick [of q] dist nth_eq_iff_index_eq by metis
    then show ?thesis using tag by (simp add: filter_id_conv)
  next
    case False
    then have "md_pBlock (meters ! j) = []" using inQ m j by auto
    moreover have "filter ?P bs = []"
    proof (cases "length Q = 0")
      case True
      then show ?thesis using merged by (simp add: merged_def)
    next
      case ne: False
      have "Q ! p \<noteq> j" if "p < length Q" for p using that \<open>j \<notin> set Q\<close> by auto
      then have "filter ?P bs = filter ?P (infos meters (Q ! 0))" and "Q ! 0 \<noteq> j" using pick [of 0] ne by auto
      then show ?thesis using tag by (auto simp: filter_empty_conv)
    qed
    ultimately show ?thesis by (simp add: meter_infos_def)
  qed
  show "sorted (map offset_of bs)" if s: "\<forall>m \<in> set meters. sorted (map cb_offset (md_pBlock m))"
  proof -
    have "map offset_of (infos meters i) = map cb_offset (md_pBlock (meters ! i))" for i
      by (rule nth_equalityI) (simp_all add: meter_infos_def offset_of_def)
    moreover have "Q ! q < length meters" if "q < length Q" for q using that inQ nth_mem by blast
    ultimately have "\<forall>q < length Q. sorted (map offset_of (infos meters (Q ! q)))" using s by simp
    then show ?thesis using merged by (simp add: merged_def)
  qed
qed

text \<open>C25.
  \<open>createDataBlocksInfoEx\<close> returns the number of blocks of all meters and puts them at the front of the
  array: every meter's blocks are there, once each and in their order, with the meter's group and the
  block's position; when the blocks of each meter have ascending offsets, the whole order has. No array is
  accessed out of its range, and the recorded size of the array is the size it has.
\<close>

theorem block_order:
  assumes "\<forall>m \<in> set meters. md_numOfBlocks m = int (length (md_pBlock m))"
    and "length meters < 2 ^ 30" and "nAlloc = int (length ex)"
    and "(\<Sum>m \<leftarrow> meters. length (md_pBlock m)) \<le> numOfCompBlocks"
  shows "\<exists>bs rest. createDataBlocksInfoEx True meters ex (int numOfCompBlocks) nAlloc =
      Inr (int (length bs), bs @ rest, int (length (bs @ rest))) \<and>
    length bs = (\<Sum>m \<leftarrow> meters. length (md_pBlock m)) \<and>
    (\<forall>j < length meters. filter (\<lambda>e. bi_pMeterDataInfo e = Some j) bs = meter_infos j (meters ! j)) \<and>
    ((\<forall>m \<in> set meters. sorted (map cb_offset (md_pBlock m))) \<longrightarrow> sorted (map offset_of bs))"
proof -
  let ?Q = "with_blocks meters 0" and ?N = "length meters"
  let ?L = "map (infos meters) ?Q"
  let ?grow = "nAlloc = 0 \<or> nAlloc < int numOfCompBlocks"
  define ex1 where "ex1 = (if ?grow then replicate numOfCompBlocks zero_ex else map (bi_fields_update (\<lambda>_. None)) ex)"
  define sp where "sp = \<lparr>so_numOfMeters = int (length ?Q), so_pDataBlockInfoEx = ?L @ replicate (?N - length ?Q) [],
      so_blockIndexArray = replicate (length ?Q + (?N - length ?Q)) 0,
      so_numOfBlocksPerMeter = map (int \<circ> length) ?L @ replicate (?N - length ?Q) (0::int)\<rparr>"
  have lenQ: "length ?Q \<le> ?N" unfolding with_blocks_def by (metis diff_zero length_filter_le length_upt)
  have col: "collect_meters 0 meters \<lparr>so_numOfMeters = int ?N, so_pDataBlockInfoEx = replicate ?N [],
        so_blockIndexArray = replicate ?N 0, so_numOfBlocksPerMeter = replicate ?N 0\<rparr> 0 0 =
      Inr (sp\<lparr>so_numOfMeters := int ?N\<rparr>, int (length ?Q), int (sum_list (map length ?L)))"
    using collect_ok [of meters 0 0 "\<lparr>so_numOfMeters = int ?N, so_pDataBlockInfoEx = replicate ?N [],
        so_blockIndexArray = replicate ?N 0, so_numOfBlocksPerMeter = replicate ?N 0\<rparr>" 0] assms(1) lenQ
    by (simp add: Let_def sp_def)
  let ?c = "\<Sum>m \<leftarrow> meters. length (md_pBlock m)"
  have c: "sum_list (map length ?L) = ?c" using total_blocks assms(1) by blast
  have ready: "so_wf sp" "\<And>q. q < length ?Q \<Longrightarrow> remaining sp q = infos meters (?Q ! q)"
    using supporter_ready [of meters sp "replicate (?N - length ?Q) []" "replicate (?N - length ?Q) 0"] assms(1) by (simp_all add: sp_def)
  have ex1: "?c \<le> length ex1" "(if ?grow then int numOfCompBlocks else nAlloc) = int (length ex1)" using assms(3,4) by (auto simp: ex1_def)
  have eq: "createDataBlocksInfoEx True meters ex (int numOfCompBlocks) nAlloc =
      rbind (tLoserTreeCreate True (int (length ?Q)) sp blockAccessOrderComparator) (\<lambda>(code, tree).
        if 0 < int ?c then rbind (deref tree) (\<lambda>t. rbind (order_loop sp t ex1 0 (int ?c)) (\<lambda>ex2. Inr (int ?c, ex2, int (length ex1))))
        else Inr (int ?c, ex1, int (length ex1)))"
  proof -
    have f: "freeDataBlockFieldInfo ex nAlloc = Inr (map (bi_fields_update (\<lambda>_. None)) ex)"
      using assms(3) by (simp add: freeDataBlockFieldInfo_def)
    have e1: "(if ?grow then replicate (nat (int numOfCompBlocks)) zero_ex else map (bi_fields_update (\<lambda>_. None)) ex) = ex1"
      unfolding ex1_def nat_int ..
    have s2: "sp\<lparr>so_numOfMeters := int ?N, so_numOfMeters := int (length ?Q)\<rparr> = sp" by (simp add: sp_def)
    have "int ?c \<le> int numOfCompBlocks \<and> int (length ?Q) \<le> int ?N" using assms(4) lenQ by simp
    then show ?thesis unfolding createDataBlocksInfoEx_def f rbind_simps Let_def e1 ex1(2) col c prod.case s2 by (simp only: if_True simp_thms)
  qed
  show ?thesis
  proof (cases "?c = 0")
    case True
    then have "\<forall>m \<in> set meters. md_pBlock m = []" by simp
    then have Q: "?Q = []" using assms(1) by (simp add: with_blocks_def filter_empty_conv)
    then have "merged (length ?Q) (\<lambda>q. infos meters (?Q ! q)) []" by (simp add: merged_def)
    moreover have "createDataBlocksInfoEx True meters ex (int numOfCompBlocks) nAlloc = Inr (0, ex1, int (length ex1))"
      unfolding eq True Q by (simp add: tLoserTreeCreate_def tLoserTreeInit_def Let_def)
    ultimately show ?thesis using merged_meters [of meters "[]"] assms(1) by (intro exI [of _ "[]"] exI [of _ ex1]) auto
  next
    case False
    then have Q: "0 < length ?Q" using c by (cases ?Q) auto
    have "block_ok sp \<lparr>ln_index = int i, ln_pData = 0\<rparr>" if "i < length ?Q" for i using ready(1) that by (simp add: block_ok_def sp_def)
    then obtain t where t: "tLoserTreeCreate True (int (length ?Q)) sp blockAccessOrderComparator = Inr (0, Some t)" "tree_for sp t"
      using block_tree.create_ready [of "length ?Q" sp] Q lenQ assms(2) by (auto simp: tree_for_def sp_def)
    have n: "nat (so_numOfMeters sp) = length ?Q" by (simp add: sp_def)
    have "(\<Sum>q < length ?Q. length (remaining sp q)) = (\<Sum>q < length ?Q. length (infos meters (?Q ! q)))" using ready(2) by (intro sum.cong) auto
    also have "\<dots> = ?c" using c by (simp add: sum_list_sum_nth atLeast0LessThan)
    finally have "int ?c = 0 + int (\<Sum>q < nat (so_numOfMeters sp). length (remaining sp q))" unfolding n by simp
    moreover have "int ?c \<le> int (length ex1)" using ex1(1) by simp
    ultimately obtain bs where "order_loop sp t ex1 0 (int ?c) = Inr (take (nat 0) ex1 @ bs @ drop (nat (int ?c)) ex1)"
        "merged (nat (so_numOfMeters sp)) (remaining sp) bs"
      using order_loop_ok [OF ready(1) t(2) order_refl] by blast
    then have bs: "order_loop sp t ex1 0 (int ?c) = Inr (bs @ drop ?c ex1)" "merged (length ?Q) (remaining sp) bs"
      unfolding n nat_int by simp_all
    have m: "merged (length ?Q) (\<lambda>q. infos meters (?Q ! q)) bs" using bs(2) ready(2) by (simp add: merged_def)
    have "length bs = ?c" using merged_meters(1) [OF _ m] assms(1) by blast
    moreover have "createDataBlocksInfoEx True meters ex (int numOfCompBlocks) nAlloc = Inr (int ?c, bs @ drop ?c ex1, int (length ex1))"
    proof -
      have "0 < int ?c" using False by linarith
      then show ?thesis unfolding eq t(1) rbind_simps prod.case by (simp only: if_True deref_simps rbind_simps bs(1))
    qed
    ultimately show ?thesis using merged_meters [OF _ m] assms(1) ex1(1) by (intro exI [of _ bs] exI [of _ "drop ?c ex1"]) auto
  qed
qed

definition sample_block :: "int \<Rightarrow> SCompBlock" where
  "sample_block off = \<lparr>cb_last = 0, cb_offset = off, cb_algorithm = 0, cb_numOfPoints = 1, cb_sversion = 0, cb_len = 8,
     cb_numOfCols = 1, cb_keyFirst = 0, cb_keyLast = 0\<rparr>"

definition sample_meter :: "int list \<Rightarrow> SMeterDataInfo" where
  "sample_meter offs =
     \<lparr>md_numOfBlocks = int (length offs), md_start = 0, md_pBlock = map sample_block offs, md_groupIdx = 0\<rparr>"

theorem block_order_witness:
  "\<exists>bs rest. createDataBlocksInfoEx True [sample_meter [10, 40], sample_meter [], sample_meter [20, 30]] [] (int 4) 0 =
      Inr (int (length bs), bs @ rest, int (length (bs @ rest))) \<and> length bs = 4 \<and> sorted (map offset_of bs) \<and>
    filter (\<lambda>e. bi_pMeterDataInfo e = Some 2) bs = meter_infos 2 (sample_meter [20, 30])"
proof -
  let ?ms = "[sample_meter [10, 40], sample_meter [], sample_meter [20, 30]]"
  have "\<forall>m \<in> set ?ms. md_numOfBlocks m = int (length (md_pBlock m))" "length ?ms < 2 ^ 30" "(0 :: int) = int (length ([] :: SMeterDataBlockInfoEx list))"
      "(\<Sum>m \<leftarrow> ?ms. length (md_pBlock m)) \<le> 4"
    by (simp_all add: sample_meter_def)
  from block_order [OF this] obtain bs rest where
    "createDataBlocksInfoEx True ?ms [] (int 4) 0 = Inr (int (length bs), bs @ rest, int (length (bs @ rest)))"
    "length bs = (\<Sum>m \<leftarrow> ?ms. length (md_pBlock m))"
    "\<forall>j < length ?ms. filter (\<lambda>e. bi_pMeterDataInfo e = Some j) bs = meter_infos j (?ms ! j)"
    "(\<forall>m \<in> set ?ms. sorted (map cb_offset (md_pBlock m))) \<longrightarrow> sorted (map offset_of bs)"
    by blast
  then show ?thesis by (intro exI [of _ bs] exI [of _ rest]) (simp add: sample_meter_def sample_block_def)
qed

text \<open>
  The code of \<open>tLoserTreeCreate\<close> is not tested: without memory for the tree, \<open>createDataBlocksInfoEx\<close>
  follows a NULL pointer as soon as there is a block.
\<close>

lemma block_order_no_memory:
  "createDataBlocksInfoEx False [sample_meter [10]] [] 1 0 = Inl Null_Deref"
  by (simp add: createDataBlocksInfoEx_def freeDataBlockFieldInfo_def sample_meter_def tLoserTreeCreate_def Let_def)

end
