(* ===== verification/EdbStore.thy ===== *)
theory EdbStore
  imports CompColumn Crc32c
begin

text \<open>
  The embedded store of src/src/edb (db.c, compress.c, db.h): rows are collected in a log file that is
  mapped into memory and moved in blocks to record files, one pair of files for a number of hours. The
  mapped log is its header record and the bytes at \<open>pLogData\<close> that the mapping makes accessible; a
  record file is the list of its bytes, an index file the list of its entries. System calls that
  create, extend or write files succeed, and so does the \<open>calloc\<close> of the index entry in \<open>saveToFile\<close>; the zlib codecs are a parameter, and so are memory contents
  the code does not set. Mutex calls and error logging are not modelled.
\<close>

section \<open>Data\<close>

datatype COL_TYPE =
    COL_TYPE_BOOL
  | COL_TYPE_TING_INT
  | COL_TYPE_SMALL_INT
  | COL_TYPE_INT
  | COL_TYPE_BIG_INT
  | COL_TYPE_FLOAT
  | COL_TYPE_DOUBLE
  | COL_TYPE_STRING
  | COL_TYPE_TIMESTAMP
  | COL_TYPE_MAX_TYPES

datatype STORE_TYPE = STORE_BY_ROW | STORE_BY_COL

datatype COMPRESS_TYPE =
    COMPRESS_NONE
  | COMPRESS_ZLIB
  | COMPRESS_TAOS_ONE_STEP
  | COMPRESS_TAOS_TWO_STEP
  | COMPRESS_ZSTD

fun gColTypeSize :: "COL_TYPE \<Rightarrow> nat" where
  "gColTypeSize COL_TYPE_BOOL = 1"
| "gColTypeSize COL_TYPE_TING_INT = 1"
| "gColTypeSize COL_TYPE_SMALL_INT = 2"
| "gColTypeSize COL_TYPE_INT = 4"
| "gColTypeSize COL_TYPE_BIG_INT = 8"
| "gColTypeSize COL_TYPE_FLOAT = 4"
| "gColTypeSize COL_TYPE_DOUBLE = 8"
| "gColTypeSize COL_TYPE_STRING = 32"
| "gColTypeSize COL_TYPE_TIMESTAMP = 8"
| "gColTypeSize COL_TYPE_MAX_TYPES = 0"

definition gMillisecondOfHour :: int where "gMillisecondOfHour = 60 * 60 * 1000"
definition MAX_COL_COUNT :: nat where "MAX_COL_COUNT = 32"

record LOG_HEAD =
  lh_storeType :: STORE_TYPE
  lh_compressType :: COMPRESS_TYPE
  lh_hoursPerFile :: nat
  lh_maxColSize :: nat
  lh_curRowCount :: nat
  lh_cacheSize :: nat
  lh_rowSize :: nat
  lh_dataPos :: nat
  lh_startTimestamp :: int
  lh_endTimestamp :: int
  lh_colCount :: nat
  lh_colType :: "COL_TYPE list"

text \<open>A file descriptor is the number of the file pair, \<open>None\<close> the value 0 of a fresh handle.\<close>

record DB =
  db_pLogHead :: LOG_HEAD
  db_pLogData :: "byte list"
  db_recordFd :: "int option"
  db_indexFd :: "int option"
  db_curFileIndex :: int

record INDEX =
  ix_rowCount :: int
  ix_startTimestamp :: int
  ix_endTimestamp :: int
  ix_dataOffset :: int
  ix_dataLength :: int
  ix_colLens :: "int list"

record edb_fs =
  fs_index :: "int \<Rightarrow> INDEX list option"
  fs_record :: "int \<Rightarrow> byte list option"

text \<open>
  What the code does not determine: the checksum routine installed, the address and the content of a
  buffer from malloc and whether it succeeds, the width of unsigned long, the LZ4 routine, the zlib
  codecs.
\<close>

record edb_env =
  en_crc32c :: crc_fn
  en_addr :: nat
  en_heap :: "nat \<Rightarrow> byte"
  en_malloc :: bool
  en_ulong :: nat
  en_lzc :: lz4_compress
  en_zip :: "LOG_HEAD \<Rightarrow> byte list \<Rightarrow> (int \<times> int list \<times> byte list) res"

section \<open>Creation and opening\<close>

definition sizeof_LOG_HEAD :: nat where "sizeof_LOG_HEAD = 80"

definition row_size :: "COL_TYPE list \<Rightarrow> nat" where
  "row_size colType = foldl (\<lambda>rowSize c. (rowSize + gColTypeSize c) mod 2 ^ 16) 8 colType"

definition max_col_size :: "COL_TYPE list \<Rightarrow> nat" where
  "max_col_size colType = foldl (\<lambda>m c. if m < gColTypeSize c then gColTypeSize c mod 2 ^ 8 else m) 8 colType"

text \<open>
  \<open>create_db\<close>: the result code and the header it writes with the size of the log file. The arguments
  after the column types are those of the function; the flags tell whether the log exists, whether it can
  be opened and extended.
\<close>

definition create_db ::
    "nat \<Rightarrow> nat \<Rightarrow> COL_TYPE list \<Rightarrow> nat \<Rightarrow> STORE_TYPE \<Rightarrow> COMPRESS_TYPE \<Rightarrow> nat \<Rightarrow> bool \<Rightarrow> bool \<Rightarrow> bool \<Rightarrow>
      int \<times> (LOG_HEAD \<times> nat) option"
where
  "create_db rootLen nameLen colType cacheSize storeType compressType hoursPerFile log_exists open_ok fallocate_ok =
     (let colCount = length colType;
          rowSize = row_size colType;
          mappingSize = sizeof_LOG_HEAD + rowSize * cacheSize in
      if 100 < rootLen + nameLen then (- 1, None)
      else if MAX_COL_COUNT < colCount + 1 then (- 2, None)
      else if log_exists then (- 3, None)
      else if \<not> open_ok then (- 4, None)
      else if \<not> fallocate_ok then (- 5, None)
      else (0, Some
        (\<lparr>lh_storeType =
            (if compressType = COMPRESS_TAOS_ONE_STEP \<or> compressType = COMPRESS_TAOS_TWO_STEP then STORE_BY_COL else storeType),
          lh_compressType = compressType, lh_hoursPerFile = hoursPerFile, lh_maxColSize = max_col_size colType,
          lh_curRowCount = 0, lh_cacheSize = cacheSize, lh_rowSize = rowSize,
          lh_dataPos = sizeof_LOG_HEAD + colCount * 4, lh_startTimestamp = 0, lh_endTimestamp = 0,
          lh_colCount = colCount + 1, lh_colType = COL_TYPE_TIMESTAMP # colType\<rparr>, mappingSize)))"

text \<open>
  \<open>open_db\<close> maps the file: accessible are the pages it covers. \<open>content\<close> gives the bytes of the
  mapping.
\<close>

definition page_size :: nat where "page_size = 4096"

definition mapped :: "nat \<Rightarrow> nat" where
  "mapped st_size = (st_size + page_size - 1) div page_size * page_size"

definition open_db :: "LOG_HEAD \<Rightarrow> nat \<Rightarrow> (nat \<Rightarrow> byte) \<Rightarrow> DB" where
  "open_db head st_size content =
     \<lparr>db_pLogHead = head, db_pLogData = map content [lh_dataPos head..<mapped st_size],
      db_recordFd = None, db_indexFd = None, db_curFileIndex = 0\<rparr>"

section \<open>The codecs of a block\<close>

definition mem_put :: "byte list \<Rightarrow> nat \<Rightarrow> byte list \<Rightarrow> byte list res" where
  "mem_put mem pos v =
     (if pos + length v \<le> length mem then Inr (take pos mem @ v @ drop (pos + length v) mem) else Inl Out_Of_Bounds)"

definition log_cols :: "LOG_HEAD \<Rightarrow> COL_TYPE list res" where
  "log_cols h = (if lh_colCount h \<le> length (lh_colType h) then Inr (take (lh_colCount h) (lh_colType h)) else Inl Out_Of_Bounds)"

text \<open>The loops of the codecs over the columns; \<open>pInput\<close> is the position of the column in the log.\<close>

fun none_cols :: "edb_env \<Rightarrow> LOG_HEAD \<Rightarrow> byte list \<Rightarrow> nat \<Rightarrow> nat \<Rightarrow> COL_TYPE list \<Rightarrow> (int list \<times> byte list) res" where
  "none_cols en h mem outSize pInput [] = Inr ([], [])"
| "none_cols en h mem outSize pInput (c # cs) =
     (let n = gColTypeSize c * lh_curRowCount h; size = n + 4 in
      if size \<le> outSize then
        rbind (copy_bytes mem pInput n) (\<lambda>v.
          let out = snd (taosCalcChecksumAppend (en_crc32c en) 0 (en_addr en) (v @ map (en_heap en) [n..<size])) in
          rbind (none_cols en h mem outSize (pInput + gColTypeSize c * lh_cacheSize h) cs) (\<lambda>(lens, bs).
            Inr (int size # lens, out @ bs)))
      else Inl Out_Of_Bounds)"

definition compressNone :: "edb_env \<Rightarrow> LOG_HEAD \<Rightarrow> byte list \<Rightarrow> (int \<times> int list \<times> byte list) res" where
  "compressNone en h mem =
     (if \<not> en_malloc en then Inr (- 2, [], [])
      else
        rbind (log_cols h) (\<lambda>cs.
        rbind (none_cols en h mem (lh_maxColSize h * lh_curRowCount h + 4) 0 cs) (\<lambda>(lens, bs).
          Inr (sum_list lens, lens, bs))))"

fun gTaosCompFunc :: "edb_env \<Rightarrow> COL_TYPE \<Rightarrow> comp_fun" where
  "gTaosCompFunc en COL_TYPE_BOOL = tsCompressBool (en_lzc en)"
| "gTaosCompFunc en COL_TYPE_TING_INT = tsCompressTinyint (en_lzc en)"
| "gTaosCompFunc en COL_TYPE_SMALL_INT = tsCompressSmallint (en_lzc en)"
| "gTaosCompFunc en COL_TYPE_INT = tsCompressInt (en_lzc en)"
| "gTaosCompFunc en COL_TYPE_BIG_INT = tsCompressBigint (en_lzc en)"
| "gTaosCompFunc en COL_TYPE_FLOAT = tsCompressFloat (en_ulong en) (en_lzc en)"
| "gTaosCompFunc en COL_TYPE_DOUBLE = tsCompressDouble (en_lzc en)"
| "gTaosCompFunc en COL_TYPE_STRING = tsCompressString (en_lzc en)"
| "gTaosCompFunc en COL_TYPE_TIMESTAMP = tsCompressTimestamp (en_lzc en)"
| "gTaosCompFunc en COL_TYPE_MAX_TYPES = tsCompressString (en_lzc en)"

fun taos_cols :: "edb_env \<Rightarrow> LOG_HEAD \<Rightarrow> byte list \<Rightarrow> nat \<Rightarrow> nat \<Rightarrow> COL_TYPE list \<Rightarrow> (int list \<times> byte list) res" where
  "taos_cols en h mem outSize pInput [] = Inr ([], [])"
| "taos_cols en h mem outSize pInput (c # cs) =
     (let n = gColTypeSize c * lh_curRowCount h in
      rbind (copy_bytes mem pInput n) (\<lambda>v.
      rbind (gTaosCompFunc en c v n (lh_curRowCount h) (int outSize) ONE_STAGE_COMP) (\<lambda>comp.
        let size = length comp + (4 - length comp mod 4) + 4 in
        if size \<le> outSize then
          let out = snd (taosCalcChecksumAppend (en_crc32c en) 0 (en_addr en) (comp @ map (en_heap en) [length comp..<size])) in
          rbind (taos_cols en h mem outSize (pInput + gColTypeSize c * lh_cacheSize h) cs) (\<lambda>(lens, bs).
            Inr (int size # lens, out @ bs))
        else Inl Out_Of_Bounds)))"

definition compressTaosOneStep :: "edb_env \<Rightarrow> LOG_HEAD \<Rightarrow> byte list \<Rightarrow> (int \<times> int list \<times> byte list) res" where
  "compressTaosOneStep en h mem =
     (if \<not> en_malloc en then Inr (- 2, [], [])
      else
        rbind (log_cols h) (\<lambda>cs.
        rbind (taos_cols en h mem (lh_maxColSize h * lh_curRowCount h + 4) 0 cs) (\<lambda>(lens, bs).
          Inr (sum_list lens, lens, bs))))"

definition compressTaosTwoStep :: "LOG_HEAD \<Rightarrow> byte list \<Rightarrow> (int \<times> int list \<times> byte list) res" where
  "compressTaosTwoStep h mem = Inr (0, [], [])"

fun gCompress :: "edb_env \<Rightarrow> COMPRESS_TYPE \<Rightarrow> LOG_HEAD \<Rightarrow> byte list \<Rightarrow> (int \<times> int list \<times> byte list) res" where
  "gCompress en COMPRESS_NONE = compressNone en"
| "gCompress en COMPRESS_ZLIB = en_zip en"
| "gCompress en COMPRESS_TAOS_ONE_STEP = compressTaosOneStep en"
| "gCompress en COMPRESS_TAOS_TWO_STEP = compressTaosTwoStep"
| "gCompress en COMPRESS_ZSTD = en_zip en"

section \<open>Saving and adding rows\<close>

text \<open>The number of the file pair of a time stamp.\<close>

definition file_of :: "LOG_HEAD \<Rightarrow> int \<Rightarrow> int res" where
  "file_of h st =
     (if lh_hoursPerFile h = 0 then Inl Div_By_Zero
      else Inr (st sdiv (int (lh_hoursPerFile h) * gMillisecondOfHour)))"

text \<open>\<open>open\<close> with \<open>O_CREAT\<close> keeps an existing file.\<close>

definition open_files :: "int \<Rightarrow> edb_fs \<Rightarrow> edb_fs" where
  "open_files k fs = fs
     \<lparr>fs_index := (fs_index fs)(k := Some (case fs_index fs k of None \<Rightarrow> [] | Some xs \<Rightarrow> xs)),
      fs_record := (fs_record fs)(k := Some (case fs_record fs k of None \<Rightarrow> [] | Some bs \<Rightarrow> bs))\<rparr>"

text \<open>
  Appending to an open file; what is written to descriptor 0 reaches no file of the store, and seeking
  on it fails.
\<close>

definition append_record :: "int option \<Rightarrow> byte list \<Rightarrow> edb_fs \<Rightarrow> edb_fs" where
  "append_record fd bs fs =
     (case fd of None \<Rightarrow> fs | Some k \<Rightarrow> fs\<lparr>fs_record := (fs_record fs)(k := map_option (\<lambda>r. r @ bs) (fs_record fs k))\<rparr>)"

definition append_index :: "int option \<Rightarrow> INDEX \<Rightarrow> edb_fs \<Rightarrow> edb_fs" where
  "append_index fd ix fs =
     (case fd of None \<Rightarrow> fs | Some k \<Rightarrow> fs\<lparr>fs_index := (fs_index fs)(k := map_option (\<lambda>r. r @ [ix]) (fs_index fs k))\<rparr>)"

definition record_end :: "int option \<Rightarrow> edb_fs \<Rightarrow> int" where
  "record_end fd fs =
     (case fd of None \<Rightarrow> - 1 | Some k \<Rightarrow> (case fs_record fs k of None \<Rightarrow> - 1 | Some r \<Rightarrow> to_int32 (int (length r))))"

definition saveToFile :: "edb_env \<Rightarrow> DB \<Rightarrow> edb_fs \<Rightarrow> (DB \<times> edb_fs) res" where
  "saveToFile en db fs =
     rbind (copy_bytes (db_pLogData db) 0 8) (\<lambda>ts.
     rbind (file_of (db_pLogHead db) (sint (of_le_bytes ts :: 64 word))) (\<lambda>curFileIndex.
       let reopen = db_curFileIndex db \<noteq> curFileIndex;
           fs1 = (if reopen then open_files curFileIndex fs else fs);
           db1 = (if reopen then db\<lparr>db_curFileIndex := curFileIndex, db_indexFd := Some curFileIndex,
                    db_recordFd := Some curFileIndex\<rparr> else db);
           h = db_pLogHead db1;
           dataOffset = record_end (db_recordFd db1) fs1 in
       rbind (gCompress en (lh_compressType h) h (db_pLogData db1)) (\<lambda>(len, colLens, bytes).
         let fs2 = append_record (db_recordFd db1) bytes fs1 in
         if 0 < len then
           Inr (db1\<lparr>db_pLogHead := h\<lparr>lh_endTimestamp := 0, lh_startTimestamp := 0, lh_curRowCount := 0\<rparr>\<rparr>,
             append_index (db_indexFd db1)
               \<lparr>ix_rowCount = int (lh_curRowCount h), ix_startTimestamp = lh_startTimestamp h,
                ix_endTimestamp = lh_endTimestamp h, ix_dataOffset = dataOffset, ix_dataLength = len,
                ix_colLens = colLens\<rparr> fs2)
         else Inr (db1, fs2))))"

text \<open>The columns after the time stamp; \<open>pos\<close> is the start of the previous column.\<close>

fun put_cols :: "nat \<Rightarrow> nat \<Rightarrow> COL_TYPE \<Rightarrow> COL_TYPE list \<Rightarrow> nat \<Rightarrow> byte list \<Rightarrow> byte list \<Rightarrow> byte list res" where
  "put_cols cacheSize row prev [] pos pData mem = Inr mem"
| "put_cols cacheSize row prev (c # cs) pos pData mem =
     (let size = gColTypeSize c; pos = pos + gColTypeSize prev * cacheSize in
      rbind (copy_bytes pData 0 size) (\<lambda>v.
      rbind (mem_put mem (pos + size * row) v) (\<lambda>mem'.
        put_cols cacheSize row c cs pos (drop size pData) mem')))"

definition put_row :: "LOG_HEAD \<Rightarrow> int \<Rightarrow> byte list \<Rightarrow> byte list \<Rightarrow> byte list res" where
  "put_row h st pData mem =
     (let ts = le_bytes 8 (word_of_int st :: 64 word) in
      case lh_storeType h of
        STORE_BY_ROW \<Rightarrow>
          if lh_rowSize h < 8 then Inl Out_Of_Bounds
          else
            let pos = lh_rowSize h * lh_curRowCount h in
            rbind (mem_put mem pos ts) (\<lambda>mem1.
            rbind (copy_bytes pData 0 (lh_rowSize h - 8)) (mem_put mem1 (pos + 8)))
      | STORE_BY_COL \<Rightarrow>
          rbind (mem_put mem (8 * lh_curRowCount h) ts) (\<lambda>mem1.
          rbind (log_cols h) (\<lambda>cs.
            case cs of [] \<Rightarrow> Inr mem1 | c # cs' \<Rightarrow> put_cols (lh_cacheSize h) (lh_curRowCount h) c cs' 0 pData mem1)))"

text \<open>\<open>put_db\<close> at time \<open>st\<close>; an invalid handle is refused.\<close>

definition save_before :: "edb_env \<Rightarrow> int \<Rightarrow> DB \<Rightarrow> edb_fs \<Rightarrow> (DB \<times> edb_fs) res" where
  "save_before en st db fs =
     (let h = db_pLogHead db in
      if 0 < lh_curRowCount h then
        if lh_cacheSize h \<le> lh_curRowCount h then saveToFile en db fs
        else
          rbind (file_of h st) (\<lambda>expectFileIndex.
          rbind (file_of h (lh_startTimestamp h)) (\<lambda>curFileIndex.
            if curFileIndex \<noteq> expectFileIndex then saveToFile en db fs else Inr (db, fs)))
      else Inr (db, fs))"

definition put_db :: "edb_env \<Rightarrow> int \<Rightarrow> byte list \<Rightarrow> DB option \<Rightarrow> edb_fs \<Rightarrow> (int \<times> DB option \<times> edb_fs) res" where
  "put_db en st pData handle fs =
     (case handle of
        None \<Rightarrow> Inr (- 1, None, fs)
      | Some db \<Rightarrow>
          rbind (save_before en st db fs) (\<lambda>(db1, fs1).
            let h = db_pLogHead db1 in
            rbind (put_row h st pData (db_pLogData db1)) (\<lambda>mem.
              let h1 = h\<lparr>lh_startTimestamp := (if lh_curRowCount h = 0 then st else lh_startTimestamp h),
                         lh_endTimestamp := st, lh_curRowCount := (lh_curRowCount h + 1) mod 2 ^ 16\<rparr>;
                  db2 = db1\<lparr>db_pLogHead := h1, db_pLogData := mem\<rparr> in
              rbind (if lh_cacheSize h1 \<le> lh_curRowCount h1 then saveToFile en db2 fs1 else Inr (db2, fs1)) (\<lambda>(db3, fs3).
                Inr (0, Some db3, fs3)))))"

text \<open>
  \<open>readFromFile\<close> checks the blocks of a file pair. The second and third argument of its \<open>lseek\<close> are
  exchanged: the offset of the block is passed as the kind of seek, so that 0 and 2 move to an end of
  the file and every other value leaves the position \<open>pos\<close> where it is; 3 and 4, which Linux takes for a seek to data or to a hole,
  are no offsets of blocks the store writes. A length below four, which the store never
  writes, counts as a wrong checksum.
\<close>

fun read_cols :: "edb_env \<Rightarrow> byte list \<Rightarrow> int list \<Rightarrow> nat \<Rightarrow> int \<times> nat" where
  "read_cols en r [] pos = (0, pos)"
| "read_cols en r (l # ls) pos =
     (if l < 0 \<or> length r < pos + nat l then (- 2, pos)
      else if \<not> taosCheckChecksumWhole (en_crc32c en) (en_addr en) (take (nat l) (drop pos r)) then (- 3, pos + nat l)
      else read_cols en r ls (pos + nat l))"

fun read_blocks :: "edb_env \<Rightarrow> byte list \<Rightarrow> INDEX list \<Rightarrow> nat \<Rightarrow> int" where
  "read_blocks en r [] pos = 0"
| "read_blocks en r (ix # ixs) pos =
     (let pos = (if ix_dataOffset ix = 0 then 0 else if ix_dataOffset ix = 2 then length r else pos);
          (code, pos') = read_cols en r (ix_colLens ix) pos in
      if code \<noteq> 0 then code else read_blocks en r ixs pos')"

definition readFromFile :: "edb_env \<Rightarrow> edb_fs \<Rightarrow> int \<Rightarrow> int" where
  "readFromFile en fs fileIndex =
     (case (fs_index fs fileIndex, fs_record fs fileIndex) of
        (Some ixs, Some r) \<Rightarrow> read_blocks en r ixs 0
      | _ \<Rightarrow> - 1)"

section \<open>Slices and columns\<close>

definition slice :: "byte list \<Rightarrow> nat \<Rightarrow> nat \<Rightarrow> byte list" where
  "slice mem pos len = take len (drop pos mem)"

lemma length_slice [simp]: "pos + len \<le> length mem \<Longrightarrow> length (slice mem pos len) = len"
  by (simp add: slice_def)

lemma slice_slice: "pos + len \<le> n \<Longrightarrow> slice (slice mem o' n) pos len = slice mem (o' + pos) len"
  by (simp add: slice_def drop_take add.commute min_def)

lemma slice_append1: "pos + len \<le> length xs \<Longrightarrow> slice (xs @ ys) pos len = slice xs pos len"
  by (simp add: slice_def)

lemma slice_at: "n = length v \<Longrightarrow> slice (r @ v @ x) (length r) n = v"
  by (simp add: slice_def)

lemma slice_cong:
  "length mem' = length mem \<Longrightarrow> (\<And>x. pos \<le> x \<Longrightarrow> x < pos + len \<Longrightarrow> mem' ! x = mem ! x) \<Longrightarrow> slice mem' pos len = slice mem pos len"
  unfolding slice_def by (rule nth_equalityI) auto

lemma mem_put_ok:
  assumes "pos + length v \<le> length mem"
  obtains mem' where "mem_put mem pos v = Inr mem'" and "length mem' = length mem" and "slice mem' pos (length v) = v"
    and "\<And>x. x < pos \<or> pos + length v \<le> x \<Longrightarrow> mem' ! x = mem ! x"
proof
  let ?m = "take pos mem @ v @ drop (pos + length v) mem"
  show "mem_put mem pos v = Inr ?m" using assms by (simp add: mem_put_def)
  show "length ?m = length mem" and "slice ?m pos (length v) = v" using assms by (simp_all add: slice_def)
  show "?m ! x = mem ! x" if "x < pos \<or> pos + length v \<le> x" for x using that assms by (auto simp: nth_append)
qed

text \<open>Where the columns lie in the log: position of the column and size of a value.\<close>

fun layout :: "nat \<Rightarrow> nat \<Rightarrow> COL_TYPE list \<Rightarrow> (nat \<times> nat) list" where
  "layout cache pos [] = []"
| "layout cache pos (c # cs) = (pos, gColTypeSize c) # layout cache (pos + gColTypeSize c * cache) cs"

abbreviation width :: "COL_TYPE list \<Rightarrow> nat" where
  "width cs \<equiv> sum_list (map gColTypeSize cs)"

lemma layout_bounds: "(p, s) \<in> set (layout cache pos cs) \<Longrightarrow> pos \<le> p \<and> p + s * cache \<le> pos + width cs * cache"
  by (induction cs arbitrary: pos) (auto simp: add_mult_distrib dest!: meta_spec, fastforce+)

definition row_at :: "byte list \<Rightarrow> (nat \<times> nat) list \<Rightarrow> nat \<Rightarrow> byte list list" where
  "row_at mem lay r = map (\<lambda>(p, s). slice mem (p + s * r) s) lay"

text \<open>The values of a row, one after the other.\<close>

fun split_cols :: "COL_TYPE list \<Rightarrow> byte list \<Rightarrow> byte list list" where
  "split_cols [] p = []"
| "split_cols (c # cs) p = take (gColTypeSize c) p # split_cols cs (drop (gColTypeSize c) p)"

fun write_cols :: "nat \<Rightarrow> nat \<Rightarrow> COL_TYPE list \<Rightarrow> nat \<Rightarrow> byte list \<Rightarrow> byte list \<Rightarrow> byte list res" where
  "write_cols cache row [] pos p mem = Inr mem"
| "write_cols cache row (c # cs) pos p mem =
     rbind (copy_bytes p 0 (gColTypeSize c)) (\<lambda>v.
     rbind (mem_put mem (pos + gColTypeSize c * row) v) (\<lambda>mem'.
       write_cols cache row cs (pos + gColTypeSize c * cache) (drop (gColTypeSize c) p) mem'))"

lemma put_cols_eq: "put_cols cache row prev cs pos p = write_cols cache row cs (pos + gColTypeSize prev * cache) p"
proof (induction cs arbitrary: prev pos p)
  case Nil
  show ?case by (rule ext) simp
next
  case (Cons c cs)
  then show ?case by (intro ext) (simp add: Let_def)
qed

lemma row_in_column: "r < cache \<Longrightarrow> s * r + s \<le> s * (cache :: nat)"
  by (metis Suc_leI add.commute mult_Suc_right mult_le_mono2)

lemma row_at_cong:
  assumes "length mem' = length mem" and "r < cache"
    and "\<And>x. pos \<le> x \<Longrightarrow> x < pos + width cs * cache \<Longrightarrow> mem' ! x = mem ! x"
  shows "row_at mem' (layout cache pos cs) r = row_at mem (layout cache pos cs) r"
proof -
  have "slice mem' (p + s * r) s = slice mem (p + s * r) s" if "(p, s) \<in> set (layout cache pos cs)" for p s
    using layout_bounds [OF that] row_in_column [OF assms(2), of s] assms(3) by (intro slice_cong [OF assms(1)]) simp
  then show ?thesis unfolding row_at_def by (auto intro!: map_cong)
qed

lemma write_cols_ok:
  "pos + width cs * cache \<le> length mem \<Longrightarrow> row < cache \<Longrightarrow> width cs \<le> length p \<Longrightarrow>
    \<exists>mem'. write_cols cache row cs pos p mem = Inr mem' \<and> length mem' = length mem \<and>
      (\<forall>x < pos. mem' ! x = mem ! x) \<and> row_at mem' (layout cache pos cs) row = split_cols cs p \<and>
      (\<forall>r < cache. r \<noteq> row \<longrightarrow> row_at mem' (layout cache pos cs) r = row_at mem (layout cache pos cs) r)"
proof (induction cs arbitrary: pos p mem)
  case Nil
  then show ?case by (simp add: row_at_def)
next
  case (Cons c cs)
  let ?s = "gColTypeSize c" and ?pos = "pos + gColTypeSize c * cache"
  let ?v = "take ?s p"
  have len: "?pos + width cs * cache \<le> length mem" using Cons.prems(1) by (simp add: add_mult_distrib)
  have v: "copy_bytes p 0 ?s = Inr ?v" "length ?v = ?s" using Cons.prems(3) by (simp_all add: copy_bytes_def)
  have fit: "pos + ?s * row + length ?v \<le> ?pos" using row_in_column [OF Cons.prems(2), of ?s] v(2) by simp
  then have "pos + ?s * row + length ?v \<le> length mem" using len by linarith
  then obtain m1 where m1: "mem_put mem (pos + ?s * row) ?v = Inr m1" "length m1 = length mem" "slice m1 (pos + ?s * row) (length ?v) = ?v"
      "\<And>x. x < pos + ?s * row \<or> pos + ?s * row + length ?v \<le> x \<Longrightarrow> m1 ! x = mem ! x"
    by (rule mem_put_ok) blast
  have "width cs \<le> length (drop ?s p)" using Cons.prems(3) by simp
  then obtain m2 where m2: "write_cols cache row cs ?pos (drop ?s p) m1 = Inr m2" "length m2 = length mem" "\<forall>x < ?pos. m2 ! x = m1 ! x"
      "row_at m2 (layout cache ?pos cs) row = split_cols cs (drop ?s p)"
      "\<forall>r < cache. r \<noteq> row \<longrightarrow> row_at m2 (layout cache ?pos cs) r = row_at m1 (layout cache ?pos cs) r"
    using Cons.IH [of ?pos m1 "drop ?s p"] Cons.prems(2) len m1(2) by auto
  have "slice m2 (pos + ?s * row) ?s = slice m1 (pos + ?s * row) ?s"
    using m1(2) m2(2,3) fit v(2) by (intro slice_cong) auto
  then have own: "slice m2 (pos + ?s * row) ?s = ?v" using m1(3) v(2) by simp
  have other: "slice m2 (pos + ?s * r) ?s = slice mem (pos + ?s * r) ?s" if "r < cache" "r \<noteq> row" for r
  proof (rule slice_cong)
    show "length m2 = length mem" by (rule m2(2))
    fix x
    assume x: "pos + ?s * r \<le> x" "x < pos + ?s * r + ?s"
    have "?s * r + ?s \<le> ?s * row \<or> ?s * row + ?s \<le> ?s * r" using that(2) row_in_column [of r row ?s] row_in_column [of row r ?s] by linarith
    then have "m1 ! x = mem ! x" using x v(2) by (intro m1(4)) linarith
    moreover have "x < ?pos" using x row_in_column [OF that(1), of ?s] by linarith
    ultimately show "m2 ! x = mem ! x" using m2(3) by simp
  qed
  have rest: "row_at m1 (layout cache ?pos cs) r = row_at mem (layout cache ?pos cs) r" if "r < cache" for r
    using fit m1(4) by (intro row_at_cong [OF m1(2) that]) auto
  have "write_cols cache row (c # cs) pos p mem = Inr m2" using v(1) m1(1) m2(1) by simp
  moreover have "\<forall>x < pos. m2 ! x = mem ! x" using m2(3) m1(4) by simp
  ultimately show ?case using m2(2,4,5) own other rest by (auto simp: row_at_def)
qed

text \<open>A row is stored: the time stamp and the columns of the caller.\<close>

lemma put_row_ok:
  assumes "lh_storeType h = STORE_BY_COL" and "lh_colType h = COL_TYPE_TIMESTAMP # cs" and "lh_colCount h = Suc (length cs)"
    and "lh_curRowCount h < lh_cacheSize h" and "width (lh_colType h) * lh_cacheSize h \<le> length mem" and "width cs \<le> length pData"
  obtains mem' where "put_row h st pData mem = Inr mem'" and "length mem' = length mem"
    and "row_at mem' (layout (lh_cacheSize h) 0 (lh_colType h)) (lh_curRowCount h) =
      le_bytes 8 (word_of_int st :: 64 word) # split_cols cs pData"
    and "\<And>r. r < lh_cacheSize h \<Longrightarrow> r \<noteq> lh_curRowCount h \<Longrightarrow>
      row_at mem' (layout (lh_cacheSize h) 0 (lh_colType h)) r = row_at mem (layout (lh_cacheSize h) 0 (lh_colType h)) r"
proof -
  let ?ts = "le_bytes 8 (word_of_int st :: 64 word)"
  have "put_row h st pData mem = write_cols (lh_cacheSize h) (lh_curRowCount h) (lh_colType h) 0 (?ts @ pData) mem"
    using assms(1-3) by (simp add: put_row_def log_cols_def put_cols_eq copy_bytes_def)
  moreover have "split_cols (lh_colType h) (?ts @ pData) = ?ts # split_cols cs pData" using assms(2) by simp
  ultimately show ?thesis
    using that write_cols_ok [of 0 "lh_colType h" "lh_cacheSize h" mem "lh_curRowCount h" "?ts @ pData"] assms(2,4-6) by auto
qed

section \<open>Blocks\<close>

text \<open>The bytes of a column in a block: the values, then the checksum.\<close>

definition segment :: "edb_env \<Rightarrow> byte list \<Rightarrow> nat \<Rightarrow> nat \<times> nat \<Rightarrow> byte list" where
  "segment en mem n = (\<lambda>(p, s). slice mem p (s * n) @ le_bytes 4 (en_crc32c en 0 (en_addr en) (slice mem p (s * n))))"

lemma column_fits:
  assumes "n \<le> cache" and "pos + width (c # cs) * cache \<le> len"
  shows "pos + gColTypeSize c * n \<le> len" and "pos + gColTypeSize c * cache + width cs * cache \<le> len"
proof -
  show "pos + gColTypeSize c * cache + width cs * cache \<le> len" using assms(2) by (simp add: add_mult_distrib)
  then show "pos + gColTypeSize c * n \<le> len" using mult_le_mono2 [OF assms(1), of "gColTypeSize c"] by linarith
qed

lemma none_cols_ok:
  assumes "lh_curRowCount h \<le> lh_cacheSize h"
  shows "pInput + width cs * lh_cacheSize h \<le> length mem \<Longrightarrow> (\<And>c. c \<in> set cs \<Longrightarrow> gColTypeSize c * lh_curRowCount h + 4 \<le> outSize) \<Longrightarrow>
    none_cols en h mem outSize pInput cs =
      Inr (map (\<lambda>c. int (gColTypeSize c * lh_curRowCount h + 4)) cs,
        concat (map (segment en mem (lh_curRowCount h)) (layout (lh_cacheSize h) pInput cs)))"
proof (induction cs arbitrary: pInput)
  case (Cons c cs)
  let ?n = "gColTypeSize c * lh_curRowCount h" and ?p = "pInput + gColTypeSize c * lh_cacheSize h"
  note fit = column_fits [OF assms Cons.prems(1)]
  have copy: "copy_bytes mem pInput ?n = Inr (slice mem pInput ?n)" and len: "length (slice mem pInput ?n) = ?n"
    using fit(1) by (simp_all add: copy_bytes_def slice_def)
  have "taosCalcChecksumAppend (en_crc32c en) 0 (en_addr en) (slice mem pInput ?n @ map (en_heap en) [?n..<?n + 4]) =
      (0, segment en mem (lh_curRowCount h) (pInput, gColTypeSize c))"
    using len by (simp add: taosCalcChecksumAppend_def segment_def Let_def)
  moreover have "none_cols en h mem outSize ?p cs = Inr (map (\<lambda>c. int (gColTypeSize c * lh_curRowCount h + 4)) cs,
        concat (map (segment en mem (lh_curRowCount h)) (layout (lh_cacheSize h) ?p cs)))"
    using Cons.prems(2) by (intro Cons.IH [OF fit(2)]) simp
  ultimately show ?case using copy Cons.prems(2) [of c] by (simp add: Let_def)
qed simp

text \<open>Decoding: the payloads of the columns of a block at \<open>off\<close>, and its rows.\<close>

fun payloads :: "nat \<Rightarrow> int list \<Rightarrow> byte list \<Rightarrow> byte list list" where
  "payloads off [] r = []"
| "payloads off (l # ls) r = slice r off (nat l - 4) # payloads (off + nat l) ls r"

definition block_rows :: "COL_TYPE list \<Rightarrow> byte list \<Rightarrow> INDEX \<Rightarrow> byte list list list" where
  "block_rows cs r ix =
     map (\<lambda>j. map2 (\<lambda>c col. slice col (gColTypeSize c * j) (gColTypeSize c)) cs (payloads (nat (ix_dataOffset ix)) (ix_colLens ix) r))
       [0..<nat (ix_rowCount ix)]"

definition log_rows :: "LOG_HEAD \<Rightarrow> byte list \<Rightarrow> byte list list list" where
  "log_rows h mem = map (row_at mem (layout (lh_cacheSize h) 0 (lh_colType h))) [0..<lh_curRowCount h]"

abbreviation none_lens :: "COL_TYPE list \<Rightarrow> nat \<Rightarrow> int list" where
  "none_lens cs n \<equiv> map (\<lambda>c. int (gColTypeSize c * n + 4)) cs"

lemma length_segments:
  assumes "n \<le> cache"
  shows "pos + width cs * cache \<le> length mem \<Longrightarrow>
    length (concat (map (segment en mem n) (layout cache pos cs))) = nat (sum_list (none_lens cs n))"
proof (induction cs arbitrary: pos)
  case (Cons c cs)
  note fit = column_fits [OF assms Cons.prems]
  have "length (segment en mem n (pos, gColTypeSize c)) = gColTypeSize c * n + 4"
    using fit(1) by (simp add: segment_def del: of_nat_mult)
  moreover have "0 \<le> sum_list (none_lens cs n)" by (rule sum_list_nonneg) auto
  ultimately show ?case using Cons.IH [OF fit(2)] by (simp add: nat_add_distrib del: of_nat_mult)
qed simp

lemma payloads_segments:
  assumes "n \<le> cache"
  shows "pos + width cs * cache \<le> length mem \<Longrightarrow>
    payloads (length r) (none_lens cs n) (r @ concat (map (segment en mem n) (layout cache pos cs)) @ r') =
      map (\<lambda>(p, s). slice mem p (s * n)) (layout cache pos cs)"
proof (induction cs arbitrary: pos r)
  case (Cons c cs)
  let ?s = "gColTypeSize c"
  note fit = column_fits [OF assms Cons.prems]
  have len: "length (slice mem pos (?s * n)) = ?s * n" using fit(1) by simp
  let ?seg = "segment en mem n (pos, ?s)"
  have seg: "?seg = slice mem pos (?s * n) @ le_bytes 4 (en_crc32c en 0 (en_addr en) (slice mem pos (?s * n)))" "length ?seg = ?s * n + 4"
    using len by (simp_all add: segment_def)
  have "payloads (length (r @ ?seg)) (none_lens cs n) ((r @ ?seg) @ concat (map (segment en mem n) (layout cache (pos + ?s * cache) cs)) @ r') =
      map (\<lambda>(p, s). slice mem p (s * n)) (layout cache (pos + ?s * cache) cs)"
    by (rule Cons.IH [OF fit(2)])
  moreover have "slice (r @ ?seg @ x) (length r) (?s * n) = slice mem pos (?s * n)" for x
    unfolding seg(1) append_assoc using len by (simp only: slice_at [OF len [symmetric]])
  ultimately show ?case using seg(2) by (simp add: nat_add_distrib nat_mult_distrib)
qed simp

lemma rows_of_layout:
  assumes "j < n"
  shows "map2 (\<lambda>c col. slice col (gColTypeSize c * j) (gColTypeSize c)) cs (map (\<lambda>(p, s). slice mem p (s * n)) (layout cache pos cs)) =
    row_at mem (layout cache pos cs) j"
  using row_in_column [OF assms] by (induction cs arbitrary: pos) (simp_all add: row_at_def slice_slice)

text \<open>A block just written holds the rows of the log.\<close>

lemma block_rows_written:
  assumes "lh_curRowCount h \<le> lh_cacheSize h" and "width (lh_colType h) * lh_cacheSize h \<le> length mem"
    and "ix_rowCount ix = int (lh_curRowCount h)" and "ix_dataOffset ix = int (length r)"
    and "ix_colLens ix = none_lens (lh_colType h) (lh_curRowCount h)"
  shows "block_rows (lh_colType h) (r @ concat (map (segment en mem (lh_curRowCount h)) (layout (lh_cacheSize h) 0 (lh_colType h))) @ r') ix =
    log_rows h mem"
proof -
  have "payloads (nat (ix_dataOffset ix)) (ix_colLens ix) (r @ concat (map (segment en mem (lh_curRowCount h)) (layout (lh_cacheSize h) 0 (lh_colType h))) @ r') =
      map (\<lambda>(p, s). slice mem p (s * lh_curRowCount h)) (layout (lh_cacheSize h) 0 (lh_colType h))"
    using payloads_segments [OF assms(1), of 0] assms(2,4,5) by simp
  then show ?thesis using assms(3) by (auto simp: block_rows_def log_rows_def rows_of_layout)
qed

text \<open>Checking a file reads only its own blocks, at whatever address the buffers lie.\<close>

definition same_crc :: "edb_env \<Rightarrow> edb_env \<Rightarrow> bool" where
  "same_crc en en' \<longleftrightarrow> (\<forall>a b d. en_crc32c en 0 a d = en_crc32c en' 0 b d)"

lemma segment_checks:
  assumes "same_crc en en'" and "p + s * n \<le> length mem"
  shows "taosCheckChecksumWhole (en_crc32c en') (en_addr en') (segment en mem n (p, s))"
proof -
  have "length (slice mem p (s * n)) = s * n" using assms(2) by simp
  then show ?thesis
    using assms(1) by (simp add: taosCheckChecksumWhole_def segment_def same_crc_def)
qed

lemma read_segments:
  assumes "same_crc en en'" and "n \<le> cache"
  shows "pos + width cs * cache \<le> length mem \<Longrightarrow>
    read_cols en' (r @ concat (map (segment en mem n) (layout cache pos cs)) @ r') (none_lens cs n) (length r) =
      (0, length r + length (concat (map (segment en mem n) (layout cache pos cs))))"
proof (induction cs arbitrary: pos r)
  case (Cons c cs)
  note fit = column_fits [OF assms(2) Cons.prems]
  let ?seg = "segment en mem n (pos, gColTypeSize c)"
  let ?segs = "concat (map (segment en mem n) (layout cache (pos + gColTypeSize c * cache) cs))"
  have len: "length ?seg = gColTypeSize c * n + 4" using fit(1) by (simp add: segment_def)
  have "read_cols en' ((r @ ?seg) @ ?segs @ r') (none_lens cs n) (length (r @ ?seg)) = (0, length (r @ ?seg) + length ?segs)"
    by (rule Cons.IH [OF fit(2)])
  moreover have "taosCheckChecksumWhole (en_crc32c en') (en_addr en') ?seg" by (rule segment_checks [OF assms(1) fit(1)])
  moreover have "0 \<le> int (gColTypeSize c) * int n" by simp
  then have "\<not> int (gColTypeSize c) * int n + 4 < 0" by linarith
  ultimately show ?case using len by (simp add: nat_add_distrib nat_mult_distrib)
qed simp

lemma read_cols_append: "read_cols en r ls pos = (0, p') \<Longrightarrow> read_cols en (r @ b) ls pos = (0, p')"
  by (induction ls arbitrary: pos) (auto split: if_splits)

text \<open>The blocks of an index follow one another in the record file and their checksums hold.\<close>

definition block_ok :: "edb_env \<Rightarrow> COL_TYPE list \<Rightarrow> byte list \<Rightarrow> nat \<Rightarrow> INDEX \<Rightarrow> bool" where
  "block_ok en cs r pos ix \<longleftrightarrow>
     ix_dataOffset ix = int pos \<and> 0 \<le> ix_rowCount ix \<and> ix_colLens ix = none_lens cs (nat (ix_rowCount ix)) \<and>
     (\<forall>en'. same_crc en en' \<longrightarrow> read_cols en' r (ix_colLens ix) pos = (0, pos + nat (sum_list (ix_colLens ix))))"

fun tiles :: "edb_env \<Rightarrow> COL_TYPE list \<Rightarrow> byte list \<Rightarrow> nat \<Rightarrow> INDEX list \<Rightarrow> bool" where
  "tiles en cs r pos [] \<longleftrightarrow> pos = length r"
| "tiles en cs r pos (ix # ixs) \<longleftrightarrow>
     block_ok en cs r pos ix \<and> tiles en cs r (pos + nat (sum_list (ix_colLens ix))) ixs"

lemma block_ok_append: "block_ok en cs r pos ix \<Longrightarrow> block_ok en cs (r @ b) pos ix"
  using read_cols_append unfolding block_ok_def by blast

lemma block_ok_read:
  "block_ok en cs r pos ix \<Longrightarrow> same_crc en en' \<Longrightarrow>
    read_cols en' r (ix_colLens ix) pos = (0, pos + nat (sum_list (ix_colLens ix)))"
  unfolding block_ok_def by blast

lemma block_ok_size:
  assumes "block_ok en cs r pos ix" and "cs \<noteq> []"
  shows "4 \<le> nat (sum_list (ix_colLens ix))"
proof -
  obtain c cs' where cs: "cs = c # cs'" using assms(2) by (cases cs) auto
  have "0 \<le> sum_list (none_lens cs' (nat (ix_rowCount ix)))" by (rule sum_list_nonneg) auto
  moreover have "ix_colLens ix = none_lens cs (nat (ix_rowCount ix))" using assms(1) unfolding block_ok_def by blast
  then have "sum_list (ix_colLens ix) =
      int (gColTypeSize c * nat (ix_rowCount ix)) + 4 + sum_list (none_lens cs' (nat (ix_rowCount ix)))"
    by (simp add: cs)
  ultimately show ?thesis by linarith
qed

lemma tiles_append:
  assumes "block_ok en cs (r @ b) (length r) ix" and "nat (sum_list (ix_colLens ix)) = length b"
  shows "tiles en cs r pos ixs \<Longrightarrow> tiles en cs (r @ b) pos (ixs @ [ix])"
  using assms by (induction ixs arbitrary: pos) (auto intro: block_ok_append)

text \<open>A block starts at the offset 0 or behind at least five bytes, never at 2, so the exchanged arguments do no harm.\<close>

lemma tiles_read:
  assumes "same_crc en en'" and "cs \<noteq> []"
  shows "tiles en cs r pos ixs \<Longrightarrow> pos = 0 \<or> 4 \<le> pos \<Longrightarrow> read_blocks en' r ixs pos = 0"
proof (induction ixs arbitrary: pos)
  case (Cons ix ixs)
  have blk: "block_ok en cs r pos ix" and "tiles en cs r (pos + nat (sum_list (ix_colLens ix))) ixs"
    using Cons.prems(1) by simp_all
  moreover have "4 \<le> pos + nat (sum_list (ix_colLens ix))" using block_ok_size [OF blk assms(2)] by linarith
  ultimately have "read_blocks en' r ixs (pos + nat (sum_list (ix_colLens ix))) = 0" by (intro Cons.IH) simp_all
  moreover have "ix_dataOffset ix = int pos" using blk unfolding block_ok_def by blast
  ultimately show ?case using block_ok_read [OF blk assms(1)] Cons.prems(2) by (auto simp: Let_def)
qed simp

lemma payloads_append: "read_cols en r ls pos = (0, p') \<Longrightarrow> payloads pos ls (r @ b) = payloads pos ls r"
  by (induction ls arbitrary: pos) (auto simp: slice_append1 split: if_splits)

lemma block_rows_append:
  assumes "block_ok en cs r pos ix" and "same_crc en en"
  shows "block_rows cs (r @ b) ix = block_rows cs r ix"
proof -
  have "ix_dataOffset ix = int pos" using assms(1) unfolding block_ok_def by blast
  then show ?thesis using payloads_append [OF block_ok_read [OF assms]] by (simp add: block_rows_def)
qed

lemma blocks_append:
  assumes "same_crc en en"
  shows "tiles en cs r pos ixs \<Longrightarrow> map (block_rows cs (r @ b)) ixs = map (block_rows cs r) ixs"
  by (induction ixs arbitrary: pos) (auto simp: block_rows_append [OF _ assms])

section \<open>The store\<close>

text \<open>A store of rows in columns, not compressed; \<open>cs\<close> are the types of all columns.\<close>

definition head_ok :: "COL_TYPE list \<Rightarrow> LOG_HEAD \<Rightarrow> bool" where
  "head_ok cs h \<longleftrightarrow>
     lh_storeType h = STORE_BY_COL \<and> lh_compressType h = COMPRESS_NONE \<and>
     lh_colType h = cs \<and> lh_colCount h = length cs \<and> (\<exists>cs'. cs = COL_TYPE_TIMESTAMP # cs') \<and>
     (\<forall>c \<in> set cs. gColTypeSize c \<le> lh_maxColSize h) \<and> 0 < lh_hoursPerFile h \<and> 0 < lh_cacheSize h \<and> lh_cacheSize h < 2 ^ 16"

definition time_ok :: "LOG_HEAD \<Rightarrow> int \<Rightarrow> bool" where
  "time_ok h st \<longleftrightarrow> sint (word_of_int st :: 64 word) = st \<and> file_of h st \<noteq> Inr 0"

definition log_ok :: "COL_TYPE list \<Rightarrow> LOG_HEAD \<Rightarrow> byte list \<Rightarrow> bool" where
  "log_ok cs h mem \<longleftrightarrow>
     lh_curRowCount h \<le> lh_cacheSize h \<and> width cs * lh_cacheSize h \<le> length mem \<and>
     (0 < lh_curRowCount h \<longrightarrow>
       time_ok h (lh_startTimestamp h) \<and> slice mem 0 8 = le_bytes 8 (word_of_int (lh_startTimestamp h) :: 64 word))"

definition fds_ok :: "DB \<Rightarrow> edb_fs \<Rightarrow> bool" where
  "fds_ok db fs \<longleftrightarrow>
     db_recordFd db = None \<and> db_indexFd db = None \<and> db_curFileIndex db = 0 \<or>
     db_recordFd db = Some (db_curFileIndex db) \<and> db_indexFd db = Some (db_curFileIndex db) \<and>
       fs_record fs (db_curFileIndex db) \<noteq> None"

definition file_ok :: "edb_env \<Rightarrow> COL_TYPE list \<Rightarrow> edb_fs \<Rightarrow> int \<Rightarrow> bool" where
  "file_ok en cs fs k \<longleftrightarrow>
     (case (fs_index fs k, fs_record fs k) of
        (Some ixs, Some r) \<Rightarrow> tiles en cs r 0 ixs
      | (None, None) \<Rightarrow> True
      | _ \<Rightarrow> False)"

definition edb_ok :: "edb_env \<Rightarrow> COL_TYPE list \<Rightarrow> DB \<Rightarrow> edb_fs \<Rightarrow> bool" where
  "edb_ok en cs db fs \<longleftrightarrow>
     head_ok cs (db_pLogHead db) \<and> log_ok cs (db_pLogHead db) (db_pLogData db) \<and> fds_ok db fs \<and> (\<forall>k. file_ok en cs fs k)"

text \<open>The rows of a file number: those of its record file, then those of the log.\<close>

definition file_rows :: "COL_TYPE list \<Rightarrow> edb_fs \<Rightarrow> int \<Rightarrow> byte list list list" where
  "file_rows cs fs k =
     (case (fs_index fs k, fs_record fs k) of
        (Some ixs, Some r) \<Rightarrow> concat (map (block_rows cs r) ixs)
      | _ \<Rightarrow> [])"

definition stored :: "COL_TYPE list \<Rightarrow> DB \<Rightarrow> edb_fs \<Rightarrow> int \<Rightarrow> byte list list list" where
  "stored cs db fs k =
     (let h = db_pLogHead db in
      file_rows cs fs k @ (if 0 < lh_curRowCount h \<and> file_of h (lh_startTimestamp h) = Inr k then log_rows h (db_pLogData db) else []))"

definition short_files :: "edb_fs \<Rightarrow> bool" where
  "short_files fs \<longleftrightarrow> (\<forall>k r. fs_record fs k = Some r \<longrightarrow> length r < 2 ^ 31)"

lemma compressNone_ok:
  assumes "head_ok cs h" and "log_ok cs h mem" and "en_malloc en"
  shows "gCompress en (lh_compressType h) h mem =
    Inr (sum_list (none_lens cs (lh_curRowCount h)), none_lens cs (lh_curRowCount h),
      concat (map (segment en mem (lh_curRowCount h)) (layout (lh_cacheSize h) 0 cs)))"
proof -
  have "gColTypeSize c * lh_curRowCount h + 4 \<le> lh_maxColSize h * lh_curRowCount h + 4" if "c \<in> set cs" for c
    using assms(1) that by (simp add: head_ok_def)
  then have "none_cols en h mem (lh_maxColSize h * lh_curRowCount h + 4) 0 cs =
      Inr (none_lens cs (lh_curRowCount h), concat (map (segment en mem (lh_curRowCount h)) (layout (lh_cacheSize h) 0 cs)))"
    using assms(2) by (intro none_cols_ok) (simp_all add: log_ok_def)
  then show ?thesis using assms(1,3) by (simp add: head_ok_def compressNone_def log_cols_def)
qed

lemma opened:
  assumes "file_ok en cs fs k"
  obtains ixs r where "open_files k fs = fs\<lparr>fs_index := (fs_index fs)(k \<mapsto> ixs), fs_record := (fs_record fs)(k \<mapsto> r)\<rparr>"
    and "tiles en cs r 0 ixs" and "file_rows cs fs k = concat (map (block_rows cs r) ixs)"
    and "fs_record fs k = None \<and> r = [] \<and> ixs = [] \<or> fs_record fs k = Some r \<and> fs_index fs k = Some ixs"
proof (cases "fs_record fs k")
  case None
  then have "fs_index fs k = None" using assms by (auto simp: file_ok_def split: option.splits)
  then show ?thesis using None by (intro that [of "[]" "[]"]) (simp_all add: open_files_def file_rows_def)
next
  case (Some r)
  then obtain ixs where "fs_index fs k = Some ixs" "tiles en cs r 0 ixs"
    using assms by (auto simp: file_ok_def split: option.splits)
  then show ?thesis using Some by (intro that [of r ixs]) (simp_all add: open_files_def file_rows_def)
qed

lemma open_again:
  assumes "fs_record fs k \<noteq> None" and "file_ok en cs fs k"
  shows "open_files k fs = fs"
  using assms by (auto simp: open_files_def file_ok_def fun_upd_idem split: option.splits)

abbreviation empty_log :: "LOG_HEAD \<Rightarrow> LOG_HEAD" where
  "empty_log h \<equiv> h\<lparr>lh_endTimestamp := 0, lh_startTimestamp := 0, lh_curRowCount := 0\<rparr>"

text \<open>The first eight bytes of the log are the time of its first row.\<close>

lemma log_start:
  assumes hd: "head_ok cs h" and log: "log_ok cs h mem" and "0 < lh_curRowCount h"
  obtains ts where "copy_bytes mem 0 8 = Inr ts" and "sint (of_le_bytes ts :: 64 word) = lh_startTimestamp h"
proof
  obtain cs' where cs: "cs = COL_TYPE_TIMESTAMP # cs'" using hd by (auto simp: head_ok_def)
  have start: "time_ok h (lh_startTimestamp h)" "slice mem 0 8 = le_bytes 8 (word_of_int (lh_startTimestamp h) :: 64 word)"
    using log assms(3) by (simp_all add: log_ok_def)
  have "8 * 1 \<le> width cs * lh_cacheSize h" using hd cs by (intro mult_le_mono) (auto simp: head_ok_def)
  then have "8 \<le> length mem" using log by (simp add: log_ok_def)
  then show "copy_bytes mem 0 8 = Inr (le_bytes 8 (word_of_int (lh_startTimestamp h) :: 64 word))"
    using start(2) by (simp add: copy_bytes_def slice_def)
  show "sint (of_le_bytes (le_bytes 8 (word_of_int (lh_startTimestamp h) :: 64 word)) :: 64 word) = lh_startTimestamp h"
    using start(1) by (simp add: time_ok_def)
qed

text \<open>What a save does on a well-formed store, as one update of its files.\<close>

lemma saveToFile_eq:
  assumes ok: "edb_ok en cs db fs" and "en_malloc en" and "0 < lh_curRowCount (db_pLogHead db)"
    and k: "file_of (db_pLogHead db) (lh_startTimestamp (db_pLogHead db)) = Inr k"
    and opened: "open_files k fs = fs\<lparr>fs_index := (fs_index fs)(k \<mapsto> ixs), fs_record := (fs_record fs)(k \<mapsto> r)\<rparr>"
    and "length r < 2 ^ 31"
  defines "h \<equiv> db_pLogHead db"
  defines "lens \<equiv> none_lens cs (lh_curRowCount h)"
  shows "saveToFile en db fs = Inr
    (\<lparr>db_pLogHead = empty_log h, db_pLogData = db_pLogData db, db_recordFd = Some k, db_indexFd = Some k, db_curFileIndex = k\<rparr>,
     fs\<lparr>fs_index := (fs_index fs)(k \<mapsto> ixs @
          [\<lparr>ix_rowCount = int (lh_curRowCount h), ix_startTimestamp = lh_startTimestamp h, ix_endTimestamp = lh_endTimestamp h,
            ix_dataOffset = int (length r), ix_dataLength = sum_list lens, ix_colLens = lens\<rparr>]),
        fs_record := (fs_record fs)(k \<mapsto>
          r @ concat (map (segment en (db_pLogData db) (lh_curRowCount h)) (layout (lh_cacheSize h) 0 cs)))\<rparr>)"
proof -
  have hd: "head_ok cs h" and log: "log_ok cs h (db_pLogData db)" and fds: "fds_ok db fs" and files: "file_ok en cs fs k"
    using ok by (simp_all add: edb_ok_def h_def)
  obtain cs' where cs: "cs = COL_TYPE_TIMESTAMP # cs'" using hd by (auto simp: head_ok_def)
  obtain ts where ts: "copy_bytes (db_pLogData db) 0 8 = Inr ts" "sint (of_le_bytes ts :: 64 word) = lh_startTimestamp h"
    by (rule log_start [OF hd log]) (use assms(3) in \<open>simp add: h_def\<close>)
  have num: "file_of h (lh_startTimestamp h) = Inr k" using k by (simp add: h_def)
  have "time_ok h (lh_startTimestamp h)" using log assms(3) by (simp add: log_ok_def h_def)
  then have "k \<noteq> 0" using num by (auto simp: time_ok_def)
  then have keep: "db_recordFd db = Some k" "db_indexFd db = Some k" "open_files k fs = fs" if "db_curFileIndex db = k"
    using fds that open_again [OF _ files] by (auto simp: fds_ok_def)
  have fs1: "(if db_curFileIndex db \<noteq> k then open_files k fs else fs) =
      fs\<lparr>fs_index := (fs_index fs)(k \<mapsto> ixs), fs_record := (fs_record fs)(k \<mapsto> r)\<rparr>"
    using keep(3) opened by auto
  have db1: "(if db_curFileIndex db \<noteq> k then db\<lparr>db_curFileIndex := k, db_indexFd := Some k, db_recordFd := Some k\<rparr> else db) =
      \<lparr>db_pLogHead = h, db_pLogData = db_pLogData db, db_recordFd = Some k, db_indexFd = Some k, db_curFileIndex = k\<rparr>"
    using keep(1,2) by (cases db) (auto simp: h_def)
  have "to_int32 (int (length r)) = int (length r)" using assms(6) by (intro to_int32_id) auto
  moreover have "0 < sum_list lens"
  proof -
    have "0 \<le> sum_list (none_lens cs' (lh_curRowCount h))" by (rule sum_list_nonneg) auto
    then show ?thesis by (simp add: lens_def cs)
  qed
  moreover note compressNone_ok [OF hd log assms(2), folded lens_def]
  ultimately show ?thesis
    using ts num by (simp add: saveToFile_def Let_def h_def [symmetric] fs1 db1 record_end_def append_record_def append_index_def
      cong: if_cong del: not_None_eq)
qed

lemma header_updates [simp]:
  "head_ok cs (lh_startTimestamp_update f h) = head_ok cs h"
  "head_ok cs (lh_endTimestamp_update f h) = head_ok cs h"
  "head_ok cs (lh_curRowCount_update g h) = head_ok cs h"
  "file_of (lh_startTimestamp_update f h) = file_of h"
  "file_of (lh_endTimestamp_update f h) = file_of h"
  "file_of (lh_curRowCount_update g h) = file_of h"
  "time_ok (lh_startTimestamp_update f h) = time_ok h"
  "time_ok (lh_endTimestamp_update f h) = time_ok h"
  "time_ok (lh_curRowCount_update g h) = time_ok h"
  by (simp_all add: head_ok_def time_ok_def file_of_def fun_eq_iff)

lemma head_ok_file: "head_ok cs h \<Longrightarrow> \<exists>k. file_of h st = Inr k"
  by (simp add: head_ok_def file_of_def)

text \<open>The block a save appends is well-formed and holds the rows of the log.\<close>

lemma saved_block:
  assumes "head_ok cs h" and "log_ok cs h mem"
    and "ix_rowCount ix = int (lh_curRowCount h)" and "ix_dataOffset ix = int (length r)"
    and "ix_colLens ix = none_lens cs (lh_curRowCount h)"
  fixes en
  defines "b \<equiv> concat (map (segment en mem (lh_curRowCount h)) (layout (lh_cacheSize h) 0 cs))"
  shows "block_ok en cs (r @ b) (length r) ix" and "nat (sum_list (ix_colLens ix)) = length b"
    and "block_rows cs (r @ b) ix = log_rows h mem"
proof -
  have fit: "lh_curRowCount h \<le> lh_cacheSize h" "0 + width cs * lh_cacheSize h \<le> length mem" and cs: "lh_colType h = cs"
    using assms(1,2) by (simp_all add: head_ok_def log_ok_def)
  show len: "nat (sum_list (ix_colLens ix)) = length b"
    using length_segments [OF fit] assms(5) by (simp add: b_def)
  show "block_ok en cs (r @ b) (length r) ix"
    using read_segments [OF _ fit, of en _ r "[]"] len assms(3-5) by (simp add: block_ok_def b_def)
  show "block_rows cs (r @ b) ix = log_rows h mem"
    using block_rows_written [OF fit(1) _ assms(3,4), where en = en and mem = mem and r' = "[]"] fit(2) assms(5) cs by (simp add: b_def)
qed

text \<open>A save in one piece: the block \<open>b\<close> and its entry \<open>ix\<close> go to the end of the files \<open>k\<close> of the log.\<close>

lemma save_shape:
  assumes ok: "edb_ok en cs db fs" and crc: "same_crc en en" and "en_malloc en" and rows: "0 < lh_curRowCount (db_pLogHead db)"
    and short: "short_files fs"
  obtains k ixs r ix b where "saveToFile en db fs = Inr
      (\<lparr>db_pLogHead = empty_log (db_pLogHead db), db_pLogData = db_pLogData db, db_recordFd = Some k, db_indexFd = Some k, db_curFileIndex = k\<rparr>,
       fs\<lparr>fs_index := (fs_index fs)(k \<mapsto> ixs @ [ix]), fs_record := (fs_record fs)(k \<mapsto> r @ b)\<rparr>)"
    and "file_of (db_pLogHead db) (lh_startTimestamp (db_pLogHead db)) = Inr k"
    and "fs_record fs k = None \<and> r = [] \<and> ixs = [] \<or> fs_record fs k = Some r \<and> fs_index fs k = Some ixs"
    and "tiles en cs (r @ b) 0 (ixs @ [ix])" and "file_rows cs fs k = concat (map (block_rows cs r) ixs)"
    and "map (block_rows cs (r @ b)) ixs = map (block_rows cs r) ixs"
    and "block_rows cs (r @ b) ix = log_rows (db_pLogHead db) (db_pLogData db)"
    and "ix_rowCount ix = int (lh_curRowCount (db_pLogHead db))"
    and "ix_startTimestamp ix = lh_startTimestamp (db_pLogHead db)" and "ix_endTimestamp ix = lh_endTimestamp (db_pLogHead db)"
proof -
  let ?h = "db_pLogHead db" and ?mem = "db_pLogData db"
  have hd: "head_ok cs ?h" and log: "log_ok cs ?h ?mem" and files: "\<And>k. file_ok en cs fs k"
    using ok by (simp_all add: edb_ok_def)
  obtain k where k: "file_of ?h (lh_startTimestamp ?h) = Inr k" using head_ok_file [OF hd] by blast
  obtain ixs r where op: "open_files k fs = fs\<lparr>fs_index := (fs_index fs)(k \<mapsto> ixs), fs_record := (fs_record fs)(k \<mapsto> r)\<rparr>"
      "tiles en cs r 0 ixs" "file_rows cs fs k = concat (map (block_rows cs r) ixs)"
      "fs_record fs k = None \<and> r = [] \<and> ixs = [] \<or> fs_record fs k = Some r \<and> fs_index fs k = Some ixs"
    by (rule opened [OF files])
  have "length r < 2 ^ 31" using op(4) short by (auto simp: short_files_def)
  note eq = saveToFile_eq [OF ok assms(3) rows k op(1) this]
  let ?ix = "\<lparr>ix_rowCount = int (lh_curRowCount ?h), ix_startTimestamp = lh_startTimestamp ?h, ix_endTimestamp = lh_endTimestamp ?h,
     ix_dataOffset = int (length r), ix_dataLength = sum_list (none_lens cs (lh_curRowCount ?h)), ix_colLens = none_lens cs (lh_curRowCount ?h)\<rparr>"
  let ?b = "concat (map (segment en ?mem (lh_curRowCount ?h)) (layout (lh_cacheSize ?h) 0 cs))"
  have blk: "block_ok en cs (r @ ?b) (length r) ?ix" "nat (sum_list (ix_colLens ?ix)) = length ?b" "block_rows cs (r @ ?b) ?ix = log_rows ?h ?mem"
    by (rule saved_block [OF hd log]; simp)+
  have "tiles en cs (r @ ?b) 0 (ixs @ [?ix])" by (rule tiles_append [OF blk(1,2) op(2)])
  moreover have "map (block_rows cs (r @ ?b)) ixs = map (block_rows cs r) ixs" by (rule blocks_append [OF crc op(2)])
  ultimately show ?thesis by (intro that [OF eq k op(4) _ op(3) _ blk(3)]) simp_all
qed

lemma save_ok:
  assumes ok: "edb_ok en cs db fs" and "same_crc en en" and "en_malloc en" and rows: "0 < lh_curRowCount (db_pLogHead db)"
    and "short_files fs"
  obtains db' fs' where "saveToFile en db fs = Inr (db', fs')" and "edb_ok en cs db' fs'"
    and "db_pLogHead db' = empty_log (db_pLogHead db)" and "stored cs db' fs' = stored cs db fs"
proof -
  let ?h = "db_pLogHead db" and ?mem = "db_pLogData db"
  have hd: "head_ok cs ?h" and log: "log_ok cs ?h ?mem" and files: "\<And>k. file_ok en cs fs k"
    using ok by (simp_all add: edb_ok_def)
  obtain k ixs r ix b where s: "saveToFile en db fs = Inr
      (\<lparr>db_pLogHead = empty_log ?h, db_pLogData = ?mem, db_recordFd = Some k, db_indexFd = Some k, db_curFileIndex = k\<rparr>,
       fs\<lparr>fs_index := (fs_index fs)(k \<mapsto> ixs @ [ix]), fs_record := (fs_record fs)(k \<mapsto> r @ b)\<rparr>)"
      "file_of ?h (lh_startTimestamp ?h) = Inr k" "tiles en cs (r @ b) 0 (ixs @ [ix])"
      "file_rows cs fs k = concat (map (block_rows cs r) ixs)" "map (block_rows cs (r @ b)) ixs = map (block_rows cs r) ixs"
      "block_rows cs (r @ b) ix = log_rows ?h ?mem"
    by (rule save_shape [OF assms])
  let ?fs = "fs\<lparr>fs_index := (fs_index fs)(k \<mapsto> ixs @ [ix]), fs_record := (fs_record fs)(k \<mapsto> r @ b)\<rparr>"
  let ?db = "\<lparr>db_pLogHead = empty_log ?h, db_pLogData = ?mem, db_recordFd = Some k, db_indexFd = Some k, db_curFileIndex = k\<rparr>"
  have "file_ok en cs ?fs j" for j using files [of j] s(3) by (simp add: file_ok_def)
  moreover have "log_ok cs (empty_log ?h) ?mem" using log by (simp add: log_ok_def)
  ultimately have wf: "edb_ok en cs ?db ?fs" using hd by (simp add: edb_ok_def fds_ok_def)
  have "file_rows cs ?fs k = concat (map (block_rows cs (r @ b)) ixs) @ block_rows cs (r @ b) ix" by (simp add: file_rows_def)
  then have here: "file_rows cs ?fs k = file_rows cs fs k @ log_rows ?h ?mem" by (simp only: s(4-6))
  have other: "file_rows cs ?fs j = file_rows cs fs j" if "j \<noteq> k" for j using that by (simp add: file_rows_def)
  have "stored cs ?db ?fs = stored cs db fs"
  proof
    fix j
    show "stored cs ?db ?fs j = stored cs db fs j"
      using here other [of j] rows s(2) by (cases "j = k") (auto simp: stored_def Let_def)
  qed
  then show ?thesis by (rule that [OF s(1) wf, rotated]) simp
qed

text \<open>The row \<open>put_db\<close> adds and the header it leaves.\<close>

abbreviation new_row :: "COL_TYPE list \<Rightarrow> int \<Rightarrow> byte list \<Rightarrow> byte list list" where
  "new_row cs st pData \<equiv> le_bytes 8 (word_of_int st :: 64 word) # split_cols cs pData"

abbreviation next_head :: "int \<Rightarrow> LOG_HEAD \<Rightarrow> LOG_HEAD" where
  "next_head st h \<equiv> h\<lparr>lh_startTimestamp := (if lh_curRowCount h = 0 then st else lh_startTimestamp h),
     lh_endTimestamp := st, lh_curRowCount := (lh_curRowCount h + 1) mod 2 ^ 16\<rparr>"

lemma put_log:
  assumes ok: "edb_ok en (COL_TYPE_TIMESTAMP # cs) db fs" and room: "lh_curRowCount (db_pLogHead db) < lh_cacheSize (db_pLogHead db)"
    and st: "time_ok (db_pLogHead db) st" and k: "file_of (db_pLogHead db) st = Inr k"
    and same: "0 < lh_curRowCount (db_pLogHead db) \<Longrightarrow> file_of (db_pLogHead db) (lh_startTimestamp (db_pLogHead db)) = Inr k"
    and pData: "width cs \<le> length pData"
  obtains mem where "put_row (db_pLogHead db) st pData (db_pLogData db) = Inr mem"
    and "edb_ok en (COL_TYPE_TIMESTAMP # cs) (db\<lparr>db_pLogHead := next_head st (db_pLogHead db), db_pLogData := mem\<rparr>) fs"
    and "stored (COL_TYPE_TIMESTAMP # cs) (db\<lparr>db_pLogHead := next_head st (db_pLogHead db), db_pLogData := mem\<rparr>) fs =
      (stored (COL_TYPE_TIMESTAMP # cs) db fs)(k := stored (COL_TYPE_TIMESTAMP # cs) db fs k @ [new_row cs st pData])"
    and "log_rows (next_head st (db_pLogHead db)) mem = log_rows (db_pLogHead db) (db_pLogData db) @ [new_row cs st pData]"
proof -
  let ?cs = "COL_TYPE_TIMESTAMP # cs" and ?h = "db_pLogHead db" and ?mem = "db_pLogData db"
  let ?n = "lh_curRowCount ?h" and ?lay = "layout (lh_cacheSize ?h) 0 ?cs"
  have hd: "head_ok ?cs ?h" and log: "log_ok ?cs ?h ?mem" and fds: "fds_ok db fs" and files: "\<And>j. file_ok en ?cs fs j"
    using ok by (simp_all add: edb_ok_def)
  have cfg: "lh_storeType ?h = STORE_BY_COL" "lh_colType ?h = ?cs" "lh_colCount ?h = Suc (length cs)"
      "width (lh_colType ?h) * lh_cacheSize ?h \<le> length ?mem"
    using hd log by (simp_all add: head_ok_def log_ok_def)
  obtain mem where mem: "put_row ?h st pData ?mem = Inr mem" "length mem = length ?mem" "row_at mem ?lay ?n = new_row cs st pData"
      "\<And>r. r < lh_cacheSize ?h \<Longrightarrow> r \<noteq> ?n \<Longrightarrow> row_at mem ?lay r = row_at ?mem ?lay r"
    by (rule put_row_ok [OF cfg(1-3) room cfg(4) pData, of st]) (use cfg(2) in auto)
  have count: "(?n + 1) mod 2 ^ 16 = Suc ?n" using room hd by (simp add: head_ok_def)
  have first: "slice mem 0 8 = hd (row_at mem ?lay 0)" "slice ?mem 0 8 = hd (row_at ?mem ?lay 0)" by (simp_all add: row_at_def)
  have "log_ok ?cs (next_head st ?h) mem"
  proof (cases "?n = 0")
    case True
    then show ?thesis using log st mem(2,3) room count first(1) by (simp add: log_ok_def)
  next
    case False
    then show ?thesis using log mem(2) mem(4) [of 0] room count first by (simp add: log_ok_def)
  qed
  then have wf: "edb_ok en ?cs (db\<lparr>db_pLogHead := next_head st ?h, db_pLogData := mem\<rparr>) fs"
    using hd fds files by (simp add: edb_ok_def fds_ok_def)
  have old: "map (row_at mem ?lay) [0..<?n] = map (row_at ?mem ?lay) [0..<?n]" using mem(4) room by simp
  have rows: "log_rows (next_head st ?h) mem = log_rows ?h ?mem @ [new_row cs st pData]"
    using old mem(3) cfg(2) count by (simp add: log_rows_def del: layout.simps map_eq_conv)
  have "stored ?cs (db\<lparr>db_pLogHead := next_head st ?h, db_pLogData := mem\<rparr>) fs =
      (stored ?cs db fs)(k := stored ?cs db fs k @ [new_row cs st pData])"
  proof (cases "?n = 0")
    case True
    then have "log_rows ?h ?mem = []" by (simp add: log_rows_def)
    then show ?thesis using True rows count k by (auto simp: stored_def Let_def fun_eq_iff)
  next
    case False
    then show ?thesis using rows count same by (auto simp: stored_def Let_def fun_eq_iff)
  qed
  then show ?thesis using that [OF mem(1) wf _ rows] by blast
qed

lemma put_log_at:
  assumes "edb_ok en (COL_TYPE_TIMESTAMP # cs) db fs" and "lh_curRowCount (db_pLogHead db) < lh_cacheSize (db_pLogHead db)"
    and "time_ok (db_pLogHead db) st" and "file_of (db_pLogHead db) st = Inr k"
    and "0 < lh_curRowCount (db_pLogHead db) \<Longrightarrow> file_of (db_pLogHead db) (lh_startTimestamp (db_pLogHead db)) = Inr k"
    and "width cs \<le> length pData" and mem: "put_row (db_pLogHead db) st pData (db_pLogData db) = Inr mem"
  shows "edb_ok en (COL_TYPE_TIMESTAMP # cs) (db\<lparr>db_pLogHead := next_head st (db_pLogHead db), db_pLogData := mem\<rparr>) fs"
    and "stored (COL_TYPE_TIMESTAMP # cs) (db\<lparr>db_pLogHead := next_head st (db_pLogHead db), db_pLogData := mem\<rparr>) fs =
      (stored (COL_TYPE_TIMESTAMP # cs) db fs)(k := stored (COL_TYPE_TIMESTAMP # cs) db fs k @ [new_row cs st pData])"
    and "log_rows (next_head st (db_pLogHead db)) mem = log_rows (db_pLogHead db) (db_pLogData db) @ [new_row cs st pData]"
proof -
  obtain mem' where "put_row (db_pLogHead db) st pData (db_pLogData db) = Inr mem'"
      and ok: "edb_ok en (COL_TYPE_TIMESTAMP # cs) (db\<lparr>db_pLogHead := next_head st (db_pLogHead db), db_pLogData := mem'\<rparr>) fs"
      and stored: "stored (COL_TYPE_TIMESTAMP # cs) (db\<lparr>db_pLogHead := next_head st (db_pLogHead db), db_pLogData := mem'\<rparr>) fs =
        (stored (COL_TYPE_TIMESTAMP # cs) db fs)(k := stored (COL_TYPE_TIMESTAMP # cs) db fs k @ [new_row cs st pData])"
      and rows: "log_rows (next_head st (db_pLogHead db)) mem' = log_rows (db_pLogHead db) (db_pLogData db) @ [new_row cs st pData]"
    by (rule put_log [OF assms(1-6)])
  then have "mem' = mem" using mem by simp
  then show "edb_ok en (COL_TYPE_TIMESTAMP # cs) (db\<lparr>db_pLogHead := next_head st (db_pLogHead db), db_pLogData := mem\<rparr>) fs"
    and "stored (COL_TYPE_TIMESTAMP # cs) (db\<lparr>db_pLogHead := next_head st (db_pLogHead db), db_pLogData := mem\<rparr>) fs =
      (stored (COL_TYPE_TIMESTAMP # cs) db fs)(k := stored (COL_TYPE_TIMESTAMP # cs) db fs k @ [new_row cs st pData])"
    and "log_rows (next_head st (db_pLogHead db)) mem = log_rows (db_pLogHead db) (db_pLogData db) @ [new_row cs st pData]"
    using ok stored rows by simp_all
qed

text \<open>
  \<open>put_db\<close> step by step: either the log is saved first, because its rows belong to other files, and the row is
  added to the empty log, which it does not fill; or the row is added, and a full log is saved.
\<close>

lemma put_db_steps:
  assumes ok: "edb_ok en (COL_TYPE_TIMESTAMP # cs) db fs" and room: "lh_curRowCount (db_pLogHead db) < lh_cacheSize (db_pLogHead db)"
    and env: "same_crc en en" "en_malloc en" "short_files fs"
    and st: "time_ok (db_pLogHead db) st" and k: "file_of (db_pLogHead db) st = Inr k" and pData: "width cs \<le> length pData"
  obtains (saved) db1 fs1 mem where "0 < lh_curRowCount (db_pLogHead db)" and "saveToFile en db fs = Inr (db1, fs1)"
      and "edb_ok en (COL_TYPE_TIMESTAMP # cs) db1 fs1" and "db_pLogHead db1 = empty_log (db_pLogHead db)"
      and "put_row (db_pLogHead db1) st pData (db_pLogData db1) = Inr mem"
      and "put_db en st pData (Some db) fs = Inr (0, Some (db1\<lparr>db_pLogHead := next_head st (db_pLogHead db1), db_pLogData := mem\<rparr>), fs1)"
      and "1 < lh_cacheSize (db_pLogHead db)"
    | (kept) mem where "0 < lh_curRowCount (db_pLogHead db) \<Longrightarrow> file_of (db_pLogHead db) (lh_startTimestamp (db_pLogHead db)) = Inr k"
      and "put_row (db_pLogHead db) st pData (db_pLogData db) = Inr mem"
      and "put_db en st pData (Some db) fs =
        rbind (if lh_cacheSize (db_pLogHead db) \<le> Suc (lh_curRowCount (db_pLogHead db))
               then saveToFile en (db\<lparr>db_pLogHead := next_head st (db_pLogHead db), db_pLogData := mem\<rparr>) fs
               else Inr (db\<lparr>db_pLogHead := next_head st (db_pLogHead db), db_pLogData := mem\<rparr>, fs))
          (\<lambda>(db3, fs3). Inr (0, Some db3, fs3))"
proof -
  let ?cs = "COL_TYPE_TIMESTAMP # cs" and ?h = "db_pLogHead db"
  let ?n = "lh_curRowCount ?h"
  have hd: "head_ok ?cs ?h" using ok by (simp add: edb_ok_def)
  obtain k0 where k0: "file_of ?h (lh_startTimestamp ?h) = Inr k0" using head_ok_file [OF hd] by blast
  show ?thesis
  proof (cases "0 < ?n \<and> k0 \<noteq> k")
    case True
    then obtain db1 fs1 where s: "saveToFile en db fs = Inr (db1, fs1)" "edb_ok en ?cs db1 fs1" "db_pLogHead db1 = empty_log ?h"
      using save_ok [OF ok env(1,2) _ env(3)] by blast
    obtain mem where mem: "put_row (db_pLogHead db1) st pData (db_pLogData db1) = Inr mem"
      using put_log [OF s(2) _ _ _ _ pData, of st k] s(3) st k room by auto
    have "put_row (empty_log ?h) st pData (db_pLogData db1) = Inr mem" using mem s(3) by simp
    moreover have "save_before en st db fs = Inr (db1, fs1)" using True room k k0 s(1) by (simp add: save_before_def Let_def)
    ultimately show ?thesis using True s(3) room by (intro saved [OF _ s mem]) (simp_all add: put_db_def Let_def)
  next
    case False
    then have same: "0 < ?n \<Longrightarrow> file_of ?h (lh_startTimestamp ?h) = Inr k" using k0 by simp
    obtain mem where mem: "put_row ?h st pData (db_pLogData db) = Inr mem" by (rule put_log [OF ok room st k same pData])
    have "save_before en st db fs = Inr (db, fs)" using False room k k0 by (auto simp: save_before_def Let_def)
    moreover have "(?n + 1) mod 2 ^ 16 = Suc ?n" using room hd by (simp add: head_ok_def)
    ultimately show ?thesis by (intro kept [OF same mem]) (simp_all add: put_db_def Let_def mem)
  qed
qed

text \<open>C26.
  \<open>put_db\<close> refines the appending of a row to the sequence of its file number: whether it saves the log
  before, because the row belongs to other files, or after, because the cache is full, a well-formed store stays
  well-formed with room for a row, and the rows of every file number, those saved and those in the log together,
  are as before, with the new row at the end of its own. The store holds columns without compression
  (\<open>edb_ok\<close>) and the row does not belong to file number 0 (\<open>time_ok\<close>). Assumed are that memory is available, that no record
  file has reached 2^31 bytes, and a checksum routine that does not look at the address of the buffer.\<close>

theorem put_db_refines:
  assumes ok: "edb_ok en (COL_TYPE_TIMESTAMP # cs) db fs" and room: "lh_curRowCount (db_pLogHead db) < lh_cacheSize (db_pLogHead db)"
    and env: "same_crc en en" "en_malloc en" "short_files fs"
    and st: "time_ok (db_pLogHead db) st" and k: "file_of (db_pLogHead db) st = Inr k" and pData: "width cs \<le> length pData"
  shows "\<exists>db' fs'. put_db en st pData (Some db) fs = Inr (0, Some db', fs') \<and>
    edb_ok en (COL_TYPE_TIMESTAMP # cs) db' fs' \<and> lh_curRowCount (db_pLogHead db') < lh_cacheSize (db_pLogHead db') \<and>
    stored (COL_TYPE_TIMESTAMP # cs) db' fs' =
      (stored (COL_TYPE_TIMESTAMP # cs) db fs)(k := stored (COL_TYPE_TIMESTAMP # cs) db fs k @ [new_row cs st pData])"
proof (rule put_db_steps [OF assms])
  let ?cs = "COL_TYPE_TIMESTAMP # cs" and ?h = "db_pLogHead db"
  fix db1 fs1 mem
  assume n: "0 < lh_curRowCount ?h" "1 < lh_cacheSize ?h" and s: "saveToFile en db fs = Inr (db1, fs1)" and h: "db_pLogHead db1 = empty_log ?h"
    and mem: "put_row (db_pLogHead db1) st pData (db_pLogData db1) = Inr mem"
    and put: "put_db en st pData (Some db) fs = Inr (0, Some (db1\<lparr>db_pLogHead := next_head st (db_pLogHead db1), db_pLogData := mem\<rparr>), fs1)"
  have ok1: "edb_ok en ?cs db1 fs1" and st1: "stored ?cs db1 fs1 = stored ?cs db fs"
    using save_ok [OF ok env(1,2) n(1) env(3)] s by auto
  have h1: "lh_curRowCount (db_pLogHead db1) < lh_cacheSize (db_pLogHead db1)" "time_ok (db_pLogHead db1) st" "file_of (db_pLogHead db1) st = Inr k"
      "\<not> 0 < lh_curRowCount (db_pLogHead db1)"
    using h st k n(2) by simp_all
  note put_log_at [OF ok1 h1(1-3) _ pData mem]
  with h1(4) show ?thesis using put h n(2) st1 by simp
next
  let ?cs = "COL_TYPE_TIMESTAMP # cs" and ?h = "db_pLogHead db"
  fix mem
  let ?db = "db\<lparr>db_pLogHead := next_head st ?h, db_pLogData := mem\<rparr>"
  assume same: "0 < lh_curRowCount ?h \<Longrightarrow> file_of ?h (lh_startTimestamp ?h) = Inr k"
    and mem: "put_row ?h st pData (db_pLogData db) = Inr mem"
    and put: "put_db en st pData (Some db) fs =
      rbind (if lh_cacheSize ?h \<le> Suc (lh_curRowCount ?h) then saveToFile en ?db fs else Inr (?db, fs)) (\<lambda>(db3, fs3). Inr (0, Some db3, fs3))"
  note p = put_log_at [OF ok room st k same pData mem]
  have count: "(lh_curRowCount ?h + 1) mod 2 ^ 16 = Suc (lh_curRowCount ?h)" using room ok by (simp add: edb_ok_def head_ok_def)
  show ?thesis
  proof (cases "lh_cacheSize ?h \<le> Suc (lh_curRowCount ?h)")
    case True
    obtain db3 fs3 where "saveToFile en ?db fs = Inr (db3, fs3)" "edb_ok en ?cs db3 fs3" "db_pLogHead db3 = empty_log (next_head st ?h)"
        "stored ?cs db3 fs3 = stored ?cs ?db fs"
      using save_ok [OF p(1) env(1,2) _ env(3)] count by auto
    moreover from this have "put_db en st pData (Some db) fs = Inr (0, Some db3, fs3)" using put True by simp
    moreover have "0 < lh_cacheSize ?h" using room by simp
    ultimately show ?thesis using p(2) by simp
  next
    case False
    then have "put_db en st pData (Some db) fs = Inr (0, Some ?db, fs)" using put by simp
    then show ?thesis using p count False by simp
  qed
qed

text \<open>What the store wrote reads back: \<open>readFromFile\<close> finds every block of every file of a well-formed store
  complete and its checksums right, at whatever addresses the buffers lie, although the arguments of its
  \<open>lseek\<close> are exchanged.\<close>

lemma readFromFile_accepts:
  assumes "edb_ok en cs db fs" and "same_crc en en'" and "fs_record fs k \<noteq> None"
  shows "readFromFile en' fs k = 0"
proof -
  have "file_ok en cs fs k" and "cs \<noteq> []" using assms(1) by (auto simp: edb_ok_def head_ok_def)
  then obtain ixs r where "fs_index fs k = Some ixs" "fs_record fs k = Some r" "tiles en cs r 0 ixs"
    using assms(3) by (auto simp: file_ok_def split: option.splits)
  then show ?thesis using tiles_read [OF assms(2) \<open>cs \<noteq> []\<close>, of r 0 ixs] by (simp add: readFromFile_def)
qed

text \<open>The sizes \<open>create_db\<close> computes.\<close>

lemma row_size_eq:
  assumes "length colType \<le> 31"
  shows "row_size colType = 8 + width colType"
proof -
  have step: "foldl (\<lambda>rowSize c. (rowSize + gColTypeSize c) mod 2 ^ 16) n cs = n + width cs" if "n + 32 * length cs < 2 ^ 16" for n cs
    using that
  proof (induction cs arbitrary: n)
    case (Cons c cs)
    have "gColTypeSize c \<le> 32" by (cases c) simp_all
    then show ?case using Cons.prems Cons.IH [of "n + gColTypeSize c"] by simp
  qed simp
  show ?thesis using assms step [of 8 colType] by (simp add: row_size_def)
qed

lemma max_col_size_ge:
  "8 \<le> max_col_size colType \<and> (\<forall>c \<in> set colType. gColTypeSize c \<le> max_col_size colType)"
proof -
  have small: "gColTypeSize c mod 2 ^ 8 = gColTypeSize c" for c by (cases c) simp_all
  have "n \<le> foldl (\<lambda>m c. if m < gColTypeSize c then gColTypeSize c mod 2 ^ 8 else m) n cs \<and>
      (\<forall>c \<in> set cs. gColTypeSize c \<le> foldl (\<lambda>m c. if m < gColTypeSize c then gColTypeSize c mod 2 ^ 8 else m) n cs)" for n cs
  proof (induction cs arbitrary: n)
    case (Cons c cs)
    show ?case using Cons.IH [of "if n < gColTypeSize c then gColTypeSize c else n"]
      by (auto simp: small [simplified] split: if_splits)
  qed simp
  then show ?thesis by (simp add: max_col_size_def)
qed

text \<open>The header of a new store.\<close>

lemma created_head:
  assumes "create_db rootLen nameLen colType cacheSize STORE_BY_COL COMPRESS_NONE hoursPerFile e o1 o2 = (0, Some (h, st_size))"
  shows "length colType \<le> 31"
    and "h = \<lparr>lh_storeType = STORE_BY_COL, lh_compressType = COMPRESS_NONE, lh_hoursPerFile = hoursPerFile,
      lh_maxColSize = max_col_size colType, lh_curRowCount = 0, lh_cacheSize = cacheSize, lh_rowSize = 8 + width colType,
      lh_dataPos = sizeof_LOG_HEAD + length colType * 4, lh_startTimestamp = 0, lh_endTimestamp = 0,
      lh_colCount = length colType + 1, lh_colType = COL_TYPE_TIMESTAMP # colType\<rparr>"
proof -
  show len: "length colType \<le> 31" using assms by (auto simp: create_db_def Let_def MAX_COL_COUNT_def split: if_splits)
  show "h = \<lparr>lh_storeType = STORE_BY_COL, lh_compressType = COMPRESS_NONE, lh_hoursPerFile = hoursPerFile,
      lh_maxColSize = max_col_size colType, lh_curRowCount = 0, lh_cacheSize = cacheSize, lh_rowSize = 8 + width colType,
      lh_dataPos = sizeof_LOG_HEAD + length colType * 4, lh_startTimestamp = 0, lh_endTimestamp = 0,
      lh_colCount = length colType + 1, lh_colType = COL_TYPE_TIMESTAMP # colType\<rparr>"
    using assms by (auto simp: create_db_def Let_def MAX_COL_COUNT_def row_size_eq [OF len] split: if_splits)
qed

lemma created_edb_ok:
  assumes "create_db rootLen nameLen colType cacheSize STORE_BY_COL COMPRESS_NONE hoursPerFile e o1 o2 = (0, Some (h, st_size))"
    and "0 < cacheSize" and "cacheSize < 2 ^ 16" and "0 < hoursPerFile"
    and "lh_dataPos h + lh_rowSize h * cacheSize \<le> mapped st_size"
  shows "edb_ok en (COL_TYPE_TIMESTAMP # colType) (open_db h st_size content) \<lparr>fs_index = (\<lambda>k. None), fs_record = (\<lambda>k. None)\<rparr>"
proof -
  note h = created_head(2) [OF assms(1)]
  have "head_ok (COL_TYPE_TIMESTAMP # colType) h" using max_col_size_ge [of colType] assms(2-4) by (simp add: h head_ok_def)
  moreover have "width (COL_TYPE_TIMESTAMP # colType) * cacheSize \<le> mapped st_size - lh_dataPos h" using assms(5) by (simp add: h)
  then have "log_ok (COL_TYPE_TIMESTAMP # colType) h (map content [lh_dataPos h..<mapped st_size])" by (simp add: log_ok_def) (simp add: h)
  ultimately show ?thesis by (simp add: edb_ok_def open_db_def fds_ok_def file_ok_def)
qed

text \<open>C31.
  A store that \<open>create_db\<close> created with \<open>STORE_BY_COL\<close>, \<open>COMPRESS_NONE\<close>, a cache of at least one row and at least one hour per file
  and \<open>open_db\<close> opened, its directory empty, is well-formed and holds no row, if the pages of the mapping cover the
  header with its column types and the cache.\<close>

theorem created_store_ok:
  assumes "create_db rootLen nameLen colType cacheSize STORE_BY_COL COMPRESS_NONE hoursPerFile e o1 o2 = (0, Some (h, st_size))"
    and "0 < cacheSize" and "cacheSize < 2 ^ 16" and "0 < hoursPerFile"
    and "lh_dataPos h + lh_rowSize h * cacheSize \<le> mapped st_size"
  shows "edb_ok en (COL_TYPE_TIMESTAMP # colType) (open_db h st_size content) \<lparr>fs_index = (\<lambda>k. None), fs_record = (\<lambda>k. None)\<rparr> \<and>
    stored (COL_TYPE_TIMESTAMP # colType) (open_db h st_size content) \<lparr>fs_index = (\<lambda>k. None), fs_record = (\<lambda>k. None)\<rparr> = (\<lambda>k. [])"
  using created_edb_ok [OF assms] created_head(2) [OF assms(1)]
  by (simp add: stored_def file_rows_def open_db_def fun_eq_iff Let_def)

section \<open>A concrete store\<close>

lemma same_crc_sf: "en_crc32c en = crc32c_sf a \<Longrightarrow> en_crc32c en' = crc32c_sf b \<Longrightarrow> same_crc en en'"
  by (simp add: same_crc_def crc32c_sf_eq)

definition sample_env :: edb_env where
  "sample_env = \<lparr>en_crc32c = crc32c_sf True, en_addr = 3, en_heap = (\<lambda>i. 0xa5), en_malloc = True, en_ulong = 64,
     en_lzc = (\<lambda>bs n. []), en_zip = (\<lambda>h mem. Inl Out_Of_Bounds)\<rparr>"

definition empty_fs :: edb_fs where
  "empty_fs = \<lparr>fs_index = (\<lambda>k. None), fs_record = (\<lambda>k. None)\<rparr>"

definition sample_head :: LOG_HEAD where
  "sample_head = \<lparr>lh_storeType = STORE_BY_COL, lh_compressType = COMPRESS_NONE, lh_hoursPerFile = 24, lh_maxColSize = 8,
     lh_curRowCount = 0, lh_cacheSize = 1, lh_rowSize = 10, lh_dataPos = 84, lh_startTimestamp = 0, lh_endTimestamp = 0,
     lh_colCount = 2, lh_colType = [COL_TYPE_TIMESTAMP, COL_TYPE_SMALL_INT]\<rparr>"

lemma sample_created: "create_db 4 2 [COL_TYPE_SMALL_INT] 1 STORE_BY_COL COMPRESS_NONE 24 False True True = (0, Some (sample_head, 90))"
  by (simp add: create_db_def Let_def MAX_COL_COUNT_def sizeof_LOG_HEAD_def row_size_def max_col_size_def sample_head_def)

text \<open>The created store, with the sizes of its mapping.\<close>

theorem created_store_ok_witness:
  "edb_ok sample_env [COL_TYPE_TIMESTAMP, COL_TYPE_SMALL_INT] (open_db sample_head 90 (\<lambda>i. 0)) \<lparr>fs_index = (\<lambda>k. None), fs_record = (\<lambda>k. None)\<rparr>"
  using created_store_ok [OF sample_created, of sample_env "\<lambda>i. 0"]
  by (simp add: sample_head_def mapped_def page_size_def)

lemma sample_ok: "edb_ok sample_env [COL_TYPE_TIMESTAMP, COL_TYPE_SMALL_INT] (open_db sample_head 90 (\<lambda>i. 0)) empty_fs"
  by (auto simp: edb_ok_def head_ok_def log_ok_def fds_ok_def file_ok_def open_db_def sample_head_def mapped_def page_size_def empty_fs_def)

theorem put_db_refines_witness:
  "\<exists>db' fs'. put_db sample_env 1600000000000 [1, 2] (Some (open_db sample_head 90 (\<lambda>i. 0))) empty_fs = Inr (0, Some db', fs') \<and>
    stored [COL_TYPE_TIMESTAMP, COL_TYPE_SMALL_INT] db' fs' 18518 = [new_row [COL_TYPE_SMALL_INT] 1600000000000 [1, 2]]"
proof -
  have "same_crc sample_env sample_env" by (rule same_crc_sf) (simp_all add: sample_env_def)
  moreover have "file_of sample_head 1600000000000 = Inr 18518" by (simp add: file_of_def sample_head_def gMillisecondOfHour_def)
  moreover have "stored [COL_TYPE_TIMESTAMP, COL_TYPE_SMALL_INT] (open_db sample_head 90 (\<lambda>i. 0)) empty_fs = (\<lambda>k. [])"
    by (simp add: stored_def file_rows_def empty_fs_def open_db_def sample_head_def Let_def fun_eq_iff)
  ultimately show ?thesis
    using put_db_refines [OF sample_ok, of 1600000000000 18518 "[1, 2]"]
    by (simp add: sample_env_def empty_fs_def short_files_def time_ok_def open_db_def sample_head_def) fastforce
qed

definition sample_row :: DB where
  "sample_row = (open_db sample_head 90 (\<lambda>i. 0))
     \<lparr>db_pLogHead := sample_head\<lparr>lh_curRowCount := 1, lh_startTimestamp := 86400000\<rparr>,
      db_pLogData := le_bytes 8 (86400000 :: 64 word) @ [7, 0]\<rparr>"

lemma sample_row_ok: "edb_ok sample_env [COL_TYPE_TIMESTAMP, COL_TYPE_SMALL_INT] sample_row empty_fs"
  by (auto simp: edb_ok_def head_ok_def log_ok_def fds_ok_def file_ok_def open_db_def sample_head_def sample_row_def empty_fs_def
    time_ok_def slice_def file_of_def gMillisecondOfHour_def)

section \<open>What the code gets wrong\<close>

text \<open>
  The size of the log file leaves out the column types that follow the header: with 251 rows of 16 bytes
  the mapping ends before the last value, and storing it runs out of the mapping.
\<close>

lemma mapping_too_small:
  "\<exists>h. create_db 4 2 [COL_TYPE_BIG_INT] 251 STORE_BY_COL COMPRESS_NONE 24 False True True = (0, Some (h, 4096)) \<and>
    put_row (h\<lparr>lh_curRowCount := 250\<rparr>) st [1, 2, 3, 4, 5, 6, 7, 8] (db_pLogData (open_db h 4096 content)) = Inl Out_Of_Bounds"
proof -
  let ?h = "\<lparr>lh_storeType = STORE_BY_COL, lh_compressType = COMPRESS_NONE, lh_hoursPerFile = 24, lh_maxColSize = 8,
     lh_curRowCount = 0, lh_cacheSize = 251, lh_rowSize = 16, lh_dataPos = 84, lh_startTimestamp = 0, lh_endTimestamp = 0,
     lh_colCount = 2, lh_colType = [COL_TYPE_TIMESTAMP, COL_TYPE_BIG_INT]\<rparr>"
  have "create_db 4 2 [COL_TYPE_BIG_INT] 251 STORE_BY_COL COMPRESS_NONE 24 False True True = (0, Some (?h, 4096))"
    by (simp add: create_db_def Let_def MAX_COL_COUNT_def sizeof_LOG_HEAD_def row_size_def max_col_size_def)
  moreover have "length (db_pLogData (open_db ?h 4096 content)) = 4012"
    unfolding open_db_def by (simp add: mapped_def page_size_def del: upt_rec_numeral)
  then have "put_row (?h\<lparr>lh_curRowCount := 250\<rparr>) st [1, 2, 3, 4, 5, 6, 7, 8] (db_pLogData (open_db ?h 4096 content)) = Inl Out_Of_Bounds"
    by (simp add: put_row_def mem_put_def copy_bytes_def log_cols_def del: upt_rec_numeral)
  ultimately show ?thesis by blast
qed

text \<open>The codec of two stages returns no bytes, so the rows of the log are never saved.\<close>

lemma two_step_never_saves:
  assumes "lh_compressType (db_pLogHead db) = COMPRESS_TAOS_TWO_STEP" and "saveToFile en db fs = Inr (db', fs')"
  shows "db_pLogHead db' = db_pLogHead db"
  using assms by (auto simp: saveToFile_def Let_def compressTaosTwoStep_def rbind_def split: sum.splits if_splits)

text \<open>
  A fresh handle has file number 0 and no open file. Rows of that number, the first hours of 1970, are
  taken from the log without reaching a file: the number matches, so nothing is opened.
\<close>

lemma file_zero_loses_rows:
  assumes "copy_bytes (db_pLogData db) 0 8 = Inr ts" and "file_of (db_pLogHead db) (sint (of_le_bytes ts :: 64 word)) = Inr 0"
    and "db_curFileIndex db = 0" and "db_recordFd db = None" and "db_indexFd db = None"
    and "gCompress en (lh_compressType (db_pLogHead db)) (db_pLogHead db) (db_pLogData db) = Inr (len, colLens, bytes)" and "0 < len"
  shows "saveToFile en db fs = Inr (db\<lparr>db_pLogHead := empty_log (db_pLogHead db)\<rparr>, fs)"
  using assms by (simp add: saveToFile_def Let_def append_record_def append_index_def)

end
