(* ===== verification/EdbQuery.thy ===== *)
theory EdbQuery
  imports EdbStore
begin

text \<open>
  Queries on the embedded store, src/src/edb/src/query.c with the decompression routines of compress.c:
  \<open>open_query\<close>, the search of the next block or file, the cursor \<open>move_next\<close> and \<open>fetch_col\<close>. A query
  reads the files and the log of a store and changes nothing but its own state and \<open>curFileIndex\<close> of the
  handle. Memory allocation after \<open>open_query\<close> succeeds; a file that exists can be opened; the parser of
  time strings, the clock and the zlib routine are parameters.
\<close>

section \<open>Data\<close>

datatype BLOCK_TYPE =
    BLOCK_NONE
  | BLOCK_LEFT
  | BLOCK_RIGHT
  | BLOCK_EQUAL
  | BLOCK_LEFT_CROSS
  | BLOCK_CONTAINED
  | BLOCK_CONTAINING
  | BLOCK_RIGHT_CROSS

datatype ORDER_TYPE = ORDER_ASC | ORDER_DESC

fun order_step :: "ORDER_TYPE \<Rightarrow> int" where
  "order_step ORDER_ASC = 1"
| "order_step ORDER_DESC = - 1"

text \<open>\<open>type < BLOCK_EQUAL\<close>\<close>

fun before_equal :: "BLOCK_TYPE \<Rightarrow> bool" where
  "before_equal BLOCK_NONE = True"
| "before_equal BLOCK_LEFT = True"
| "before_equal BLOCK_RIGHT = True"
| "before_equal _ = False"

text \<open>
  A descriptor is 0 in a fresh query, open on a file pair with a position, or the number of a file that
  has been closed. The position in an index file counts entries: the code seeks and reads whole entries.
\<close>

datatype query_fd = No_File | Closed_File | Open_File int nat

record QUERY =
  qr_startTimestamp :: int
  qr_endTimestamp :: int
  qr_order :: ORDER_TYPE
  qr_colBitmap :: "64 word"
  qr_logChecked :: bool
  qr_startFileIndex :: int
  qr_endFileIndex :: int
  qr_curFileIndex :: int
  qr_startBlockIndex :: int
  qr_endBlockIndex :: int
  qr_curBlockIndex :: int
  qr_rowCount :: int
  qr_startDataIndex :: int
  qr_endDataIndex :: int
  qr_curDataIndex :: int
  qr_recordFd :: query_fd
  qr_indexFd :: query_fd
  qr_buf :: "byte list"

text \<open>What decompression depends on: the checksum, the LZ4 routine, the zlib codecs.\<close>

record edb_dec =
  ed_env :: edb_env
  ed_lzd :: lz4_decompress
  ed_unzip :: "LOG_HEAD \<Rightarrow> byte list \<Rightarrow> INDEX \<Rightarrow> nat \<Rightarrow> nat \<Rightarrow> (int \<times> byte list) res"

section \<open>Decompression\<close>

text \<open>
  A routine yields its result code and the bytes it leaves at \<open>pOutput\<close>. \<open>pInput\<close> is what was read of
  the column; an entry whose row count is negative makes \<open>memcpy\<close> and the codecs leave it.
\<close>

definition decompressNone :: "LOG_HEAD \<Rightarrow> byte list \<Rightarrow> INDEX \<Rightarrow> nat \<Rightarrow> (int \<times> byte list) res" where
  "decompressNone h pInput ix col =
     rbind (arr_get (lh_colType h) (int col)) (\<lambda>c.
       if ix_rowCount ix < 0 then Inl Out_Of_Bounds
       else rbind (copy_bytes pInput 0 (gColTypeSize c * nat (ix_rowCount ix))) (\<lambda>out. Inr (0, out)))"

fun gTaosDecompFunc :: "lz4_decompress \<Rightarrow> COL_TYPE \<Rightarrow> decomp_fun" where
  "gTaosDecompFunc lzd COL_TYPE_BOOL = tsDecompressBool lzd"
| "gTaosDecompFunc lzd COL_TYPE_TING_INT = tsDecompressTinyint lzd"
| "gTaosDecompFunc lzd COL_TYPE_SMALL_INT = tsDecompressSmallint lzd"
| "gTaosDecompFunc lzd COL_TYPE_INT = tsDecompressInt lzd"
| "gTaosDecompFunc lzd COL_TYPE_BIG_INT = tsDecompressBigint lzd"
| "gTaosDecompFunc lzd COL_TYPE_FLOAT = tsDecompressFloat lzd"
| "gTaosDecompFunc lzd COL_TYPE_DOUBLE = tsDecompressDouble lzd"
| "gTaosDecompFunc lzd COL_TYPE_STRING = tsDecompressString lzd"
| "gTaosDecompFunc lzd COL_TYPE_TIMESTAMP = tsDecompressTimestamp lzd"
| "gTaosDecompFunc lzd COL_TYPE_MAX_TYPES = tsDecompressString lzd"

definition decompressTaosOneStep ::
    "lz4_decompress \<Rightarrow> LOG_HEAD \<Rightarrow> byte list \<Rightarrow> INDEX \<Rightarrow> nat \<Rightarrow> nat \<Rightarrow> (int \<times> byte list) res"
where
  "decompressTaosOneStep lzd h pInput ix col outSize =
     rbind (arr_get (lh_colType h) (int col)) (\<lambda>c.
     rbind (arr_get (ix_colLens ix) (int col)) (\<lambda>l.
       if ix_rowCount ix < 0 then Inl Out_Of_Bounds
       else
         rbind (gTaosDecompFunc lzd c pInput (nat (l - 4)) (nat (ix_rowCount ix)) (int outSize) ONE_STAGE_COMP 0) (\<lambda>out.
           Inr (if int (length out) \<noteq> int (gColTypeSize c) * ix_rowCount ix then - 3 else 0, out))))"

definition decompressTaosTwoStep :: "(int \<times> byte list) res" where
  "decompressTaosTwoStep = Inr (0, [])"

fun gDecompress ::
    "edb_dec \<Rightarrow> COMPRESS_TYPE \<Rightarrow> LOG_HEAD \<Rightarrow> byte list \<Rightarrow> INDEX \<Rightarrow> nat \<Rightarrow> nat \<Rightarrow> (int \<times> byte list) res"
where
  "gDecompress de COMPRESS_NONE h pInput ix col outSize = decompressNone h pInput ix col"
| "gDecompress de COMPRESS_ZLIB h pInput ix col outSize = ed_unzip de h pInput ix col outSize"
| "gDecompress de COMPRESS_TAOS_ONE_STEP h pInput ix col outSize = decompressTaosOneStep (ed_lzd de) h pInput ix col outSize"
| "gDecompress de COMPRESS_TAOS_TWO_STEP h pInput ix col outSize = decompressTaosTwoStep"
| "gDecompress de COMPRESS_ZSTD h pInput ix col outSize = ed_unzip de h pInput ix col outSize"

section \<open>Selecting the rows of a block\<close>

definition get_block_type :: "int \<Rightarrow> int \<Rightarrow> int \<Rightarrow> int \<Rightarrow> BLOCK_TYPE" where
  "get_block_type dataStart dataEnd targetStart targetEnd =
     (if dataStart > dataEnd \<or> targetStart > targetEnd then BLOCK_NONE
      else if dataStart = targetStart \<or> dataEnd = targetEnd then BLOCK_NONE
      else if dataEnd < targetStart then BLOCK_LEFT
      else if dataStart > targetEnd then BLOCK_RIGHT
      else if dataEnd \<le> targetEnd then (if dataStart < targetStart then BLOCK_LEFT_CROSS else BLOCK_CONTAINED)
      else (if dataStart \<le> targetStart then BLOCK_CONTAINING else BLOCK_RIGHT_CROSS))"

text \<open>\<open>data[i]\<close> of the buffer taken as an array of 64-bit integers.\<close>

definition ts_at :: "byte list \<Rightarrow> int \<Rightarrow> int res" where
  "ts_at buf i =
     (if i < 0 then Inl Out_Of_Bounds
      else rbind (copy_bytes buf (8 * nat i) 8) (\<lambda>b. Inr (sint (of_le_bytes b :: 64 word))))"

text \<open>The variables \<open>start\<close> and \<open>end\<close> (here \<open>stop\<close>) are not initialised; \<open>low\<close> and \<open>high\<close> are never negative when they are added.\<close>

function search_loop :: "byte list \<Rightarrow> int \<Rightarrow> bool \<Rightarrow> int \<Rightarrow> int \<Rightarrow> int option \<Rightarrow> int option \<Rightarrow> int res" where
  "search_loop data key isStart low high start stop =
     (if low \<le> high then
        let center = (low + high) div 2 in
        rbind (ts_at data center) (\<lambda>x.
          if x = key then Inr center
          else if x > key then search_loop data key isStart low (center - 1) (Some center) stop
          else search_loop data key isStart (center + 1) high start (Some center))
      else case (if isStart then start else stop) of None \<Rightarrow> Inl Uninitialised | Some i \<Rightarrow> Inr i)"
  by pat_completeness auto
termination by (relation "measure (\<lambda>(data, key, isStart, low, high, start, stop). nat (high - low + 1))") auto

declare search_loop.simps [simp del]

definition binary_search :: "byte list \<Rightarrow> int \<Rightarrow> int \<Rightarrow> bool \<Rightarrow> int res" where
  "binary_search data key count isStart = search_loop data key isStart 0 (count - 1) None None"

text \<open>\<open>set_data_index\<close> on a valid query, whose result code is 0.\<close>

definition set_indices :: "int \<Rightarrow> int \<Rightarrow> QUERY \<Rightarrow> QUERY" where
  "set_indices start stop q =
     (case qr_order q of
        ORDER_ASC \<Rightarrow> q\<lparr>qr_startDataIndex := start, qr_endDataIndex := stop\<rparr>
      | ORDER_DESC \<Rightarrow> q\<lparr>qr_startDataIndex := stop, qr_endDataIndex := start\<rparr>)"

definition set_data_index :: "BLOCK_TYPE \<Rightarrow> QUERY \<Rightarrow> QUERY res" where
  "set_data_index type q =
     rbind
       (case type of
          BLOCK_EQUAL \<Rightarrow> Inr (set_indices 0 (qr_rowCount q - 1) q)
        | BLOCK_CONTAINED \<Rightarrow> Inr (set_indices 0 (qr_rowCount q - 1) q)
        | BLOCK_LEFT_CROSS \<Rightarrow>
            rbind (binary_search (qr_buf q) (qr_startTimestamp q) (qr_rowCount q) True) (\<lambda>start.
              Inr (set_indices start (qr_rowCount q - 1) q))
        | BLOCK_RIGHT_CROSS \<Rightarrow>
            rbind (binary_search (qr_buf q) (qr_endTimestamp q) (qr_rowCount q) False) (\<lambda>stop.
              Inr (set_indices 0 stop q))
        | BLOCK_CONTAINING \<Rightarrow>
            rbind (binary_search (qr_buf q) (qr_startTimestamp q) (qr_rowCount q) True) (\<lambda>start.
            rbind (binary_search (qr_buf q) (qr_endTimestamp q) (qr_rowCount q) False) (\<lambda>stop.
              Inr (set_indices start stop q)))
        | _ \<Rightarrow> Inr q)
       (\<lambda>q. Inr (q\<lparr>qr_curDataIndex := qr_startDataIndex q\<rparr>))"

section \<open>Opening and checking\<close>

text \<open>
  \<open>open_query\<close> with the parsed times: \<open>endTime\<close> is the current time for NOW. The size of the buffer fits
  an int: rows have at most 1000 bytes and a cache fewer than 65536 rows.
\<close>

definition open_query ::
    "(string \<Rightarrow> int option) \<Rightarrow> int \<Rightarrow> bool \<Rightarrow> (nat \<Rightarrow> byte) \<Rightarrow> DB option \<Rightarrow> string \<Rightarrow> string \<Rightarrow> ORDER_TYPE \<Rightarrow> QUERY option res"
where
  "open_query taosParseTime now malloc_ok content handle strStartTime strEndTime order =
     (case handle of
        None \<Rightarrow> Inr None
      | Some db \<Rightarrow>
          (case taosParseTime strStartTime of
             None \<Rightarrow> Inr None
           | Some startTime \<Rightarrow>
               (case (if strEndTime = ''NOW'' \<or> strEndTime = ''now'' then Some now else taosParseTime strEndTime) of
                  None \<Rightarrow> Inr None
                | Some endTime \<Rightarrow>
                    let h = db_pLogHead db;
                        bufSize = lh_rowSize h * lh_cacheSize h + 100;
                        later = (if endTime > startTime then endTime else startTime);
                        earlier = (if startTime < endTime then startTime else endTime) in
                    if \<not> malloc_ok then Inr None
                    else
                      rbind (file_of h later) (\<lambda>lastFile.
                      rbind (file_of h earlier) (\<lambda>firstFile.
                        Inr (Some
                          \<lparr>qr_startTimestamp = earlier, qr_endTimestamp = later, qr_order = order, qr_colBitmap = - 1,
                           qr_logChecked = False,
                           qr_startFileIndex = (if order = ORDER_ASC then firstFile else lastFile),
                           qr_endFileIndex = (if order = ORDER_ASC then lastFile else firstFile),
                           qr_curFileIndex = - 1,
                           qr_startBlockIndex = 0, qr_endBlockIndex = 0, qr_curBlockIndex = - 1,
                           qr_rowCount = 0, qr_startDataIndex = 0, qr_endDataIndex = 0, qr_curDataIndex = - 1,
                           qr_recordFd = No_File, qr_indexFd = No_File, qr_buf = map content [0..<bufSize]\<rparr>))))))"

text \<open>The entry the query reads: at the current block, or where the file stands when the block is negative and the seek fails.\<close>

definition zero_index :: "LOG_HEAD \<Rightarrow> INDEX" where
  "zero_index h = \<lparr>ix_rowCount = 0, ix_startTimestamp = 0, ix_endTimestamp = 0, ix_dataOffset = 0, ix_dataLength = 0,
     ix_colLens = replicate (lh_colCount h) 0\<rparr>"

definition read_index :: "edb_fs \<Rightarrow> LOG_HEAD \<Rightarrow> QUERY \<Rightarrow> INDEX \<times> query_fd" where
  "read_index fs h q =
     (case qr_indexFd q of
        Open_File k p \<Rightarrow>
          let ixs = (case fs_index fs k of None \<Rightarrow> [] | Some ixs \<Rightarrow> ixs);
              p = (if qr_curBlockIndex q < 0 then p else nat (qr_curBlockIndex q)) in
          if p < length ixs then (ixs ! p, Open_File k (p + 1)) else (zero_index h, Open_File k p)
      | fd \<Rightarrow> (zero_index h, fd))"

text \<open>The bit \<open>1 << i\<close> is an int that is sign-extended.\<close>

definition col_wanted :: "64 word \<Rightarrow> nat \<Rightarrow> bool" where
  "col_wanted colBitmap i \<longleftrightarrow> colBitmap AND scast (push_bit i 1 :: 32 word) \<noteq> 0"

text \<open>
  The loop of \<open>check_block\<close> over the columns; \<open>pos\<close> is the position in the record file, \<open>r\<close> its bytes, or
  \<open>None\<close> when it is closed. Its result is the code, the position and the buffer. The result of the
  decompression is not looked at. A length below that of a checksum makes the check read outside its buffer.
\<close>

fun load_cols ::
    "edb_dec \<Rightarrow> LOG_HEAD \<Rightarrow> INDEX \<Rightarrow> byte list option \<Rightarrow> 64 word \<Rightarrow> nat list \<Rightarrow> nat \<Rightarrow> nat \<Rightarrow> byte list \<Rightarrow>
      (int \<times> nat \<times> byte list) res"
where
  "load_cols de h ix r colBitmap [] pos pOutput buf = Inr (0, pos, buf)"
| "load_cols de h ix r colBitmap (i # is) pos pOutput buf =
     rbind (arr_get (lh_colType h) (int i)) (\<lambda>c.
     rbind (arr_get (ix_colLens ix) (int i)) (\<lambda>l.
       let outSize = gColTypeSize c * lh_cacheSize h in
       if col_wanted colBitmap i then
         (case r of
            None \<Rightarrow> Inr (- 2, pos, buf)
          | Some r \<Rightarrow>
              if l < 0 then Inr (- 2, pos, buf)
              else if length r < pos + nat l then Inr (- 2, max pos (length r), buf)
              else
                let pInput = take (nat l) (drop pos r) in
                if l < 4 then Inl Out_Of_Bounds
                else if \<not> taosCheckChecksumWhole (en_crc32c (ed_env de)) (en_addr (ed_env de)) pInput
                then Inr (- 3, pos + nat l, buf)
                else
                  rbind (gDecompress de (lh_compressType h) h pInput ix i outSize) (\<lambda>(code, out).
                  rbind (mem_put buf pOutput out) (\<lambda>buf'.
                    load_cols de h ix (Some r) colBitmap is (pos + nat l) (pOutput + outSize) buf')))
       else
         load_cols de h ix r colBitmap is (if int pos + l < 0 then pos else nat (int pos + l)) (pOutput + outSize) buf))"

definition check_block :: "edb_dec \<Rightarrow> edb_fs \<Rightarrow> DB \<Rightarrow> QUERY \<Rightarrow> (int \<times> QUERY) res" where
  "check_block de fs db q =
     (if qr_indexFd q = No_File \<or> qr_recordFd q = No_File then Inr (- 1, q)
      else
        let h = db_pLogHead db; (ix, ifd) = read_index fs h q; q1 = q\<lparr>qr_indexFd := ifd\<rparr>;
            type = get_block_type (ix_startTimestamp ix) (ix_endTimestamp ix) (qr_startTimestamp q) (qr_endTimestamp q) in
        if before_equal type then Inr (- 1, q1)
        else
          let (r, p) = (case qr_recordFd q of Open_File k p \<Rightarrow> (fs_record fs k, p) | _ \<Rightarrow> (None, 0));
              pos = (if ix_dataOffset ix < 0 then p else nat (ix_dataOffset ix)) in
          rbind (load_cols de h ix r (qr_colBitmap q) [0..<lh_colCount h] pos 0 (qr_buf q)) (\<lambda>(code, pos', buf).
            let q2 = q1\<lparr>qr_recordFd := (case qr_recordFd q of Open_File k p \<Rightarrow> Open_File k pos' | fd \<Rightarrow> fd), qr_buf := buf\<rparr> in
            if code \<noteq> 0 then Inr (code, q2)
            else rbind (set_data_index type (q2\<lparr>qr_rowCount := ix_rowCount ix\<rparr>)) (\<lambda>q3. Inr (0, q3))))"

definition check_log :: "DB \<Rightarrow> QUERY \<Rightarrow> (int \<times> QUERY) res" where
  "check_log db q =
     (let h = db_pLogHead db; q1 = q\<lparr>qr_logChecked := True\<rparr>;
          type = get_block_type (lh_startTimestamp h) (lh_endTimestamp h) (qr_startTimestamp q) (qr_endTimestamp q) in
      if before_equal type then Inr (- 1, q1)
      else
        rbind (copy_bytes (db_pLogData db) 0 (lh_rowSize h * lh_cacheSize h)) (\<lambda>bs.
        rbind (mem_put (qr_buf q) 0 bs) (\<lambda>buf.
        rbind (set_data_index type (q1\<lparr>qr_buf := buf, qr_rowCount := int (lh_curRowCount h)\<rparr>)) (\<lambda>q2. Inr (0, q2)))))"

section \<open>Searching\<close>

definition past :: "ORDER_TYPE \<Rightarrow> int \<Rightarrow> int \<Rightarrow> bool" where
  "past order cur stop = (case order of ORDER_ASC \<Rightarrow> cur > stop | ORDER_DESC \<Rightarrow> cur < stop)"

definition order_dist :: "ORDER_TYPE \<Rightarrow> int \<Rightarrow> int \<Rightarrow> nat" where
  "order_dist order cur stop = nat (order_step order * (stop - cur) + 1)"

lemma order_dist_less: "\<not> past order cur stop \<Longrightarrow> order_dist order (cur + order_step order) stop < order_dist order cur stop"
  by (cases order) (auto simp: past_def order_dist_def)

text \<open>
  The loop of \<open>searchBlockIndex\<close>; neither the order nor the stop block of the query changes in it, and
  \<open>cur\<close> is \<open>curBlockIndex\<close>.
\<close>

function block_loop :: "edb_dec \<Rightarrow> edb_fs \<Rightarrow> DB \<Rightarrow> ORDER_TYPE \<Rightarrow> int \<Rightarrow> int \<Rightarrow> QUERY \<Rightarrow> (int \<times> QUERY) res" where
  "block_loop de fs db order stop cur q =
     (let q1 = q\<lparr>qr_curBlockIndex := cur\<rparr> in
      if past order cur stop then
        Inr (- 1, q1\<lparr>qr_curBlockIndex := - 1, qr_startBlockIndex := - 1, qr_endBlockIndex := - 1\<rparr>)
      else
        rbind (check_block de fs db q1) (\<lambda>(code, q2).
          if code = 0 then Inr (0, q2) else block_loop de fs db order stop (cur + order_step order) q2))"
  by pat_completeness auto
termination
  by (relation "measure (\<lambda>(de, fs, db, order, stop, cur, q). order_dist order cur stop)") (auto simp: order_dist_less)

declare block_loop.simps [simp del]

definition searchBlockIndex :: "edb_dec \<Rightarrow> edb_fs \<Rightarrow> DB \<Rightarrow> QUERY \<Rightarrow> (int \<times> QUERY) res" where
  "searchBlockIndex de fs db q = block_loop de fs db (qr_order q) (qr_endBlockIndex q) (qr_curBlockIndex q) q"

text \<open>
  The size of an index entry is that of the structure and one length for each column; the number of blocks
  is computed without the lengths. A descriptor that is not 0 is closed before another is opened.
\<close>

definition sizeof_INDEX :: nat where "sizeof_INDEX = 40"

definition checkFile :: "edb_dec \<Rightarrow> edb_fs \<Rightarrow> DB \<Rightarrow> QUERY \<Rightarrow> (int \<times> DB \<times> QUERY) res" where
  "checkFile de fs db q =
     rbind (file_of (db_pLogHead db) (lh_startTimestamp (db_pLogHead db))) (\<lambda>logFile.
       let db1 = db\<lparr>db_curFileIndex := logFile\<rparr>; k = qr_curFileIndex q;
           q1 = q\<lparr>qr_startBlockIndex := - 1, qr_endBlockIndex := - 1, qr_curBlockIndex := - 1\<rparr>;
           search = (\<lambda>q. rbind (searchBlockIndex de fs db1 q) (\<lambda>(code, q'). Inr (if code = 0 then 0 else - 1, db1, q'))) in
       (case fs_index fs k of
          None \<Rightarrow> if k \<noteq> logFile then Inr (- 1, db1, q1) else search q1
        | Some ixs \<Rightarrow>
            let st_size = length ixs * (sizeof_INDEX + 4 * lh_colCount (db_pLogHead db));
                count = to_int32 (int (st_size div sizeof_INDEX) - 1);
                (start, stop) = (case qr_order q of ORDER_ASC \<Rightarrow> (0, count) | ORDER_DESC \<Rightarrow> (count, 0));
                q2 = q1\<lparr>qr_startBlockIndex := start, qr_endBlockIndex := stop, qr_curBlockIndex := start,
                  qr_indexFd := Open_File k 0\<rparr> in
            (case fs_record fs k of
               None \<Rightarrow>
                 Inr (- 1, db1, q2\<lparr>qr_indexFd := Closed_File,
                   qr_recordFd := (if qr_recordFd q = No_File then No_File else Closed_File)\<rparr>)
             | Some r \<Rightarrow> search (q2\<lparr>qr_recordFd := Open_File k 0\<rparr>))))"

function file_loop :: "edb_dec \<Rightarrow> edb_fs \<Rightarrow> ORDER_TYPE \<Rightarrow> int \<Rightarrow> int \<Rightarrow> DB \<Rightarrow> QUERY \<Rightarrow> (int \<times> DB \<times> QUERY) res" where
  "file_loop de fs order stop cur db q =
     (let q1 = q\<lparr>qr_curFileIndex := cur\<rparr> in
      if past order cur stop then Inr (- 1, db, q1)
      else
        rbind (checkFile de fs db q1) (\<lambda>(code, db2, q2).
          if code = 0 then Inr (0, db2, q2) else file_loop de fs order stop (cur + order_step order) db2 q2))"
  by pat_completeness auto
termination
  by (relation "measure (\<lambda>(de, fs, order, stop, cur, db, q). order_dist order cur stop)") (auto simp: order_dist_less)

declare file_loop.simps [simp del]

definition searchFileIndex :: "edb_dec \<Rightarrow> edb_fs \<Rightarrow> DB \<Rightarrow> QUERY \<Rightarrow> (int \<times> DB \<times> QUERY) res" where
  "searchFileIndex de fs db q = file_loop de fs (qr_order q) (qr_endFileIndex q) (qr_curFileIndex q) db q"

section \<open>The cursor\<close>

text \<open>
  \<open>move_next\<close> is a sequence of parts, each of which may return 0 and otherwise hands its state to the next.
\<close>

definition or_next ::
    "(int \<times> DB \<times> QUERY) res \<Rightarrow> (DB \<Rightarrow> QUERY \<Rightarrow> (int \<times> DB \<times> QUERY) res) \<Rightarrow> (int \<times> DB \<times> QUERY) res"
where
  "or_next m f = rbind m (\<lambda>(code, db, q). if code = 0 then Inr (0, db, q) else f db q)"

definition try_log :: "ORDER_TYPE \<Rightarrow> DB \<Rightarrow> QUERY \<Rightarrow> (int \<times> DB \<times> QUERY) res" where
  "try_log order db q =
     (if qr_order q = order \<and> \<not> qr_logChecked q then rbind (check_log db q) (\<lambda>(code, q'). Inr (code, db, q'))
      else Inr (- 1, db, q))"

definition first_file :: "edb_dec \<Rightarrow> edb_fs \<Rightarrow> DB \<Rightarrow> QUERY \<Rightarrow> (int \<times> DB \<times> QUERY) res" where
  "first_file de fs db q =
     (if qr_curDataIndex q = - 1 \<and> qr_curFileIndex q = - 1 then
        searchFileIndex de fs db (q\<lparr>qr_curFileIndex := qr_startFileIndex q\<rparr>)
      else Inr (- 1, db, q))"

definition next_block :: "edb_dec \<Rightarrow> edb_fs \<Rightarrow> DB \<Rightarrow> QUERY \<Rightarrow> (int \<times> DB \<times> QUERY) res" where
  "next_block de fs db q =
     (if qr_curDataIndex q \<noteq> - 1 \<and> qr_curDataIndex q = qr_endDataIndex q then
        let q1 = q\<lparr>qr_curDataIndex := - 1, qr_startDataIndex := - 1, qr_endDataIndex := - 1\<rparr> in
        if qr_curFileIndex q1 = - 1 then
          searchFileIndex de fs db (q1\<lparr>qr_curFileIndex := qr_startFileIndex q1\<rparr>)
        else
          or_next
            (rbind (searchBlockIndex de fs db (q1\<lparr>qr_curBlockIndex := qr_curBlockIndex q1 + order_step (qr_order q1)\<rparr>))
              (\<lambda>(code, q2). Inr (code, db, q2)))
            (\<lambda>db q2. searchFileIndex de fs db (q2\<lparr>qr_curFileIndex := qr_curFileIndex q2 + order_step (qr_order q2)\<rparr>))
      else Inr (- 1, db, q))"

text \<open>\<open>curDataIndex\<close> is an \<open>int32_t\<close>: to step beyond its range is a fault.\<close>

definition next_row :: "DB \<Rightarrow> QUERY \<Rightarrow> (int \<times> DB \<times> QUERY) res" where
  "next_row db q =
     (if qr_curDataIndex q \<noteq> - 1 then
        let i = qr_curDataIndex q + order_step (qr_order q) in
        if i < - (2 ^ 31) \<or> 2 ^ 31 \<le> i then Inl Int_Overflow
        else Inr (0, db, q\<lparr>qr_curDataIndex := i\<rparr>)
      else Inr (- 1, db, q))"

definition move_next :: "edb_dec \<Rightarrow> edb_fs \<Rightarrow> DB \<Rightarrow> QUERY \<Rightarrow> (int \<times> DB \<times> QUERY) res" where
  "move_next de fs db q =
     or_next (try_log ORDER_DESC db q) (\<lambda>db q.
     or_next (first_file de fs db q) (\<lambda>db q.
     or_next (next_block de fs db q) (\<lambda>db q.
     or_next (next_row db q) (\<lambda>db q.
     or_next (try_log ORDER_ASC db q) (\<lambda>db q. Inr (- 1, db, q))))))"

text \<open>\<open>fetch_col\<close>: the offset in the buffer of the value in the current row, \<open>None\<close> for NULL; a negative column is not tested for.\<close>

definition fetch_col :: "DB \<Rightarrow> QUERY \<Rightarrow> nat \<Rightarrow> int option res" where
  "fetch_col db q colIndex =
     (let h = db_pLogHead db in
      if lh_colCount h \<le> colIndex then Inr None
      else if length (lh_colType h) \<le> colIndex then Inl Out_Of_Bounds
      else Inr (Some
        (int (sum_list (map (\<lambda>c. gColTypeSize c * lh_cacheSize h) (take colIndex (lh_colType h)))) +
         int (gColTypeSize (lh_colType h ! colIndex)) * qr_curDataIndex q)))"

section \<open>The search selects the rows in the range\<close>

definition times :: "byte list \<Rightarrow> int list \<Rightarrow> bool" where
  "times buf T \<longleftrightarrow> (\<forall>i < length T. ts_at buf (int i) = Inr (T ! i))"

lemma times_at: "times buf T \<Longrightarrow> 0 \<le> i \<Longrightarrow> i < int (length T) \<Longrightarrow> ts_at buf i = Inr (T ! nat i)"
  unfolding times_def by (metis nat_0_le nat_less_iff)

lemma sorted_nth: "sorted_wrt (<) (T :: int list) \<Longrightarrow> i < length T \<Longrightarrow> j < length T \<Longrightarrow> T ! i < T ! j \<longleftrightarrow> i < j"
  by (metis linorder_neqE_nat order_less_asym order_less_irrefl sorted_wrt_nth_less)

text \<open>Everything before \<open>low\<close> is smaller than the key and everything behind \<open>high\<close> is greater.\<close>

definition found :: "int list \<Rightarrow> int \<Rightarrow> bool \<Rightarrow> int res \<Rightarrow> bool" where
  "found T key isStart r \<longleftrightarrow>
     (case r of
        Inr j \<Rightarrow> 0 \<le> j \<and> j < int (length T) \<and>
          (if isStart then key \<le> T ! nat j \<and> (\<forall>i < nat j. T ! i < key)
           else T ! nat j \<le> key \<and> (\<forall>i < length T. nat j < i \<longrightarrow> key < T ! i))
      | Inl e \<Rightarrow> (\<forall>t \<in> set T. if isStart then t < key else key < t))"

lemma search_loop_ok:
  assumes sorted: "sorted_wrt (<) T"
  shows "times data T \<Longrightarrow> 0 \<le> low \<Longrightarrow> low \<le> high + 1 \<Longrightarrow> high < int (length T) \<Longrightarrow>
    (\<And>i. int i < low \<Longrightarrow> T ! i < key) \<Longrightarrow> (\<And>i. i < length T \<Longrightarrow> high < int i \<Longrightarrow> key < T ! i) \<Longrightarrow>
    start = (if high + 1 < int (length T) then Some (high + 1) else None) \<Longrightarrow> stop = (if 0 < low then Some (low - 1) else None) \<Longrightarrow>
    found T key isStart (search_loop data key isStart low high start stop)"
proof (induction data key isStart low high start stop rule: search_loop.induct)
  case (1 data key isStart low high start stop)
  show ?case
  proof (cases "low \<le> high")
    case True
    define c where c_def: "c = (low + high) div 2"
    have c: "0 \<le> c" "c < int (length T)" "low \<le> c" "c \<le> high" using "1.prems"(2,4) True by (auto simp: c_def)
    have x: "ts_at data c = Inr (T ! nat c)" by (rule times_at [OF "1.prems"(1) c(1,2)])
    have less: "T ! i < T ! nat c" if "int i < c" for i using sorted_nth [OF sorted, of i "nat c"] that c by auto
    have more: "T ! nat c < T ! i" if "i < length T" "c < int i" for i using sorted_nth [OF sorted, of "nat c" i] that c by auto
    consider "T ! nat c = key" | "key < T ! nat c" | "T ! nat c < key" by linarith
    then show ?thesis
    proof cases
      case 1
      then show ?thesis using True x c less more by (subst search_loop.simps) (auto simp: found_def Let_def c_def [symmetric])
    next
      case 2
      have "key < T ! i" if "i < length T" "c - 1 < int i" for i
      proof (cases "c < int i")
        case False
        then have "i = nat c" using that(2) by simp
        then show ?thesis using 2 by simp
      qed (use more [OF that(1)] 2 in simp)
      then have "found T key isStart (search_loop data key isStart low (c - 1) (Some c) stop)"
        using c "1.prems"(1,2,5,8) 2 by (intro "1.IH"(1) [OF True c_def x less_imp_neq [OF 2, symmetric] 2]) simp_all
      then show ?thesis using True x 2 by (subst search_loop.simps) (simp add: Let_def c_def [symmetric])
    next
      case 3
      have "T ! i < key" if "int i < c + 1" for i
      proof (cases "int i < c")
        case False
        then have "i = nat c" using that by simp
        then show ?thesis using 3 by simp
      qed (use less 3 in force)
      then have "found T key isStart (search_loop data key isStart (c + 1) high start (Some c))"
        using c "1.prems"(1,4,6,7) 3 by (intro "1.IH"(2) [OF True c_def x less_imp_neq [OF 3] not_less_iff_gr_or_eq [THEN iffD2, OF disjI1, OF 3]]) simp_all
      then show ?thesis using True x 3 by (subst search_loop.simps) (simp add: Let_def c_def [symmetric])
    qed
  next
    case False
    then have high: "high = low - 1" using "1.prems"(3) by simp
    have "key < T ! i" if "i < length T" "low \<le> int i" for i using "1.prems"(6) [OF that(1)] that(2) high by simp
    moreover have "T ! i < key" if "int i < low" for i using "1.prems"(5) that by simp
    ultimately show ?thesis using False "1.prems"(2,4,7,8) high
      by (subst search_loop.simps) (auto simp: found_def in_set_conv_nth less_imp_le nat_less_iff zless_nat_conj)
  qed
qed

lemma binary_search_ok:
  assumes "sorted_wrt (<) T" and "times data T"
  shows "found T key isStart (binary_search data key (int (length T)) isStart)"
  unfolding binary_search_def using assms by (intro search_loop_ok) auto

lemma sorted_ends:
  assumes "sorted_wrt (<) (T :: int list)" and "i < length T"
  shows "hd T \<le> T ! i" and "T ! i \<le> last T"
proof -
  have "T \<noteq> []" using assms(2) by auto
  then show "hd T \<le> T ! i" using sorted_nth [OF assms(1), of 0 i] assms(2) by (cases "i = 0") (auto simp: hd_conv_nth)
  show "T ! i \<le> last T"
    using sorted_nth [OF assms(1), of i "length T - 1"] assms(2) \<open>T \<noteq> []\<close>
    by (cases "i = length T - 1") (auto simp: last_conv_nth)
qed

text \<open>
  The times of a block that a query from \<open>s\<close> to \<open>e\<close> treats as its documentation says: they ascend, the
  range does not begin with the first or end with the last, and it does not fall between two of them.
\<close>

definition clean :: "int \<Rightarrow> int \<Rightarrow> int list \<Rightarrow> bool" where
  "clean s e T \<longleftrightarrow> sorted_wrt (<) T \<and> T \<noteq> [] \<and> hd T \<noteq> s \<and> last T \<noteq> e \<and>
     (hd T < s \<and> e < last T \<longrightarrow> (\<exists>t \<in> set T. s \<le> t \<and> t \<le> e))"

abbreviation in_range :: "int \<Rightarrow> int \<Rightarrow> int \<Rightarrow> bool" where
  "in_range s e t \<equiv> s \<le> t \<and> t \<le> e"

lemma skipped_none:
  assumes "clean s e T" and "s \<le> e" and "before_equal (get_block_type (hd T) (last T) s e)"
  shows "\<forall>t \<in> set T. \<not> in_range s e t"
proof -
  have T: "sorted_wrt (<) T" "T \<noteq> []" using assms(1) by (simp_all add: clean_def)
  then have "hd T \<le> last T" using sorted_ends(1) [OF T(1), of "length T - 1"] by (simp add: last_conv_nth)
  then have "last T < s \<or> e < hd T" using assms by (auto simp: get_block_type_def clean_def split: if_splits)
  then show ?thesis using sorted_ends [OF T(1)] by (fastforce simp: in_set_conv_nth)
qed

lemma set_indices_sel [simp]:
  "qr_buf (set_indices a b q) = qr_buf q" "qr_order (set_indices a b q) = qr_order q"
  "qr_startTimestamp (set_indices a b q) = qr_startTimestamp q" "qr_endTimestamp (set_indices a b q) = qr_endTimestamp q"
  by (simp_all add: set_indices_def split: ORDER_TYPE.split)

text \<open>The rows in the range are those from \<open>a\<close> to \<open>b\<close>, and the searches find these when they are made.\<close>

lemma range_bounds:
  assumes clean: "clean s e T" and ts: "times data T" and "s \<le> last T" and "hd T \<le> e"
  obtains a b where "a \<le> b" and "b < length T" and "\<And>i. i < length T \<Longrightarrow> in_range s e (T ! i) \<longleftrightarrow> a \<le> i \<and> i \<le> b"
    and "if hd T < s then binary_search data s (int (length T)) True = Inr (int a) else a = 0"
    and "if e < last T then binary_search data e (int (length T)) False = Inr (int b) else b = length T - 1"
proof -
  have T: "sorted_wrt (<) T" "T \<noteq> []" "hd T \<noteq> s" "last T \<noteq> e" using clean by (simp_all add: clean_def)
  then have len: "0 < length T" by simp
  obtain a where a: "a < length T" "s \<le> T ! a" "\<forall>i < a. T ! i < s"
    "if hd T < s then binary_search data s (int (length T)) True = Inr (int a) else a = 0"
  proof (cases "hd T < s")
    case True
    obtain j where "binary_search data s (int (length T)) True = Inr j" "0 \<le> j" "j < int (length T)" "s \<le> T ! nat j" "\<forall>i < nat j. T ! i < s"
      using binary_search_ok [OF T(1) ts, of s True] last_in_set [OF T(2)] assms(3) by (force simp: found_def split: sum.splits)
    then show ?thesis using True by (intro that [of "nat j"]) auto
  qed (use that [of 0] len T(2) in \<open>auto simp: hd_conv_nth\<close>)
  obtain b where b: "b < length T" "T ! b \<le> e" "\<forall>i < length T. b < i \<longrightarrow> e < T ! i"
    "if e < last T then binary_search data e (int (length T)) False = Inr (int b) else b = length T - 1"
  proof (cases "e < last T")
    case True
    obtain j where "binary_search data e (int (length T)) False = Inr j" "0 \<le> j" "j < int (length T)" "T ! nat j \<le> e"
        "\<forall>i < length T. nat j < i \<longrightarrow> e < T ! i"
      using binary_search_ok [OF T(1) ts, of e False] hd_in_set [OF T(2)] assms(4) by (force simp: found_def split: sum.splits)
    then show ?thesis using True by (intro that [of "nat j"]) auto
  next
    case False
    then show ?thesis using len T(2) by (intro that [of "length T - 1"]) (auto simp: last_conv_nth)
  qed
  have up: "T ! i \<le> T ! j" if "i \<le> j" "j < length T" for i j using sorted_nth [OF T(1), of i j] that by (cases "i = j") auto
  have range: "in_range s e (T ! i) \<longleftrightarrow> a \<le> i \<and> i \<le> b" if "i < length T" for i
    using a(2,3) b(1-3) up [of a i] up [of i b] that by (meson not_le order_trans)
  have "a \<le> b"
  proof (cases "hd T < s \<and> e < last T")
    case True
    then obtain i where "i < length T" "in_range s e (T ! i)" using clean by (auto simp: clean_def in_set_conv_nth)
    then show ?thesis using range [of i] by simp
  qed (use a(1,4) b(1,4) in \<open>auto split: if_splits\<close>)
  then show ?thesis using that [OF _ b(1) range a(4) b(4)] by blast
qed

text \<open>The rows selected are those in the range.\<close>

lemma selected:
  assumes clean: "clean (qr_startTimestamp q) (qr_endTimestamp q) T" and se: "qr_startTimestamp q \<le> qr_endTimestamp q"
    and ts: "times (qr_buf q) T" and n: "qr_rowCount q = int (length T)"
    and type: "\<not> before_equal (get_block_type (hd T) (last T) (qr_startTimestamp q) (qr_endTimestamp q))"
  obtains a b where "set_data_index (get_block_type (hd T) (last T) (qr_startTimestamp q) (qr_endTimestamp q)) q =
      Inr ((set_indices (int a) (int b) q)\<lparr>qr_curDataIndex := qr_startDataIndex (set_indices (int a) (int b) q)\<rparr>)"
    and "a \<le> b" and "b < length T"
    and "\<And>i. i < length T \<Longrightarrow> in_range (qr_startTimestamp q) (qr_endTimestamp q) (T ! i) \<longleftrightarrow> a \<le> i \<and> i \<le> b"
proof -
  let ?s = "qr_startTimestamp q" and ?e = "qr_endTimestamp q"
  have T: "sorted_wrt (<) T" "T \<noteq> []" "hd T \<noteq> ?s" "last T \<noteq> ?e" using clean by (simp_all add: clean_def)
  have hl: "hd T \<le> last T" using sorted_ends(1) [OF T(1), of "length T - 1"] T(2) by (simp add: last_conv_nth)
  have near: "?s \<le> last T" "hd T \<le> ?e" using type T(3,4) se hl by (auto simp: get_block_type_def split: if_splits)
  obtain a b where ab: "a \<le> b" "b < length T" "\<And>i. i < length T \<Longrightarrow> in_range ?s ?e (T ! i) \<longleftrightarrow> a \<le> i \<and> i \<le> b"
    "if hd T < ?s then binary_search (qr_buf q) ?s (qr_rowCount q) True = Inr (int a) else a = 0"
    "if ?e < last T then binary_search (qr_buf q) ?e (qr_rowCount q) False = Inr (int b) else b = length T - 1"
    unfolding n by (rule range_bounds [OF clean ts near]) blast
  have b: "qr_rowCount q - 1 = int b" if "\<not> ?e < last T" using ab(2,5) that n by simp
  have ty: "get_block_type (hd T) (last T) ?s ?e =
      (if hd T < ?s then (if ?e < last T then BLOCK_CONTAINING else BLOCK_LEFT_CROSS)
       else if ?e < last T then BLOCK_RIGHT_CROSS else BLOCK_CONTAINED)"
    using near T(3,4) se hl by (simp add: get_block_type_def)
  have "set_data_index (get_block_type (hd T) (last T) ?s ?e) q =
      Inr ((set_indices (int a) (int b) q)\<lparr>qr_curDataIndex := qr_startDataIndex (set_indices (int a) (int b) q)\<rparr>)"
    unfolding ty set_data_index_def using ab(4,5) b by (cases "hd T < ?s"; cases "?e < last T") simp_all
  then show ?thesis using that ab(1-3) by blast
qed

section \<open>Loading a block\<close>

definition row_ts :: "byte list list \<Rightarrow> int" where
  "row_ts row = sint (of_le_bytes (hd row) :: 64 word)"

text \<open>The buffer holds rows in columns.\<close>

definition holds :: "COL_TYPE list \<Rightarrow> nat \<Rightarrow> byte list \<Rightarrow> byte list list list \<Rightarrow> bool" where
  "holds cs cache buf rows \<longleftrightarrow>
     length rows \<le> cache \<and> width cs * cache \<le> length buf \<and>
     (\<forall>j < length rows. row_at buf (layout cache 0 cs) j = rows ! j)"

lemma holds_times:
  assumes "holds (COL_TYPE_TIMESTAMP # cs) cache buf rows"
  shows "times buf (map row_ts rows)"
proof -
  have "ts_at buf (int j) = Inr (row_ts (rows ! j))" if "j < length rows" for j
  proof -
    have row: "rows ! j = row_at buf (layout cache 0 (COL_TYPE_TIMESTAMP # cs)) j" using assms that by (simp add: holds_def)
    have "8 * cache \<le> length buf" using assms by (simp add: holds_def add_mult_distrib)
    then have "8 * j + 8 \<le> length buf" using that assms by (simp add: holds_def)
    then show ?thesis unfolding row by (simp add: ts_at_def row_ts_def row_at_def copy_bytes_def slice_def)
  qed
  then show ?thesis by (simp add: times_def)
qed

lemma all_wanted: "i < 32 \<Longrightarrow> col_wanted (- 1) i"
proof -
  have "\<forall>i \<in> set [0..<32]. col_wanted (- 1) i" by code_simp
  then show "i < 32 \<Longrightarrow> col_wanted (- 1) i" by simp
qed

lemma load_cols_suffix:
  assumes none: "lh_compressType h = COMPRESS_NONE" and cs: "lh_colType h = cs1 @ cs2" "length (cs1 @ cs2) \<le> 32"
    and n: "n \<le> lh_cacheSize h" "ix_rowCount ix = int n" and lens: "ix_colLens ix = none_lens (cs1 @ cs2) n"
    and read: "read_cols (ed_env de) r (none_lens cs2 n) pos = (0, pos')"
    and fit: "pOutput + width cs2 * lh_cacheSize h \<le> length buf"
  shows "\<exists>buf'. load_cols de h ix (Some r) (- 1) [length cs1..<length cs1 + length cs2] pos pOutput buf = Inr (0, pos', buf') \<and>
    length buf' = length buf \<and> (\<forall>x < pOutput. buf' ! x = buf ! x) \<and>
    map (\<lambda>(p, s). slice buf' p (s * n)) (layout (lh_cacheSize h) pOutput cs2) = payloads pos (none_lens cs2 n) r"
  using cs lens read fit
proof (induction cs2 arbitrary: cs1 pos pOutput buf)
  case (Cons c cs3)
  let ?size = "gColTypeSize c" and ?l = "gColTypeSize c * n + 4"
  have l: "nat (int ?l) = ?l" "\<not> int ?l < 0" "\<not> int ?l < 4" by (simp_all only: nat_int)
  have read: "\<not> length r < pos + ?l" "taosCheckChecksumWhole (en_crc32c (ed_env de)) (en_addr (ed_env de)) (take ?l (drop pos r))"
      "read_cols (ed_env de) r (none_lens cs3 n) (pos + ?l) = (0, pos')"
    using Cons.prems(4) by (simp_all only: list.map read_cols.simps l if_False disj.left_neutral disj_not1 split: if_splits) auto?
  have col: "arr_get (lh_colType h) (int (length cs1)) = Inr c" "arr_get (ix_colLens ix) (int (length cs1)) = Inr (int ?l)"
    using Cons.prems(1,3) by (simp_all add: arr_get_nat nth_append)
  have out: "decompressNone h (take ?l (drop pos r)) ix (length cs1) = Inr (0, slice r pos (?size * n))"
    using read(1) n(2) col by (simp add: decompressNone_def copy_bytes_def slice_def min_def) arith
  have len: "length (slice r pos (?size * n)) = ?size * n" using read(1) by simp
  note fits = column_fits [OF n(1) Cons.prems(5)]
  have "pOutput + length (slice r pos (?size * n)) \<le> length buf" using fits(1) len by simp
  from this obtain buf1 where buf1: "mem_put buf pOutput (slice r pos (?size * n)) = Inr buf1" "length buf1 = length buf"
      "slice buf1 pOutput (?size * n) = slice r pos (?size * n)" "\<And>x. x < pOutput \<Longrightarrow> buf1 ! x = buf ! x"
    by (rule mem_put_ok) (use len in auto)
  obtain buf' where buf': "load_cols de h ix (Some r) (- 1) [length (cs1 @ [c])..<length (cs1 @ [c]) + length cs3] (pos + ?l)
        (pOutput + ?size * lh_cacheSize h) buf1 = Inr (0, pos', buf')"
      "length buf' = length buf1" "\<forall>x < pOutput + ?size * lh_cacheSize h. buf' ! x = buf1 ! x"
      "map (\<lambda>(p, s). slice buf' p (s * n)) (layout (lh_cacheSize h) (pOutput + ?size * lh_cacheSize h) cs3) = payloads (pos + ?l) (none_lens cs3 n) r"
    using Cons.IH [of "cs1 @ [c]" "pos + ?l" "pOutput + ?size * lh_cacheSize h" buf1] Cons.prems(1-3) read(3) fits(2) buf1(2) by auto
  have "slice buf' pOutput (?size * n) = slice buf1 pOutput (?size * n)"
  proof (rule slice_cong [OF buf'(2)])
    fix x assume "x < pOutput + ?size * n"
    then have "x < pOutput + ?size * lh_cacheSize h" using mult_le_mono2 [OF n(1), of ?size] by linarith
    then show "buf' ! x = buf1 ! x" using buf'(3) by blast
  qed
  moreover have "[length cs1..<length cs1 + length (c # cs3)] = length cs1 # [length (cs1 @ [c])..<length (cs1 @ [c]) + length cs3]"
    by (subst upt_conv_Cons) simp_all
  moreover have "load_cols de h ix (Some r) (- 1) (length cs1 # is) pos pOutput buf =
      load_cols de h ix (Some r) (- 1) is (pos + ?l) (pOutput + ?size * lh_cacheSize h) buf1" for "is"
  proof -
    have "col_wanted (- 1) (length cs1)" using Cons.prems(2) by (intro all_wanted) simp
    moreover have "gDecompress de (lh_compressType h) h (take ?l (drop pos r)) ix (length cs1) outSize = Inr (0, slice r pos (?size * n))" for outSize
      using none out by simp
    ultimately show ?thesis
      using read(1,2) by (simp only: load_cols.simps col rbind_simps Let_def if_True option.case l if_False buf1(1) split) simp
  qed
  ultimately show ?case using buf' buf1(2-4) l by (intro exI [of _ buf']) (simp add: slice_def)
qed simp

section \<open>A store that can be queried\<close>

text \<open>
  What the time stamps of a block and of the log have to satisfy for a query from \<open>s\<close> to \<open>e\<close>: they are
  clean for the range, and the first and the last are those noted.
\<close>

definition block_times :: "int \<Rightarrow> int \<Rightarrow> byte list list list \<Rightarrow> int \<Rightarrow> int \<Rightarrow> bool" where
  "block_times s e rows start stop \<longleftrightarrow>
     rows \<noteq> [] \<and> clean s e (map row_ts rows) \<and> start = row_ts (hd rows) \<and> stop = row_ts (last rows)"

definition queryable ::
    "edb_env \<Rightarrow> edb_dec \<Rightarrow> COL_TYPE list \<Rightarrow> LOG_HEAD \<Rightarrow> byte list \<Rightarrow> edb_fs \<Rightarrow> int \<Rightarrow> int \<Rightarrow> bool"
where
  "queryable en de cs h mem fs s e \<longleftrightarrow>
     head_ok cs h \<and> log_ok cs h mem \<and> (\<forall>k. file_ok en cs fs k) \<and> same_crc en (ed_env de) \<and> short_files fs \<and>
     length cs \<le> 32 \<and> lh_rowSize h = width cs \<and> 0 < s \<and> s \<le> e \<and>
     (\<forall>k ixs r. fs_index fs k = Some ixs \<longrightarrow> fs_record fs k = Some r \<longrightarrow>
       (\<forall>ix \<in> set ixs. ix_rowCount ix \<le> int (lh_cacheSize h) \<and>
         block_times s e (block_rows cs r ix) (ix_startTimestamp ix) (ix_endTimestamp ix))) \<and>
     (if lh_curRowCount h = 0 then lh_startTimestamp h = 0 \<and> lh_endTimestamp h = 0
      else block_times s e (log_rows h mem) (lh_startTimestamp h) (lh_endTimestamp h))"

lemma tiles_block: "tiles en cs r pos ixs \<Longrightarrow> ix \<in> set ixs \<Longrightarrow> \<exists>p. block_ok en cs r p ix"
  by (induction ixs arbitrary: pos) auto

lemma length_block_rows [simp]: "length (block_rows cs r ix) = nat (ix_rowCount ix)"
  by (simp add: block_rows_def)

text \<open>Loading a good block leaves its rows in the buffer.\<close>

lemma load_block:
  assumes hd: "head_ok cs h" "length cs \<le> 32" and blk: "block_ok en cs r pos ix" and crc: "same_crc en (ed_env de)"
    and n: "ix_rowCount ix \<le> int (lh_cacheSize h)" and buf: "width cs * lh_cacheSize h \<le> length buf"
  obtains p' buf' where "load_cols de h ix (Some r) (- 1) [0..<lh_colCount h] pos 0 buf = Inr (0, p', buf')"
    and "holds cs (lh_cacheSize h) buf' (block_rows cs r ix)" and "length buf' = length buf"
proof -
  let ?n = "nat (ix_rowCount ix)"
  have b: "ix_dataOffset ix = int pos" "ix_rowCount ix = int ?n" "ix_colLens ix = none_lens cs ?n"
    using blk unfolding block_ok_def by auto
  have "read_cols (ed_env de) r (none_lens cs ?n) pos = (0, pos + nat (sum_list (ix_colLens ix)))"
    using block_ok_read [OF blk crc] b(3) by simp
  then obtain buf' where buf': "load_cols de h ix (Some r) (- 1) [0..<length cs] pos 0 buf = Inr (0, pos + nat (sum_list (ix_colLens ix)), buf')"
      "length buf' = length buf" "map (\<lambda>(p, s). slice buf' p (s * ?n)) (layout (lh_cacheSize h) 0 cs) = payloads pos (none_lens cs ?n) r"
    using load_cols_suffix [of h "[]" cs ?n ix de r pos _ 0 buf] hd b(2,3) n buf by (auto simp: head_ok_def)
  have "row_at buf' (layout (lh_cacheSize h) 0 cs) j = block_rows cs r ix ! j" if "j < ?n" for j
    using rows_of_layout [OF that, of cs buf' "lh_cacheSize h" 0] buf'(3) b(1,3) that by (simp add: block_rows_def)
  then show ?thesis
    using that [of _ buf'] buf'(1,2) buf n hd(1) by (auto simp: holds_def head_ok_def)
qed

text \<open>A query over a store, as \<open>open_query\<close> sets it up.\<close>

definition query_ok :: "COL_TYPE list \<Rightarrow> LOG_HEAD \<Rightarrow> int \<Rightarrow> int \<Rightarrow> QUERY \<Rightarrow> bool" where
  "query_ok cs h s e q \<longleftrightarrow>
     qr_startTimestamp q = s \<and> qr_endTimestamp q = e \<and> qr_colBitmap q = - 1 \<and> width cs * lh_cacheSize h \<le> length (qr_buf q)"

text \<open>The state in which the rows from \<open>a\<close> to \<open>b\<close> of the buffer are to be delivered.\<close>

definition at_rows :: "int \<Rightarrow> int \<Rightarrow> QUERY \<Rightarrow> QUERY" where
  "at_rows a b q = (set_indices a b q)\<lparr>qr_curDataIndex := qr_startDataIndex (set_indices a b q)\<rparr>"

lemma map_ends: "rows \<noteq> [] \<Longrightarrow> hd (map f rows) = f (hd rows) \<and> last (map f rows) = f (last rows)"
  by (simp add: hd_map last_map)

text \<open>Selecting rows that are in the buffer.\<close>

lemma select_rows:
  assumes "block_times s e rows start stop" and "holds cs cache (qr_buf q) rows" and "\<exists>cs'. cs = COL_TYPE_TIMESTAMP # cs'"
    and "qr_startTimestamp q = s" and "qr_endTimestamp q = e" and "s \<le> e" and "qr_rowCount q = int (length rows)"
    and "\<not> before_equal (get_block_type start stop s e)"
  obtains a b where "set_data_index (get_block_type start stop s e) q = Inr (at_rows (int a) (int b) q)"
    and "a \<le> b" and "b < length rows" and "\<And>i. i < length rows \<Longrightarrow> in_range s e (row_ts (rows ! i)) \<longleftrightarrow> a \<le> i \<and> i \<le> b"
proof -
  let ?T = "map row_ts rows"
  have "hd ?T = start" "last ?T = stop" "clean s e ?T" using assms(1) by (simp_all add: block_times_def map_ends)
  moreover have "times (qr_buf q) ?T" using assms(2,3) holds_times by blast
  ultimately show ?thesis
    using selected [of q ?T] assms(4-8) that by (simp add: at_rows_def) blast
qed

section \<open>Delivering the rows of a block\<close>

abbreviation sel :: "int \<Rightarrow> int \<Rightarrow> byte list list list \<Rightarrow> byte list list list" where
  "sel s e rows \<equiv> filter (\<lambda>row. in_range s e (row_ts row)) rows"

text \<open>The cursor stands on \<open>row\<close>, and \<open>rest\<close> are the rows of the buffer that follow in the range.\<close>

definition delivering :: "COL_TYPE list \<Rightarrow> nat \<Rightarrow> QUERY \<Rightarrow> byte list list \<Rightarrow> byte list list list \<Rightarrow> bool" where
  "delivering cs cache q row rest \<longleftrightarrow>
     (\<exists>rows j b. holds cs cache (qr_buf q) rows \<and> j \<le> b \<and> b < length rows \<and>
       qr_curDataIndex q = int j \<and> qr_endDataIndex q = int b \<and> row = rows ! j \<and> rest = drop (Suc j) (take (Suc b) rows))"

lemma filter_interval:
  assumes "a \<le> b" and "b < length xs" and "\<And>i. i < length xs \<Longrightarrow> P (xs ! i) \<longleftrightarrow> a \<le> i \<and> i \<le> b"
  shows "filter P xs = xs ! a # drop (Suc a) (take (Suc b) xs)"
proof -
  have "filter P (take a xs) = []" using assms by (auto simp: filter_empty_conv in_set_conv_nth)
  moreover have "filter P (drop (Suc b) xs) = []" using assms by (auto simp: filter_empty_conv in_set_conv_nth)
  moreover have "filter P (drop a (take (Suc b) xs)) = drop a (take (Suc b) xs)"
    using assms by (auto simp: filter_id_conv in_set_conv_nth)
  moreover have "xs = take a xs @ drop a (take (Suc b) xs) @ drop (Suc b) xs"
    using assms(1) by (metis append_assoc append_take_drop_id le_SucI min.absorb1 take_take)
  moreover have "drop a (take (Suc b) xs) = xs ! a # drop (Suc a) (take (Suc b) xs)"
    using assms(1,2) by (subst Cons_nth_drop_Suc [symmetric]) simp_all
  ultimately show ?thesis by (metis append.right_neutral append_Nil filter_append)
qed

text \<open>The parts of a query that the search for a block leaves alone.\<close>

definition frame :: "QUERY \<Rightarrow> int \<times> int \<times> ORDER_TYPE \<times> 64 word \<times> int \<times> int" where
  "frame q = (qr_startTimestamp q, qr_endTimestamp q, qr_order q, qr_colBitmap q, qr_startFileIndex q, qr_endFileIndex q)"

lemma at_rows_sel [simp]:
  "qr_buf (at_rows a b q) = qr_buf q" "qr_order (at_rows a b q) = qr_order q" "qr_logChecked (at_rows a b q) = qr_logChecked q"
  "qr_curFileIndex (at_rows a b q) = qr_curFileIndex q" "qr_startTimestamp (at_rows a b q) = qr_startTimestamp q"
  "qr_startFileIndex (at_rows a b q) = qr_startFileIndex q" "qr_endFileIndex (at_rows a b q) = qr_endFileIndex q"
  "qr_endTimestamp (at_rows a b q) = qr_endTimestamp q" "qr_colBitmap (at_rows a b q) = qr_colBitmap q"
  "qr_indexFd (at_rows a b q) = qr_indexFd q" "qr_recordFd (at_rows a b q) = qr_recordFd q"
  "qr_curBlockIndex (at_rows a b q) = qr_curBlockIndex q" "qr_endBlockIndex (at_rows a b q) = qr_endBlockIndex q"
  by (simp_all add: at_rows_def set_indices_def frame_def split: ORDER_TYPE.split)

lemma delivering_at_rows:
  assumes "qr_order q = ORDER_ASC" and "holds cs cache (qr_buf q) rows" and "a \<le> b" and "b < length rows"
    and "\<And>i. i < length rows \<Longrightarrow> in_range s e (row_ts (rows ! i)) \<longleftrightarrow> a \<le> i \<and> i \<le> b"
  obtains row rest where "sel s e rows = row # rest" and "delivering cs cache (at_rows (int a) (int b) q) row rest"
proof -
  have "sel s e rows = rows ! a # drop (Suc a) (take (Suc b) rows)" by (rule filter_interval [OF assms(3-5)])
  moreover have "qr_curDataIndex (at_rows (int a) (int b) q) = int a" "qr_endDataIndex (at_rows (int a) (int b) q) = int b"
    using assms(1) by (simp_all add: at_rows_def set_indices_def)
  ultimately show ?thesis using that assms(2-4) by (auto simp: delivering_def)
qed

text \<open>The search that started in \<open>q\<close> stopped at block \<open>i\<close> of file \<open>k\<close>, whose rows in the range are \<open>row\<close> and \<open>rest\<close>.\<close>

definition block_found ::
    "COL_TYPE list \<Rightarrow> LOG_HEAD \<Rightarrow> int \<Rightarrow> int \<Rightarrow> int \<Rightarrow> nat \<Rightarrow> QUERY \<Rightarrow> byte list list \<Rightarrow> byte list list list \<Rightarrow> QUERY \<Rightarrow> bool"
where
  "block_found cs h s e k i q row rest q' \<longleftrightarrow>
     delivering cs (lh_cacheSize h) q' row rest \<and> query_ok cs h s e q' \<and> frame q' = frame q \<and>
     qr_logChecked q' = qr_logChecked q \<and> qr_curFileIndex q' = qr_curFileIndex q \<and>
     qr_indexFd q' = Open_File k (Suc i) \<and> (\<exists>p. qr_recordFd q' = Open_File k p) \<and> qr_curBlockIndex q' = int i \<and>
     qr_endBlockIndex q' = qr_endBlockIndex q"

text \<open>
  \<open>check_block\<close> at entry \<open>i\<close> of the index: behind the last entry it reads zeros, which lie before every
  query; a block without a row in the range is skipped; otherwise its rows are delivered.
\<close>

lemma check_block_at:
  assumes store: "queryable en de cs (db_pLogHead db) mem fs s e" and q: "query_ok cs (db_pLogHead db) s e q"
    and files: "fs_index fs k = Some ixs" "fs_record fs k = Some r"
    and fds: "qr_indexFd q = Open_File k p" "qr_recordFd q = Open_File k p2" and cur: "qr_curBlockIndex q = int i"
    and asc: "qr_order q = ORDER_ASC"
  shows "if i < length ixs \<and> sel s e (block_rows cs r (ixs ! i)) \<noteq> [] then
      \<exists>q' row rest. check_block de fs db q = Inr (0, q') \<and> sel s e (block_rows cs r (ixs ! i)) = row # rest \<and>
        block_found cs (db_pLogHead db) s e k i q row rest q'
    else \<exists>p'. check_block de fs db q = Inr (- 1, q\<lparr>qr_indexFd := Open_File k p'\<rparr>) \<and> min (Suc i) (length ixs) \<le> p'"
proof (cases "i < length ixs")
  case False
  have "read_index fs (db_pLogHead db) q = (zero_index (db_pLogHead db), Open_File k i)"
    using False files(1) fds(1) cur by (simp add: read_index_def)
  moreover have "before_equal (get_block_type 0 0 s e)" using store by (simp add: queryable_def get_block_type_def)
  ultimately show ?thesis using False fds q by (auto simp: check_block_def zero_index_def query_ok_def)
next
  case True
  let ?h = "db_pLogHead db" and ?ix = "ixs ! i" and ?rows = "block_rows cs r (ixs ! i)"
  have ix: "read_index fs ?h q = (?ix, Open_File k (Suc i))" using True files(1) fds(1) cur by (simp add: read_index_def)
  have st: "head_ok cs ?h" "length cs \<le> 32" "same_crc en (ed_env de)" "s \<le> e" "\<exists>cs'. cs = COL_TYPE_TIMESTAMP # cs'"
    using store by (auto simp: queryable_def head_ok_def)
  have blk: "ix_rowCount ?ix \<le> int (lh_cacheSize ?h)" "block_times s e ?rows (ix_startTimestamp ?ix) (ix_endTimestamp ?ix)"
    using store files True by (auto simp: queryable_def)
  have "file_ok en cs fs k" using store by (simp add: queryable_def)
  then have "tiles en cs r 0 ixs" using files by (simp add: file_ok_def)
  then obtain pos where pos: "block_ok en cs r pos ?ix" using tiles_block [of en cs r 0 ixs ?ix] True by auto
  then have off: "ix_dataOffset ?ix = int pos" "0 \<le> ix_rowCount ?ix" unfolding block_ok_def by blast+
  show ?thesis
  proof (cases "before_equal (get_block_type (ix_startTimestamp ?ix) (ix_endTimestamp ?ix) s e)")
    case before: True
    have "sel s e ?rows = []"
      using skipped_none [of s e "map row_ts ?rows"] before blk(2) st(4) by (auto simp: block_times_def map_ends filter_empty_conv)
    then show ?thesis using True before ix fds q by (auto simp: check_block_def query_ok_def)
  next
    case in_block: False
    obtain p' buf where buf: "load_cols de ?h ?ix (Some r) (- 1) [0..<lh_colCount ?h] pos 0 (qr_buf q) = Inr (0, p', buf)"
        "holds cs (lh_cacheSize ?h) buf ?rows" "length buf = length (qr_buf q)"
      by (rule load_block [OF st(1,2) pos st(3) blk(1)]) (use q in \<open>auto simp: query_ok_def\<close>)
    let ?q = "q\<lparr>qr_indexFd := Open_File k (Suc i), qr_recordFd := Open_File k p', qr_buf := buf, qr_rowCount := ix_rowCount ?ix\<rparr>"
    have q': "qr_startTimestamp ?q = s" "qr_endTimestamp ?q = e" "qr_rowCount ?q = int (length ?rows)" "qr_buf ?q = buf" "qr_order ?q = ORDER_ASC"
      using q off(2) asc by (simp_all add: query_ok_def)
    obtain a b where ab: "set_data_index (get_block_type (ix_startTimestamp ?ix) (ix_endTimestamp ?ix) s e) ?q = Inr (at_rows (int a) (int b) ?q)"
        "a \<le> b" "b < length ?rows" "\<And>i. i < length ?rows \<Longrightarrow> in_range s e (row_ts (?rows ! i)) \<longleftrightarrow> a \<le> i \<and> i \<le> b"
      by (rule select_rows [OF blk(2), of cs "lh_cacheSize ?h" ?q]) (use buf(2) q' st(4,5) in_block in auto)
    obtain row rest where row: "sel s e ?rows = row # rest" "delivering cs (lh_cacheSize ?h) (at_rows (int a) (int b) ?q) row rest"
      by (rule delivering_at_rows [OF q'(5) _ ab(2-4)]) (use buf(2) q'(4) in auto)
    have "check_block de fs db q = Inr (0, at_rows (int a) (int b) ?q)"
      using ix fds q in_block off(1) buf(1) ab(1) files(2) by (simp add: check_block_def query_ok_def Let_def)
    moreover have "query_ok cs ?h s e (at_rows (int a) (int b) ?q)"
      using q buf(3) by (simp add: query_ok_def)
    ultimately show ?thesis using True row cur by (auto simp: block_found_def frame_def intro!: exI [of _ "at_rows (int a) (int b) ?q"])
  qed
qed

end
