(* ===== verification/EdbScan.thy ===== *)
theory EdbScan
  imports EdbQuery
begin

text \<open>
  What a query delivers. The searches of src/src/edb/src/query.c through the blocks of a file and through the
  files stop at the next block with a row in the range, and the cursor visits these rows one after the other:
  an ascending query over a store whose blocks are clean for its range delivers the rows of the files
  and of the log that lie in the range, each once and in the order in which they were stored.
\<close>

section \<open>The search through blocks and files\<close>

text \<open>The rows of the blocks of a file, and of the files, that a query delivers.\<close>

definition sel_blocks :: "COL_TYPE list \<Rightarrow> int \<Rightarrow> int \<Rightarrow> byte list \<Rightarrow> INDEX list \<Rightarrow> byte list list list" where
  "sel_blocks cs s e r ixs = concat (map (\<lambda>ix. sel s e (block_rows cs r ix)) ixs)"

lemma sel_blocks_drop:
  "i < length ixs \<Longrightarrow> sel_blocks cs s e r (drop i ixs) = sel s e (block_rows cs r (ixs ! i)) @ sel_blocks cs s e r (drop (Suc i) ixs)"
  by (simp add: sel_blocks_def Cons_nth_drop_Suc [symmetric])

text \<open>The search that started in \<open>q\<close> found nothing; what was open has been read to its end.\<close>

definition at_end :: "edb_fs \<Rightarrow> query_fd \<Rightarrow> bool" where
  "at_end fs fd \<longleftrightarrow>
     (case fd of
        No_File \<Rightarrow> True
      | Closed_File \<Rightarrow> False
      | Open_File k p \<Rightarrow> (\<exists>ixs. fs_index fs k = Some ixs \<and> length ixs \<le> p))"

definition none_found :: "COL_TYPE list \<Rightarrow> LOG_HEAD \<Rightarrow> int \<Rightarrow> int \<Rightarrow> edb_fs \<Rightarrow> QUERY \<Rightarrow> QUERY \<Rightarrow> bool" where
  "none_found cs h s e fs q q' \<longleftrightarrow>
     query_ok cs h s e q' \<and> frame q' = frame q \<and> qr_logChecked q' = qr_logChecked q \<and>
     qr_curFileIndex q' = qr_curFileIndex q \<and> qr_curDataIndex q' = qr_curDataIndex q \<and>
     qr_curBlockIndex q' = - 1 \<and> qr_endBlockIndex q' = - 1 \<and> at_end fs (qr_indexFd q')"

lemma query_ok_update [simp]:
  "query_ok cs h s e (q\<lparr>qr_indexFd := fd\<rparr>) = query_ok cs h s e q"
  "query_ok cs h s e (q\<lparr>qr_recordFd := fd\<rparr>) = query_ok cs h s e q"
  "query_ok cs h s e (q\<lparr>qr_curBlockIndex := i\<rparr>) = query_ok cs h s e q"
  "query_ok cs h s e (q\<lparr>qr_startBlockIndex := i\<rparr>) = query_ok cs h s e q"
  "query_ok cs h s e (q\<lparr>qr_endBlockIndex := i\<rparr>) = query_ok cs h s e q"
  "query_ok cs h s e (q\<lparr>qr_curFileIndex := i\<rparr>) = query_ok cs h s e q"
  "query_ok cs h s e (q\<lparr>qr_curDataIndex := i\<rparr>) = query_ok cs h s e q"
  "query_ok cs h s e (q\<lparr>qr_startDataIndex := i\<rparr>) = query_ok cs h s e q"
  "query_ok cs h s e (q\<lparr>qr_endDataIndex := i\<rparr>) = query_ok cs h s e q"
  "query_ok cs h s e (q\<lparr>qr_logChecked := b\<rparr>) = query_ok cs h s e q"
  by (simp_all add: query_ok_def)

lemma frame_update [simp]:
  "frame (q\<lparr>qr_indexFd := fd\<rparr>) = frame q"
  "frame (q\<lparr>qr_recordFd := fd\<rparr>) = frame q"
  "frame (q\<lparr>qr_curBlockIndex := i\<rparr>) = frame q"
  "frame (q\<lparr>qr_startBlockIndex := i\<rparr>) = frame q"
  "frame (q\<lparr>qr_endBlockIndex := i\<rparr>) = frame q"
  "frame (q\<lparr>qr_curFileIndex := i\<rparr>) = frame q"
  "frame (q\<lparr>qr_curDataIndex := i\<rparr>) = frame q"
  "frame (q\<lparr>qr_startDataIndex := i\<rparr>) = frame q"
  "frame (q\<lparr>qr_endDataIndex := i\<rparr>) = frame q"
  "frame (q\<lparr>qr_logChecked := b\<rparr>) = frame q"
  by (simp_all add: frame_def)

lemma found_update [simp]:
  "none_found cs h s e fs (q\<lparr>qr_curBlockIndex := i\<rparr>) = none_found cs h s e fs q"
  "none_found cs h s e fs (q\<lparr>qr_indexFd := fd\<rparr>) = none_found cs h s e fs q"
  "block_found cs h s e k j (q\<lparr>qr_curBlockIndex := i\<rparr>) = block_found cs h s e k j q"
  "block_found cs h s e k j (q\<lparr>qr_indexFd := fd\<rparr>) = block_found cs h s e k j q"
  by (simp_all add: none_found_def block_found_def fun_eq_iff)

lemma block_scan:
  assumes store: "queryable en de cs (db_pLogHead db) mem fs s e"
    and files: "fs_index fs k = Some ixs" "fs_record fs k = Some r"
  shows "query_ok cs (db_pLogHead db) s e q \<Longrightarrow> qr_indexFd q = Open_File k p \<Longrightarrow> qr_recordFd q = Open_File k p2 \<Longrightarrow>
    qr_order q = ORDER_ASC \<Longrightarrow> int (length ixs) \<le> stop + 1 \<Longrightarrow> min i (length ixs) \<le> p \<Longrightarrow>
    (if sel_blocks cs s e r (drop i ixs) = [] then
       \<exists>q'. block_loop de fs db ORDER_ASC stop (int i) q = Inr (- 1, q') \<and> none_found cs (db_pLogHead db) s e fs q q'
     else
       \<exists>q' j row rest. block_loop de fs db ORDER_ASC stop (int i) q = Inr (0, q') \<and> j < length ixs \<and>
         sel_blocks cs s e r (drop i ixs) = row # rest @ sel_blocks cs s e r (drop (Suc j) ixs) \<and>
         block_found cs (db_pLogHead db) s e k j q row rest q')"
proof (induction "nat (stop + 1 - int i)" arbitrary: i q p p2 rule: less_induct)
  case less
  let ?h = "db_pLogHead db" and ?q = "q\<lparr>qr_curBlockIndex := int i\<rparr>"
  show ?case
  proof (cases "int i > stop")
    case True
    then have i: "length ixs \<le> i" using less.prems(5) by linarith
    then have "length ixs \<le> p" using less.prems(6) by simp
    with i show ?thesis using less.prems(1-5) True files
      by (subst block_loop.simps) (simp add: past_def sel_blocks_def none_found_def at_end_def)
  next
    case False
    have step: "block_loop de fs db ORDER_ASC stop (int i) q =
        rbind (check_block de fs db ?q) (\<lambda>(code, q2). if code = 0 then Inr (0, q2) else block_loop de fs db ORDER_ASC stop (int (Suc i)) q2)"
      using False by (subst block_loop.simps) (simp add: past_def add.commute cong del: if_weak_cong)
    note at = check_block_at [OF store _ files, of ?q p p2 i, simplified, OF less.prems(1-4)]
    show ?thesis
    proof (cases "i < length ixs \<and> sel s e (block_rows cs r (ixs ! i)) \<noteq> []")
      case True
      then obtain q' row rest where "check_block de fs db ?q = Inr (0, q')" "sel s e (block_rows cs r (ixs ! i)) = row # rest"
          "block_found cs ?h s e k i ?q row rest q'"
        using at by auto
      then show ?thesis using True step by (auto simp: sel_blocks_drop)
    next
      case skip: False
      then obtain p' where chk: "check_block de fs db ?q = Inr (- 1, ?q\<lparr>qr_indexFd := Open_File k p'\<rparr>)" "min (Suc i) (length ixs) \<le> p'"
        using at by auto
      let ?q' = "?q\<lparr>qr_indexFd := Open_File k p'\<rparr>"
      have same: "sel_blocks cs s e r (drop i ixs) = sel_blocks cs s e r (drop (Suc i) ixs)"
        using skip by (cases "i < length ixs") (simp_all add: sel_blocks_drop)
      have shorter: "nat (stop + 1 - int (Suc i)) < nat (stop + 1 - int i)" using False by simp
      have "block_loop de fs db ORDER_ASC stop (int i) q = block_loop de fs db ORDER_ASC stop (int (Suc i)) ?q'"
        unfolding step chk(1) by simp
      with less.hyps [OF shorter, of ?q' p' p2] less.prems chk(2) show ?thesis by (simp add: same del: of_nat_Suc cong del: if_weak_cong)
    qed
  qed
qed

definition sel_file :: "COL_TYPE list \<Rightarrow> int \<Rightarrow> int \<Rightarrow> edb_fs \<Rightarrow> int \<Rightarrow> byte list list list" where
  "sel_file cs s e fs k = sel s e (file_rows cs fs k)"

abbreviation sel_files :: "COL_TYPE list \<Rightarrow> int \<Rightarrow> int \<Rightarrow> edb_fs \<Rightarrow> int list \<Rightarrow> byte list list list" where
  "sel_files cs s e fs ks \<equiv> concat (map (sel_file cs s e fs) ks)"

lemma sel_file_eq:
  "fs_index fs k = Some ixs \<Longrightarrow> fs_record fs k = Some r \<Longrightarrow> sel_file cs s e fs k = sel_blocks cs s e r ixs"
  "fs_index fs k = None \<Longrightarrow> sel_file cs s e fs k = []"
  by (simp_all add: sel_file_def file_rows_def sel_blocks_def filter_concat comp_def)

lemma tiles_length: "tiles en cs r pos ixs \<Longrightarrow> pos + 4 * length cs * length ixs \<le> length r"
proof (induction ixs arbitrary: pos)
  case (Cons ix ixs)
  have sum: "int (4 * length cs) \<le> sum_list (none_lens cs n)" for n by (induction cs) (simp_all add: add_increasing)
  have "ix_colLens ix = none_lens cs (nat (ix_rowCount ix))" using Cons.prems unfolding tiles.simps block_ok_def by blast
  then have "4 * length cs \<le> nat (sum_list (ix_colLens ix))" using sum [of "nat (ix_rowCount ix)"] by (metis nat_int nat_mono)
  moreover have "pos + nat (sum_list (ix_colLens ix)) + 4 * length cs * length ixs \<le> length r" using Cons by simp
  ultimately show ?case by simp
qed simp

text \<open>The number of blocks computed is at least the number of blocks, and fits its type.\<close>

lemma block_count:
  assumes "tiles en cs r 0 ixs" and "cs \<noteq> []" and "length r < 2 ^ 31"
  shows "int (length ixs) \<le> to_int32 (int (length ixs * (sizeof_INDEX + 4 * length cs) div sizeof_INDEX) - 1) + 1"
proof -
  have len: "4 * length cs * length ixs < 2 ^ 31" using tiles_length [OF assms(1)] assms(3) by simp
  have "1 \<le> length cs" using assms(2) by (cases cs) simp_all
  then have "length ixs * (sizeof_INDEX + 4 * length cs) \<le> length ixs * (160 * length cs)"
    by (intro mult_le_mono2) (simp add: sizeof_INDEX_def)
  also have "\<dots> = 4 * length cs * length ixs * sizeof_INDEX" by (simp add: sizeof_INDEX_def)
  finally have "length ixs * (sizeof_INDEX + 4 * length cs) div sizeof_INDEX \<le> 4 * length cs * length ixs * sizeof_INDEX div sizeof_INDEX"
    by (rule div_le_mono)
  then have up: "length ixs * (sizeof_INDEX + 4 * length cs) div sizeof_INDEX \<le> 4 * length cs * length ixs"
    by (simp add: sizeof_INDEX_def)
  have low: "length ixs \<le> length ixs * (sizeof_INDEX + 4 * length cs) div sizeof_INDEX"
    by (simp add: sizeof_INDEX_def algebra_simps)
  have "to_int32 (int (length ixs * (sizeof_INDEX + 4 * length cs) div sizeof_INDEX) - 1) =
      int (length ixs * (sizeof_INDEX + 4 * length cs) div sizeof_INDEX) - 1"
    using up len by (intro to_int32_id) simp_all
  then show ?thesis using low by simp
qed

text \<open>A search without blocks reads nothing.\<close>

lemma check_block_end:
  assumes "at_end fs (qr_indexFd q)" and "qr_curBlockIndex q < 0" and "query_ok cs h s e q" and "0 < s" and "s \<le> e"
  shows "check_block de fs db q = Inr (- 1, q)"
proof (cases "qr_indexFd q")
  case (Open_File k p)
  then have "read_index fs (db_pLogHead db) q = (zero_index (db_pLogHead db), Open_File k p)"
    using assms(1,2) by (auto simp: read_index_def at_end_def)
  moreover have "before_equal (get_block_type 0 0 s e)" using assms(4,5) by (simp add: get_block_type_def)
  moreover have "q\<lparr>qr_indexFd := Open_File k p\<rparr> = q" using Open_File by (cases q) simp
  ultimately show ?thesis using assms(3) Open_File by (simp add: check_block_def zero_index_def query_ok_def)
qed (use assms(1) in \<open>auto simp: check_block_def at_end_def\<close>)

lemma empty_search:
  assumes "at_end fs (qr_indexFd q)" and "query_ok cs h s e q" and "0 < s" and "s \<le> e"
    and "qr_order q = ORDER_ASC" and "qr_curBlockIndex q = - 1" and "qr_endBlockIndex q = - 1"
  shows "\<exists>q'. searchBlockIndex de fs db q = Inr (- 1, q') \<and> none_found cs h s e fs q q'"
proof -
  have q: "q\<lparr>qr_curBlockIndex := - 1\<rparr> = q" using assms(6) by (cases q) simp
  have "check_block de fs db q = Inr (- 1, q)" by (rule check_block_end [OF assms(1) _ assms(2-4)]) (simp add: assms(6))
  then show ?thesis
    unfolding searchBlockIndex_def assms(5-7) using assms
    by (subst block_loop.simps, subst block_loop.simps) (simp add: past_def q none_found_def)
qed

text \<open>The search stopped in file \<open>k\<close>; \<open>rest\<close> are the rows of its later blocks and of the later files.\<close>

definition in_file :: "COL_TYPE list \<Rightarrow> int \<Rightarrow> int \<Rightarrow> edb_fs \<Rightarrow> int \<Rightarrow> QUERY \<Rightarrow> byte list list list \<Rightarrow> bool" where
  "in_file cs s e fs k q rest \<longleftrightarrow>
     (\<exists>ixs r j p. fs_index fs k = Some ixs \<and> fs_record fs k = Some r \<and> j < length ixs \<and> qr_curFileIndex q = k \<and>
       qr_indexFd q = Open_File k (Suc j) \<and> qr_recordFd q = Open_File k p \<and> qr_curBlockIndex q = int j \<and>
       int (length ixs) \<le> qr_endBlockIndex q + 1 \<and> rest = sel_blocks cs s e r (drop (Suc j) ixs))"

definition file_found ::
    "COL_TYPE list \<Rightarrow> LOG_HEAD \<Rightarrow> int \<Rightarrow> int \<Rightarrow> edb_fs \<Rightarrow> int \<Rightarrow> QUERY \<Rightarrow> byte list list list \<Rightarrow> QUERY \<Rightarrow> bool"
where
  "file_found cs h s e fs k q rows q' \<longleftrightarrow>
     (\<exists>row rest1 rest2. rows = row # rest1 @ rest2 \<and> delivering cs (lh_cacheSize h) q' row rest1 \<and> in_file cs s e fs k q' rest2 \<and>
       query_ok cs h s e q' \<and> frame q' = frame q \<and> qr_logChecked q' = qr_logChecked q)"

lemma found_in_file:
  assumes "block_found cs h s e k j q row rest q'" and "fs_index fs k = Some ixs" and "fs_record fs k = Some r" and "j < length ixs"
    and "qr_curFileIndex q = k" and "int (length ixs) \<le> qr_endBlockIndex q + 1"
  shows "file_found cs h s e fs k q (row # rest @ sel_blocks cs s e r (drop (Suc j) ixs)) q'"
  using assms unfolding file_found_def in_file_def block_found_def by fastforce

text \<open>The handle a query leaves: only \<open>curFileIndex\<close> may differ.\<close>

abbreviation same_store :: "DB \<Rightarrow> DB \<Rightarrow> bool" where
  "same_store db db' \<equiv> db_pLogHead db' = db_pLogHead db \<and> db_pLogData db' = db_pLogData db"

lemma checkFile_asc:
  assumes store: "queryable en de cs (db_pLogHead db) mem fs s e" and q: "query_ok cs (db_pLogHead db) s e q"
    and asc: "qr_order q = ORDER_ASC" and fd: "at_end fs (qr_indexFd q)"
  shows "if sel_file cs s e fs (qr_curFileIndex q) = [] then
      \<exists>db' q'. checkFile de fs db q = Inr (- 1, db', q') \<and> same_store db db' \<and> none_found cs (db_pLogHead db) s e fs q q'
    else
      \<exists>db' q'. checkFile de fs db q = Inr (0, db', q') \<and> same_store db db' \<and>
        file_found cs (db_pLogHead db) s e fs (qr_curFileIndex q) q (sel_file cs s e fs (qr_curFileIndex q)) q'"
proof -
  let ?h = "db_pLogHead db" and ?k = "qr_curFileIndex q"
  let ?q1 = "q\<lparr>qr_startBlockIndex := - 1, qr_endBlockIndex := - 1, qr_curBlockIndex := - 1\<rparr>"
  have hd: "head_ok cs ?h" "file_ok en cs fs ?k" "short_files fs" "0 < s" "s \<le> e" using store by (simp_all add: queryable_def)
  obtain logFile where lf: "file_of ?h (lh_startTimestamp ?h) = Inr logFile" using head_ok_file [OF hd(1)] by blast
  let ?db = "db\<lparr>db_curFileIndex := logFile\<rparr>"
  show ?thesis
  proof (cases "fs_index fs ?k")
    case None
    have "\<exists>q'. searchBlockIndex de fs ?db ?q1 = Inr (- 1, q') \<and> none_found cs ?h s e fs ?q1 q'"
      by (rule empty_search) (use q asc fd hd(4,5) in simp_all)
    moreover have "none_found cs ?h s e fs q ?q1" using q fd by (simp add: none_found_def)
    ultimately show ?thesis
      using None lf by (cases "?k = logFile") (auto simp: sel_file_eq(2) checkFile_def none_found_def)
  next
    case (Some ixs)
    then obtain r where r: "fs_record fs ?k = Some r" "tiles en cs r 0 ixs" using hd(2) by (auto simp: file_ok_def split: option.splits)
    have cs: "lh_colCount ?h = length cs" "cs \<noteq> []" using hd(1) by (auto simp: head_ok_def)
    define stop where "stop = to_int32 (int (length ixs * (sizeof_INDEX + 4 * length cs) div sizeof_INDEX) - 1)"
    let ?q2 = "q\<lparr>qr_startBlockIndex := 0, qr_endBlockIndex := stop, qr_curBlockIndex := 0, qr_indexFd := Open_File ?k 0, qr_recordFd := Open_File ?k 0\<rparr>"
    have "length r < 2 ^ 31" using hd(3) r(1) by (auto simp: short_files_def)
    then have count: "int (length ixs) \<le> stop + 1" unfolding stop_def by (rule block_count [OF r(2) cs(2)])
    have chk: "checkFile de fs db q = rbind (searchBlockIndex de fs ?db ?q2) (\<lambda>(code, q'). Inr (if code = 0 then 0 else - 1, ?db, q'))"
      using Some r(1) lf asc cs(1) by (simp add: checkFile_def stop_def Let_def)
    have search: "searchBlockIndex de fs ?db ?q2 = block_loop de fs ?db ORDER_ASC stop (int 0) ?q2"
      using asc by (simp add: searchBlockIndex_def)
    have rows: "sel_file cs s e fs ?k = sel_blocks cs s e r (drop 0 ixs)" by (simp add: sel_file_eq(1) [OF Some r(1)])
    note scan = block_scan [OF _ Some r(1), of en de cs ?db mem s e ?q2 0 0 stop 0, folded search rows]
    show ?thesis
    proof (cases "sel_file cs s e fs ?k = []")
      case True
      then obtain q' where "searchBlockIndex de fs ?db ?q2 = Inr (- 1, q')" "none_found cs ?h s e fs ?q2 q'"
        using scan store q asc count by auto
      then show ?thesis using True chk by (simp add: none_found_def)
    next
      case False
      then obtain q' j row rest where "searchBlockIndex de fs ?db ?q2 = Inr (0, q')" "j < length ixs"
          "sel_file cs s e fs ?k = row # rest @ sel_blocks cs s e r (drop (Suc j) ixs)" "block_found cs ?h s e ?k j ?q2 row rest q'"
        using scan store q asc count by auto
      then show ?thesis using False chk found_in_file [OF _ Some r(1), of cs ?h s e j ?q2 row rest q'] count
        by (auto simp: file_found_def)
    qed
  qed
qed

text \<open>The result of a search through the files from \<open>cur\<close> to \<open>stop\<close>.\<close>

definition scanned ::
    "COL_TYPE list \<Rightarrow> int \<Rightarrow> int \<Rightarrow> edb_fs \<Rightarrow> int \<Rightarrow> int \<Rightarrow> DB \<Rightarrow> QUERY \<Rightarrow> (int \<times> DB \<times> QUERY) res \<Rightarrow> bool"
where
  "scanned cs s e fs stop cur db q res \<longleftrightarrow>
     (if sel_files cs s e fs [cur..stop] = [] then
        \<exists>db' q'. res = Inr (- 1, db', q') \<and> same_store db db' \<and> cur \<le> qr_curFileIndex q' \<and> stop < qr_curFileIndex q' \<and>
          none_found cs (db_pLogHead db) s e fs (q\<lparr>qr_curFileIndex := qr_curFileIndex q'\<rparr>) q'
      else
        \<exists>db' q' k rows. res = Inr (0, db', q') \<and> same_store db db' \<and> cur \<le> k \<and>
          sel_files cs s e fs [cur..stop] = rows @ sel_files cs s e fs [k + 1..stop] \<and>
          file_found cs (db_pLogHead db) s e fs k q rows q')"

lemma scanned_cong:
  "none_found cs h s e fs (q\<lparr>qr_curFileIndex := i\<rparr>) q' \<Longrightarrow> file_found cs h s e fs k q' = file_found cs h s e fs k q"
  "none_found cs h s e fs (q\<lparr>qr_curFileIndex := i\<rparr>) q' \<Longrightarrow>
    none_found cs h s e fs (q'\<lparr>qr_curFileIndex := j\<rparr>) = none_found cs h s e fs (q\<lparr>qr_curFileIndex := j\<rparr>)"
  by (simp_all add: none_found_def file_found_def fun_eq_iff)

lemma scanned_found:
  assumes "same_store db db'" and "cur \<le> k" and "sel_files cs s e fs [cur..stop] = rows @ sel_files cs s e fs [k + 1..stop]"
    and "file_found cs (db_pLogHead db) s e fs k q rows q'"
  shows "scanned cs s e fs stop cur db q (Inr (0, db', q'))"
proof -
  have "sel_files cs s e fs [cur..stop] \<noteq> []" using assms(3,4) by (auto simp: file_found_def)
  then show ?thesis unfolding scanned_def using assms by (simp only: if_False) blast
qed

lemma scanned_skip:
  assumes "scanned cs s e fs stop (cur + 1) db' q' res" and "sel_file cs s e fs cur = []" and "cur \<le> stop"
    and "same_store db db'" and none: "none_found cs (db_pLogHead db) s e fs (q\<lparr>qr_curFileIndex := cur\<rparr>) q'"
  shows "scanned cs s e fs stop cur db q res"
proof -
  have range: "sel_files cs s e fs [cur..stop] = sel_files cs s e fs [cur + 1..stop]"
    using assms(2,3) by (simp add: upto_rec1)
  show ?thesis
  proof (cases "sel_files cs s e fs [cur + 1..stop] = []")
    case True
    then obtain db'' q'' where r: "res = Inr (- 1, db'', q'')" "same_store db db''" "cur \<le> qr_curFileIndex q''" "stop < qr_curFileIndex q''"
        "none_found cs (db_pLogHead db) s e fs (q'\<lparr>qr_curFileIndex := qr_curFileIndex q''\<rparr>) q''"
      using assms(1,4) by (auto simp: scanned_def)
    have "none_found cs (db_pLogHead db) s e fs (q\<lparr>qr_curFileIndex := qr_curFileIndex q''\<rparr>) q''"
      using r(5) unfolding scanned_cong(2) [OF none] .
    with r(1-4) show ?thesis unfolding scanned_def range if_P [OF True] by blast
  next
    case False
    then obtain db'' q'' k rows where r: "res = Inr (0, db'', q'')" "same_store db db''" "cur \<le> k"
        "sel_files cs s e fs [cur + 1..stop] = rows @ sel_files cs s e fs [k + 1..stop]"
        "file_found cs (db_pLogHead db) s e fs k q' rows q''"
      using assms(1,4) unfolding scanned_def if_not_P [OF False] by (metis add_le_cancel_left zle_add1_eq_le add1_zle_eq order_less_imp_le)
    have "file_found cs (db_pLogHead db) s e fs k q rows q''" using r(5) unfolding scanned_cong(1) [OF none] .
    with r(2-4) range show ?thesis unfolding r(1) by (intro scanned_found) simp_all
  qed
qed

lemma file_scan:
  shows "query_ok cs (db_pLogHead db) s e q \<Longrightarrow> queryable en de cs (db_pLogHead db) mem fs s e \<Longrightarrow>
    qr_order q = ORDER_ASC \<Longrightarrow> at_end fs (qr_indexFd q) \<Longrightarrow>
    (stop < cur \<Longrightarrow> qr_curBlockIndex q = - 1 \<and> qr_endBlockIndex q = - 1) \<Longrightarrow>
    scanned cs s e fs stop cur db q (file_loop de fs ORDER_ASC stop cur db q)"
proof (induction "nat (stop + 1 - cur)" arbitrary: cur db q rule: less_induct)
  case less
  let ?h = "db_pLogHead db" and ?q = "q\<lparr>qr_curFileIndex := cur\<rparr>"
  show ?case
  proof (cases "cur > stop")
    case True
    then show ?thesis using less.prems by (subst file_loop.simps) (simp add: past_def none_found_def scanned_def)
  next
    case False
    note chk = checkFile_asc [OF less.prems(2), of ?q, simplified, OF less.prems(1,3,4)]
    have range: "[cur..stop] = cur # [cur + 1..stop]" using False by (simp add: upto_rec1)
    show ?thesis
    proof (cases "sel_file cs s e fs cur = []")
      case True
      then obtain db' q' where c: "checkFile de fs db ?q = Inr (- 1, db', q')" "same_store db db'" "none_found cs ?h s e fs ?q q'"
        using chk by auto
      have eq: "file_loop de fs ORDER_ASC stop cur db q = file_loop de fs ORDER_ASC stop (cur + 1) db' q'"
        using False c(1) by (subst file_loop.simps) (simp add: past_def)
      have "qr_order q' = ORDER_ASC" using c(3) less.prems(3) by (simp add: none_found_def frame_def)
      then have "scanned cs s e fs stop (cur + 1) db' q' (file_loop de fs ORDER_ASC stop (cur + 1) db' q')"
        using c(2,3) False less.prems(2) by (intro less.hyps) (auto simp: none_found_def)
      then show ?thesis unfolding eq by (rule scanned_skip [OF _ True _ c(2,3)]) (use False in simp_all)
    next
      case f: False
      then obtain db' q' where c: "checkFile de fs db ?q = Inr (0, db', q')" "same_store db db'"
          "file_found cs ?h s e fs cur ?q (sel_file cs s e fs cur) q'"
        using chk by auto
      have "file_loop de fs ORDER_ASC stop cur db q = Inr (0, db', q')"
        using False c(1) by (subst file_loop.simps) (simp add: past_def)
      moreover have "file_found cs ?h s e fs cur q (sel_file cs s e fs cur) q'" using c(3) by (simp add: file_found_def)
      moreover have "sel_files cs s e fs [cur..stop] = sel_file cs s e fs cur @ sel_files cs s e fs [cur + 1..stop]"
        using range by simp
      ultimately show ?thesis using scanned_found [OF c(2) order_refl] by simp
    qed
  qed
qed

section \<open>The cursor\<close>

text \<open>The log is delivered last.\<close>

lemma log_holds:
  assumes "head_ok cs h" and "log_ok cs h mem" and "width cs * lh_cacheSize h \<le> length buf"
  obtains buf' where "mem_put buf 0 (take (width cs * lh_cacheSize h) mem) = Inr buf'" and "length buf' = length buf"
    and "holds cs (lh_cacheSize h) buf' (log_rows h mem)"
proof -
  let ?n = "width cs * lh_cacheSize h"
  have mem: "?n \<le> length mem" "lh_curRowCount h \<le> lh_cacheSize h" "lh_colType h = cs" using assms(1,2) by (simp_all add: log_ok_def head_ok_def)
  obtain buf' where buf': "mem_put buf 0 (take ?n mem) = Inr buf'" "length buf' = length buf" "slice buf' 0 (length (take ?n mem)) = take ?n mem"
    by (rule mem_put_ok [of 0 "take ?n mem" buf]) (use assms(3) mem(1) in auto)
  have same: "take ?n buf' = take ?n mem" using buf'(3) mem(1) by (simp add: slice_def)
  have cut: "slice xs pos len = slice (take ?n xs) pos len" if "pos + len \<le> ?n" for pos len and xs :: "byte list"
    using that by (simp add: slice_def drop_take min_def)
  have "row_at buf' (layout (lh_cacheSize h) 0 cs) j = row_at mem (layout (lh_cacheSize h) 0 cs) j" if j: "j < lh_curRowCount h" for j
  proof -
    have "slice buf' (p + s * j) s = slice mem (p + s * j) s" if "(p, s) \<in> set (layout (lh_cacheSize h) 0 cs)" for p s
    proof -
      have "p + s * j + s \<le> ?n"
        using layout_bounds [OF that] row_in_column [of j "lh_cacheSize h" s] j mem(2) by linarith
      from cut [OF this, of buf'] cut [OF this, of mem] show ?thesis by (simp only: same)
    qed
    then show ?thesis unfolding row_at_def by (auto intro!: map_cong)
  qed
  then show ?thesis using that [OF buf'(1,2)] mem buf'(2) assms(3) by (simp add: holds_def log_rows_def)
qed

lemma check_log_asc:
  assumes store: "queryable en de cs (db_pLogHead db) (db_pLogData db) fs s e" and q: "query_ok cs (db_pLogHead db) s e q"
    and asc: "qr_order q = ORDER_ASC"
  shows "if sel s e (log_rows (db_pLogHead db) (db_pLogData db)) = [] then check_log db q = Inr (- 1, q\<lparr>qr_logChecked := True\<rparr>)
    else \<exists>q' row rest. check_log db q = Inr (0, q') \<and> sel s e (log_rows (db_pLogHead db) (db_pLogData db)) = row # rest \<and>
      delivering cs (lh_cacheSize (db_pLogHead db)) q' row rest \<and> query_ok cs (db_pLogHead db) s e q' \<and> frame q' = frame q \<and>
      qr_logChecked q' \<and> qr_curFileIndex q' = qr_curFileIndex q \<and> qr_curBlockIndex q' = qr_curBlockIndex q \<and>
      qr_endBlockIndex q' = qr_endBlockIndex q"
proof -
  let ?h = "db_pLogHead db" and ?mem = "db_pLogData db"
  let ?rows = "log_rows ?h ?mem" and ?type = "get_block_type (lh_startTimestamp ?h) (lh_endTimestamp ?h) s e"
  have st: "head_ok cs ?h" "log_ok cs ?h ?mem" "s \<le> e" "0 < s" "lh_rowSize ?h = width cs" "\<exists>cs'. cs = COL_TYPE_TIMESTAMP # cs'"
    using store by (auto simp: queryable_def head_ok_def)
  show ?thesis
  proof (cases "before_equal ?type")
    case True
    have "sel s e ?rows = []"
    proof (cases "lh_curRowCount ?h = 0")
      case False
      then have "block_times s e ?rows (lh_startTimestamp ?h) (lh_endTimestamp ?h)" using store by (simp add: queryable_def)
      then show ?thesis using skipped_none [of s e "map row_ts ?rows"] True st(3) by (auto simp: block_times_def map_ends filter_empty_conv)
    qed (simp add: log_rows_def)
    then show ?thesis using True q by (simp add: check_log_def query_ok_def)
  next
    case False
    have "lh_curRowCount ?h \<noteq> 0"
    proof
      assume "lh_curRowCount ?h = 0"
      then have "lh_startTimestamp ?h = 0" "lh_endTimestamp ?h = 0" using store by (simp_all add: queryable_def)
      then show False using False st(3,4) by (simp add: get_block_type_def)
    qed
    then have times: "block_times s e ?rows (lh_startTimestamp ?h) (lh_endTimestamp ?h)" using store by (simp add: queryable_def)
    obtain buf where buf: "mem_put (qr_buf q) 0 (take (width cs * lh_cacheSize ?h) ?mem) = Inr buf" "length buf = length (qr_buf q)"
        "holds cs (lh_cacheSize ?h) buf ?rows"
      by (rule log_holds [OF st(1,2)]) (use q in \<open>auto simp: query_ok_def\<close>)
    let ?q = "q\<lparr>qr_logChecked := True, qr_buf := buf, qr_rowCount := int (lh_curRowCount ?h)\<rparr>"
    have q': "qr_startTimestamp ?q = s" "qr_endTimestamp ?q = e" "qr_rowCount ?q = int (length ?rows)" "qr_buf ?q = buf" "qr_order ?q = ORDER_ASC"
      using q asc by (simp_all add: query_ok_def log_rows_def)
    obtain a b where ab: "set_data_index ?type ?q = Inr (at_rows (int a) (int b) ?q)"
        "a \<le> b" "b < length ?rows" "\<And>i. i < length ?rows \<Longrightarrow> in_range s e (row_ts (?rows ! i)) \<longleftrightarrow> a \<le> i \<and> i \<le> b"
      by (rule select_rows [OF times, of cs "lh_cacheSize ?h" ?q]) (use buf(3) q' st(3,6) False in auto)
    obtain row rest where row: "sel s e ?rows = row # rest" "delivering cs (lh_cacheSize ?h) (at_rows (int a) (int b) ?q) row rest"
      by (rule delivering_at_rows [OF q'(5) _ ab(2-4)]) (use buf(3) q'(4) in auto)
    have "copy_bytes ?mem 0 (width cs * lh_cacheSize ?h) = Inr (take (width cs * lh_cacheSize ?h) ?mem)"
      using st(2) by (simp add: copy_bytes_def log_ok_def)
    then have "check_log db q = Inr (0, at_rows (int a) (int b) ?q)"
      using False buf(1) ab(1) q st(5) by (simp add: check_log_def query_ok_def Let_def)
    then show ?thesis using row q buf(2) by (auto simp: frame_def query_ok_def)
  qed
qed

text \<open>
  The cursor stands on \<open>row\<close>, with \<open>rest\<close> to come: in a file, with the later blocks, the later files and the
  log before it, or in the log.
\<close>

definition cursor ::
    "COL_TYPE list \<Rightarrow> LOG_HEAD \<Rightarrow> byte list \<Rightarrow> edb_fs \<Rightarrow> int \<Rightarrow> int \<Rightarrow> QUERY \<Rightarrow> byte list list \<Rightarrow> byte list list list \<Rightarrow> bool"
where
  "cursor cs h mem fs s e q row rest \<longleftrightarrow>
     query_ok cs h s e q \<and> qr_order q = ORDER_ASC \<and>
     (\<exists>rest1. delivering cs (lh_cacheSize h) q row rest1 \<and>
       ((\<exists>k rest2. \<not> qr_logChecked q \<and> 0 \<le> k \<and> in_file cs s e fs k q rest2 \<and>
           rest = rest1 @ rest2 @ sel_files cs s e fs [k + 1..qr_endFileIndex q] @ sel s e (log_rows h mem)) \<or>
        qr_logChecked q \<and> 0 \<le> qr_curFileIndex q \<and> qr_endFileIndex q < qr_curFileIndex q \<and>
          qr_curBlockIndex q = - 1 \<and> qr_endBlockIndex q = - 1 \<and> rest = rest1))"

text \<open>A step that is to deliver \<open>rows\<close> ends when there are none, and otherwise stands on the first.\<close>

definition delivers ::
    "COL_TYPE list \<Rightarrow> edb_fs \<Rightarrow> int \<Rightarrow> int \<Rightarrow> byte list list list \<Rightarrow> DB \<Rightarrow> (int \<times> DB \<times> QUERY) res \<Rightarrow> bool"
where
  "delivers cs fs s e rows db res \<longleftrightarrow>
     (case rows of
        [] \<Rightarrow> \<exists>db' q'. res = Inr (- 1, db', q')
      | row # rest \<Rightarrow> \<exists>db' q'. res = Inr (0, db', q') \<and> same_store db db' \<and> cursor cs (db_pLogHead db) (db_pLogData db) fs s e q' row rest)"

lemma delivers_same: "same_store db db' \<Longrightarrow> delivers cs fs s e rows db' res = delivers cs fs s e rows db res"
  by (simp add: delivers_def split: list.split)

lemma or_next_simps [simp]:
  "or_next (Inr (0, db, q)) f = Inr (0, db, q)"
  "code \<noteq> 0 \<Longrightarrow> or_next (Inr (code, db, q)) f = f db q"
  by (simp_all add: or_next_def)

definition log_tail :: "DB \<Rightarrow> QUERY \<Rightarrow> (int \<times> DB \<times> QUERY) res" where
  "log_tail db q = or_next (next_row db q) (\<lambda>db q. or_next (try_log ORDER_ASC db q) (\<lambda>db q. Inr (- 1, db, q)))"

lemma log_tail_delivers:
  assumes "queryable en de cs (db_pLogHead db) (db_pLogData db) fs s e" and "query_ok cs (db_pLogHead db) s e q"
    and "qr_order q = ORDER_ASC" and "qr_curDataIndex q = - 1" and "\<not> qr_logChecked q"
    and "0 \<le> qr_curFileIndex q" and "qr_endFileIndex q < qr_curFileIndex q" and "qr_curBlockIndex q = - 1" and "qr_endBlockIndex q = - 1"
  shows "delivers cs fs s e (sel s e (log_rows (db_pLogHead db) (db_pLogData db))) db (log_tail db q)"
proof (cases "sel s e (log_rows (db_pLogHead db) (db_pLogData db)) = []")
  case True
  then show ?thesis
    using check_log_asc [OF assms(1-3)] assms(3-5) by (simp add: delivers_def log_tail_def next_row_def try_log_def)
next
  case False
  then obtain q' row rest where "check_log db q = Inr (0, q')" "sel s e (log_rows (db_pLogHead db) (db_pLogData db)) = row # rest"
      "delivering cs (lh_cacheSize (db_pLogHead db)) q' row rest" "query_ok cs (db_pLogHead db) s e q'" "frame q' = frame q"
      "qr_logChecked q'" "qr_curFileIndex q' = qr_curFileIndex q" "qr_curBlockIndex q' = qr_curBlockIndex q" "qr_endBlockIndex q' = qr_endBlockIndex q"
    using check_log_asc [OF assms(1-3)] by auto
  then show ?thesis
    using assms(3-9) by (auto simp: delivers_def log_tail_def next_row_def try_log_def cursor_def frame_def)
qed

text \<open>The search through the remaining files, with the log after them.\<close>

lemma files_deliver:
  assumes store: "queryable en de cs (db_pLogHead db) (db_pLogData db) fs s e" and "query_ok cs (db_pLogHead db) s e q"
    and asc: "qr_order q = ORDER_ASC" and "at_end fs (qr_indexFd q)" and "qr_curDataIndex q = - 1" and "\<not> qr_logChecked q"
    and cur: "qr_curFileIndex q = cur" "0 \<le> cur" and "qr_endFileIndex q < cur \<Longrightarrow> qr_curBlockIndex q = - 1 \<and> qr_endBlockIndex q = - 1"
    and tail: "\<And>db' q'. qr_curDataIndex q' = - 1 \<Longrightarrow> f db' q' = log_tail db' q'"
  shows "delivers cs fs s e (sel_files cs s e fs [cur..qr_endFileIndex q] @ sel s e (log_rows (db_pLogHead db) (db_pLogData db))) db
    (or_next (searchFileIndex de fs db q) f)"
proof -
  let ?h = "db_pLogHead db" and ?mem = "db_pLogData db" and ?stop = "qr_endFileIndex q"
  have scan: "scanned cs s e fs ?stop cur db q (searchFileIndex de fs db q)"
    using file_scan [OF assms(2) store asc assms(4), of ?stop cur] assms(9) asc cur(1) by (simp add: searchFileIndex_def)
  show ?thesis
  proof (cases "sel_files cs s e fs [cur..?stop] = []")
    case True
    then obtain db' q' where r: "searchFileIndex de fs db q = Inr (- 1, db', q')" "same_store db db'" "cur \<le> qr_curFileIndex q'"
        "?stop < qr_curFileIndex q'" "none_found cs ?h s e fs (q\<lparr>qr_curFileIndex := qr_curFileIndex q'\<rparr>) q'"
      using scan by (auto simp: scanned_def)
    then have "delivers cs fs s e (sel s e (log_rows (db_pLogHead db') (db_pLogData db'))) db' (log_tail db' q')"
      using assms(3,5,6) store cur by (intro log_tail_delivers) (auto simp: none_found_def frame_def)
    moreover have "f db' q' = log_tail db' q'" using r(5) assms(5) by (intro tail) (simp add: none_found_def)
    moreover have "or_next (searchFileIndex de fs db q) f = f db' q'" by (simp add: r(1))
    ultimately show ?thesis unfolding True append_Nil by (simp add: delivers_same [OF r(2)] r(2))
  next
    case False
    then obtain db' q' k rows where r: "searchFileIndex de fs db q = Inr (0, db', q')" "same_store db db'" "cur \<le> k"
        "sel_files cs s e fs [cur..?stop] = rows @ sel_files cs s e fs [k + 1..?stop]" "file_found cs ?h s e fs k q rows q'"
      using scan unfolding scanned_def if_not_P [OF False] by blast
    obtain row rest1 rest2 where f: "rows = row # rest1 @ rest2" "delivering cs (lh_cacheSize ?h) q' row rest1" "in_file cs s e fs k q' rest2"
        "query_ok cs ?h s e q'" "frame q' = frame q" "qr_logChecked q' = qr_logChecked q"
      using r(5) by (auto simp: file_found_def)
    have "qr_endFileIndex q' = ?stop" "qr_order q' = ORDER_ASC" using f(5) asc by (simp_all add: frame_def)
    then have "cursor cs ?h ?mem fs s e q' row (rest1 @ rest2 @ sel_files cs s e fs [k + 1..?stop] @ sel s e (log_rows ?h ?mem))"
      using f(2-6) assms(6) cur(2) r(3) unfolding cursor_def by (intro conjI exI [of _ rest1] disjI1 exI [of _ k] exI [of _ rest2]) simp_all
    then show ?thesis using r(1,2,4) f(1) by (simp add: delivers_def)
  qed
qed

lemma move_next_asc:
  assumes "qr_order q = ORDER_ASC"
  shows "move_next de fs db q = or_next (first_file de fs db q) (\<lambda>db q. or_next (next_block de fs db q) log_tail)"
  using assms by (simp add: move_next_def try_log_def log_tail_def [abs_def])

lemma next_block_skip: "qr_curDataIndex q = - 1 \<Longrightarrow> or_next (next_block de fs db q) log_tail = log_tail db q"
  by (simp add: next_block_def)

lemma move_first:
  assumes "queryable en de cs (db_pLogHead db) (db_pLogData db) fs s e" and "query_ok cs (db_pLogHead db) s e q"
    and "qr_order q = ORDER_ASC" and "qr_indexFd q = No_File" and "qr_curDataIndex q = - 1" and "\<not> qr_logChecked q"
    and "qr_curFileIndex q = - 1" and "0 \<le> qr_startFileIndex q" and "qr_startFileIndex q \<le> qr_endFileIndex q"
  shows "delivers cs fs s e (sel_files cs s e fs [qr_startFileIndex q..qr_endFileIndex q] @ sel s e (log_rows (db_pLogHead db) (db_pLogData db))) db
    (move_next de fs db q)"
proof -
  let ?q = "q\<lparr>qr_curFileIndex := qr_startFileIndex q\<rparr>"
  have "move_next de fs db q = or_next (searchFileIndex de fs db ?q) (\<lambda>db q. or_next (next_block de fs db q) log_tail)"
    using assms by (simp add: move_next_asc first_file_def)
  moreover have "delivers cs fs s e (sel_files cs s e fs [qr_startFileIndex q..qr_endFileIndex ?q] @ sel s e (log_rows (db_pLogHead db) (db_pLogData db))) db
      (or_next (searchFileIndex de fs db ?q) (\<lambda>db q. or_next (next_block de fs db q) log_tail))"
    by (rule files_deliver [OF assms(1)]) (use assms in \<open>simp_all add: next_block_skip at_end_def\<close>)
  ultimately show ?thesis by simp
qed

lemma delivering_step:
  assumes "delivering cs cache q row (row' # rest)" and "query_ok cs h s e q"
  shows "qr_curDataIndex q \<noteq> - 1" and "qr_curDataIndex q \<noteq> qr_endDataIndex q"
    and "delivering cs cache (q\<lparr>qr_curDataIndex := qr_curDataIndex q + 1\<rparr>) row' rest"
proof -
  obtain rows j b where d: "holds cs cache (qr_buf q) rows" "j \<le> b" "b < length rows" "qr_curDataIndex q = int j" "qr_endDataIndex q = int b"
      "row = rows ! j" "row' # rest = drop (Suc j) (take (Suc b) rows)"
    using assms(1) by (auto simp: delivering_def)
  then show "qr_curDataIndex q \<noteq> - 1" by simp
  have "Suc j \<noteq> Suc b"
  proof
    assume "Suc j = Suc b"
    then have "drop (Suc j) (take (Suc b) rows) = []" by simp
    with d(7) show False by simp
  qed
  then have b: "Suc j \<le> b" using d(2) by simp
  then show "qr_curDataIndex q \<noteq> qr_endDataIndex q" using d(4,5) by simp
  have "drop (Suc j) (take (Suc b) rows) = rows ! Suc j # drop (Suc (Suc j)) (take (Suc b) rows)"
    using b d(3) by (subst Cons_nth_drop_Suc [symmetric]) simp_all
  then show "delivering cs cache (q\<lparr>qr_curDataIndex := qr_curDataIndex q + 1\<rparr>) row' rest"
    unfolding delivering_def using d b by (intro exI [of _ rows] exI [of _ "Suc j"] exI [of _ b]) simp
qed

lemma delivering_last:
  assumes "delivering cs cache q row []"
  shows "qr_curDataIndex q \<noteq> - 1" and "qr_curDataIndex q = qr_endDataIndex q"
  using assms by (auto simp: delivering_def)

lemma or_next_assoc: "or_next (or_next m f) g = or_next m (\<lambda>db q. or_next (f db q) g)"
  by (cases m) (auto simp: or_next_def split: prod.split)

lemma in_file_update [simp]:
  "in_file cs s e fs k (q\<lparr>qr_curDataIndex := i\<rparr>) = in_file cs s e fs k q"
  "in_file cs s e fs k (q\<lparr>qr_startDataIndex := i\<rparr>) = in_file cs s e fs k q"
  "in_file cs s e fs k (q\<lparr>qr_endDataIndex := i\<rparr>) = in_file cs s e fs k q"
  by (simp_all add: in_file_def fun_eq_iff)

text \<open>Within a block the cursor steps to the next row.\<close>

lemma move_in_block:
  assumes cur: "cursor cs (db_pLogHead db) (db_pLogData db) fs s e q row rest"
    and row: "delivering cs (lh_cacheSize (db_pLogHead db)) q row (row' # rest1)" and cache: "lh_cacheSize (db_pLogHead db) < 2 ^ 16"
  shows "move_next de fs db q = Inr (0, db, q\<lparr>qr_curDataIndex := qr_curDataIndex q + 1\<rparr>)"
proof -
  have q: "query_ok cs (db_pLogHead db) s e q" "qr_order q = ORDER_ASC" using cur by (simp_all add: cursor_def)
  note step = delivering_step [OF row q(1)]
  from step(3) obtain rows j where "holds cs (lh_cacheSize (db_pLogHead db)) (qr_buf q) rows" "qr_curDataIndex q + 1 = int j" "j < length rows"
    unfolding delivering_def by (auto simp: holds_def)
  then have "- (2 ^ 31) \<le> qr_curDataIndex q + 1" "qr_curDataIndex q + 1 < 2 ^ 31" using cache by (simp_all add: holds_def)
  then show ?thesis using step(1,2) q
    by (simp add: move_next_asc first_file_def next_block_def log_tail_def next_row_def)
qed

text \<open>Behind the last row of a block the search goes on with the next block, then with the next file.\<close>

lemma move_next_block:
  assumes store: "queryable en de cs (db_pLogHead db) (db_pLogData db) fs s e" and q: "query_ok cs (db_pLogHead db) s e q" "qr_order q = ORDER_ASC"
    and last: "delivering cs (lh_cacheSize (db_pLogHead db)) q row []" and log: "\<not> qr_logChecked q"
    and k: "0 \<le> k" "in_file cs s e fs k q rest"
  shows "delivers cs fs s e (rest @ sel_files cs s e fs [k + 1..qr_endFileIndex q] @ sel s e (log_rows (db_pLogHead db) (db_pLogData db))) db
    (move_next de fs db q)"
proof -
  let ?h = "db_pLogHead db" and ?mem = "db_pLogData db"
  obtain ixs r j p where f: "fs_index fs k = Some ixs" "fs_record fs k = Some r" "j < length ixs" "qr_curFileIndex q = k"
      "qr_indexFd q = Open_File k (Suc j)" "qr_recordFd q = Open_File k p" "qr_curBlockIndex q = int j"
      "int (length ixs) \<le> qr_endBlockIndex q + 1" "rest = sel_blocks cs s e r (drop (Suc j) ixs)"
    using k(2) unfolding in_file_def by blast
  let ?q = "q\<lparr>qr_curDataIndex := - 1, qr_startDataIndex := - 1, qr_endDataIndex := - 1, qr_curBlockIndex := int (Suc j)\<rparr>"
  let ?next = "\<lambda>db q2. or_next (searchFileIndex de fs db (q2\<lparr>qr_curFileIndex := qr_curFileIndex q2 + order_step (qr_order q2)\<rparr>)) log_tail"
  have move: "move_next de fs db q =
      or_next (rbind (block_loop de fs db ORDER_ASC (qr_endBlockIndex q) (int (Suc j)) ?q) (\<lambda>(code, q2). Inr (code, db, q2))) ?next"
    using delivering_last [OF last] q f(4,7) k(1)
    by (simp add: move_next_asc first_file_def next_block_def searchBlockIndex_def or_next_assoc add.commute)
  note scan = block_scan [OF store f(1,2), of ?q "Suc j" p "qr_endBlockIndex q" "Suc j"]
  show ?thesis
  proof (cases "rest = []")
    case True
    then obtain q2 where r: "block_loop de fs db ORDER_ASC (qr_endBlockIndex q) (int (Suc j)) ?q = Inr (- 1, q2)" "none_found cs ?h s e fs ?q q2"
      using scan q f by auto
    have q2: "qr_order q2 = ORDER_ASC" "qr_curFileIndex q2 = k" "qr_endFileIndex q2 = qr_endFileIndex q" "query_ok cs ?h s e q2"
        "at_end fs (qr_indexFd q2)" "qr_curDataIndex q2 = - 1" "\<not> qr_logChecked q2" "qr_curBlockIndex q2 = - 1" "qr_endBlockIndex q2 = - 1"
      using r(2) q log f(4) by (auto simp: none_found_def frame_def)
    have "move_next de fs db q = or_next (searchFileIndex de fs db (q2\<lparr>qr_curFileIndex := k + 1\<rparr>)) log_tail"
      unfolding move r(1) using q2 by simp
    moreover have "delivers cs fs s e (sel_files cs s e fs [k + 1..qr_endFileIndex (q2\<lparr>qr_curFileIndex := k + 1\<rparr>)] @ sel s e (log_rows ?h ?mem)) db
        (or_next (searchFileIndex de fs db (q2\<lparr>qr_curFileIndex := k + 1\<rparr>)) log_tail)"
      by (rule files_deliver [OF store]) (use q2 k(1) in simp_all)
    ultimately show ?thesis using True q2(3) by simp
  next
    case False
    then obtain q' i row' rest' where r: "block_loop de fs db ORDER_ASC (qr_endBlockIndex q) (int (Suc j)) ?q = Inr (0, q')" "i < length ixs"
        "rest = row' # rest' @ sel_blocks cs s e r (drop (Suc i) ixs)" "block_found cs ?h s e k i ?q row' rest' q'"
      using scan q f by auto
    have "move_next de fs db q = Inr (0, db, q')" unfolding move r(1) by simp
    moreover have "in_file cs s e fs k q' (sel_blocks cs s e r (drop (Suc i) ixs))"
      using r(2,4) f(1,2,4,8) unfolding in_file_def block_found_def by fastforce
    then have "cursor cs ?h ?mem fs s e q' row' (rest' @ sel_blocks cs s e r (drop (Suc i) ixs) @ sel_files cs s e fs [k + 1..qr_endFileIndex q'] @ sel s e (log_rows ?h ?mem))"
      using r(4) q log k(1) unfolding cursor_def block_found_def frame_def
      by (intro conjI exI [of _ rest'] disjI1 exI [of _ k] exI [of _ "sel_blocks cs s e r (drop (Suc i) ixs)"]) simp_all
    moreover have "qr_endFileIndex q' = qr_endFileIndex q" using r(4) by (simp add: block_found_def frame_def)
    ultimately show ?thesis using r(3) by (simp add: delivers_def)
  qed
qed

text \<open>Behind the last row of the log the query is over.\<close>

lemma move_end:
  assumes q: "query_ok cs h s e q" "qr_order q = ORDER_ASC" and last: "delivering cs cache q row []" and log: "qr_logChecked q"
    and ended: "0 \<le> qr_curFileIndex q" "qr_endFileIndex q < qr_curFileIndex q" "qr_curBlockIndex q = - 1" "qr_endBlockIndex q = - 1"
  shows "\<exists>db' q'. move_next de fs db q = Inr (- 1, db', q')"
proof -
  let ?q = "q\<lparr>qr_curDataIndex := - 1, qr_startDataIndex := - 1, qr_endDataIndex := - 1, qr_curBlockIndex := 0\<rparr>"
  have "searchBlockIndex de fs db ?q = Inr (- 1, ?q\<lparr>qr_curBlockIndex := - 1, qr_startBlockIndex := - 1, qr_endBlockIndex := - 1\<rparr>)"
    using q assms(8) by (simp add: searchBlockIndex_def block_loop.simps [of _ _ _ _ _ 0] past_def)
  then show ?thesis using delivering_last [OF last] assms
    by (simp add: move_next_asc first_file_def next_block_def searchFileIndex_def file_loop.simps past_def log_tail_def next_row_def try_log_def)
qed

lemma move_cursor:
  assumes store: "queryable en de cs (db_pLogHead db) (db_pLogData db) fs s e"
    and cur: "cursor cs (db_pLogHead db) (db_pLogData db) fs s e q row rest"
  shows "delivers cs fs s e rest db (move_next de fs db q)"
proof -
  let ?h = "db_pLogHead db" and ?mem = "db_pLogData db"
  have q: "query_ok cs ?h s e q" "qr_order q = ORDER_ASC" using cur by (simp_all add: cursor_def)
  obtain rest1 where d: "delivering cs (lh_cacheSize ?h) q row rest1" and place:
      "(\<exists>k rest2. \<not> qr_logChecked q \<and> 0 \<le> k \<and> in_file cs s e fs k q rest2 \<and>
         rest = rest1 @ rest2 @ sel_files cs s e fs [k + 1..qr_endFileIndex q] @ sel s e (log_rows ?h ?mem)) \<or>
       qr_logChecked q \<and> 0 \<le> qr_curFileIndex q \<and> qr_endFileIndex q < qr_curFileIndex q \<and>
         qr_curBlockIndex q = - 1 \<and> qr_endBlockIndex q = - 1 \<and> rest = rest1"
    using cur unfolding cursor_def by blast
  show ?thesis
  proof (cases rest1)
    case (Cons row' rest1')
    let ?q = "q\<lparr>qr_curDataIndex := qr_curDataIndex q + 1\<rparr>"
    have move: "move_next de fs db q = Inr (0, db, ?q)" by (rule move_in_block [OF cur d [unfolded Cons]]) (use store in \<open>simp add: queryable_def head_ok_def\<close>)
    from place have "\<exists>rest'. rest = row' # rest' \<and> cursor cs ?h ?mem fs s e ?q row' rest'"
    proof
      assume "\<exists>k rest2. \<not> qr_logChecked q \<and> 0 \<le> k \<and> in_file cs s e fs k q rest2 \<and>
         rest = rest1 @ rest2 @ sel_files cs s e fs [k + 1..qr_endFileIndex q] @ sel s e (log_rows ?h ?mem)"
      then obtain k rest2 where k: "\<not> qr_logChecked q" "0 \<le> k" "in_file cs s e fs k q rest2"
          "rest = rest1 @ rest2 @ sel_files cs s e fs [k + 1..qr_endFileIndex q] @ sel s e (log_rows ?h ?mem)"
        by blast
      then have "cursor cs ?h ?mem fs s e ?q row' (rest1' @ rest2 @ sel_files cs s e fs [k + 1..qr_endFileIndex q] @ sel s e (log_rows ?h ?mem))"
        unfolding cursor_def using q delivering_step(3) [OF d [unfolded Cons] q(1)]
        by (intro conjI exI [of _ rest1'] disjI1 exI [of _ k] exI [of _ rest2]) simp_all
      then show ?thesis using k(4) Cons by simp
    qed (use q delivering_step(3) [OF d [unfolded Cons] q(1)] Cons in \<open>auto simp: cursor_def\<close>)
    with move show ?thesis by (auto simp: delivers_def)
  next
    case Nil
    from place show ?thesis
    proof
      assume "\<exists>k rest2. \<not> qr_logChecked q \<and> 0 \<le> k \<and> in_file cs s e fs k q rest2 \<and>
         rest = rest1 @ rest2 @ sel_files cs s e fs [k + 1..qr_endFileIndex q] @ sel s e (log_rows ?h ?mem)"
      then show ?thesis using move_next_block [OF store q d [unfolded Nil]] Nil by auto
    next
      assume "qr_logChecked q \<and> 0 \<le> qr_curFileIndex q \<and> qr_endFileIndex q < qr_curFileIndex q \<and>
         qr_curBlockIndex q = - 1 \<and> qr_endBlockIndex q = - 1 \<and> rest = rest1"
      then show ?thesis using move_end [OF q d [unfolded Nil]] Nil by (auto simp: delivers_def)
    qed
  qed
qed

section \<open>Reading a query to its end\<close>

text \<open>
  A client that calls \<open>move_next\<close> until it fails and fetches every column of each row. The number bounds the
  calls, \<open>None\<close> is a client still reading when it is exhausted.
\<close>

fun fetch_cols :: "DB \<Rightarrow> QUERY \<Rightarrow> nat list \<Rightarrow> byte list list res" where
  "fetch_cols db q [] = Inr []"
| "fetch_cols db q (i # is) =
     rbind (fetch_col db q i) (\<lambda>p.
     rbind (deref p) (\<lambda>p.
     rbind (if p < 0 then Inl Out_Of_Bounds else copy_bytes (qr_buf q) (nat p) (gColTypeSize (lh_colType (db_pLogHead db) ! i))) (\<lambda>v.
     rbind (fetch_cols db q is) (\<lambda>vs. Inr (v # vs)))))"

definition fetch_row :: "DB \<Rightarrow> QUERY \<Rightarrow> byte list list res" where
  "fetch_row db q = fetch_cols db q [0..<lh_colCount (db_pLogHead db)]"

fun read_all :: "nat \<Rightarrow> edb_dec \<Rightarrow> edb_fs \<Rightarrow> DB \<Rightarrow> QUERY \<Rightarrow> byte list list list res option" where
  "read_all 0 de fs db q = None"
| "read_all (Suc n) de fs db q =
     (case move_next de fs db q of
        Inl e \<Rightarrow> Some (Inl e)
      | Inr (code, db', q') \<Rightarrow>
          if code \<noteq> 0 then Some (Inr [])
          else
            (case fetch_row db' q' of
               Inl e \<Rightarrow> Some (Inl e)
             | Inr row \<Rightarrow> map_option (\<lambda>r. rbind r (\<lambda>rows. Inr (row # rows))) (read_all n de fs db' q')))"

lemma layout_nth:
  "i < length cs \<Longrightarrow> layout cache pos cs ! i = (pos + sum_list (map (\<lambda>c. gColTypeSize c * cache) (take i cs)), gColTypeSize (cs ! i))"
proof (induction cs arbitrary: i pos)
  case (Cons c cs)
  then show ?case by (cases i) simp_all
qed simp

lemma length_layout [simp]: "length (layout cache pos cs) = length cs"
  by (induction cs arbitrary: pos) simp_all

lemma fetch_row_ok:
  assumes hd: "head_ok cs (db_pLogHead db)" and d: "delivering cs (lh_cacheSize (db_pLogHead db)) q row rest"
  shows "fetch_row db q = Inr row"
proof -
  let ?h = "db_pLogHead db" and ?lay = "layout (lh_cacheSize (db_pLogHead db)) 0 cs"
  have h: "lh_colType ?h = cs" "lh_colCount ?h = length cs" using hd by (simp_all add: head_ok_def)
  obtain rows j where j: "holds cs (lh_cacheSize ?h) (qr_buf q) rows" "j < length rows" "qr_curDataIndex q = int j" "row = rows ! j"
    using d unfolding delivering_def by (blast intro: le_less_trans)
  then have row: "row = row_at (qr_buf q) ?lay j" by (simp add: holds_def)
  let ?col = "\<lambda>i. slice (qr_buf q) (fst (?lay ! i) + snd (?lay ! i) * j) (snd (?lay ! i))"
  have cols: "fetch_cols db q is = Inr (map ?col is)" if "set is \<subseteq> {..<length cs}" for "is"
    using that
  proof (induction "is")
    case (Cons i "is")
    let ?p = "fst (?lay ! i)" and ?s = "snd (?lay ! i)"
    have i: "i < length cs" using Cons.prems by simp
    then have "?lay ! i \<in> set ?lay" by (intro nth_mem) simp
    then have "?p + ?s * lh_cacheSize ?h \<le> width cs * lh_cacheSize ?h" using layout_bounds [of ?p ?s "lh_cacheSize ?h" 0 cs] by simp
    moreover have "?s * j + ?s \<le> ?s * lh_cacheSize ?h" using j(1,2) by (intro row_in_column) (simp add: holds_def)
    ultimately have "?p + ?s * j + ?s \<le> length (qr_buf q)" using j(1) by (simp add: holds_def)
    moreover have "fetch_col db q i = Inr (Some (int (?p + ?s * j)))"
      using i h j(3) by (simp add: fetch_col_def layout_nth Let_def)
    moreover have "gColTypeSize (lh_colType ?h ! i) = ?s" using i h by (simp add: layout_nth)
    ultimately show ?case using Cons by (simp add: copy_bytes_def slice_def del: of_nat_add of_nat_mult)
  qed simp
  have "map ?col [0..<length cs] = row_at (qr_buf q) ?lay j"
    by (rule nth_equalityI) (simp_all add: row_at_def case_prod_beta)
  moreover have "fetch_cols db q [0..<length cs] = Inr (map ?col [0..<length cs])" by (rule cols) auto
  ultimately show ?thesis unfolding fetch_row_def h row by (simp only:)
qed

lemma read_cursor:
  assumes "queryable en de cs (db_pLogHead db) (db_pLogData db) fs s e" and "delivers cs fs s e rows db (move_next de fs db q)"
    and "length rows < n"
  shows "read_all n de fs db q = Some (Inr rows)"
  using assms
proof (induction rows arbitrary: n db q)
  case Nil
  then show ?case by (cases n) (auto simp: delivers_def)
next
  case (Cons row rows)
  obtain m where m: "n = Suc m" "length rows < m" using Cons.prems(3) by (cases n) auto
  obtain db' q' where r: "move_next de fs db q = Inr (0, db', q')" "same_store db db'"
      "cursor cs (db_pLogHead db) (db_pLogData db) fs s e q' row rows"
    using Cons.prems(2) by (auto simp: delivers_def)
  have store: "queryable en de cs (db_pLogHead db') (db_pLogData db') fs s e" using Cons.prems(1) r(2) by simp
  have "delivers cs fs s e rows db' (move_next de fs db' q')" by (rule move_cursor [OF store]) (use r(2,3) in simp)
  then have "read_all m de fs db' q' = Some (Inr rows)" using Cons.IH store m(2) by blast
  moreover obtain rest1 where "delivering cs (lh_cacheSize (db_pLogHead db')) q' row rest1" using r(2,3) by (auto simp: cursor_def)
  then have "fetch_row db' q' = Inr row" using store by (intro fetch_row_ok) (simp_all add: queryable_def)
  ultimately show ?case using r(1) m(1) by simp
qed


lemma opened_query:
  assumes "open_query taosParseTime now True content (Some db) t1 t2 ORDER_ASC = Inr (Some q)"
    and "head_ok cs (db_pLogHead db)" and "lh_rowSize (db_pLogHead db) = width cs"
    and "0 < qr_startTimestamp q"
  shows "query_ok cs (db_pLogHead db) (qr_startTimestamp q) (qr_endTimestamp q) q" and "qr_order q = ORDER_ASC"
    and "qr_indexFd q = No_File" and "qr_curDataIndex q = - 1" and "\<not> qr_logChecked q" and "qr_curFileIndex q = - 1"
    and "file_of (db_pLogHead db) (qr_startTimestamp q) = Inr (qr_startFileIndex q)"
    and "file_of (db_pLogHead db) (qr_endTimestamp q) = Inr (qr_endFileIndex q)"
    and "0 \<le> qr_startFileIndex q" and "qr_startFileIndex q \<le> qr_endFileIndex q"
proof -
  show *: "query_ok cs (db_pLogHead db) (qr_startTimestamp q) (qr_endTimestamp q) q" "qr_order q = ORDER_ASC"
    "qr_indexFd q = No_File" "qr_curDataIndex q = - 1" "\<not> qr_logChecked q" "qr_curFileIndex q = - 1"
    "file_of (db_pLogHead db) (qr_startTimestamp q) = Inr (qr_startFileIndex q)"
    "file_of (db_pLogHead db) (qr_endTimestamp q) = Inr (qr_endFileIndex q)"
    using assms(1,3) by (auto simp: open_query_def query_ok_def Let_def rbind_eq_Inr split: option.splits if_splits)
  have le: "qr_startTimestamp q \<le> qr_endTimestamp q"
    using assms(1) by (auto simp: open_query_def Let_def rbind_eq_Inr split: option.splits if_splits)
  let ?w = "int (lh_hoursPerFile (db_pLogHead db)) * gMillisecondOfHour"
  have "0 < ?w" using assms(2) by (simp add: head_ok_def gMillisecondOfHour_def)
  then have "qr_startFileIndex q = qr_startTimestamp q div ?w" "qr_endFileIndex q = qr_endTimestamp q div ?w"
    using *(7,8) assms(2,4) le by (auto simp: file_of_def head_ok_def signed_divide_int_def)
  then show "0 \<le> qr_startFileIndex q" "qr_startFileIndex q \<le> qr_endFileIndex q"
    using \<open>0 < ?w\<close> assms(4) le by (simp_all add: zdiv_mono1 pos_imp_zdiv_nonneg_iff)
qed

lemma read_query:
  assumes store: "queryable en de cs (db_pLogHead db) (db_pLogData db) fs (qr_startTimestamp q) (qr_endTimestamp q)"
    and q: "open_query taosParseTime now True content (Some db) strStart strEnd ORDER_ASC = Inr (Some q)"
    and rows: "rows = filter (\<lambda>row. in_range (qr_startTimestamp q) (qr_endTimestamp q) (row_ts row))
      (concat (map (file_rows cs fs) [qr_startFileIndex q..qr_endFileIndex q]) @ log_rows (db_pLogHead db) (db_pLogData db))"
    and n: "length rows < n"
  shows "read_all n de fs db q = Some (Inr rows)"
proof -
  have st: "head_ok cs (db_pLogHead db)" "lh_rowSize (db_pLogHead db) = width cs" "0 < qr_startTimestamp q"
    using store by (simp_all add: queryable_def)
  note op = opened_query [OF q st]
  have "rows = sel_files cs (qr_startTimestamp q) (qr_endTimestamp q) fs [qr_startFileIndex q..qr_endFileIndex q] @
      sel (qr_startTimestamp q) (qr_endTimestamp q) (log_rows (db_pLogHead db) (db_pLogData db))"
    by (simp add: rows filter_concat comp_def sel_file_def [abs_def])
  then show ?thesis
    using move_first [OF store op(1-6) op(9,10)] n by (intro read_cursor [OF store]) simp_all
qed

text \<open>
  An ascending query over a well-formed store of columns without compression delivers, to a client that reads it to the end, exactly
  the rows of the files and of the log whose time lies in its range, file by file, block by block and row by row in the order in which they
  were stored, and then ends, although the number of blocks of a file is computed too large. The time stamps of every block and of
  the log have to ascend and to be clean for the range: it does not begin with the first or end with the last of them and does not
  fall between two of them.\<close>

lemma query_delivers:
  assumes store: "queryable en de cs (db_pLogHead db) (db_pLogData db) fs (qr_startTimestamp q) (qr_endTimestamp q)"
    and q: "open_query taosParseTime now True content (Some db) strStart strEnd ORDER_ASC = Inr (Some q)"
    and files: "file_of (db_pLogHead db) (qr_startTimestamp q) = Inr startFile" "file_of (db_pLogHead db) (qr_endTimestamp q) = Inr endFile"
    and rows: "rows = filter (\<lambda>row. qr_startTimestamp q \<le> row_ts row \<and> row_ts row \<le> qr_endTimestamp q)
      (concat (map (file_rows cs fs) [startFile..endFile]) @ log_rows (db_pLogHead db) (db_pLogData db))"
    and n: "length rows < n"
  shows "read_all n de fs db q = Some (Inr rows)"
proof -
  have "file_of (db_pLogHead db) (qr_startTimestamp q) = Inr (qr_startFileIndex q)" "file_of (db_pLogHead db) (qr_endTimestamp q) = Inr (qr_endFileIndex q)"
    by (rule opened_query(7,8) [OF q]; use store in \<open>simp add: queryable_def\<close>)+
  then have "qr_startFileIndex q = startFile" "qr_endFileIndex q = endFile" using files by simp_all
  then show ?thesis using n unfolding rows by (intro read_query [OF store q]) simp_all
qed

end
