(* ===== verification/EdbHistory.thy ===== *)
theory EdbHistory
  imports EdbScan
begin

text \<open>
  The embedded store as a history of rows: rows put with ascending times into a new store are what an
  ascending query delivers. \<open>timed\<close> relates a store to its history; every save and every row keeps it, and
  it gives what EdbScan needs of the blocks.
\<close>

section \<open>A store and its history\<close>

text \<open>A block is a part of the history, with the times of its first and its last row.\<close>

definition block_of :: "byte list list list \<Rightarrow> byte list list list \<Rightarrow> int \<Rightarrow> int \<Rightarrow> bool" where
  "block_of H rows start stop \<longleftrightarrow>
     rows \<noteq> [] \<and> start = row_ts (hd rows) \<and> stop = row_ts (last rows) \<and> (\<exists>u v. H = u @ rows @ v)"

abbreviation in_file_no :: "LOG_HEAD \<Rightarrow> int \<Rightarrow> byte list list list \<Rightarrow> byte list list list" where
  "in_file_no h k rows \<equiv> filter (\<lambda>row. file_of h (row_ts row) = Inr k) rows"

definition saved :: "COL_TYPE list \<Rightarrow> LOG_HEAD \<Rightarrow> edb_fs \<Rightarrow> byte list list list \<Rightarrow> bool" where
  "saved cs h fs u \<longleftrightarrow>
     (\<forall>k. file_rows cs fs k = in_file_no h k u) \<and>
     (\<forall>k ixs r ix. fs_index fs k = Some ixs \<longrightarrow> fs_record fs k = Some r \<longrightarrow> ix \<in> set ixs \<longrightarrow>
       ix_rowCount ix \<le> int (lh_cacheSize h) \<and> block_of u (block_rows cs r ix) (ix_startTimestamp ix) (ix_endTimestamp ix))"

definition timed :: "COL_TYPE list \<Rightarrow> LOG_HEAD \<Rightarrow> byte list \<Rightarrow> edb_fs \<Rightarrow> byte list list list \<Rightarrow> bool" where
  "timed cs h mem fs H \<longleftrightarrow>
     sorted_wrt (<) (map row_ts H) \<and> (\<exists>u. H = u @ log_rows h mem \<and> saved cs h fs u) \<and>
     (\<forall>row \<in> set (log_rows h mem). file_of h (row_ts row) = file_of h (lh_startTimestamp h)) \<and>
     (if lh_curRowCount h = 0 then lh_startTimestamp h = 0 \<and> lh_endTimestamp h = 0
      else block_of H (log_rows h mem) (lh_startTimestamp h) (lh_endTimestamp h))"

lemma block_of_append: "block_of H rows a b \<Longrightarrow> block_of (H @ v) rows a b"
  unfolding block_of_def by (metis append_assoc)

lemma log_rows_empty [simp]: "log_rows (empty_log h) mem = []"
  by (simp add: log_rows_def)

lemma length_log_rows [simp]: "length (log_rows h mem) = lh_curRowCount h"
  by (simp add: log_rows_def)

text \<open>Saving moves the rows of the log to the files.\<close>

lemma save_saved:
  assumes u: "saved cs h fs u" and log: "\<forall>row \<in> set rows. file_of h (row_ts row) = Inr k"
    and files: "fs_record fs k = None \<and> r = [] \<and> ixs = [] \<or> fs_record fs k = Some r \<and> fs_index fs k = Some ixs"
    and old: "file_rows cs fs k = concat (map (block_rows cs r) ixs)" "map (block_rows cs (r @ b)) ixs = map (block_rows cs r) ixs"
    and new: "block_rows cs (r @ b) ix = rows" "ix_rowCount ix \<le> int (lh_cacheSize h)" "block_of (u @ rows) rows (ix_startTimestamp ix) (ix_endTimestamp ix)"
  shows "saved cs h (fs\<lparr>fs_index := (fs_index fs)(k \<mapsto> ixs @ [ix]), fs_record := (fs_record fs)(k \<mapsto> r @ b)\<rparr>) (u @ rows)"
  (is "saved cs h ?fs _")
proof -
  have "file_rows cs ?fs k = concat (map (block_rows cs (r @ b)) ixs) @ rows" using new(1) by (simp add: file_rows_def)
  then have here: "file_rows cs ?fs k = in_file_no h k (u @ rows)"
    using u log by (simp only: old flip: old(1)) (simp add: saved_def)
  have other: "file_rows cs ?fs j = in_file_no h j (u @ rows)" if "j \<noteq> k" for j
  proof -
    have "in_file_no h j rows = []" using log that by (auto simp: filter_empty_conv)
    moreover have "file_rows cs ?fs j = file_rows cs fs j" using that by (simp add: file_rows_def)
    ultimately show ?thesis using u by (simp add: saved_def)
  qed
  have blocks: "ix_rowCount i \<le> int (lh_cacheSize h) \<and> block_of (u @ rows) (block_rows cs r' i) (ix_startTimestamp i) (ix_endTimestamp i)"
    if "fs_index ?fs j = Some ixs'" "fs_record ?fs j = Some r'" "i \<in> set ixs'" for j ixs' r' i
  proof (cases "j = k")
    case False
    then show ?thesis using u that by (auto simp: saved_def intro: block_of_append)
  next
    case k: True
    then have r': "r' = r @ b" "ixs' = ixs @ [ix]" using that(1,2) by simp_all
    show ?thesis
    proof (cases "i \<in> set ixs")
      case True
      then have "fs_record fs k = Some r" "fs_index fs k = Some ixs" "block_rows cs (r @ b) i = block_rows cs r i"
        using files old(2) by auto
      then show ?thesis using u True r' by (auto simp: saved_def intro: block_of_append)
    next
      case False
      then show ?thesis using that(3) r' new by simp
    qed
  qed
  have "file_rows cs ?fs j = in_file_no h j (u @ rows)" for j using here other by (cases "j = k") simp_all
  then show ?thesis unfolding saved_def using blocks by blast
qed

lemma saved_cong: "file_of h' = file_of h \<Longrightarrow> lh_cacheSize h' = lh_cacheSize h \<Longrightarrow> saved cs h' = saved cs h"
  by (simp add: saved_def fun_eq_iff)

lemma save_timed:
  assumes ok: "edb_ok en cs db fs" and env: "same_crc en en" "en_malloc en" "short_files fs" and n: "0 < lh_curRowCount (db_pLogHead db)"
    and H: "timed cs (db_pLogHead db) (db_pLogData db) fs H" and save: "saveToFile en db fs = Inr (db', fs')"
  shows "timed cs (db_pLogHead db') (db_pLogData db') fs' H"
proof -
  let ?h = "db_pLogHead db" and ?rows = "log_rows (db_pLogHead db) (db_pLogData db)"
  obtain u where u: "H = u @ ?rows" "saved cs ?h fs u" using H by (auto simp: timed_def)
  have blk: "block_of H ?rows (lh_startTimestamp ?h) (lh_endTimestamp ?h)" "sorted_wrt (<) (map row_ts H)"
    using H n by (simp_all add: timed_def)
  have count: "lh_curRowCount ?h \<le> lh_cacheSize ?h" using ok by (simp add: edb_ok_def log_ok_def)
  obtain k ixs r ix b where s: "saveToFile en db fs = Inr
      (\<lparr>db_pLogHead = empty_log ?h, db_pLogData = db_pLogData db, db_recordFd = Some k, db_indexFd = Some k, db_curFileIndex = k\<rparr>,
       fs\<lparr>fs_index := (fs_index fs)(k \<mapsto> ixs @ [ix]), fs_record := (fs_record fs)(k \<mapsto> r @ b)\<rparr>)"
      "file_of ?h (lh_startTimestamp ?h) = Inr k"
      "fs_record fs k = None \<and> r = [] \<and> ixs = [] \<or> fs_record fs k = Some r \<and> fs_index fs k = Some ixs"
      "file_rows cs fs k = concat (map (block_rows cs r) ixs)" "map (block_rows cs (r @ b)) ixs = map (block_rows cs r) ixs"
      "block_rows cs (r @ b) ix = ?rows" "ix_rowCount ix = int (lh_curRowCount ?h)"
      "ix_startTimestamp ix = lh_startTimestamp ?h" "ix_endTimestamp ix = lh_endTimestamp ?h"
    by (rule save_shape [OF ok env(1,2) n env(3)])
  have "\<forall>row \<in> set ?rows. file_of ?h (row_ts row) = Inr k" using H s(2) by (simp add: timed_def)
  then have "saved cs ?h fs' (u @ ?rows)"
    using save_saved [OF u(2) _ s(3-6)] s(1,7-9) save count blk(1) u(1) by simp
  then have "saved cs (empty_log ?h) fs' H" using u(1) saved_cong [of "empty_log ?h" ?h] by simp
  then show ?thesis using save s(1) blk(2) by (auto simp: timed_def)
qed

text \<open>A row extends the history.\<close>

lemma row_ts_new: "time_ok h st \<Longrightarrow> row_ts (new_row cs st pData) = st"
  by (simp add: row_ts_def time_ok_def)

lemma put_timed:
  assumes H: "timed cs h mem fs H" and rows: "log_rows (next_head st h) mem' = log_rows h mem @ [row]"
    and later: "\<forall>r \<in> set H. row_ts r < row_ts row" and ts: "row_ts row = st"
    and same: "0 < lh_curRowCount h \<Longrightarrow> file_of h (lh_startTimestamp h) = file_of h st"
  shows "timed cs (next_head st h) mem' fs (H @ [row])"
proof -
  let ?log = "log_rows h mem"
  obtain u where u: "H = u @ ?log" "saved cs h fs u" using H by (auto simp: timed_def)
  have "length (log_rows (next_head st h) mem') = Suc (lh_curRowCount h)" using rows by simp
  then have count: "lh_curRowCount (next_head st h) = Suc (lh_curRowCount h)" by (simp only: length_log_rows)
  have filed: "file_of (next_head st h) = file_of h" by simp
  have cong: "saved cs (next_head st h) = saved cs h" by (rule saved_cong) simp_all
  have "sorted_wrt (<) (map row_ts H)" using H by (simp add: timed_def)
  then have "sorted_wrt (<) (map row_ts (H @ [row]))" using later by (simp add: sorted_wrt_append)
  moreover have "\<exists>u. H @ [row] = u @ log_rows (next_head st h) mem' \<and> saved cs (next_head st h) fs u"
    using u rows cong by (intro exI [of _ u]) (simp only: append_assoc)
  moreover have "\<forall>r \<in> set (log_rows (next_head st h) mem'). file_of h (row_ts r) = file_of h (lh_startTimestamp (next_head st h))"
    using H rows ts same by (cases "lh_curRowCount h = 0") (auto simp: timed_def log_rows_def)
  moreover have "block_of (H @ [row]) (log_rows (next_head st h) mem') (lh_startTimestamp (next_head st h)) (lh_endTimestamp (next_head st h))"
  proof (cases "lh_curRowCount h = 0")
    case True
    then show ?thesis using u(1) rows ts by (auto simp: block_of_def log_rows_def [of h])
  next
    case False
    then have "block_of H ?log (lh_startTimestamp h) (lh_endTimestamp h)" using H by (simp add: timed_def)
    then show ?thesis using False u(1) rows ts by (auto simp: block_of_def)
  qed
  ultimately show ?thesis unfolding timed_def filed using count by simp
qed

text \<open>The settings of a store, which no operation changes.\<close>

abbreviation same_settings :: "DB \<Rightarrow> DB \<Rightarrow> bool" where
  "same_settings db db' \<equiv> empty_log (db_pLogHead db') = empty_log (db_pLogHead db)"

lemma settings:
  assumes "empty_log h' = empty_log h"
  shows "file_of h' = file_of h" and "time_ok h' = time_ok h" and "lh_cacheSize h' = lh_cacheSize h" and "lh_rowSize h' = lh_rowSize h"
proof -
  have "file_of (empty_log h') = file_of (empty_log h)" "time_ok (empty_log h') = time_ok (empty_log h)"
      "lh_cacheSize (empty_log h') = lh_cacheSize (empty_log h)" "lh_rowSize (empty_log h') = lh_rowSize (empty_log h)"
    using assms by simp_all
  then show "file_of h' = file_of h" "time_ok h' = time_ok h" "lh_cacheSize h' = lh_cacheSize h" "lh_rowSize h' = lh_rowSize h"
    by simp_all
qed

text \<open>A store between two calls of \<open>put_db\<close>.\<close>

definition at_rest :: "edb_env \<Rightarrow> COL_TYPE list \<Rightarrow> DB \<Rightarrow> edb_fs \<Rightarrow> byte list list list \<Rightarrow> bool" where
  "at_rest en cs db fs H \<longleftrightarrow>
     edb_ok en cs db fs \<and> lh_curRowCount (db_pLogHead db) < lh_cacheSize (db_pLogHead db) \<and>
     timed cs (db_pLogHead db) (db_pLogData db) fs H"

lemma put_at_rest:
  assumes rest: "at_rest en (COL_TYPE_TIMESTAMP # cs) db fs H" and env: "same_crc en en" "en_malloc en" "short_files fs"
    and st: "time_ok (db_pLogHead db) st" and pData: "width cs \<le> length pData" and later: "\<forall>r \<in> set H. row_ts r < st"
  obtains db' fs' where "put_db en st pData (Some db) fs = Inr (0, Some db', fs')" and "same_settings db db'"
    and "at_rest en (COL_TYPE_TIMESTAMP # cs) db' fs' (H @ [new_row cs st pData])"
proof -
  let ?cs = "COL_TYPE_TIMESTAMP # cs" and ?h = "db_pLogHead db" and ?row = "new_row cs st pData"
  have ok: "edb_ok en ?cs db fs" and room: "lh_curRowCount ?h < lh_cacheSize ?h" and H: "timed ?cs ?h (db_pLogData db) fs H"
    using rest by (simp_all add: at_rest_def)
  have hd: "head_ok ?cs ?h" using ok by (simp add: edb_ok_def)
  obtain k where k: "file_of ?h st = Inr k" using head_ok_file [OF hd] by blast
  have ts: "row_ts ?row = st" by (rule row_ts_new [OF st])
  show ?thesis
  proof (rule put_db_steps [OF ok room env st k pData])
    fix db1 :: DB and fs1 :: edb_fs and mem
    let ?db = "db1\<lparr>db_pLogHead := next_head st (db_pLogHead db1), db_pLogData := mem\<rparr>"
    assume n: "0 < lh_curRowCount ?h" "1 < lh_cacheSize ?h" and s: "saveToFile en db fs = Inr (db1, fs1)" and h: "db_pLogHead db1 = empty_log ?h"
      and ok1: "edb_ok en ?cs db1 fs1" and mem: "put_row (db_pLogHead db1) st pData (db_pLogData db1) = Inr mem"
      and put: "put_db en st pData (Some db) fs = Inr (0, Some ?db, fs1)"
    have H1: "timed ?cs (db_pLogHead db1) (db_pLogData db1) fs1 H" by (rule save_timed [OF ok env n(1) H s])
    have h1: "lh_curRowCount (db_pLogHead db1) < lh_cacheSize (db_pLogHead db1)" "time_ok (db_pLogHead db1) st" "file_of (db_pLogHead db1) st = Inr k"
        "\<not> 0 < lh_curRowCount (db_pLogHead db1)"
      using h st k n(2) by simp_all
    note log = put_log_at [OF ok1 h1(1-3) _ pData mem]
    have "timed ?cs (next_head st (db_pLogHead db1)) mem fs1 (H @ [?row])"
      by (rule put_timed [OF H1]) (use h1(4) log(3) later ts in auto)
    with h1(4) log(1) have "at_rest en ?cs ?db fs1 (H @ [?row])" using h n(2) by (simp add: at_rest_def)
    then show ?thesis using h by (intro that [OF put]) simp_all
  next
    fix mem
    let ?db = "db\<lparr>db_pLogHead := next_head st ?h, db_pLogData := mem\<rparr>"
    assume same: "0 < lh_curRowCount ?h \<Longrightarrow> file_of ?h (lh_startTimestamp ?h) = Inr k"
      and mem: "put_row ?h st pData (db_pLogData db) = Inr mem"
      and put: "put_db en st pData (Some db) fs =
        rbind (if lh_cacheSize ?h \<le> Suc (lh_curRowCount ?h) then saveToFile en ?db fs else Inr (?db, fs)) (\<lambda>(db3, fs3). Inr (0, Some db3, fs3))"
    note log = put_log_at [OF ok room st k same pData mem]
    have T: "timed ?cs (next_head st ?h) mem fs (H @ [?row])" by (rule put_timed [OF H]) (use log(3) later ts same k in auto)
    have count: "lh_curRowCount (next_head st ?h) = Suc (lh_curRowCount ?h)" using room hd by (simp add: head_ok_def)
    show ?thesis
    proof (cases "lh_cacheSize ?h \<le> Suc (lh_curRowCount ?h)")
      case True
      have pos: "0 < lh_curRowCount (db_pLogHead ?db)" using count by simp
      obtain db3 fs3 where s: "saveToFile en ?db fs = Inr (db3, fs3)" "edb_ok en ?cs db3 fs3" "db_pLogHead db3 = empty_log (db_pLogHead ?db)"
        by (rule save_ok [OF log(1) env(1,2) pos env(3)])
      have T': "timed ?cs (db_pLogHead ?db) (db_pLogData ?db) fs (H @ [?row])" using T by simp
      have "timed ?cs (db_pLogHead db3) (db_pLogData db3) fs3 (H @ [?row])"
        by (rule save_timed [OF log(1) env pos T' s(1)])
      then have "at_rest en ?cs db3 fs3 (H @ [?row])" using s(2,3) room by (simp add: at_rest_def)
      moreover have "put_db en st pData (Some db) fs = Inr (0, Some db3, fs3)" using put True s(1) by simp
      ultimately show ?thesis using s(3) by (intro that) simp_all
    next
      case False
      then have "at_rest en ?cs ?db fs (H @ [?row])" using log(1) T count by (simp add: at_rest_def)
      moreover have "put_db en st pData (Some db) fs = Inr (0, Some ?db, fs)" using put False by simp
      ultimately show ?thesis by (intro that) simp_all
    qed
  qed
qed

section \<open>The size of the files\<close>

lemma sum_lens: "sum_list (none_lens cs n) = int (width cs * n + 4 * length cs)"
  by (induction cs) (simp_all add: algebra_simps)

lemma tiles_total:
  "tiles en cs r pos ixs \<Longrightarrow> \<forall>ix \<in> set ixs. 0 < ix_rowCount ix \<Longrightarrow>
    length r \<le> pos + length (concat (map (block_rows cs r) ixs)) * (width cs + 4 * length cs)"
proof (induction ixs arbitrary: pos)
  case (Cons ix ixs)
  let ?n = "nat (ix_rowCount ix)" and ?w = "width cs" and ?c = "4 * length cs"
  have "ix_colLens ix = none_lens cs ?n" using Cons.prems(1) unfolding tiles.simps block_ok_def by blast
  then have size: "nat (sum_list (ix_colLens ix)) = ?w * ?n + ?c" by (simp only: sum_lens nat_int)
  have "0 < ix_rowCount ix" using Cons.prems(2) by simp
  then have "1 \<le> ?n" by linarith
  then have "?c * 1 \<le> ?c * ?n" by (rule mult_le_mono2)
  then have "?w * ?n + ?c \<le> ?n * (?w + ?c)" by (simp add: algebra_simps)
  moreover have "length r \<le> pos + nat (sum_list (ix_colLens ix)) + length (concat (map (block_rows cs r) ixs)) * (?w + ?c)"
    using Cons by simp
  ultimately show ?case unfolding size by (simp add: add_mult_distrib)
qed simp

lemma timed_short:
  assumes ok: "edb_ok en cs db fs" and H: "timed cs (db_pLogHead db) (db_pLogData db) fs H"
    and small: "length H * (width cs + 4 * length cs) < 2 ^ 31"
  shows "short_files fs"
  unfolding short_files_def
proof (intro allI impI)
  fix k r assume r: "fs_record fs k = Some r"
  have "file_ok en cs fs k" using ok by (simp add: edb_ok_def)
  then obtain ixs where ixs: "fs_index fs k = Some ixs" "tiles en cs r 0 ixs" using r by (auto simp: file_ok_def split: option.splits)
  obtain u where u: "H = u @ log_rows (db_pLogHead db) (db_pLogData db)" "saved cs (db_pLogHead db) fs u" using H by (auto simp: timed_def)
  have "0 < ix_rowCount ix" if "ix \<in> set ixs" for ix
  proof -
    have "block_rows cs r ix \<noteq> []" using u(2) ixs(1) r that by (auto simp: saved_def block_of_def)
    then show ?thesis by (auto simp: block_rows_def)
  qed
  then have "length r \<le> length (concat (map (block_rows cs r) ixs)) * (width cs + 4 * length cs)" using tiles_total [OF ixs(2)] by simp
  also have "concat (map (block_rows cs r) ixs) = in_file_no (db_pLogHead db) k u"
  proof -
    have "file_rows cs fs k = in_file_no (db_pLogHead db) k u" using u(2) by (simp add: saved_def)
    then show ?thesis using ixs(1) r by (simp add: file_rows_def)
  qed
  also have "length (in_file_no (db_pLogHead db) k u) * (width cs + 4 * length cs) \<le> length H * (width cs + 4 * length cs)"
    using length_filter_le [of _ u] u(1) by (intro mult_le_mono1) (simp add: le_add1 trans_le_add1)
  finally show "length r < 2 ^ 31" using small by simp
qed

section \<open>Many rows\<close>

fun put_all :: "edb_env \<Rightarrow> (int \<times> byte list) list \<Rightarrow> DB \<Rightarrow> edb_fs \<Rightarrow> (DB \<times> edb_fs) res" where
  "put_all en [] db fs = Inr (db, fs)"
| "put_all en ((st, pData) # ops) db fs =
     rbind (put_db en st pData (Some db) fs) (\<lambda>(code, handle, fs').
     rbind (deref handle) (\<lambda>db'. put_all en ops db' fs'))"

abbreviation rows_put :: "COL_TYPE list \<Rightarrow> (int \<times> byte list) list \<Rightarrow> byte list list list" where
  "rows_put cs ops \<equiv> map (\<lambda>(st, pData). new_row cs st pData) ops"

lemma put_all_at_rest:
  assumes env: "same_crc en en" "en_malloc en"
  shows "at_rest en (COL_TYPE_TIMESTAMP # cs) db fs H \<Longrightarrow>
    \<forall>(st, pData) \<in> set ops. time_ok (db_pLogHead db) st \<and> width cs \<le> length pData \<Longrightarrow>
    sorted_wrt (<) (map row_ts H @ map fst ops) \<Longrightarrow>
    (length H + length ops) * (width (COL_TYPE_TIMESTAMP # cs) + 4 * Suc (length cs)) < 2 ^ 31 \<Longrightarrow>
    \<exists>db' fs'. put_all en ops db fs = Inr (db', fs') \<and> same_settings db db' \<and>
      at_rest en (COL_TYPE_TIMESTAMP # cs) db' fs' (H @ rows_put cs ops)"
proof (induction ops arbitrary: db fs H)
  case (Cons op ops)
  let ?cs = "COL_TYPE_TIMESTAMP # cs"
  obtain st pData where op: "op = (st, pData)" by (cases op)
  have rest: "edb_ok en ?cs db fs" "timed ?cs (db_pLogHead db) (db_pLogData db) fs H" using Cons.prems(1) by (simp_all add: at_rest_def)
  have "length H * (width ?cs + 4 * length ?cs) \<le> (length H + length (op # ops)) * (width ?cs + 4 * Suc (length cs))" by (intro mult_le_mono) simp_all
  then have short: "short_files fs" using Cons.prems(4) by (intro timed_short [OF rest]) simp
  have st: "time_ok (db_pLogHead db) st" "width cs \<le> length pData" using Cons.prems(2) op by auto
  have later: "\<forall>r \<in> set H. row_ts r < st" using Cons.prems(3) op by (auto simp: sorted_wrt_append)
  obtain db1 fs1 where p: "put_db en st pData (Some db) fs = Inr (0, Some db1, fs1)" "same_settings db db1"
      "at_rest en ?cs db1 fs1 (H @ [new_row cs st pData])"
    by (rule put_at_rest [OF Cons.prems(1) env short st later])
  have "row_ts (new_row cs st pData) = st" by (rule row_ts_new [OF st(1)])
  then have "\<exists>db' fs'. put_all en ops db1 fs1 = Inr (db', fs') \<and> same_settings db1 db' \<and>
      at_rest en ?cs db' fs' ((H @ [new_row cs st pData]) @ rows_put cs ops)"
    using Cons.prems(2-4) settings(2) [OF p(2)] op by (intro Cons.IH [OF p(3)]) auto
  then show ?case using p(1,2) op by auto
qed simp

section \<open>A query over a history\<close>

lemma block_clean:
  assumes H: "sorted_wrt (<) (map row_ts H)" and blk: "block_of H rows start stop"
    and "s \<notin> row_ts ` set H" and "e \<notin> row_ts ` set H" and "row \<in> set H" and "in_range s e (row_ts row)"
  shows "block_times s e rows start stop"
proof -
  obtain u v where uv: "H = u @ rows @ v" "rows \<noteq> []" using blk by (auto simp: block_of_def)
  have T: "sorted_wrt (<) (map row_ts rows)" using H uv(1) by (simp add: sorted_wrt_append)
  have "hd rows \<in> set H" "last rows \<in> set H" using uv by simp_all
  then have ends: "row_ts (hd rows) \<noteq> s" "row_ts (last rows) \<noteq> e" using assms(3,4) by blast+
  have "row \<in> set rows" if "row_ts (hd rows) < s" "e < row_ts (last rows)"
  proof (rule ccontr)
    assume "row \<notin> set rows"
    then have "row \<in> set u \<or> row \<in> set v" using assms(5) uv(1) by simp
    then have "row_ts row < row_ts (hd rows) \<or> row_ts (last rows) < row_ts row" using H uv by (auto simp: sorted_wrt_append)
    then show False using that assms(6) by linarith
  qed
  then have "clean s e (map row_ts rows)" using T ends uv(2) assms(6) by (auto simp: clean_def map_ends)
  then show ?thesis using blk by (simp add: block_times_def block_of_def)
qed

lemma history_queryable:
  assumes rest: "at_rest en cs db fs H" and "same_crc en (ed_env de)" and "short_files fs" and "length cs \<le> 32"
    and "lh_rowSize (db_pLogHead db) = width cs" and "0 < s" and "s \<le> e"
    and range: "s \<notin> row_ts ` set H" "e \<notin> row_ts ` set H" "row \<in> set H" "in_range s e (row_ts row)"
  shows "queryable en de cs (db_pLogHead db) (db_pLogData db) fs s e"
proof -
  let ?h = "db_pLogHead db" and ?mem = "db_pLogData db"
  have ok: "edb_ok en cs db fs" and H: "timed cs ?h ?mem fs H" using rest by (simp_all add: at_rest_def)
  obtain u where u: "H = u @ log_rows ?h ?mem" "saved cs ?h fs u" and sorted: "sorted_wrt (<) (map row_ts H)" using H by (auto simp: timed_def)
  note times = block_clean [OF sorted _ range]
  have blocks: "ix_rowCount ix \<le> int (lh_cacheSize ?h) \<and> block_times s e (block_rows cs r ix) (ix_startTimestamp ix) (ix_endTimestamp ix)"
    if "fs_index fs k = Some ixs" "fs_record fs k = Some r" "ix \<in> set ixs" for k ixs r ix
  proof -
    have "ix_rowCount ix \<le> int (lh_cacheSize ?h)" "block_of u (block_rows cs r ix) (ix_startTimestamp ix) (ix_endTimestamp ix)"
      using u(2) that by (auto simp: saved_def)
    then show ?thesis using times block_of_append u(1) by metis
  qed
  have "if lh_curRowCount ?h = 0 then lh_startTimestamp ?h = 0 \<and> lh_endTimestamp ?h = 0
      else block_times s e (log_rows ?h ?mem) (lh_startTimestamp ?h) (lh_endTimestamp ?h)"
    using H times by (auto simp: timed_def)
  then show ?thesis using ok assms(2-7) blocks unfolding queryable_def edb_ok_def by blast
qed

text \<open>Rows sorted by a number are the rows of each number, one after the other.\<close>

lemma filter_numbers:
  assumes "sorted_wrt (\<le>) (map g xs)"
  shows "concat (map (\<lambda>k. filter (\<lambda>x. g x = k) xs) [i..j]) = filter (\<lambda>x. i \<le> g x \<and> g x \<le> (j :: int)) xs"
proof (induction "nat (j + 1 - i)" arbitrary: i rule: less_induct)
  case less
  show ?case
  proof (cases "i \<le> j")
    case True
    have "filter (\<lambda>x. g x = i) xs @ filter (\<lambda>x. i + 1 \<le> g x \<and> g x \<le> j) xs = filter (\<lambda>x. i \<le> g x \<and> g x \<le> j) xs"
      using assms
    proof (induction xs)
      case (Cons x xs)
      have "filter (\<lambda>y. g y = i) xs = []" if "i < g x" using Cons.prems that by (auto simp: filter_empty_conv)
      then show ?case using Cons True by (cases "g x = i") auto
    qed simp
    moreover have "[i..j] = i # [i + 1..j]" using True by (simp add: upto_rec1)
    moreover have "concat (map (\<lambda>k. filter (\<lambda>x. g x = k) xs) [i + 1..j]) = filter (\<lambda>x. i + 1 \<le> g x \<and> g x \<le> j) xs"
      using True by (intro less) simp
    ultimately show ?thesis by (simp only: list.map concat.simps)
  next
    case False
    have none: "\<not> (i \<le> g x \<and> g x \<le> j)" for x using False by linarith
    show ?thesis using False unfolding none by simp
  qed
qed

text \<open>The rows in the range, taken from the files of the range and from the log.\<close>

lemma rows_in_range:
  assumes rest: "at_rest en cs db fs H" and "0 < s" and "s \<le> e" and pos: "\<forall>row \<in> set H. 0 < row_ts row"
    and f: "file_of (db_pLogHead db) s = Inr startFile" "file_of (db_pLogHead db) e = Inr endFile"
  shows "filter (\<lambda>row. in_range s e (row_ts row)) (concat (map (file_rows cs fs) [startFile..endFile]) @ log_rows (db_pLogHead db) (db_pLogData db)) =
    filter (\<lambda>row. in_range s e (row_ts row)) H"
proof -
  let ?h = "db_pLogHead db"
  let ?w = "int (lh_hoursPerFile ?h) * gMillisecondOfHour"
  have H: "timed cs ?h (db_pLogData db) fs H" and hd: "head_ok cs ?h" using rest by (simp_all add: at_rest_def edb_ok_def)
  have w: "0 < ?w" using hd by (simp add: head_ok_def gMillisecondOfHour_def)
  have fno: "file_of ?h t = Inr (t div ?w)" if "0 < t" for t
    using w that hd by (simp add: file_of_def head_ok_def signed_divide_int_def)
  obtain u where u: "H = u @ log_rows ?h (db_pLogData db)" "\<And>k. file_rows cs fs k = in_file_no ?h k u"
    using H by (auto simp: timed_def saved_def)
  have "in_file_no ?h k u = filter (\<lambda>row. row_ts row div ?w = k) u" for k
    using fno pos u(1) by (intro filter_cong) auto
  then have of_no: "file_rows cs fs = (\<lambda>k. filter (\<lambda>row. row_ts row div ?w = k) u)" using u(2) by auto
  have "sorted_wrt (<) (map row_ts u)" using H u(1) by (auto simp: timed_def sorted_wrt_append)
  then have "sorted_wrt (\<le>) (map (\<lambda>row. row_ts row div ?w) u)"
    using w by (auto simp: sorted_wrt_map less_imp_le intro!: zdiv_mono1 elim!: sorted_wrt_mono_rel [rotated])
  then have "concat (map (file_rows cs fs) [startFile..endFile]) = filter (\<lambda>row. startFile \<le> row_ts row div ?w \<and> row_ts row div ?w \<le> endFile) u"
    unfolding of_no by (rule filter_numbers)
  moreover have "startFile \<le> t div ?w \<and> t div ?w \<le> endFile" if "in_range s e t" for t
    using f fno [of s] fno [of e] assms(2,3) that w by (auto intro: zdiv_mono1)
  ultimately show ?thesis using u(1) by (simp add: filter_filter) (metis (mono_tags, lifting) filter_cong)
qed

section \<open>From puts to a query\<close>

lemma created_at_rest:
  assumes create: "create_db rootLen nameLen colType cacheSize STORE_BY_COL COMPRESS_NONE hoursPerFile log_exists open_ok fallocate_ok =
      (0, Some (h, st_size))"
    and sizes: "0 < cacheSize" "cacheSize < 2 ^ 16" "0 < hoursPerFile" "lh_dataPos h + lh_rowSize h * cacheSize \<le> mapped st_size"
  shows "at_rest en (COL_TYPE_TIMESTAMP # colType) (open_db h st_size content) \<lparr>fs_index = (\<lambda>k. None), fs_record = (\<lambda>k. None)\<rparr> []"
proof -
  let ?cs = "COL_TYPE_TIMESTAMP # colType" and ?db = "open_db h st_size content" and ?fs = "\<lparr>fs_index = (\<lambda>k. None), fs_record = (\<lambda>k. None)\<rparr>"
  note h = created_head(2) [OF create]
  have "edb_ok en ?cs ?db ?fs" by (rule created_edb_ok [OF create sizes])
  moreover have "timed ?cs (db_pLogHead ?db) (db_pLogData ?db) ?fs []"
    by (simp add: timed_def saved_def file_rows_def open_db_def log_rows_def) (simp add: h)
  ultimately show ?thesis using sizes(1) by (simp add: at_rest_def open_db_def) (simp add: h)
qed



text \<open>Two rows a second apart, saved one by one, and a query that takes the second.\<close>

definition sample_time :: "string \<Rightarrow> int option" where
  "sample_time t = (if t = ''a'' then Some 1600000000500 else if t = ''b'' then Some 1600000001500 else None)"

definition sample_dec :: edb_dec where
  "sample_dec = \<lparr>ed_env = sample_env\<lparr>en_addr := 8\<rparr>, ed_lzd = (\<lambda>bs n. None), ed_unzip = (\<lambda>h bs ix col n. Inl Out_Of_Bounds)\<rparr>"


section \<open>Queries that go wrong\<close>

text \<open>C29.
  An ascending query whose range falls between two rows of one block runs past its end. The two searches cross: the row selected
  first is the one behind the range and the last is the one before it, and \<open>move_next\<close> compares the two for equality
  only. Every further call succeeds and steps on, over the rows behind the range and then over what lies behind the rows, until
  the index, an \<open>int32_t\<close>, overflows.\<close>

theorem gap_query_runs_away:
  assumes "times (qr_buf q) T" and sorted: "sorted_wrt (<) T" and "Suc i < length T" and "T ! i < qr_startTimestamp q"
    and "qr_startTimestamp q \<le> qr_endTimestamp q" and "qr_endTimestamp q < T ! Suc i"
    and "qr_rowCount q = int (length T)" and asc: "qr_order q = ORDER_ASC"
  shows "\<exists>q'. set_data_index (get_block_type (hd T) (last T) (qr_startTimestamp q) (qr_endTimestamp q)) q = Inr q' \<and>
    qr_curDataIndex q' = int (Suc i) \<and> qr_endDataIndex q' = int i \<and>
    (\<forall>j. int i < j \<and> j < 2 ^ 31 - 1 \<longrightarrow> move_next de fs db (q'\<lparr>qr_curDataIndex := j\<rparr>) = Inr (0, db, q'\<lparr>qr_curDataIndex := j + 1\<rparr>)) \<and>
    (int i < 2 ^ 31 - 1 \<longrightarrow> move_next de fs db (q'\<lparr>qr_curDataIndex := 2 ^ 31 - 1\<rparr>) = Inl Int_Overflow)"
proof -
  let ?s = "qr_startTimestamp q" and ?e = "qr_endTimestamp q"
  note nth = sorted_nth [OF sorted]
  have T: "T \<noteq> []" "hd T \<le> T ! i" "T ! Suc i \<le> last T" using sorted_ends [OF sorted] assms(3) by auto
  then have type: "get_block_type (hd T) (last T) ?s ?e = BLOCK_CONTAINING" using assms(4-6) by (simp add: get_block_type_def)
  have up: "T ! j \<le> T ! i" if "j \<le> i" for j using nth [of j i] that assms(3) by (cases "j = i") auto
  have down: "T ! Suc i \<le> T ! j" if "Suc i \<le> j" "j < length T" for j using nth [of "Suc i" j] that by (cases "j = Suc i") auto
  have start: "binary_search (qr_buf q) ?s (qr_rowCount q) True = Inr (int (Suc i))"
  proof (cases "binary_search (qr_buf q) ?s (int (length T)) True")
    case (Inl err)
    then show ?thesis
      using binary_search_ok [OF sorted assms(1), of ?s True] nth_mem [OF assms(3)] assms(5,6) by (force simp: found_def)
  next
    case (Inr j)
    then have j: "0 \<le> j" "j < int (length T)" "?s \<le> T ! nat j" "\<forall>m < nat j. T ! m < ?s"
      using binary_search_ok [OF sorted assms(1), of ?s True] by (auto simp: found_def)
    have "\<not> nat j \<le> i" using up [of "nat j"] j(3) assms(4) by linarith
    moreover have "\<not> Suc i < nat j" using j(4) assms(5,6) by force
    ultimately show ?thesis using Inr assms(7) j(1) by auto
  qed
  have stop: "binary_search (qr_buf q) ?e (qr_rowCount q) False = Inr (int i)"
  proof (cases "binary_search (qr_buf q) ?e (int (length T)) False")
    case (Inl err)
    then have "\<forall>t \<in> set T. ?e < t" using binary_search_ok [OF sorted assms(1), of ?e False] by (simp add: found_def)
    moreover have "T ! i \<in> set T" using assms(3) by simp
    ultimately show ?thesis using assms(4,5) by fastforce
  next
    case (Inr j)
    then have j: "0 \<le> j" "j < int (length T)" "T ! nat j \<le> ?e" "\<forall>m < length T. nat j < m \<longrightarrow> ?e < T ! m"
      using binary_search_ok [OF sorted assms(1), of ?e False] by (auto simp: found_def)
    have "\<not> Suc i \<le> nat j" using down [of "nat j"] j(2,3) assms(6) by force
    moreover have "\<not> nat j < i"
    proof
      assume "nat j < i"
      then have "?e < T ! i" using j(4) assms(3) by simp
      then show False using assms(4,5) by simp
    qed
    ultimately show ?thesis using Inr assms(7) j(1) by auto
  qed
  let ?q = "(set_indices (int (Suc i)) (int i) q)\<lparr>qr_curDataIndex := int (Suc i)\<rparr>"
  have "set_data_index (get_block_type (hd T) (last T) ?s ?e) q = Inr ?q"
    unfolding type set_data_index_def using start stop asc by (simp add: set_indices_def)
  moreover have "move_next de fs db (?q\<lparr>qr_curDataIndex := j\<rparr>) = Inr (0, db, ?q\<lparr>qr_curDataIndex := j + 1\<rparr>)"
    if "int i < j" "j < 2 ^ 31 - 1" for j
    using asc that by (simp add: move_next_asc first_file_def next_block_def log_tail_def next_row_def set_indices_def)
  moreover have "move_next de fs db (?q\<lparr>qr_curDataIndex := 2 ^ 31 - 1\<rparr>) = Inl Int_Overflow" if "int i < 2 ^ 31 - 1"
    using asc that by (simp add: move_next_asc first_file_def next_block_def log_tail_def next_row_def or_next_def set_indices_def)
  ultimately show ?thesis using asc by (intro exI [of _ ?q]) (simp add: set_indices_def)
qed

text \<open>Two rows three seconds apart and a query for the second between them.\<close>

definition gap_query :: QUERY where
  "gap_query = \<lparr>qr_startTimestamp = 2000, qr_endTimestamp = 3000, qr_order = ORDER_ASC, qr_colBitmap = - 1, qr_logChecked = True,
     qr_startFileIndex = 0, qr_endFileIndex = 0, qr_curFileIndex = 1, qr_startBlockIndex = - 1, qr_endBlockIndex = - 1, qr_curBlockIndex = - 1,
     qr_rowCount = 2, qr_startDataIndex = 0, qr_endDataIndex = 0, qr_curDataIndex = - 1, qr_recordFd = No_File, qr_indexFd = No_File,
     qr_buf = le_bytes 8 (1000 :: 64 word) @ le_bytes 8 (4000 :: 64 word)\<rparr>"

text \<open>The first step goes to row 2 of a block with the rows 0 and 1.\<close>

theorem gap_query_runs_away_witness:
  "\<exists>q'. set_data_index BLOCK_CONTAINING gap_query = Inr q' \<and> qr_rowCount q' = 2 \<and> qr_curDataIndex q' = 1 \<and> qr_endDataIndex q' = 0 \<and>
    move_next sample_dec \<lparr>fs_index = (\<lambda>k. None), fs_record = (\<lambda>k. None)\<rparr> (open_db sample_head 90 (\<lambda>i. 0)) q' =
      Inr (0, open_db sample_head 90 (\<lambda>i. 0), q'\<lparr>qr_curDataIndex := 2\<rparr>)"
proof -
  let ?fs = "\<lparr>fs_index = (\<lambda>k. None), fs_record = (\<lambda>k. None)\<rparr>" and ?db = "open_db sample_head 90 (\<lambda>i. 0)"
  have "times (qr_buf gap_query) [1000, 4000]"
    by (auto simp: times_def gap_query_def ts_at_def copy_bytes_def less_Suc_eq)
  then obtain q' where q: "set_data_index BLOCK_CONTAINING gap_query = Inr q'" "qr_curDataIndex q' = 1" "qr_endDataIndex q' = 0"
      "\<forall>j. 0 < j \<and> j < 2 ^ 31 - 1 \<longrightarrow> move_next sample_dec ?fs ?db (q'\<lparr>qr_curDataIndex := j\<rparr>) = Inr (0, ?db, q'\<lparr>qr_curDataIndex := j + 1\<rparr>)"
    using gap_query_runs_away [of gap_query "[1000, 4000]" 0 sample_dec ?fs ?db] by (simp add: gap_query_def get_block_type_def) blast
  have same: "q'\<lparr>qr_curDataIndex := 1\<rparr> = q'" using q(2) by simp
  have "move_next sample_dec ?fs ?db (q'\<lparr>qr_curDataIndex := 1\<rparr>) = Inr (0, ?db, q'\<lparr>qr_curDataIndex := 2\<rparr>)"
    using q(4) [rule_format, of 1] by simp
  moreover have "qr_rowCount q' = 2"
    using q(1) by (auto simp: set_data_index_def set_indices_def gap_query_def rbind_eq_Inr)
  ultimately show ?thesis using q(1-3) unfolding same by blast
qed

text \<open>C30.
  A query makes the next save go to the wrong files. To find the log's place among the files the query overwrites the file
  number in the handle, but not the descriptors: when the log then is saved, the number seems right, nothing is opened, and the block of
  file \<open>k\<close> is appended to the files \<open>k0\<close> of the save before.\<close>

theorem query_misdirects_save:
  assumes ok: "edb_ok en cs db fs" and "en_malloc en" and rows: "0 < lh_curRowCount (db_pLogHead db)"
    and k: "file_of (db_pLogHead db) (lh_startTimestamp (db_pLogHead db)) = Inr k" and opened: "db_recordFd db = Some k0" and "k0 \<noteq> k"
    and query: "checkFile de fs db q = Inr (code, db', q')"
  shows "\<exists>db'' fs' r b. saveToFile en db' fs = Inr (db'', fs') \<and> lh_curRowCount (db_pLogHead db'') = 0 \<and>
    fs_record fs k0 = Some r \<and> b \<noteq> [] \<and> fs_record fs' = (fs_record fs)(k0 \<mapsto> r @ b)"
proof -
  let ?h = "db_pLogHead db" and ?mem = "db_pLogData db"
  let ?lens = "none_lens cs (lh_curRowCount ?h)" and ?b = "concat (map (segment en ?mem (lh_curRowCount ?h)) (layout (lh_cacheSize ?h) 0 cs))"
  have hd: "head_ok cs ?h" and log: "log_ok cs ?h ?mem" and fds: "fds_ok db fs" using ok by (simp_all add: edb_ok_def)
  obtain r where r: "fs_record fs k0 = Some r" "db_indexFd db = Some k0" using fds opened by (auto simp: fds_ok_def)
  have db': "db' = db\<lparr>db_curFileIndex := k\<rparr>"
    using query k by (auto simp: checkFile_def Let_def rbind_eq_Inr split: option.splits if_splits prod.splits)
  obtain ts where ts: "copy_bytes ?mem 0 8 = Inr ts" "sint (of_le_bytes ts :: 64 word) = lh_startTimestamp ?h" by (rule log_start [OF hd log rows])
  have fit: "lh_curRowCount ?h \<le> lh_cacheSize ?h" "0 + width cs * lh_cacheSize ?h \<le> length ?mem" using log by (simp_all add: log_ok_def)
  obtain cs' where cs: "cs = COL_TYPE_TIMESTAMP # cs'" using hd by (auto simp: head_ok_def)
  have "0 \<le> sum_list (none_lens cs' (lh_curRowCount ?h))" by (rule sum_list_nonneg) auto
  then have pos: "0 < sum_list ?lens" by (simp add: cs)
  then have "?b \<noteq> []" using length_segments [OF fit, of en] by (metis list.size(3) nat_0_iff not_less)
  moreover obtain db'' fs' where "saveToFile en db' fs = Inr (db'', fs')" "lh_curRowCount (db_pLogHead db'') = 0"
      "fs_record fs' = (fs_record fs)(k0 \<mapsto> r @ ?b)"
    using ts k compressNone_ok [OF hd log assms(2)] pos r opened
    by (simp add: db' saveToFile_def append_record_def append_index_def Let_def)
  ultimately show ?thesis using r(1) by blast
qed


text \<open>A row of day 2 in the log while the files of day 1 are open.\<close>

definition sample_day2 :: DB where
  "sample_day2 = sample_row
     \<lparr>db_pLogHead := sample_head\<lparr>lh_curRowCount := 1, lh_startTimestamp := 172800000\<rparr>,
      db_pLogData := le_bytes 8 (172800000 :: 64 word) @ [7, 0],
      db_recordFd := Some 1, db_indexFd := Some 1, db_curFileIndex := 1\<rparr>"

definition day1_fs :: edb_fs where
  "day1_fs = \<lparr>fs_index = (\<lambda>k. if k = 1 then Some [] else None), fs_record = (\<lambda>k. if k = 1 then Some [] else None)\<rparr>"

theorem query_misdirects_save_witness:
  "\<exists>code db' q' db'' fs' b. checkFile sample_dec day1_fs sample_day2 (gap_query\<lparr>qr_curFileIndex := 5\<rparr>) = Inr (code, db', q') \<and>
    saveToFile sample_env db' day1_fs = Inr (db'', fs') \<and> fs_record fs' 1 = Some b \<and> b \<noteq> [] \<and> fs_record fs' 2 = None"
proof -
  have ok: "edb_ok sample_env [COL_TYPE_TIMESTAMP, COL_TYPE_SMALL_INT] sample_day2 day1_fs"
    by (auto simp: edb_ok_def head_ok_def log_ok_def fds_ok_def file_ok_def open_db_def sample_head_def sample_row_def sample_day2_def day1_fs_def
      time_ok_def slice_def file_of_def gMillisecondOfHour_def)
  have k: "file_of (db_pLogHead sample_day2) (lh_startTimestamp (db_pLogHead sample_day2)) = Inr 2"
    by (simp add: sample_day2_def sample_head_def file_of_def gMillisecondOfHour_def)
  have n: "0 < lh_curRowCount (db_pLogHead sample_day2)" "en_malloc sample_env" "db_recordFd sample_day2 = Some 1" "(1 :: int) \<noteq> 2"
    by (simp_all add: sample_day2_def sample_env_def)
  obtain code db' q' where q: "checkFile sample_dec day1_fs sample_day2 (gap_query\<lparr>qr_curFileIndex := 5\<rparr>) = Inr (code, db', q')"
    using k by (simp add: checkFile_def day1_fs_def Let_def)
  obtain db'' fs' r b where "saveToFile sample_env db' day1_fs = Inr (db'', fs')" "fs_record day1_fs 1 = Some r" "b \<noteq> []"
      "fs_record fs' = (fs_record day1_fs)(1 \<mapsto> r @ b)"
    using query_misdirects_save [OF ok n(2,1) k n(3,4) q] by blast
  then have "saveToFile sample_env db' day1_fs = Inr (db'', fs') \<and> fs_record fs' 1 = Some b \<and> b \<noteq> [] \<and> fs_record fs' 2 = None"
    by (simp add: day1_fs_def)
  with q show ?thesis by blast
qed

text \<open>A block whose first row has the time at which the range begins is left out, and so is one whose last row has the time at which it ends.\<close>

lemma equal_bound_skips:
  "get_block_type t dataEnd t targetEnd = BLOCK_NONE" "get_block_type dataStart t targetStart t = BLOCK_NONE"
  by (simp_all add: get_block_type_def)

end
