(* ===== verification/EdbCheck.thy ===== *)
theory EdbCheck
  imports EdbHistory
begin

text \<open>
  What the checksums of the embedded store promise: \<open>readFromFile\<close> of src/src/edb/src/db.c accepts every
  file that a sequence of \<open>put_db\<close> leaves, and reports a change of up to four consecutive bytes of a
  saved column. The checksum is the CRC-32C of Crc32c.
\<close>

section \<open>Changed files\<close>

lemma check_eq:
  assumes "crc32c = taosResolveCRC m x64 sse42" and "sse42_ok m"
  shows "taosCheckChecksumWhole crc32c b x \<longleftrightarrow> 4 \<le> length x \<and>
    of_le_bytes (drop (length x - 4) x) = NOT (foldl crc_upd (NOT 0) (take (length x - 4) x))"
  using crc32c_hw_eq [OF assms(2)] by (simp add: assms(1) taosResolveCRC_def crc32c_sf_eq taosCheckChecksumWhole_def)

lemma check_burst:
  assumes crc: "crc32c = taosResolveCRC m x64 sse42" "sse42_ok m" and "taosCheckChecksumWhole crc32c b (p @ w @ q)"
    and q: "4 \<le> length q" and w: "length w \<le> 4" "length w' = length w" "w' \<noteq> w"
  shows "\<not> taosCheckChecksumWhole crc32c b (p @ w' @ q)"
proof -
  let ?q = "take (length q - 4) q" and ?c = "drop (length q - 4) q"
  have split: "take (length (p @ v @ q) - 4) (p @ v @ q) = p @ v @ ?q" "drop (length (p @ v @ q) - 4) (p @ v @ q) = ?c" for v
    using q by (simp_all add: algebra_simps)
  have "of_le_bytes ?c = NOT (foldl crc_upd (NOT 0) (p @ w @ ?q))"
    using assms(3) unfolding check_eq [OF crc] split by blast
  moreover have "foldl crc_upd (NOT 0) (p @ w @ ?q) \<noteq> foldl crc_upd (NOT 0) (p @ w' @ ?q)"
    using crc_burst [of w w'] w by (auto simp: crc_inj)
  ultimately show ?thesis unfolding check_eq [OF crc] split by simp
qed

text \<open>Where the columns of a block lie in a record file, and those of all blocks of an index: position and length.\<close>

fun col_spans :: "nat \<Rightarrow> int list \<Rightarrow> (nat \<times> nat) list" where
  "col_spans pos [] = []"
| "col_spans pos (l # ls) = (pos, nat l) # col_spans (pos + nat l) ls"

fun file_spans :: "nat \<Rightarrow> INDEX list \<Rightarrow> (nat \<times> nat) list" where
  "file_spans pos [] = []"
| "file_spans pos (ix # ixs) = col_spans pos (ix_colLens ix) @ file_spans (pos + nat (sum_list (ix_colLens ix))) ixs"

lemma col_spans_from: "(i, l) \<in> set (col_spans pos ls) \<Longrightarrow> pos \<le> i"
  by (induction ls arbitrary: pos) fastforce+

lemma file_spans_from: "(i, l) \<in> set (file_spans pos ixs) \<Longrightarrow> pos \<le> i"
  by (induction ixs arbitrary: pos) (fastforce dest: col_spans_from)+

lemma take_drop_before: "take a r' = take a r \<Longrightarrow> pos + n \<le> a \<Longrightarrow> take n (drop pos r') = take n (drop pos r)"
  by (metis (no_types) add.commute drop_take le_add_diff_inverse2 add_diff_cancel_left' min.absorb1 take_take add_le_imp_le_diff)

text \<open>The bytes from \<open>a\<close> to \<open>b\<close> differ; where they lie in a column, its checksum is wrong.\<close>

definition changed_record :: "edb_env \<Rightarrow> byte list \<Rightarrow> byte list \<Rightarrow> nat \<Rightarrow> nat \<Rightarrow> bool" where
  "changed_record en r r' a b \<longleftrightarrow>
     length r' = length r \<and> take a r' = take a r \<and>
     (\<forall>i l. taosCheckChecksumWhole (en_crc32c en) (en_addr en) (take l (drop i r)) \<and> i \<le> a \<and> b + 4 \<le> i + l \<and> i + l \<le> length r \<longrightarrow>
       \<not> taosCheckChecksumWhole (en_crc32c en) (en_addr en) (take l (drop i r')))"

lemma changed_recordD:
  assumes "changed_record en r r' a b"
  shows "length r' = length r" and "take a r' = take a r"
    and "taosCheckChecksumWhole (en_crc32c en) (en_addr en) (take l (drop i r)) \<Longrightarrow> i \<le> a \<Longrightarrow> b + 4 \<le> i + l \<Longrightarrow> i + l \<le> length r \<Longrightarrow>
      \<not> taosCheckChecksumWhole (en_crc32c en) (en_addr en) (take l (drop i r'))"
  using assms unfolding changed_record_def by blast+

lemma cols_before:
  assumes ch: "changed_record en r r' a b"
  shows "read_cols en r ls pos = (0, pos') \<Longrightarrow> pos' \<le> a \<Longrightarrow> read_cols en r' ls pos = (0, pos') \<and> pos \<le> a"
proof (induction ls arbitrary: pos)
  case (Cons l ls)
  then have l: "\<not> (l < 0 \<or> length r < pos + nat l)" "taosCheckChecksumWhole (en_crc32c en) (en_addr en) (take (nat l) (drop pos r))"
      "read_cols en r ls (pos + nat l) = (0, pos')" by (auto split: if_splits)
  then have "read_cols en r' ls (pos + nat l) = (0, pos')" "pos + nat l \<le> a" using Cons.IH Cons.prems(2) by auto
  then show ?case using l changed_recordD(1) [OF ch] take_drop_before [OF changed_recordD(2) [OF ch], of pos "nat l"] by simp
qed simp

lemma cols_changed:
  assumes ch: "changed_record en r r' a b"
  shows "read_cols en r ls pos = (0, pos') \<Longrightarrow> (i, l) \<in> set (col_spans pos ls) \<Longrightarrow> i \<le> a \<Longrightarrow> b + 4 \<le> i + l \<Longrightarrow>
    fst (read_cols en r' ls pos) = - 3"
proof (induction ls arbitrary: pos)
  case (Cons l1 ls)
  then have l: "\<not> (l1 < 0 \<or> length r < pos + nat l1)" "taosCheckChecksumWhole (en_crc32c en) (en_addr en) (take (nat l1) (drop pos r))"
      "read_cols en r ls (pos + nat l1) = (0, pos')" by (auto split: if_splits)
  show ?case
  proof (cases "(i, l) = (pos, nat l1)")
    case True
    then show ?thesis using changed_recordD(3) [OF ch l(2)] Cons.prems(3,4) l(1) changed_recordD(1) [OF ch] by simp
  next
    case False
    then have later: "(i, l) \<in> set (col_spans (pos + nat l1) ls)" using Cons.prems(2) by auto
    then have "pos + nat l1 \<le> a" using col_spans_from Cons.prems(3) by fastforce
    then have "take (nat l1) (drop pos r') = take (nat l1) (drop pos r)" by (rule take_drop_before [OF changed_recordD(2) [OF ch]])
    then show ?thesis using l changed_recordD(1) [OF ch] Cons.IH [OF l(3) later Cons.prems(3,4)] by simp
  qed
qed simp

lemma blocks_changed:
  assumes ch: "changed_record en r r' a b" and "same_crc en0 en" and "cs \<noteq> []"
  shows "tiles en0 cs r pos ixs \<Longrightarrow> pos = 0 \<or> 4 \<le> pos \<Longrightarrow> (i, l) \<in> set (file_spans pos ixs) \<Longrightarrow> i \<le> a \<Longrightarrow> b + 4 \<le> i + l \<Longrightarrow>
    read_blocks en r' ixs pos = - 3"
proof (induction ixs arbitrary: pos)
  case (Cons ix ixs)
  let ?next = "pos + nat (sum_list (ix_colLens ix))"
  have blk: "block_ok en0 cs r pos ix" and rest: "tiles en0 cs r ?next ixs" using Cons.prems(1) by simp_all
  have off: "ix_dataOffset ix = int pos" using blk unfolding block_ok_def by blast
  have read: "read_cols en r (ix_colLens ix) pos = (0, ?next)" by (rule block_ok_read [OF blk assms(2)])
  show ?case
  proof (cases "(i, l) \<in> set (col_spans pos (ix_colLens ix))")
    case True
    then have "fst (read_cols en r' (ix_colLens ix) pos) = - 3" by (rule cols_changed [OF ch read _ Cons.prems(4,5)])
    then show ?thesis using off Cons.prems(2) by (auto simp: Let_def split: prod.split)
  next
    case False
    then have later: "(i, l) \<in> set (file_spans ?next ixs)" using Cons.prems(3) by simp
    then have "?next \<le> a" using file_spans_from Cons.prems(4) by fastforce
    then have same: "read_cols en r' (ix_colLens ix) pos = (0, ?next)" using cols_before [OF ch read] by blast
    have "4 \<le> ?next" using block_ok_size [OF blk assms(3)] by linarith
    then have "read_blocks en r' ixs ?next = - 3" using Cons.IH [OF rest _ later Cons.prems(4,5)] by blast
    then show ?thesis using same off Cons.prems(2) by (auto simp: Let_def)
  qed
qed simp

text \<open>The change of a burst of bytes of a file with good checksums.\<close>

lemma burst_changed:
  assumes crc: "en_crc32c en = taosResolveCRC m x64 sse42" "sse42_ok m" and w: "length w \<le> 4" "length w' = length w" "w' \<noteq> w"
  shows "changed_record en (p @ w @ q) (p @ w' @ q) (length p) (length p + length w)"
proof -
  let ?check = "taosCheckChecksumWhole (en_crc32c en) (en_addr en)"
  have "\<not> ?check (take l (drop i (p @ w' @ q)))"
    if ok: "?check (take l (drop i (p @ w @ q)))" and i: "i \<le> length p" "length p + length w + 4 \<le> i + l"
      and fit: "i + l \<le> length (p @ w @ q)" for i l
  proof -
    let ?q = "take (i + l - length p - length w) q"
    have cut: "take l (drop i (p @ v @ q)) = drop i p @ v @ ?q" if "length v = length w" for v
    proof -
      have "take l (drop i p) = drop i p" "take (l - length (drop i p)) v = v"
        "l - length (drop i p) - length v = i + l - length p - length w" using i that by simp_all
      then show ?thesis using i(1) by (simp add: take_append)
    qed
    have "4 \<le> length ?q" using i fit by simp
    then show ?thesis
      using check_burst [OF crc, of "en_addr en" "drop i p" w ?q w'] ok w unfolding cut [OF refl] cut [OF w(2)] by blast
  qed
  moreover have "take (length p) (p @ w' @ q) = take (length p) (p @ w @ q)" by simp
  ultimately show ?thesis unfolding changed_record_def using w(2) by (auto simp del: take_append drop_append)
qed

section \<open>After a history of puts\<close>

text \<open>C28.
  The checksums of the store. After any rows put with ascending times into a new columnar store without compression,
  \<open>readFromFile\<close> accepts every record file there is, at whatever addresses the buffers lie and although
  the arguments of its \<open>lseek\<close> are exchanged; and when up to four consecutive bytes within the values of a saved column are changed,
  it returns -3. As for the queries, the mapping covers the log, the files stay below 2^31 bytes and no row
  belongs to file number 0.\<close>

theorem saved_files_checked:
  assumes create: "create_db rootLen nameLen colType cacheSize STORE_BY_COL COMPRESS_NONE hoursPerFile log_exists open_ok fallocate_ok =
      (0, Some (h, st_size))"
    and sizes: "0 < cacheSize" "cacheSize < 2 ^ 16" "0 < hoursPerFile" "lh_dataPos h + lh_rowSize h * cacheSize \<le> mapped st_size"
    and env: "en_crc32c en = taosResolveCRC m x64 sse42" "en_crc32c en' = taosResolveCRC m x64 sse42" "sse42_ok m" "en_malloc en"
    and ops: "\<forall>(st, pData) \<in> set ops. time_ok h st \<and> width colType \<le> length pData" "sorted_wrt (<) (map fst ops)"
    and small: "length ops * (width (COL_TYPE_TIMESTAMP # colType) + 4 * Suc (length colType)) < 2 ^ 31"
  shows "\<exists>db fs. put_all en ops (open_db h st_size content) \<lparr>fs_index = (\<lambda>k. None), fs_record = (\<lambda>k. None)\<rparr> = Inr (db, fs) \<and>
    (\<forall>k r. fs_record fs k = Some r \<longrightarrow> (\<exists>ixs. fs_index fs k = Some ixs \<and> readFromFile en' fs k = 0 \<and>
      (\<forall>p w w' q i l. r = p @ w @ q \<and> (i, l) \<in> set (file_spans 0 ixs) \<and> i \<le> length p \<and> length (p @ w) + 4 \<le> i + l \<and>
        length w \<le> 4 \<and> length w' = length w \<and> w' \<noteq> w \<longrightarrow>
        readFromFile en' (fs\<lparr>fs_record := (fs_record fs)(k \<mapsto> p @ w' @ q)\<rparr>) k = - 3)))"
proof -
  let ?cs = "COL_TYPE_TIMESTAMP # colType"
  let ?new = "open_db h st_size content" and ?fs = "\<lparr>fs_index = (\<lambda>k. None), fs_record = (\<lambda>k. None)\<rparr>"
  have crc: "same_crc en en" "same_crc en en'"
    using crc32c_hw_eq [OF env(3)] by (simp_all add: same_crc_def env(1,2) taosResolveCRC_def crc32c_sf_eq)
  have new: "at_rest en ?cs ?new ?fs []" by (rule created_at_rest [OF create sizes])
  have head: "db_pLogHead ?new = h" by (simp add: open_db_def)
  obtain db fs where put: "put_all en ops ?new ?fs = Inr (db, fs)" "at_rest en ?cs db fs ([] @ rows_put colType ops)"
    using put_all_at_rest [OF crc(1) env(4) new, of ops] ops small head by auto
  have files: "file_ok en ?cs fs k" for k using put(2) by (simp add: at_rest_def edb_ok_def)
  have "\<exists>ixs. fs_index fs k = Some ixs \<and> readFromFile en' fs k = 0 \<and>
      (\<forall>p w w' q i l. r = p @ w @ q \<and> (i, l) \<in> set (file_spans 0 ixs) \<and> i \<le> length p \<and> length (p @ w) + 4 \<le> i + l \<and>
        length w \<le> 4 \<and> length w' = length w \<and> w' \<noteq> w \<longrightarrow>
        readFromFile en' (fs\<lparr>fs_record := (fs_record fs)(k \<mapsto> p @ w' @ q)\<rparr>) k = - 3)"
    if r: "fs_record fs k = Some r" for k r
  proof -
    obtain ixs where ixs: "fs_index fs k = Some ixs" "tiles en ?cs r 0 ixs"
      using files [of k] r by (auto simp: file_ok_def split: option.splits)
    have "read_blocks en' (p @ w' @ q) ixs 0 = - 3"
      if "r = p @ w @ q" "(i, l) \<in> set (file_spans 0 ixs)" "i \<le> length p" "length (p @ w) + 4 \<le> i + l" "length w \<le> 4"
        "length w' = length w" "w' \<noteq> w" for p w w' q i l
      using blocks_changed [OF burst_changed [OF env(2,3) that(5-7)] crc(2), of ?cs p q 0 ixs i l] ixs(2) that(1-4) by simp
    then have "\<forall>p w w' q i l. r = p @ w @ q \<and> (i, l) \<in> set (file_spans 0 ixs) \<and> i \<le> length p \<and> length (p @ w) + 4 \<le> i + l \<and>
        length w \<le> 4 \<and> length w' = length w \<and> w' \<noteq> w \<longrightarrow> readFromFile en' (fs\<lparr>fs_record := (fs_record fs)(k \<mapsto> p @ w' @ q)\<rparr>) k = - 3"
      using ixs(1) by (auto simp: readFromFile_def)
    moreover have "readFromFile en' fs k = 0" using r ixs tiles_read [OF crc(2) _ ixs(2)] by (simp add: readFromFile_def)
    ultimately show ?thesis using ixs(1) by blast
  qed
  with put(1) show ?thesis by blast
qed

text \<open>The first column of a block is one of the spans of its file.\<close>

lemma first_span:
  assumes "same_crc en en"
  shows "tiles en (c # cs) r pos ixs \<Longrightarrow> ix \<in> set ixs \<Longrightarrow>
    \<exists>i. (i, gColTypeSize c * nat (ix_rowCount ix) + 4) \<in> set (file_spans pos ixs) \<and> i + gColTypeSize c * nat (ix_rowCount ix) + 4 \<le> length r"
proof (induction ixs arbitrary: pos)
  case (Cons ix1 ixs)
  show ?case
  proof (cases "ix = ix1")
    case True
    let ?n = "gColTypeSize c * nat (ix_rowCount ix) + 4"
    have blk: "block_ok en (c # cs) r pos ix" using Cons.prems(1) True by simp
    then obtain ls where ls: "ix_colLens ix = int ?n # ls" unfolding block_ok_def by auto
    have "\<not> (int ?n < 0 \<or> length r < pos + nat (int ?n))"
      using block_ok_read [OF blk assms] unfolding ls by (auto split: if_splits)
    then show ?thesis using True ls by (intro exI [of _ pos]) (simp del: of_nat_add)
  qed (use Cons in auto)
qed simp

text \<open>A store with a cache of one row: the row is saved at once. Then the first byte of its time is changed.\<close>

theorem saved_files_checked_witness:
  "\<exists>db fs p b q. put_all sample_env [(1600000000000, [1, 2])] (open_db sample_head 90 (\<lambda>i. 0)) \<lparr>fs_index = (\<lambda>k. None), fs_record = (\<lambda>k. None)\<rparr> =
      Inr (db, fs) \<and> fs_record fs 18518 = Some (p @ [b] @ q) \<and> readFromFile sample_env fs 18518 = 0 \<and>
    readFromFile sample_env (fs\<lparr>fs_record := (fs_record fs)(18518 \<mapsto> p @ [b + 1] @ q)\<rparr>) 18518 = - 3"
proof -
  let ?cs = "[COL_TYPE_TIMESTAMP, COL_TYPE_SMALL_INT]" and ?ops = "[(1600000000000, [1, 2])] :: (int \<times> byte list) list"
  let ?new = "open_db sample_head 90 (\<lambda>i. 0)" and ?fs = "\<lparr>fs_index = (\<lambda>k. None), fs_record = (\<lambda>k. None)\<rparr>"
  let ?row = "new_row [COL_TYPE_SMALL_INT] 1600000000000 [1, 2]"
  have crc: "same_crc sample_env sample_env" by (rule same_crc_sf; simp add: sample_env_def)
  have env: "en_malloc sample_env" "en_crc32c sample_env = taosResolveCRC sse42_model True False"
    by (simp_all add: sample_env_def taosResolveCRC_def)
  have sizes: "(0 :: nat) < 1" "1 < (2 :: nat) ^ 16" "0 < (24 :: nat)" "lh_dataPos sample_head + lh_rowSize sample_head * 1 \<le> mapped 90"
    by (simp_all add: sample_head_def mapped_def page_size_def)
  have ops: "\<forall>(st, pData) \<in> set ?ops. time_ok sample_head st \<and> width [COL_TYPE_SMALL_INT] \<le> length pData" "sorted_wrt (<) (map fst ?ops)"
      "length ?ops * (width ?cs + 4 * Suc (length [COL_TYPE_SMALL_INT])) < 2 ^ 31"
    by (simp_all add: time_ok_def file_of_def sample_head_def gMillisecondOfHour_def)
  have new: "at_rest sample_env ?cs ?new ?fs []" by (rule created_at_rest [OF sample_created sizes])
  have head: "db_pLogHead ?new = sample_head" by (simp add: open_db_def)
  obtain db fs where put: "put_all sample_env ?ops ?new ?fs = Inr (db, fs)" "same_settings ?new db" "at_rest sample_env ?cs db fs [?row]"
    using put_all_at_rest [OF crc env(1) new, of ?ops] ops head by auto
  let ?h = "db_pLogHead db"
  have "lh_cacheSize ?h = 1" using settings [OF put(2)] unfolding head by (simp add: sample_head_def)
  then have "log_rows ?h (db_pLogData db) = []" using put(3) by (simp add: at_rest_def log_rows_def)
  then have saved: "saved ?cs ?h fs [?row]" using put(3) by (auto simp: at_rest_def timed_def)
  have "row_ts ?row = 1600000000000" by (rule row_ts_new [of sample_head]) (use ops(1) in simp)
  moreover have "file_of ?h 1600000000000 = Inr 18518"
    using settings(1) [OF put(2)] head by (simp add: file_of_def sample_head_def gMillisecondOfHour_def)
  ultimately have "file_rows ?cs fs 18518 = [?row]" using saved unfolding saved_def by simp
  then have "\<exists>ixs r. fs_index fs 18518 = Some ixs \<and> fs_record fs 18518 = Some r \<and> ixs \<noteq> []"
    by (auto simp: file_rows_def split: option.splits)
  then obtain ixs r where ixs: "fs_index fs 18518 = Some ixs" "fs_record fs 18518 = Some r" "ixs \<noteq> []" by blast
  from ixs(3) obtain ix where "ix \<in> set ixs" by (cases ixs) auto
  with ixs have ix: "fs_index fs 18518 = Some ixs" "fs_record fs 18518 = Some r" "ix \<in> set ixs" by simp_all
  then have "block_rows ?cs r ix \<noteq> []" using saved unfolding saved_def block_of_def by blast
  then have n: "0 < nat (ix_rowCount ix)" by (auto simp: block_rows_def)
  have "file_ok sample_env ?cs fs 18518" using put(3) by (simp add: at_rest_def edb_ok_def)
  then have "tiles sample_env ?cs r 0 ixs" using ix by (simp add: file_ok_def)
  from first_span [OF crc this ix(3)] obtain i where
    i: "(i, 8 * nat (ix_rowCount ix) + 4) \<in> set (file_spans 0 ixs)" "i + 8 * nat (ix_rowCount ix) + 4 \<le> length r" by auto
  let ?p = "take i r" and ?b = "r ! i" and ?q = "drop (Suc i) r"
  have r: "r = ?p @ [?b] @ ?q" using i(2) n by (simp add: id_take_nth_drop)
  obtain db' fs' where run: "put_all sample_env ?ops ?new ?fs = Inr (db', fs')" and
    check: "\<forall>k r. fs_record fs' k = Some r \<longrightarrow> (\<exists>ixs. fs_index fs' k = Some ixs \<and> readFromFile sample_env fs' k = 0 \<and>
      (\<forall>p w w' q i l. r = p @ w @ q \<and> (i, l) \<in> set (file_spans 0 ixs) \<and> i \<le> length p \<and> length (p @ w) + 4 \<le> i + l \<and>
        length w \<le> 4 \<and> length w' = length w \<and> w' \<noteq> w \<longrightarrow>
        readFromFile sample_env (fs'\<lparr>fs_record := (fs_record fs')(k \<mapsto> p @ w' @ q)\<rparr>) k = - 3))"
    using saved_files_checked [OF sample_created sizes env(2,2) sse42_model_ok env(1) ops, of "\<lambda>i. 0"] by (elim exE conjE) (rule that)
  have "fs' = fs" using run put(1) by simp
  then have found: "readFromFile sample_env fs 18518 = 0 \<and>
      (\<forall>p w w' q i l. r = p @ w @ q \<and> (i, l) \<in> set (file_spans 0 ixs) \<and> i \<le> length p \<and> length (p @ w) + 4 \<le> i + l \<and>
        length w \<le> 4 \<and> length w' = length w \<and> w' \<noteq> w \<longrightarrow>
        readFromFile sample_env (fs\<lparr>fs_record := (fs_record fs)(18518 \<mapsto> p @ w' @ q)\<rparr>) 18518 = - 3)"
    (is "_ \<and> ?all ixs")
  proof -
    have "fs_record fs' 18518 = Some r" using ix(2) \<open>fs' = fs\<close> by simp
    from check [rule_format, OF this] \<open>fs' = fs\<close> obtain ixs' where "fs_index fs 18518 = Some ixs'" "readFromFile sample_env fs 18518 = 0 \<and> ?all ixs'"
      by blast
    moreover have "ixs' = ixs" using ix(1) calculation(1) by simp
    ultimately show ?thesis by blast
  qed
  have "readFromFile sample_env (fs\<lparr>fs_record := (fs_record fs)(18518 \<mapsto> ?p @ [?b + 1] @ ?q)\<rparr>) 18518 = - 3"
    by (rule found [THEN conjunct2, rule_format, of ?p "[?b]" ?q i "8 * nat (ix_rowCount ix) + 4" "[?b + 1]"]) (use r i n in simp)
  then show ?thesis using put(1) ix(2) r found by metis
qed

end
