(* ===== verification/Md5.thy ===== *)
theory Md5
  imports Bytes
begin

text \<open>
  The MD5 digest of src/src/util/src/tmd5.c: the context, \<open>MD5Init\<close>, \<open>MD5Update\<close>, \<open>MD5Final\<close> and
  \<open>Transform\<close>, whose 64 steps are listed as data, one constructor for each macro. The reference is the
  digest of a whole message as RFC 1321 defines it: padding, splitting into blocks, rounds computed from
  the number of the step.
\<close>

section \<open>The context and the steps\<close>

record MD5_CTX =
  md_i0 :: "32 word"
  md_i1 :: "32 word"
  md_buf :: "32 word \<times> 32 word \<times> 32 word \<times> 32 word"
  md_in :: "byte list"
  md_digest :: "byte list"

definition md5_F :: "32 word \<Rightarrow> 32 word \<Rightarrow> 32 word \<Rightarrow> 32 word" where
  "md5_F x y z = (x AND y) OR (NOT x AND z)"
definition md5_G :: "32 word \<Rightarrow> 32 word \<Rightarrow> 32 word \<Rightarrow> 32 word" where
  "md5_G x y z = (x AND z) OR (y AND NOT z)"
definition md5_H :: "32 word \<Rightarrow> 32 word \<Rightarrow> 32 word \<Rightarrow> 32 word" where
  "md5_H x y z = x XOR y XOR z"
definition md5_I :: "32 word \<Rightarrow> 32 word \<Rightarrow> 32 word \<Rightarrow> 32 word" where
  "md5_I x y z = y XOR (x OR NOT z)"

definition ROTATE_LEFT :: "32 word \<Rightarrow> nat \<Rightarrow> 32 word" where
  "ROTATE_LEFT x n = push_bit n x OR drop_bit (32 - n) x"

text \<open>The variables of \<open>Transform\<close> and its steps: target, operands, index of the input word, shift, constant.\<close>

datatype md5_var = Ra | Rb | Rc | Rd

datatype md5_step =
    FF md5_var md5_var md5_var md5_var nat nat int
  | GG md5_var md5_var md5_var md5_var nat nat int
  | HH md5_var md5_var md5_var md5_var nat nat int
  | II md5_var md5_var md5_var md5_var nat nat int

type_synonym md5_vars = "32 word \<times> 32 word \<times> 32 word \<times> 32 word"

fun md5_get :: "md5_vars \<Rightarrow> md5_var \<Rightarrow> 32 word" where
  "md5_get (a, b, c, d) Ra = a"
| "md5_get (a, b, c, d) Rb = b"
| "md5_get (a, b, c, d) Rc = c"
| "md5_get (a, b, c, d) Rd = d"

fun md5_set :: "md5_vars \<Rightarrow> md5_var \<Rightarrow> 32 word \<Rightarrow> md5_vars" where
  "md5_set (a, b, c, d) Ra v = (v, b, c, d)"
| "md5_set (a, b, c, d) Rb v = (a, v, c, d)"
| "md5_set (a, b, c, d) Rc v = (a, b, v, d)"
| "md5_set (a, b, c, d) Rd v = (a, b, c, v)"

definition md5_op ::
    "(32 word \<Rightarrow> 32 word \<Rightarrow> 32 word \<Rightarrow> 32 word) \<Rightarrow> 32 word list \<Rightarrow> md5_var \<Rightarrow> md5_var \<Rightarrow> md5_var \<Rightarrow> md5_var \<Rightarrow>
      nat \<Rightarrow> nat \<Rightarrow> int \<Rightarrow> md5_vars \<Rightarrow> md5_vars"
where
  "md5_op f x a b c d k s ac v =
     (let v1 = md5_set v a (md5_get v a + (f (md5_get v b) (md5_get v c) (md5_get v d) + x ! k + word_of_int ac));
          v2 = md5_set v1 a (ROTATE_LEFT (md5_get v1 a) s) in
      md5_set v2 a (md5_get v2 a + md5_get v2 b))"

fun md5_exec :: "32 word list \<Rightarrow> md5_vars \<Rightarrow> md5_step \<Rightarrow> md5_vars" where
  "md5_exec x v (FF a b c d k s ac) = md5_op md5_F x a b c d k s ac v"
| "md5_exec x v (GG a b c d k s ac) = md5_op md5_G x a b c d k s ac v"
| "md5_exec x v (HH a b c d k s ac) = md5_op md5_H x a b c d k s ac v"
| "md5_exec x v (II a b c d k s ac) = md5_op md5_I x a b c d k s ac v"

definition md5_round_1 :: "md5_step list" where
  "md5_round_1 =
   [FF Ra Rb Rc Rd 0 7 3614090360, FF Rd Ra Rb Rc 1 12 3905402710,
    FF Rc Rd Ra Rb 2 17 606105819, FF Rb Rc Rd Ra 3 22 3250441966,
    FF Ra Rb Rc Rd 4 7 4118548399, FF Rd Ra Rb Rc 5 12 1200080426,
    FF Rc Rd Ra Rb 6 17 2821735955, FF Rb Rc Rd Ra 7 22 4249261313,
    FF Ra Rb Rc Rd 8 7 1770035416, FF Rd Ra Rb Rc 9 12 2336552879,
    FF Rc Rd Ra Rb 10 17 4294925233, FF Rb Rc Rd Ra 11 22 2304563134,
    FF Ra Rb Rc Rd 12 7 1804603682, FF Rd Ra Rb Rc 13 12 4254626195,
    FF Rc Rd Ra Rb 14 17 2792965006, FF Rb Rc Rd Ra 15 22 1236535329]"

definition md5_round_2 :: "md5_step list" where
  "md5_round_2 =
   [GG Ra Rb Rc Rd 1 5 4129170786, GG Rd Ra Rb Rc 6 9 3225465664,
    GG Rc Rd Ra Rb 11 14 643717713, GG Rb Rc Rd Ra 0 20 3921069994,
    GG Ra Rb Rc Rd 5 5 3593408605, GG Rd Ra Rb Rc 10 9 38016083,
    GG Rc Rd Ra Rb 15 14 3634488961, GG Rb Rc Rd Ra 4 20 3889429448,
    GG Ra Rb Rc Rd 9 5 568446438, GG Rd Ra Rb Rc 14 9 3275163606,
    GG Rc Rd Ra Rb 3 14 4107603335, GG Rb Rc Rd Ra 8 20 1163531501,
    GG Ra Rb Rc Rd 13 5 2850285829, GG Rd Ra Rb Rc 2 9 4243563512,
    GG Rc Rd Ra Rb 7 14 1735328473, GG Rb Rc Rd Ra 12 20 2368359562]"

definition md5_round_3 :: "md5_step list" where
  "md5_round_3 =
   [HH Ra Rb Rc Rd 5 4 4294588738, HH Rd Ra Rb Rc 8 11 2272392833,
    HH Rc Rd Ra Rb 11 16 1839030562, HH Rb Rc Rd Ra 14 23 4259657740,
    HH Ra Rb Rc Rd 1 4 2763975236, HH Rd Ra Rb Rc 4 11 1272893353,
    HH Rc Rd Ra Rb 7 16 4139469664, HH Rb Rc Rd Ra 10 23 3200236656,
    HH Ra Rb Rc Rd 13 4 681279174, HH Rd Ra Rb Rc 0 11 3936430074,
    HH Rc Rd Ra Rb 3 16 3572445317, HH Rb Rc Rd Ra 6 23 76029189,
    HH Ra Rb Rc Rd 9 4 3654602809, HH Rd Ra Rb Rc 12 11 3873151461,
    HH Rc Rd Ra Rb 15 16 530742520, HH Rb Rc Rd Ra 2 23 3299628645]"

definition md5_round_4 :: "md5_step list" where
  "md5_round_4 =
   [II Ra Rb Rc Rd 0 6 4096336452, II Rd Ra Rb Rc 7 10 1126891415,
    II Rc Rd Ra Rb 14 15 2878612391, II Rb Rc Rd Ra 5 21 4237533241,
    II Ra Rb Rc Rd 12 6 1700485571, II Rd Ra Rb Rc 3 10 2399980690,
    II Rc Rd Ra Rb 10 15 4293915773, II Rb Rc Rd Ra 1 21 2240044497,
    II Ra Rb Rc Rd 8 6 1873313359, II Rd Ra Rb Rc 15 10 4264355552,
    II Rc Rd Ra Rb 6 15 2734768916, II Rb Rc Rd Ra 13 21 1309151649,
    II Ra Rb Rc Rd 4 6 4149444226, II Rd Ra Rb Rc 11 10 3174756917,
    II Rc Rd Ra Rb 2 15 718787259, II Rb Rc Rd Ra 9 21 3951481745]"

definition Transform :: "md5_vars \<Rightarrow> 32 word list \<Rightarrow> md5_vars" where
  "Transform buf inp =
     (let (a, b, c, d) = foldl (md5_exec inp) buf (md5_round_1 @ md5_round_2 @ md5_round_3 @ md5_round_4);
          (b0, b1, b2, b3) = buf in
      (b0 + a, b1 + b, b2 + c, b3 + d))"

section \<open>The three operations\<close>

definition PADDING :: "byte list" where
  "PADDING = 0x80 # replicate 63 0"

text \<open>The words of the input buffer.\<close>

definition in_word :: "byte list \<Rightarrow> nat \<Rightarrow> 32 word" where
  "in_word inp ii =
     push_bit 24 (ucast (inp ! (ii + 3))) OR push_bit 16 (ucast (inp ! (ii + 2))) OR
     push_bit 8 (ucast (inp ! (ii + 1))) OR ucast (inp ! ii)"

definition in_words :: "byte list \<Rightarrow> nat \<Rightarrow> 32 word list" where
  "in_words inp n = map (\<lambda>i. in_word inp (4 * i)) [0..<n]"

definition MD5Init :: "MD5_CTX \<Rightarrow> MD5_CTX" where
  "MD5Init ctx = ctx\<lparr>md_i0 := 0, md_i1 := 0, md_buf := (0x67452301, 0xefcdab89, 0x98badcfe, 0x10325476)\<rparr>"

text \<open>
  The loop of \<open>MD5Update\<close>. \<open>mdi\<close> starts below 64 and is reset at 64, so its accesses to the 64 bytes of the buffer are
  not tested.
\<close>

fun update_loop :: "md5_vars \<Rightarrow> byte list \<Rightarrow> nat \<Rightarrow> byte list \<Rightarrow> md5_vars \<times> byte list" where
  "update_loop buf inp mdi [] = (buf, inp)"
| "update_loop buf inp mdi (b # bs) =
     (let inp = inp[mdi := b]; mdi = mdi + 1 in
      if mdi = 64 then update_loop (Transform buf (in_words inp 16)) inp 0 bs
      else update_loop buf inp mdi bs)"

definition in_count :: "MD5_CTX \<Rightarrow> nat" where
  "in_count ctx = unat (drop_bit 3 (md_i0 ctx) AND 0x3F)"

definition MD5Update :: "MD5_CTX \<Rightarrow> byte list \<Rightarrow> 32 word \<Rightarrow> MD5_CTX res" where
  "MD5Update ctx inBuf inLen =
     (let mdi = in_count ctx;
          i0 = md_i0 ctx + push_bit 3 inLen;
          i1 = (if i0 < md_i0 ctx then md_i1 ctx + 1 else md_i1 ctx) + drop_bit 29 inLen in
      rbind (copy_bytes inBuf 0 (unat inLen)) (\<lambda>bs.
        let (buf, inp) = update_loop (md_buf ctx) (md_in ctx) mdi bs in
        Inr (ctx\<lparr>md_i0 := i0, md_i1 := i1, md_buf := buf, md_in := inp\<rparr>)))"

fun buf_words :: "md5_vars \<Rightarrow> 32 word list" where
  "buf_words (a, b, c, d) = [a, b, c, d]"

definition MD5Final :: "MD5_CTX \<Rightarrow> MD5_CTX res" where
  "MD5Final ctx =
     (let in14 = md_i0 ctx; in15 = md_i1 ctx; mdi = in_count ctx;
          padLen = (if mdi < 56 then 56 - mdi else 120 - mdi) in
      rbind (MD5Update ctx PADDING (word_of_nat padLen)) (\<lambda>ctx1.
        let buf = Transform (md_buf ctx1) (in_words (md_in ctx1) 14 @ [in14, in15]) in
        Inr (ctx1\<lparr>md_buf := buf,
          md_digest := concat (map (\<lambda>w. [ucast (w AND 0xFF), ucast (drop_bit 8 w AND 0xFF),
            ucast (drop_bit 16 w AND 0xFF), ucast (drop_bit 24 w AND 0xFF)]) (buf_words buf))\<rparr>)))"

section \<open>The reference\<close>

definition rfc_K :: "int list" where
  "rfc_K =
   [0xd76aa478, 0xe8c7b756, 0x242070db, 0xc1bdceee, 0xf57c0faf, 0x4787c62a, 0xa8304613, 0xfd469501,
    0x698098d8, 0x8b44f7af, 0xffff5bb1, 0x895cd7be, 0x6b901122, 0xfd987193, 0xa679438e, 0x49b40821,
    0xf61e2562, 0xc040b340, 0x265e5a51, 0xe9b6c7aa, 0xd62f105d, 0x2441453, 0xd8a1e681, 0xe7d3fbc8,
    0x21e1cde6, 0xc33707d6, 0xf4d50d87, 0x455a14ed, 0xa9e3e905, 0xfcefa3f8, 0x676f02d9, 0x8d2a4c8a,
    0xfffa3942, 0x8771f681, 0x6d9d6122, 0xfde5380c, 0xa4beea44, 0x4bdecfa9, 0xf6bb4b60, 0xbebfbc70,
    0x289b7ec6, 0xeaa127fa, 0xd4ef3085, 0x4881d05, 0xd9d4d039, 0xe6db99e5, 0x1fa27cf8, 0xc4ac5665,
    0xf4292244, 0x432aff97, 0xab9423a7, 0xfc93a039, 0x655b59c3, 0x8f0ccc92, 0xffeff47d, 0x85845dd1,
    0x6fa87e4f, 0xfe2ce6e0, 0xa3014314, 0x4e0811a1, 0xf7537e82, 0xbd3af235, 0x2ad7d2bb, 0xeb86d391]"

definition rfc_f :: "nat \<Rightarrow> 32 word \<Rightarrow> 32 word \<Rightarrow> 32 word \<Rightarrow> 32 word" where
  "rfc_f i b c d =
     (if i < 16 then (b AND c) OR (NOT b AND d)
      else if i < 32 then (b AND d) OR (c AND NOT d)
      else if i < 48 then b XOR c XOR d
      else c XOR (b OR NOT d))"

definition rfc_g :: "nat \<Rightarrow> nat" where
  "rfc_g i =
     (if i < 16 then i
      else if i < 32 then (5 * i + 1) mod 16
      else if i < 48 then (3 * i + 5) mod 16
      else (7 * i) mod 16)"

definition rfc_s :: "nat \<Rightarrow> nat" where
  "rfc_s i = [[7, 12, 17, 22], [5, 9, 14, 20], [4, 11, 16, 23], [6, 10, 15, 21]] ! (i div 16) ! (i mod 4)"

definition rfc_step :: "32 word list \<Rightarrow> md5_vars \<Rightarrow> nat \<Rightarrow> md5_vars" where
  "rfc_step M = (\<lambda>(a, b, c, d) i.
     (d, b + word_rotl (rfc_s i) (a + rfc_f i b c d + M ! rfc_g i + word_of_int (rfc_K ! i)), b, c))"

definition rfc_block :: "md5_vars \<Rightarrow> byte list \<Rightarrow> md5_vars" where
  "rfc_block st blk =
     (let (a, b, c, d) = foldl (rfc_step (map (\<lambda>i. of_le_bytes (take 4 (drop (4 * i) blk))) [0..<16])) st [0..<64];
          (a0, b0, c0, d0) = st in
      (a0 + a, b0 + b, c0 + c, d0 + d))"

fun rfc_blocks :: "md5_vars \<Rightarrow> byte list \<Rightarrow> md5_vars" where
  "rfc_blocks st m = (if length m < 64 then st else rfc_blocks (rfc_block st (take 64 m)) (drop 64 m))"

declare rfc_blocks.simps [simp del]

definition rfc_pad :: "byte list \<Rightarrow> byte list" where
  "rfc_pad m = m @ 0x80 # replicate ((119 - length m mod 64) mod 64) 0 @ le_bytes 8 (word_of_nat (8 * length m) :: 64 word)"

definition rfc_md5 :: "byte list \<Rightarrow> byte list" where
  "rfc_md5 m = concat (map (le_bytes 4) (buf_words (rfc_blocks (0x67452301, 0xefcdab89, 0x98badcfe, 0x10325476) (rfc_pad m))))"


section \<open>The steps are those of the reference\<close>

lemma ROTATE_LEFT_eq:
  assumes "0 < n" and "n < 32"
  shows "ROTATE_LEFT x n = word_rotl n x"
proof (rule bit_word_eqI)
  fix k
  assume k: "k < LENGTH(32)"
  show "bit (ROTATE_LEFT x n) k = bit (word_rotl n x) k"
  proof (cases "n \<le> k")
    case True
    then have "(k + 32 - n) mod 32 = k - n" using k by (simp add: mod_if)
    moreover have "\<not> bit x (32 + k - n)" using True bit_imp_le_length [of x "32 + k - n"] by auto
    ultimately show ?thesis using True k assms
      by (simp add: ROTATE_LEFT_def bit_word_rotl_iff bit_or_iff bit_push_bit_iff bit_drop_bit_eq)
  next
    case False
    then have "(k + 32 - n) mod 32 = 32 + k - n" using k by simp
    then show ?thesis using False k assms
      by (simp add: ROTATE_LEFT_def bit_word_rotl_iff bit_or_iff bit_push_bit_iff bit_drop_bit_eq)
  qed
qed

lemma below_four: "(k :: nat) < 4 \<Longrightarrow> k = 0 \<or> k = 1 \<or> k = 2 \<or> k = 3"
  by auto

text \<open>Step \<open>i\<close> of the code, from the tables of the reference; the variables rotate.\<close>

definition md5_ops :: "(32 word \<Rightarrow> 32 word \<Rightarrow> 32 word \<Rightarrow> 32 word) list" where
  "md5_ops = [md5_F, md5_G, md5_H, md5_I]"

definition md5_regs :: "nat \<Rightarrow> md5_var \<times> md5_var \<times> md5_var \<times> md5_var" where
  "md5_regs i = [(Ra, Rb, Rc, Rd), (Rd, Ra, Rb, Rc), (Rc, Rd, Ra, Rb), (Rb, Rc, Rd, Ra)] ! (i mod 4)"

definition code_step :: "nat \<Rightarrow> md5_step" where
  "code_step i = (case md5_regs i of (a, b, c, d) \<Rightarrow>
     ([FF, GG, HH, II] ! (i div 16)) a b c d (rfc_g i) (rfc_s i) (rfc_K ! i))"

lemma code_steps: "md5_round_1 @ md5_round_2 @ md5_round_3 @ md5_round_4 = map code_step [0..<64]"
  by code_simp

lemma rfc_f_ops: "i < 64 \<Longrightarrow> md5_ops ! (i div 16) = rfc_f i"
proof -
  assume "i < 64"
  then have "i div 16 < 4" by simp
  from below_four [OF this] show ?thesis
  proof (elim disjE)
    assume "i div 16 = 0"
    moreover from this have "i < 16" by simp
    ultimately show ?thesis by (simp add: md5_ops_def rfc_f_def md5_F_def fun_eq_iff)
  next
    assume "i div 16 = 1"
    moreover from this have "16 \<le> i" "i < 32" by linarith+
    ultimately show ?thesis by (simp add: md5_ops_def rfc_f_def md5_G_def fun_eq_iff)
  next
    assume "i div 16 = 2"
    moreover from this have "32 \<le> i" "i < 48" by linarith+
    ultimately show ?thesis by (simp add: md5_ops_def rfc_f_def md5_H_def fun_eq_iff)
  next
    assume "i div 16 = 3"
    moreover from this have "48 \<le> i" by linarith
    ultimately show ?thesis by (simp add: md5_ops_def rfc_f_def md5_I_def fun_eq_iff)
  qed
qed

lemma exec_code_step:
  assumes "i < 64"
  shows "md5_exec x v (code_step i) = (case md5_regs i of (a, b, c, d) \<Rightarrow> md5_op (rfc_f i) x a b c d (rfc_g i) (rfc_s i) (rfc_K ! i) v)"
proof -
  have "i div 16 < 4" using assms by simp
  then have "md5_exec x v (code_step i) =
      (case md5_regs i of (a, b, c, d) \<Rightarrow> md5_op (md5_ops ! (i div 16)) x a b c d (rfc_g i) (rfc_s i) (rfc_K ! i) v)"
    by (auto simp: code_step_def md5_ops_def dest!: below_four split: prod.split)
  then show ?thesis using rfc_f_ops [OF assms] by simp
qed

lemma rfc_s_bounds: "i < 64 \<Longrightarrow> 0 < rfc_s i \<and> rfc_s i < 32"
proof -
  assume "i < 64"
  then have "i div 16 < 4" "i mod 4 < 4" by simp_all
  from this [THEN below_four] show ?thesis by (auto simp: rfc_s_def)
qed

text \<open>The variables of the code hold the state of the reference, rotated by the number of the step.\<close>

fun place :: "nat \<Rightarrow> md5_vars \<Rightarrow> md5_vars" where
  "place j (a, b, c, d) = (if j = 0 then (a, b, c, d) else if j = 1 then (b, c, d, a) else if j = 2 then (c, d, a, b) else (d, a, b, c))"

lemma exec_place:
  assumes "i < 64"
  shows "md5_exec x (place (i mod 4) st) (code_step i) = place (Suc i mod 4) (rfc_step x st i)"
proof -
  obtain a b c d where st: "st = (a, b, c, d)" by (cases st)
  have rot: "ROTATE_LEFT y (rfc_s i) = word_rotl (rfc_s i) y" for y
    using rfc_s_bounds [OF assms] by (simp add: ROTATE_LEFT_eq)
  have "i mod 4 < 4" by simp
  from below_four [OF this] show ?thesis
    unfolding exec_code_step [OF assms]
    by (elim disjE) (simp_all add: st mod_Suc md5_regs_def md5_op_def Let_def rfc_step_def rot algebra_simps)
qed

lemma foldl_code_steps: "n \<le> 64 \<Longrightarrow> foldl (md5_exec x) st (map code_step [0..<n]) = place (n mod 4) (foldl (rfc_step x) st [0..<n])"
proof (induction n)
  case 0
  show ?case by (cases st) simp
next
  case (Suc n)
  then show ?case by (simp add: exec_place)
qed

lemma in_word_eq:
  assumes "ii + 4 \<le> length inp"
  shows "in_word inp ii = of_le_bytes (take 4 (drop ii inp))"
proof -
  obtain b0 b1 b2 b3 r where r: "drop ii inp = b0 # b1 # b2 # b3 # r"
  proof -
    have "4 \<le> length (drop ii inp)" using assms by simp
    then show ?thesis by (auto simp: numeral_eq_Suc Suc_le_length_iff simp del: length_drop intro: that)
  qed
  have "inp ! ii = b0" "inp ! (ii + 1) = b1" "inp ! (ii + 2) = b2" "inp ! (ii + 3) = b3"
    using assms nth_drop [of ii inp 0] nth_drop [of ii inp 1] nth_drop [of ii inp 2] nth_drop [of ii inp 3] by (simp_all add: r)
  then show ?thesis
    by (simp add: in_word_def r) (rule bit_word_eqI, auto simp: bit_or_iff bit_push_bit_iff)
qed

lemma Transform_eq:
  assumes "length blk = 64"
  shows "Transform st (in_words blk 16) = rfc_block st blk"
proof -
  have "in_words blk 16 = map (\<lambda>i. of_le_bytes (take 4 (drop (4 * i) blk))) [0..<16]"
    using assms unfolding in_words_def by (intro map_cong in_word_eq) auto
  moreover have "place (64 mod 4) v = v" for v by (cases v) simp
  ultimately show ?thesis
    unfolding Transform_def rfc_block_def code_steps foldl_code_steps [OF order.refl] by simp
qed

section \<open>Streaming\<close>

abbreviation H0 :: md5_vars where
  "H0 \<equiv> (0x67452301, 0xefcdab89, 0x98badcfe, 0x10325476)"

lemma rfc_blocks_short [simp]: "length m < 64 \<Longrightarrow> rfc_blocks st m = st"
  by (subst rfc_blocks.simps) simp

lemma rfc_blocks_one: "length m = 64 \<Longrightarrow> rfc_blocks st m = rfc_block st m"
  by (subst rfc_blocks.simps) simp

lemma rfc_blocks_long: "\<not> length m < 64 \<Longrightarrow> rfc_blocks st m = rfc_blocks (rfc_block st (take 64 m)) (drop 64 m)"
  by (subst rfc_blocks.simps) simp

lemma rfc_blocks_append: "64 dvd length x \<Longrightarrow> rfc_blocks st (x @ y) = rfc_blocks (rfc_blocks st x) y"
proof (induction st x rule: rfc_blocks.induct)
  case (1 st x)
  show ?case
  proof (cases "length x < 64")
    case True
    then have "x = []" using "1.prems" by (auto elim: dvdE)
    then show ?thesis by simp
  next
    case False
    have "64 dvd length (drop 64 x)" using "1.prems" by (simp add: dvd_diff_nat)
    then have "rfc_blocks (rfc_block st (take 64 x)) (drop 64 x @ y) = rfc_blocks (rfc_blocks (rfc_block st (take 64 x)) (drop 64 x)) y"
      by (rule "1.IH" [OF False])
    then show ?thesis using False by (simp add: rfc_blocks_long)
  qed
qed

text \<open>The bytes of a message behind its complete blocks.\<close>

definition rest :: "byte list \<Rightarrow> byte list" where
  "rest m = drop (64 * (length m div 64)) m"

lemma length_rest [simp]: "length (rest m) = length m mod 64"
  by (simp add: rest_def minus_mult_div_eq_mod)

lemma blocks_rest: "rfc_blocks st (m @ y) = rfc_blocks (rfc_blocks st m) (rest m @ y)"
proof -
  let ?k = "64 * (length m div 64)"
  have "64 dvd length (take ?k m)" by simp
  from rfc_blocks_append [OF this, of st "drop ?k m @ y"] rfc_blocks_append [OF this, of st "drop ?k m"]
  show ?thesis by (simp add: rest_def minus_mult_div_eq_mod flip: append_assoc)
qed

lemma rest_append: "length (rest m @ y) < 64 \<Longrightarrow> rest (m @ y) = rest m @ y"
  unfolding rest_def length_append length_drop minus_mult_div_eq_mod
  by (simp add: div_add1_eq [of "length m"])

text \<open>A context that has taken the message \<open>m\<close>.\<close>

definition taken :: "byte list \<Rightarrow> MD5_CTX \<Rightarrow> bool" where
  "taken m ctx \<longleftrightarrow>
     md_i0 ctx = word_of_nat (8 * length m) \<and> md_i1 ctx = word_of_nat (8 * length m div 2 ^ 32) \<and>
     md_buf ctx = rfc_blocks H0 m \<and> length (md_in ctx) = 64 \<and> take (length m mod 64) (md_in ctx) = rest m"

lemma update_loop_ok:
  "length inp = 64 \<Longrightarrow> take (length m mod 64) inp = rest m \<Longrightarrow>
    \<exists>inp'. update_loop (rfc_blocks H0 m) inp (length m mod 64) bs = (rfc_blocks H0 (m @ bs), inp') \<and>
      length inp' = 64 \<and> take (length (m @ bs) mod 64) inp' = rest (m @ bs)"
proof (induction bs arbitrary: m inp)
  case Nil
  then show ?case by simp
next
  case (Cons b bs)
  let ?r = "length m mod 64" and ?inp = "inp[length m mod 64 := b]"
  have r: "?r < 64" by simp
  have filled: "take (Suc ?r) ?inp = rest m @ [b]" using Cons.prems r by (simp add: take_Suc_conv_app_nth)
  show ?case
  proof (cases "?r = 63")
    case True
    have "?inp = rest m @ [b]" using filled Cons.prems(1) True by simp
    then have "Transform (rfc_blocks H0 m) (in_words ?inp 16) = rfc_blocks H0 (m @ [b])"
      using Transform_eq [of ?inp] Cons.prems(1) True blocks_rest [of H0 m "[b]"] rfc_blocks_one [of "rest m @ [b]"] by simp
    moreover have "length (m @ [b]) mod 64 = 0" using True by (simp add: mod_Suc)
    moreover from this have "rest (m @ [b]) = []" by (simp flip: length_0_conv)
    ultimately show ?thesis using Cons.IH [of ?inp "m @ [b]"] Cons.prems(1) True by (simp add: Let_def)
  next
    case False
    then have r1: "length (m @ [b]) mod 64 = Suc ?r" using r by (simp add: mod_Suc)
    have "length (rest m @ [b]) < 64" using False r by simp
    then have "rfc_blocks H0 (m @ [b]) = rfc_blocks H0 m" "rest (m @ [b]) = rest m @ [b]"
      using blocks_rest [of H0 m "[b]"] by (simp_all add: rest_append)
    then show ?thesis using Cons.IH [of ?inp "m @ [b]"] Cons.prems(1) filled r1 False by (simp add: Let_def)
  qed
qed

lemma in_count_taken:
  assumes "md_i0 ctx = word_of_nat (8 * n)"
  shows "in_count ctx = n mod 64"
proof -
  have "(0x3F :: 32 word) = mask 6" by (simp add: mask_eq_decr_exp)
  then have "drop_bit 3 (md_i0 ctx) AND 0x3F = take_bit 6 (drop_bit 3 (md_i0 ctx))" by (simp only: take_bit_eq_mask)
  then have "in_count ctx = unat (md_i0 ctx) div 8 mod 64"
    unfolding in_count_def by (simp only:) (simp add: take_bit_eq_mod drop_bit_eq_div unat_div_distrib unat_mod_distrib)
  also have "unat (md_i0 ctx) = 8 * (n mod 2 ^ 29)"
    using mult_mod_right [of 8 n "2 ^ 29"] by (simp add: assms unat_of_nat del: of_nat_mult)
  also have "8 * (n mod 2 ^ 29) div 8 mod 64 = n mod 64" by (simp add: mod_mod_cancel)
  finally show ?thesis .
qed

lemma mod_carry:
  assumes "0 < (M :: nat)"
  shows "(a + b) mod M < a mod M \<longleftrightarrow> M \<le> a mod M + b mod M"
proof (cases "a mod M + b mod M < M")
  case True
  then have "(a + b) mod M = a mod M + b mod M" by (metis mod_add_eq mod_less)
  then show ?thesis using True by simp
next
  case False
  have lt: "a mod M < M" "b mod M < M" using assms by simp_all
  have "(a + b) mod M = (a mod M + b mod M - M) mod M" using False by (metis le_mod_geq mod_add_eq not_less)
  also have "\<dots> = a mod M + b mod M - M" using lt by (intro mod_less) linarith
  finally show ?thesis using False lt by simp
qed

lemma count_carry:
  assumes "l < 2 ^ 32"
  shows "(if (word_of_nat (8 * n) :: 32 word) + push_bit 3 (word_of_nat l) < word_of_nat (8 * n)
      then word_of_nat (8 * n div 2 ^ 32) + 1 else word_of_nat (8 * n div 2 ^ 32)) + drop_bit 29 (word_of_nat l :: 32 word) =
    (word_of_nat (8 * (n + l) div 2 ^ 32) :: 32 word)"
proof -
  let ?a = "8 * n" and ?b = "8 * l" and ?M = "2 ^ 32 :: nat"
  have push: "push_bit 3 (word_of_nat l :: 32 word) = word_of_nat ?b" by (simp add: push_bit_eq_mult mult.commute)
  have dropped: "drop_bit 29 (word_of_nat l :: 32 word) = word_of_nat (?b div ?M)"
    by (rule word_unat_eq_iff [THEN iffD2]) (use assms in \<open>simp add: drop_bit_eq_div unat_div_distrib unat_of_nat\<close>)
  have "(word_of_nat ?a :: 32 word) + word_of_nat ?b < word_of_nat ?a \<longleftrightarrow> (?a + ?b) mod ?M < ?a mod ?M"
    by (simp only: word_less_nat_alt of_nat_add [symmetric] unat_of_nat) simp
  also have "\<dots> \<longleftrightarrow> ?M \<le> ?a mod ?M + ?b mod ?M"
    by (rule mod_carry) simp
  finally have carry: "(word_of_nat ?a :: 32 word) + word_of_nat ?b < word_of_nat ?a \<longleftrightarrow> ?M \<le> ?a mod ?M + ?b mod ?M" .
  have "(?a mod ?M + ?b mod ?M) div ?M = (if ?M \<le> ?a mod ?M + ?b mod ?M then 1 else 0)"
  proof (cases "?M \<le> ?a mod ?M + ?b mod ?M")
    case True
    moreover have "?a mod ?M < ?M" "?b mod ?M < ?M" by simp_all
    ultimately have "?a mod ?M + ?b mod ?M = 1 * ?M + (?a mod ?M + ?b mod ?M - ?M)" "?a mod ?M + ?b mod ?M - ?M < ?M" by linarith+
    then have "(?a mod ?M + ?b mod ?M) div ?M = 1" by (metis add.right_neutral div_less div_mult_self3 zero_less_numeral not_less0)
    then show ?thesis using True by simp
  next
    case False
    then show ?thesis by simp
  qed
  then have "8 * (n + l) div ?M = (if ?M \<le> ?a mod ?M + ?b mod ?M then ?a div ?M + 1 else ?a div ?M) + ?b div ?M"
    using div_add1_eq [of ?a ?b ?M] by (simp add: distrib_left)
  then show ?thesis unfolding push dropped carry by simp
qed

lemma MD5Init_taken: "length (md_in ctx) = 64 \<Longrightarrow> taken [] (MD5Init ctx)"
  by (simp add: taken_def MD5Init_def rest_def)

lemma MD5Update_taken:
  assumes "taken m ctx" and "n < 2 ^ 32" and "n \<le> length buf"
  obtains ctx' where "MD5Update ctx buf (word_of_nat n) = Inr ctx'" and "taken (m @ take n buf) ctx'"
proof -
  let ?bs = "take n buf"
  have un: "unat (word_of_nat n :: 32 word) = n" and len: "length ?bs = n" using assms(2,3) by (simp_all add: unat_of_nat)
  have cnt: "in_count ctx = length m mod 64" using assms(1) by (intro in_count_taken) (simp add: taken_def)
  obtain inp' where inp': "update_loop (md_buf ctx) (md_in ctx) (length m mod 64) ?bs = (rfc_blocks H0 (m @ ?bs), inp')"
      "length inp' = 64" "take (length (m @ ?bs) mod 64) inp' = rest (m @ ?bs)"
    using update_loop_ok [of "md_in ctx" m ?bs] assms(1) by (auto simp: taken_def)
  have i0: "md_i0 ctx + push_bit 3 (word_of_nat n) = word_of_nat (8 * length (m @ ?bs))"
    using assms(1) len by (simp add: taken_def push_bit_eq_mult algebra_simps)
  have i1: "(if md_i0 ctx + push_bit 3 (word_of_nat n) < md_i0 ctx then md_i1 ctx + 1 else md_i1 ctx) + drop_bit 29 (word_of_nat n) =
      word_of_nat (8 * length (m @ ?bs) div 2 ^ 32)"
    using count_carry [OF assms(2), of "length m"] assms(1) len by (simp only: taken_def length_append)
  let ?ctx = "ctx\<lparr>md_i0 := word_of_nat (8 * length (m @ ?bs)), md_i1 := word_of_nat (8 * length (m @ ?bs) div 2 ^ 32),
    md_buf := rfc_blocks H0 (m @ ?bs), md_in := inp'\<rparr>"
  have "MD5Update ctx buf (word_of_nat n) = Inr ?ctx"
    unfolding MD5Update_def Let_def i1 unfolding i0 using assms(3) un cnt inp'(1) by (simp add: copy_bytes_def)
  moreover have "taken (m @ ?bs) ?ctx" using inp'(2,3) by (simp add: taken_def)
  ultimately show ?thesis by (rule that)
qed

text \<open>The last block: the padded rest and the number of bits.\<close>

lemma bit_word_of_nat: "bit (word_of_nat n :: 'a::len word) k \<longleftrightarrow> k < LENGTH('a) \<and> bit n k"
  using bit_word_of_int_iff [of "int n" k, where 'a = 'a] by (simp add: bit_of_nat_iff_bit)

lemma le_bytes_64: "le_bytes 8 (word_of_nat n :: 64 word) = le_bytes 4 (word_of_nat n :: 32 word) @ le_bytes 4 (word_of_nat (n div 2 ^ 32) :: 32 word)"
proof -
  have lo: "(ucast (drop_bit (8 * i) (word_of_nat n :: 64 word)) :: byte) = ucast (drop_bit (8 * i) (word_of_nat n :: 32 word))" if "i < 4" for i
    using that by (intro bit_word_eqI) (simp add: bit_ucast_iff bit_drop_bit_eq bit_word_of_nat)
  have hi: "(ucast (drop_bit (8 * (4 + i)) (word_of_nat n :: 64 word)) :: byte) = ucast (drop_bit (8 * i) (word_of_nat (n div 2 ^ 32) :: 32 word))" if "i < 4" for i
  proof (rule bit_word_eqI)
    fix k
    assume "k < LENGTH(8)"
    moreover have "n div 2 ^ 32 = drop_bit 32 n" by (simp only: drop_bit_eq_div)
    then have "bit (n div 2 ^ 32) (8 * i + k) = bit n (32 + (8 * i + k))" by (simp only: bit_drop_bit_eq comp_apply)
    ultimately show "bit (ucast (drop_bit (8 * (4 + i)) (word_of_nat n :: 64 word)) :: byte) k =
        bit (ucast (drop_bit (8 * i) (word_of_nat (n div 2 ^ 32) :: 32 word)) :: byte) k"
      using that by (simp add: bit_ucast_iff bit_drop_bit_eq bit_word_of_nat algebra_simps)
  qed
  have "[0..<8] = [0..<4] @ map (\<lambda>i. 4 + i) [0..<4]" by (simp add: upt_rec)
  then show ?thesis using lo hi by (simp add: le_bytes_def del: upt_rec_numeral)
qed

lemma in_words_block:
  assumes "length x = 56"
  shows "in_words (x @ le_bytes 4 a @ le_bytes 4 b) 16 = in_words x 14 @ [a, b]"
proof -
  let ?y = "x @ le_bytes 4 a @ le_bytes 4 b"
  have "in_word ?y (4 * i) = in_word x (4 * i)" if "i < 14" for i
    using that assms by (simp add: in_word_eq)
  then have "map (\<lambda>i. in_word ?y (4 * i)) [0..<14] = map (\<lambda>i. in_word x (4 * i)) [0..<14]" by (intro map_cong) auto
  moreover have "in_word ?y 56 = a" "in_word ?y 60 = b" using assms by (simp_all add: in_word_eq)
  moreover have "[0..<16] = [0..<14] @ [14, 15]" by (simp add: upt_rec)
  ultimately show ?thesis by (simp add: in_words_def del: upt_rec_numeral map_eq_conv)
qed

lemma digest_word: "[ucast (w AND 0xFF), ucast (drop_bit 8 w AND 0xFF), ucast (drop_bit 16 w AND 0xFF), ucast (drop_bit 24 w AND 0xFF)] = le_bytes 4 (w :: 32 word)"
proof -
  have "ucast (v AND 0xFF) = (ucast v :: byte)" for v :: "32 word"
  proof -
    have mask: "0xFF = (mask 8 :: 32 word)" by (simp add: mask_eq_exp_minus_1)
    show ?thesis unfolding mask by (rule bit_word_eqI) (simp add: bit_ucast_iff bit_and_iff bit_mask_iff)
  qed
  moreover have "[0..<4] = [0, 1, 2, 3]" by (simp add: upt_rec)
  ultimately show ?thesis by (simp add: le_bytes_def)
qed

lemma last_block:
  assumes "taken m ctx" and len: "length m mod 64 = 56"
  shows "Transform (md_buf ctx) (in_words (md_in ctx) 14 @ [a, b]) = rfc_blocks H0 (m @ le_bytes 4 a @ le_bytes 4 b)"
proof -
  let ?blk = "rest m @ le_bytes 4 a @ le_bytes 4 b"
  have buf: "md_buf ctx = rfc_blocks H0 m" and inp: "length (md_in ctx) = 64" "take 56 (md_in ctx) = rest m"
    using assms(1) by (simp_all add: taken_def len)
  have "in_word (md_in ctx) (4 * i) = in_word (take 56 (md_in ctx)) (4 * i)" if "i < 14" for i
    using that inp(1) by (simp add: in_word_eq drop_take min_def)
  then have "in_words (md_in ctx) 14 = in_words (rest m) 14" unfolding in_words_def inp(2) by (intro map_cong) auto
  moreover have "in_words ?blk 16 = in_words (rest m) 14 @ [a, b]" by (rule in_words_block) (simp add: len)
  moreover have "length ?blk = 64" by (simp add: len)
  ultimately show ?thesis unfolding buf blocks_rest [of H0 m]
    using Transform_eq [of ?blk "rfc_blocks H0 m"] rfc_blocks_one [of ?blk "rfc_blocks H0 m"] by simp
qed

lemma MD5Final_digest:
  assumes "taken m ctx"
  obtains ctx' where "MD5Final ctx = Inr ctx'" and "md_digest ctx' = rfc_md5 m"
proof -
  let ?r = "length m mod 64"
  let ?pad = "if ?r < 56 then 56 - ?r else 120 - ?r"
  have r: "?r < 64" by simp
  have "0 < (if k < 56 then 56 - k else 120 - k) \<and> (if k < 56 then 56 - k else 120 - k) \<le> 64" if "k < 64" for k :: nat
    using that by auto
  from this [OF r] have pad: "?pad < 2 ^ 32" "?pad \<le> length PADDING" "0 < ?pad" unfolding PADDING_def by auto
  have cnt: "in_count ctx = ?r" using assms by (intro in_count_taken) (simp add: taken_def)
  obtain ctx1 where c: "MD5Update ctx PADDING (word_of_nat ?pad) = Inr ctx1" "taken (m @ take ?pad PADDING) ctx1"
    using MD5Update_taken [OF assms pad(1,2)] by blast
  let ?m1 = "m @ take ?pad PADDING"
  have "take ?pad PADDING = 0x80 # replicate (?pad - 1) 0" using pad(2,3) by (cases ?pad) (simp_all add: PADDING_def)
  moreover have "?pad - 1 = (119 - ?r) mod 64"
  proof (cases "?r < 56")
    case True
    then have "119 - ?r = (55 - ?r) + 64" by simp
    then have "(119 - ?r) mod 64 = (55 - ?r) mod 64" by (metis mod_add_self2)
    then show ?thesis using True by simp
  next
    case False
    then show ?thesis using r by simp
  qed
  ultimately have padded: "rfc_pad m = ?m1 @ le_bytes 8 (word_of_nat (8 * length m) :: 64 word)" by (simp add: rfc_pad_def)
  have len1: "length ?m1 mod 64 = 56"
  proof -
    have "length ?m1 mod 64 = (?r + ?pad) mod 64" using pad(2) by (simp add: mod_add_left_eq)
    also have "?r + ?pad = 56 \<or> ?r + ?pad = 120" using r by auto
    then have "(?r + ?pad) mod 64 = 56" by auto
    finally show ?thesis .
  qed
  have buf: "Transform (md_buf ctx1) (in_words (md_in ctx1) 14 @ [md_i0 ctx, md_i1 ctx]) = rfc_blocks H0 (rfc_pad m)"
    unfolding last_block [OF c(2) len1] padded le_bytes_64 using assms by (simp only: taken_def)
  let ?ctx = "ctx1\<lparr>md_buf := rfc_blocks H0 (rfc_pad m), md_digest := rfc_md5 m\<rparr>"
  have "MD5Final ctx = Inr ?ctx"
    using c(1) cnt buf by (simp add: MD5Final_def Let_def digest_word rfc_md5_def)
  then show ?thesis by (rule that) simp
qed

text \<open>The calls of a client: initialise, feed the pieces of a message, finish.\<close>

fun md5_feed :: "byte list list \<Rightarrow> MD5_CTX \<Rightarrow> MD5_CTX res" where
  "md5_feed [] ctx = Inr ctx"
| "md5_feed (c # cs) ctx = rbind (MD5Update ctx c (word_of_nat (length c))) (md5_feed cs)"

lemma md5_feed_taken:
  "taken m ctx \<Longrightarrow> \<forall>c \<in> set cs. length c < 2 ^ 32 \<Longrightarrow> \<exists>ctx'. md5_feed cs ctx = Inr ctx' \<and> taken (m @ concat cs) ctx'"
proof (induction cs arbitrary: m ctx)
  case Nil
  then show ?case by simp
next
  case (Cons c cs)
  then obtain ctx1 where "MD5Update ctx c (word_of_nat (length c)) = Inr ctx1" "taken (m @ take (length c) c) ctx1"
    using MD5Update_taken [OF Cons.prems(1), of "length c" c] by auto
  then show ?case using Cons.IH [of "m @ c" ctx1] Cons.prems(2) by simp
qed

text \<open>C32.
  Fed in whatever pieces, each of less than 2^32 bytes, a message gives the digest RFC 1321 defines for it
  as a whole, with its length counted modulo 2^64 bits in two words with a carry.\<close>

theorem md5_correct:
  assumes "length (md_in ctx) = 64" and "\<forall>c \<in> set cs. length c < 2 ^ 32"
  shows "\<exists>ctx'. rbind (md5_feed cs (MD5Init ctx)) MD5Final = Inr ctx' \<and> md_digest ctx' = rfc_md5 (concat cs)"
proof -
  obtain ctx1 where "md5_feed cs (MD5Init ctx) = Inr ctx1" "taken (concat cs) ctx1"
    using md5_feed_taken [OF MD5Init_taken [OF assms(1)] assms(2)] by auto
  then show ?thesis by (metis MD5Final_digest rbind_simps(2))
qed

text \<open>The digest of ''abc'', fed in two pieces.\<close>

lemma rfc_abc: "rfc_md5 [97, 98, 99] = [0x90, 0x01, 0x50, 0x98, 0x3c, 0xd2, 0x4f, 0xb0, 0xd6, 0x96, 0x3f, 0x7d, 0x28, 0xe1, 0x7f, 0x72]"
  by code_simp

theorem md5_correct_witness:
  "\<exists>ctx'. rbind (md5_feed [[97], [98, 99]] (MD5Init \<lparr>md_i0 = 5, md_i1 = 7, md_buf = (1, 2, 3, 4), md_in = replicate 64 9, md_digest = []\<rparr>)) MD5Final =
      Inr ctx' \<and>
    md_digest ctx' = [0x90, 0x01, 0x50, 0x98, 0x3c, 0xd2, 0x4f, 0xb0, 0xd6, 0x96, 0x3f, 0x7d, 0x28, 0xe1, 0x7f, 0x72]"
  using md5_correct [of "\<lparr>md_i0 = 5, md_i1 = 7, md_buf = (1, 2, 3, 4), md_in = replicate 64 9, md_digest = []\<rparr>" "[[97], [98, 99]]"]
  by (simp add: rfc_abc del: md5_feed.simps)

end
