(* ===== verification/Tokenizer.thy ===== *)
theory Tokenizer
  imports StrHash
begin

text \<open>
  The tokenizer of SQL statements: src/src/util/src/ttokenizer.c with its keyword table, kept in the string
  hash of shash.c, and the loop of \<open>tSQLParse\<close> (src/src/client/src/tscSQLParserImpl.c) that feeds the
  generated parser, which is a parameter. A statement is the list of its bytes with the terminating zero;
  every byte the code looks at is read with a test of the bound. The mutex around the initialisation of
  the keyword table is not modelled.
\<close>

section \<open>Token types and tables\<close>

definition TK_ID :: nat where "TK_ID = 1"
definition TK_BOOL :: nat where "TK_BOOL = 2"
definition TK_INTEGER :: nat where "TK_INTEGER = 5"
definition TK_FLOAT :: nat where "TK_FLOAT = 7"
definition TK_STRING :: nat where "TK_STRING = 9"
definition TK_EQ :: nat where "TK_EQ = 16"
definition TK_NE :: nat where "TK_NE = 17"
definition TK_GT :: nat where "TK_GT = 25"
definition TK_GE :: nat where "TK_GE = 26"
definition TK_LT :: nat where "TK_LT = 27"
definition TK_LE :: nat where "TK_LE = 28"
definition TK_BITAND :: nat where "TK_BITAND = 29"
definition TK_BITOR :: nat where "TK_BITOR = 30"
definition TK_LSHIFT :: nat where "TK_LSHIFT = 31"
definition TK_RSHIFT :: nat where "TK_RSHIFT = 32"
definition TK_PLUS :: nat where "TK_PLUS = 33"
definition TK_MINUS :: nat where "TK_MINUS = 34"
definition TK_STAR :: nat where "TK_STAR = 37"
definition TK_SLASH :: nat where "TK_SLASH = 38"
definition TK_REM :: nat where "TK_REM = 39"
definition TK_CONCAT :: nat where "TK_CONCAT = 40"
definition TK_BITNOT :: nat where "TK_BITNOT = 43"
definition TK_DOT :: nat where "TK_DOT = 56"
definition TK_IP :: nat where "TK_IP = 70"
definition TK_LP :: nat where "TK_LP = 86"
definition TK_RP :: nat where "TK_RP = 87"
definition TK_COMMA :: nat where "TK_COMMA = 91"
definition TK_VARIABLE :: nat where "TK_VARIABLE = 95"
definition TK_COLON :: nat where "TK_COLON = 123"
definition TK_SEMI :: nat where "TK_SEMI = 179"
definition TK_SPACE :: nat where "TK_SPACE = 200"
definition TK_COMMENT :: nat where "TK_COMMENT = 201"
definition TK_ILLEGAL :: nat where "TK_ILLEGAL = 202"

lemmas token_types = TK_ID_def TK_BOOL_def TK_INTEGER_def TK_FLOAT_def TK_STRING_def TK_EQ_def TK_NE_def TK_GT_def TK_GE_def TK_LT_def TK_LE_def TK_BITAND_def TK_BITOR_def TK_LSHIFT_def TK_RSHIFT_def TK_PLUS_def TK_MINUS_def TK_STAR_def TK_SLASH_def TK_REM_def TK_CONCAT_def TK_BITNOT_def TK_DOT_def TK_IP_def TK_LP_def TK_RP_def TK_COMMA_def TK_VARIABLE_def TK_COLON_def TK_SEMI_def TK_SPACE_def TK_COMMENT_def TK_ILLEGAL_def

text \<open>The keywords with the numbers of their token types.\<close>

definition keywordTable :: "(string \<times> nat) list" where
  "keywordTable =
   [(''ID'', 1), (''BOOL'', 2), (''TINYINT'', 3), (''SMALLINT'', 4), (''INTEGER'', 5), (''INT'', 5),
    (''BIGINT'', 6), (''FLOAT'', 7), (''DOUBLE'', 8), (''STRING'', 9), (''TIMESTAMP'', 10), (''BINARY'', 11),
    (''NCHAR'', 12), (''OR'', 13), (''AND'', 14), (''NOT'', 15), (''EQ'', 16), (''NE'', 17), (''ISNULL'', 18),
    (''NOTNULL'', 19), (''IS'', 20), (''LIKE'', 21), (''GLOB'', 22), (''BETWEEN'', 23), (''IN'', 24), (''GT'', 25),
    (''GE'', 26), (''LT'', 27), (''LE'', 28), (''BITAND'', 29), (''BITOR'', 30), (''LSHIFT'', 31),
    (''RSHIFT'', 32), (''PLUS'', 33), (''MINUS'', 34), (''DIVIDE'', 35), (''TIMES'', 36), (''STAR'', 37),
    (''SLASH'', 38), (''REM '', 39), (''CONCAT'', 40), (''UMINUS'', 41), (''UPLUS'', 42), (''BITNOT'', 43), (''SHOW'', 44),
    (''DATABASES'', 45), (''MNODES'', 46), (''DNODES'', 47), (''USERS'', 48), (''MODULES'', 49), (''QUERIES'', 50),
    (''CONNECTIONS'', 51), (''STREAMS'', 52), (''CONFIGS'', 53), (''SCORES'', 54), (''GRANTS'', 55), (''DOT'', 56),
    (''TABLES'', 57), (''STABLES'', 58), (''VGROUPS'', 59), (''DROP'', 60), (''TABLE'', 61), (''DATABASE'', 62),
    (''USER'', 63), (''USE'', 64), (''DESCRIBE'', 65), (''ALTER'', 66), (''PASS'', 67), (''PRIVILEGE'', 68),
    (''DNODE'', 69), (''IP'', 70), (''LOCAL'', 71), (''IF'', 72), (''EXISTS'', 73), (''CREATE'', 74),
    (''KEEP'', 75), (''REPLICA'', 77), (''DAYS'', 78), (''ROWS'', 79), (''CACHE'', 76), (''ABLOCKS'', 80),
    (''TBLOCKS'', 81), (''CTIME'', 82), (''CLOG'', 83), (''COMP'', 84), (''PRECISION'', 85), (''LP'', 86),
    (''RP'', 87), (''TAGS'', 88), (''USING'', 89), (''AS'', 90), (''COMMA'', 91), (''NULL'', 92), (''SELECT'', 93),
    (''FROM'', 94), (''VARIABLE'', 95), (''INTERVAL'', 96), (''FILL'', 97), (''SLIDING'', 98), (''ORDER'', 99),
    (''BY'', 100), (''ASC'', 101), (''DESC'', 102), (''GROUP'', 103), (''HAVING'', 104), (''LIMIT'', 105),
    (''OFFSET'', 106), (''SLIMIT'', 107), (''SOFFSET'', 108), (''WHERE'', 109), (''NOW'', 110), (''INSERT'', 111),
    (''INTO'', 112), (''VALUES'', 113), (''RESET'', 114), (''QUERY'', 115), (''ADD'', 116), (''COLUMN'', 117),
    (''TAG'', 118), (''CHANGE'', 119), (''SET'', 120), (''KILL'', 121), (''CONNECTION'', 122), (''COLON'', 123),
    (''STREAM'', 124), (''ABORT'', 128), (''AFTER'', 129), (''ATTACH'', 130), (''BEFORE'', 131), (''BEGIN'', 132),
    (''CASCADE'', 133), (''CLUSTER'', 134), (''CONFLICT'', 135), (''COPY'', 136), (''DEFERRED'', 137),
    (''DELIMITERS'', 138), (''DETACH'', 139), (''EACH'', 140), (''END'', 141), (''EXPLAIN'', 142), (''FAIL'', 143),
    (''FOR'', 144), (''IGNORE'', 145), (''IMMEDIATE'', 146), (''INITIALLY'', 147), (''INSTEAD'', 148),
    (''MATCH'', 149), (''KEY'', 150), (''OF'', 151), (''RAISE'', 152), (''REPLACE'', 153), (''RESTRICT'', 154),
    (''ROW'', 155), (''STATEMENT'', 156), (''TRIGGER'', 157), (''VIEW'', 158), (''ALL'', 159), (''COUNT'', 160),
    (''SUM'', 161), (''AVG'', 162), (''MIN'', 163), (''MAX'', 164), (''FIRST'', 165), (''LAST'', 166),
    (''TOP'', 167), (''BOTTOM'', 168), (''STDDEV'', 169), (''PERCENTILE'', 170), (''APERCENTILE'', 171),
    (''LEASTSQUARES'', 172), (''HISTOGRAM'', 173), (''DIFF'', 174), (''SPREAD'', 175), (''WAVG'', 176),
    (''INTERP'', 177), (''LAST_ROW'', 178), (''SEMI'', 179), (''NONE'', 180), (''PREV'', 181), (''LINEAR'', 182),
    (''IMPORT'', 183), (''METRIC'', 184), (''TBNAME'', 185), (''JOIN'', 186), (''METRICS'', 187),
    (''STABLE'', 188), (''GATE'', 125), (''DELETE'', 127), (''UPDATE'', 126)]"

definition isIdChar :: "nat list" where
  "isIdChar =
   [0, 0, 0, 0, 0, 0, 0, 0, 0, 0, 0, 0, 0, 0, 0, 0,
    0, 0, 0, 0, 0, 0, 0, 0, 0, 0, 0, 0, 0, 0, 0, 0,
    0, 0, 0, 0, 0, 0, 0, 0, 0, 0, 0, 0, 0, 0, 0, 0,
    1, 1, 1, 1, 1, 1, 1, 1, 1, 1, 0, 0, 0, 0, 0, 0,
    0, 1, 1, 1, 1, 1, 1, 1, 1, 1, 1, 1, 1, 1, 1, 1,
    1, 1, 1, 1, 1, 1, 1, 1, 1, 1, 1, 0, 0, 0, 0, 1,
    0, 1, 1, 1, 1, 1, 1, 1, 1, 1, 1, 1, 1, 1, 1, 1,
    1, 1, 1, 1, 1, 1, 1, 1, 1, 1, 1, 0, 0, 0, 0, 0]"


section \<open>Keywords\<close>

definition bytes_of :: "string \<Rightarrow> byte list" where
  "bytes_of s = map of_char s"

text \<open>
  The table of keywords holds, under the name of a keyword, a pointer to its entry: eight bytes with the
  index of the entry. \<open>keyword_init\<close> is what the first call of \<open>tSQLKeywordCode\<close> does.
\<close>

definition entry_ptr :: "nat \<Rightarrow> byte list" where
  "entry_ptr i = le_bytes 8 (word_of_nat i :: 64 word)"

fun keyword_add :: "SHashNode malloc \<Rightarrow> (string \<times> nat) list \<Rightarrow> nat \<Rightarrow> SHashObj option \<Rightarrow> SHashObj option run" where
  "keyword_add malloc [] i handle = Some (Inr handle)"
| "keyword_add malloc ((name, type) # ks) i handle =
     obind (taosAddStrHash malloc handle (Some (bytes_of name @ [0])) (Some (entry_ptr i)))
       (\<lambda>(handle', _). keyword_add malloc ks (Suc i) handle')"

definition keyword_init :: "SHashNode malloc \<Rightarrow> bool \<Rightarrow> bool \<Rightarrow> SHashObj option run" where
  "keyword_init malloc obj_ok list_ok =
     keyword_add malloc keywordTable 0
       (taosInitStrHash (word_of_nat (length keywordTable)) 8 taosHashStringStep1 obj_ok list_ok)"

definition upper_byte :: "byte \<Rightarrow> byte" where
  "upper_byte c = (if 0x61 \<le> c \<and> c \<le> 0x7A then c AND 0xDF else c)"

text \<open>The copy of the name into \<open>key[128]\<close>.\<close>

definition key_buffer :: "byte list \<Rightarrow> nat \<Rightarrow> byte list res" where
  "key_buffer z n =
     rbind (copy_bytes z 0 n) (\<lambda>w.
       if 128 < n then Inl Out_Of_Bounds else Inr (map upper_byte w @ replicate (128 - n) 0))"

definition tSQLKeywordCode :: "SHashObj option \<Rightarrow> byte list \<Rightarrow> nat \<Rightarrow> nat run" where
  "tSQLKeywordCode handle z n =
     obind (Some (key_buffer z n)) (\<lambda>key.
     obind (taosGetStrHashData handle (Some key)) (\<lambda>pKey.
       case pKey of
         None \<Rightarrow> Some (Inr TK_ID)
       | Some a \<Rightarrow>
           obind (Some (deref handle)) (\<lambda>pObj.
           obind (Some (load (ch_heap (sh_chain pObj)) a)) (\<lambda>nd.
           obind (Some (arr_get keywordTable (uint (of_le_bytes (sn_data (nd_elem nd)) :: 64 word)))) (\<lambda>(name, type).
             Some (Inr type))))))"

section \<open>Scanning\<close>

definition isspace :: "byte \<Rightarrow> bool" where
  "isspace c \<longleftrightarrow> c = 0x20 \<or> 0x09 \<le> c \<and> c \<le> 0x0D"

definition isdigit :: "byte \<Rightarrow> bool" where
  "isdigit c \<longleftrightarrow> 0x30 \<le> c \<and> c \<le> 0x39"

text \<open>\<open>isIdChar[c]\<close>: a character is signed. The second form tests the sign bit first.\<close>

definition id_char :: "byte \<Rightarrow> bool res" where
  "id_char c = rbind (arr_get isIdChar (sint c)) (\<lambda>v. Inr (v \<noteq> 0))"

definition id_char7 :: "byte \<Rightarrow> bool res" where
  "id_char7 c = (if c AND 0x80 \<noteq> 0 then Inr False else id_char c)"

text \<open>The loops: over characters of a class, comments, strings, brackets, segments of a number.\<close>

function skip_while :: "(byte \<Rightarrow> bool res) \<Rightarrow> byte list \<Rightarrow> nat \<Rightarrow> nat res" where
  "skip_while p z i =
     rbind (arr_get z (int i)) (\<lambda>c. rbind (p c) (\<lambda>b. if b then skip_while p z (i + 1) else Inr i))"
  by pat_completeness auto
termination
  by (relation "measure (\<lambda>(p, z, i). length z - i)") (auto simp: arr_get_nat split: if_splits)

declare skip_while.simps [simp del]

definition skip_class :: "(byte \<Rightarrow> bool) \<Rightarrow> byte list \<Rightarrow> nat \<Rightarrow> nat res" where
  "skip_class p = skip_while (\<lambda>c. Inr (p c))"

function comment_end :: "byte list \<Rightarrow> nat \<Rightarrow> nat res" where
  "comment_end z i =
     rbind (arr_get z (int i)) (\<lambda>c.
       if c = 0 then Inr i
       else if c \<noteq> 0x2F then comment_end z (i + 1)
       else rbind (arr_get z (int i - 1)) (\<lambda>d.
         if d \<noteq> 0x2A then comment_end z (i + 1) else Inr i))"
  by pat_completeness auto
termination
  by (relation "measure (\<lambda>(z, i). length z - i)") (auto simp: arr_get_nat split: if_splits)

declare comment_end.simps [simp del]

function quote_end :: "byte list \<Rightarrow> byte \<Rightarrow> nat \<Rightarrow> (nat \<times> bool) res" where
  "quote_end z delim i =
     rbind (arr_get z (int i)) (\<lambda>c.
       if c = 0 then Inr (i, False)
       else if c = delim then
         rbind (arr_get z (int i + 1)) (\<lambda>d. if d = delim then quote_end z delim (i + 2) else Inr (i, True))
       else quote_end z delim (i + 1))"
  by pat_completeness auto
termination
  by (relation "measure (\<lambda>(z, delim, i). length z - i)") (auto simp: arr_get_nat split: if_splits)

declare quote_end.simps [simp del]

function bracket_end :: "byte list \<Rightarrow> nat \<Rightarrow> nat res" where
  "bracket_end z i =
     rbind (arr_get z (int i)) (\<lambda>c.
       if c = 0 then Inr i
       else rbind (arr_get z (int i - 1)) (\<lambda>d. if d \<noteq> 0x5D then bracket_end z (i + 1) else Inr i))"
  by pat_completeness auto
termination
  by (relation "measure (\<lambda>(z, i). length z - i)") (auto simp: arr_get_nat split: if_splits)

declare bracket_end.simps [simp del]

lemma skip_while_ge: "skip_while p z i = Inr j \<Longrightarrow> i \<le> j"
proof (induction p z i rule: skip_while.induct)
  case (1 p z i)
  from "1.prems" show ?case
    by (subst (asm) skip_while.simps) (auto simp: rbind_eq_Inr split: if_splits dest: "1.IH")
qed

function segments :: "byte list \<Rightarrow> nat \<Rightarrow> nat \<Rightarrow> (nat \<times> nat) res" where
  "segments z i seg =
     rbind (arr_get z (int i)) (\<lambda>c.
       if c = 0x2E then
         rbind (arr_get z (int i + 1)) (\<lambda>d.
           if isdigit d then rbind (skip_class isdigit z (i + 2)) (\<lambda>j. segments z j (seg + 1))
           else Inr (i, seg))
       else Inr (i, seg))"
  by pat_completeness auto
termination
  by (relation "measure (\<lambda>(z, i, seg). length z - i)")
    (auto simp: arr_get_nat skip_class_def split: if_splits dest!: skip_while_ge)

declare segments.simps [simp del]

text \<open>\<open>1a\<close>, \<open>2s\<close>, \<open>3m\<close>: the letters of the units of time.\<close>

definition time_units :: "byte list" where
  "time_units = [0x61, 0x73, 0x6D, 0x68, 0x64, 0x6E, 0x79, 0x77, 0x41, 0x53, 0x4D, 0x48, 0x44, 0x4E, 0x59, 0x57]"

text \<open>A scanned token: its type and length, or a name of some length whose type the keywords decide.\<close>

datatype scan = Tok nat nat | Name nat

definition exponent_at :: "byte list \<Rightarrow> nat \<Rightarrow> bool res" where
  "exponent_at z i =
     rbind (arr_get z (int i)) (\<lambda>c.
       if c \<noteq> 0x65 \<and> c \<noteq> 0x45 then Inr False
       else rbind (arr_get z (int i + 1)) (\<lambda>d.
         if isdigit d then Inr True
         else if d \<noteq> 0x2B \<and> d \<noteq> 0x2D then Inr False
         else rbind (arr_get z (int i + 2)) (\<lambda>e. Inr (isdigit e))))"

definition scan_number :: "byte list \<Rightarrow> scan res" where
  "scan_number z =
     rbind (skip_class isdigit z 1) (\<lambda>i.
     rbind (arr_get z (int i)) (\<lambda>c.
     rbind (if c \<in> set time_units then rbind (arr_get z (int i + 1)) (\<lambda>d. rbind (id_char d) (\<lambda>b. Inr (\<not> b))) else Inr False) (\<lambda>unit.
       if unit then Inr (Tok TK_VARIABLE (i + 1))
       else
         rbind (segments z i 1) (\<lambda>(i, seg).
           if seg = 4 then Inr (Tok TK_IP i)
           else
             rbind (exponent_at z i) (\<lambda>e.
               if e then rbind (skip_class isdigit z (i + 2)) (\<lambda>j. Inr (Tok TK_FLOAT j))
               else Inr (Tok (if 1 < seg then TK_FLOAT else TK_INTEGER) i))))))"

text \<open>\<open>strncasecmp\<close> with a lower-case word of that length.\<close>

definition lower_byte :: "byte \<Rightarrow> byte" where
  "lower_byte c = (if 0x41 \<le> c \<and> c \<le> 0x5A then c OR 0x20 else c)"

definition scan_name :: "byte list \<Rightarrow> byte \<Rightarrow> scan res" where
  "scan_name z c =
     rbind (if c AND 0x80 \<noteq> 0 then Inr False else id_char c) (\<lambda>b.
       if \<not> b then Inr (Tok TK_ILLEGAL 0)
       else rbind (skip_while id_char7 z 1) (\<lambda>i. Inr (Name i)))"

definition scan_truth :: "byte list \<Rightarrow> byte \<Rightarrow> scan res" where
  "scan_truth z c =
     rbind (skip_while id_char7 z 1) (\<lambda>i.
       if i = 4 \<and> map lower_byte (take 4 z) = bytes_of ''true'' \<or> i = 5 \<and> map lower_byte (take 5 z) = bytes_of ''false''
       then Inr (Tok TK_BOOL i)
       else scan_name z c)"

text \<open>The switch on the first character.\<close>

definition scan_token :: "byte list \<Rightarrow> scan res" where
  "scan_token z =
     rbind (arr_get z 0) (\<lambda>c.
       if c \<in> {0x20, 0x09, 0x0A, 0x0C, 0x0D} then rbind (skip_class isspace z 1) (\<lambda>i. Inr (Tok TK_SPACE i))
       else if c = 0x3A then Inr (Tok TK_COLON 1)
       else if c = 0x2D then
         rbind (arr_get z 1) (\<lambda>d.
           if d = 0x2D then rbind (skip_class (\<lambda>c. c \<noteq> 0 \<and> c \<noteq> 0x0A) z 2) (\<lambda>i. Inr (Tok TK_COMMENT i))
           else Inr (Tok TK_MINUS 1))
       else if c = 0x28 then Inr (Tok TK_LP 1)
       else if c = 0x29 then Inr (Tok TK_RP 1)
       else if c = 0x3B then Inr (Tok TK_SEMI 1)
       else if c = 0x2B then Inr (Tok TK_PLUS 1)
       else if c = 0x2A then Inr (Tok TK_STAR 1)
       else if c = 0x2F then
         rbind (arr_get z 1) (\<lambda>d.
           if d \<noteq> 0x2A then Inr (Tok TK_SLASH 1)
           else rbind (arr_get z 2) (\<lambda>e.
             if e = 0 then Inr (Tok TK_SLASH 1)
             else rbind (comment_end z 3) (\<lambda>i.
               rbind (arr_get z (int i)) (\<lambda>f. Inr (Tok TK_COMMENT (if f \<noteq> 0 then i + 1 else i))))))
       else if c = 0x25 then Inr (Tok TK_REM 1)
       else if c = 0x3D then rbind (arr_get z 1) (\<lambda>d. Inr (Tok TK_EQ (if d = 0x3D then 2 else 1)))
       else if c = 0x3C then
         rbind (arr_get z 1) (\<lambda>d.
           if d = 0x3D then Inr (Tok TK_LE 2) else if d = 0x3E then Inr (Tok TK_NE 2)
           else if d = 0x3C then Inr (Tok TK_LSHIFT 2) else Inr (Tok TK_LT 1))
       else if c = 0x3E then
         rbind (arr_get z 1) (\<lambda>d.
           if d = 0x3D then Inr (Tok TK_GE 2) else if d = 0x3E then Inr (Tok TK_RSHIFT 2) else Inr (Tok TK_GT 1))
       else if c = 0x21 then rbind (arr_get z 1) (\<lambda>d. Inr (Tok (if d \<noteq> 0x3D then TK_ILLEGAL else TK_NE) 2))
       else if c = 0x7C then rbind (arr_get z 1) (\<lambda>d. if d \<noteq> 0x7C then Inr (Tok TK_BITOR 1) else Inr (Tok TK_CONCAT 2))
       else if c = 0x2C then Inr (Tok TK_COMMA 1)
       else if c = 0x26 then Inr (Tok TK_BITAND 1)
       else if c = 0x7E then Inr (Tok TK_BITNOT 1)
       else if c = 0x27 \<or> c = 0x22 then
         rbind (quote_end z c 1) (\<lambda>(i, strEnd).
         rbind (arr_get z (int i)) (\<lambda>d.
           if strEnd then Inr (Tok TK_STRING (if d \<noteq> 0 then i + 1 else i)) else Inr (Tok TK_ILLEGAL 0)))
       else if c = 0x2E then Inr (Tok TK_DOT 1)
       else if isdigit c then scan_number z
       else if c = 0x5B then rbind (bracket_end z 1) (\<lambda>i. Inr (Tok TK_ID i))
       else if c \<in> {0x54, 0x74, 0x46, 0x66} then scan_truth z c
       else scan_name z c)"

text \<open>The type and the length of the token at the start of \<open>z\<close>.\<close>

definition tSQLGetToken :: "SHashObj option \<Rightarrow> byte list \<Rightarrow> (nat \<times> nat) run" where
  "tSQLGetToken handle z =
     obind (Some (scan_token z)) (\<lambda>r.
       case r of
         Tok type n \<Rightarrow> Some (Inr (type, n))
       | Name n \<Rightarrow> obind (tSQLKeywordCode handle z n) (\<lambda>type. Some (Inr (type, n))))"

section \<open>No token leaves the statement\<close>

definition ascii :: "byte list \<Rightarrow> bool" where
  "ascii s \<longleftrightarrow> (\<forall>c \<in> set s. c \<noteq> 0 \<and> c < 0x80)"

lemma ascii_simps [simp]:
  "ascii []" "ascii (c # s) \<longleftrightarrow> c \<noteq> 0 \<and> c < 0x80 \<and> ascii s" "ascii (s @ t) \<longleftrightarrow> ascii s \<and> ascii t"
  by (auto simp: ascii_def)

lemma ascii_nth: "ascii s \<Longrightarrow> i < length s \<Longrightarrow> s ! i \<noteq> 0 \<and> s ! i < 0x80"
  by (simp add: ascii_def)

lemma at_term: "i \<le> length s \<Longrightarrow> arr_get (s @ [0]) (int i) = Inr (if i < length s then s ! i else 0)"
  by (auto simp: arr_get_nat nth_append)

lemma at_term_next: "i < length s \<Longrightarrow> arr_get (s @ [0]) (int i + 1) = Inr (if i + 1 < length s then s ! (i + 1) else 0)"
  using at_term [of "i + 1" s] by (simp add: add.commute)

lemma at_term_prev: "0 < i \<Longrightarrow> i \<le> length s \<Longrightarrow> arr_get (s @ [0]) (int i - 1) = Inr (s ! (i - 1))"
  using at_term [of "i - 1" s] by (cases i) simp_all

lemma byte_sign: "bit (c :: byte) 7 \<longleftrightarrow> \<not> c < 0x80"
proof -
  have "uint c < 256" using uint_lt2p [of c] by simp
  moreover have "bit c 7 = bit (uint c) 7" by (simp add: bit_uint_iff)
  then have "bit c 7 \<longleftrightarrow> odd (uint c div 2 ^ 7)" by (simp only: bit_iff_odd)
  moreover have "c < 0x80 \<longleftrightarrow> uint c < 128" by (simp add: word_less_def)
  moreover have "uint c div 128 = (if uint c < 128 then 0 else 1)" using calculation(1) by auto
  ultimately show ?thesis by simp
qed

lemma sign_mask: "(c :: byte) AND 0x80 = 0 \<longleftrightarrow> c < 0x80"
proof -
  have "(0x80 :: byte) = 2 ^ 7" by simp
  then show ?thesis using and_exp_eq_0_iff_not_bit [of c 7] byte_sign [of c] by (simp del: word_of_int_numeral)
qed

lemma id_char_ascii: "c < 0x80 \<Longrightarrow> id_char c = Inr (isIdChar ! unat c \<noteq> 0)"
proof -
  assume c: "c < 0x80"
  have range: "0 \<le> uint c" "uint c < 128" using c by (simp_all add: word_less_def)
  then have "take_bit 7 (uint c) = uint c" by (simp add: take_bit_int_eq_self)
  then have "sint c = uint c" using c byte_sign [of c] by (simp add: sint_uint signed_take_bit_eq_if_positive bit_uint_iff)
  with range show ?thesis by (simp add: id_char_def arr_get_def isIdChar_def)
qed

lemma id_char_0: "id_char 0 = Inr False"
  by (simp add: id_char_def isIdChar_def)

lemma id_char7_total: "\<exists>b. id_char7 c = Inr b"
proof (cases "c AND 0x80 = 0")
  case True
  then have "c < 0x80" by (simp add: sign_mask)
  then show ?thesis using True by (auto simp: id_char7_def id_char_ascii)
qed (auto simp: id_char7_def)

lemma skip_while_ok:
  assumes "\<And>c. \<exists>b. p c = Inr b" and "p 0 = Inr False" and "i \<le> length s"
  obtains j where "skip_while p (s @ [0]) i = Inr j" and "i \<le> j" and "j \<le> length s"
    and "\<And>k. i \<le> k \<Longrightarrow> k < j \<Longrightarrow> p (s ! k) = Inr True" and "j < length s \<Longrightarrow> p (s ! j) = Inr False"
proof -
  have "\<exists>j. skip_while p (s @ [0]) i = Inr j \<and> i \<le> j \<and> j \<le> length s \<and>
      (\<forall>k. i \<le> k \<longrightarrow> k < j \<longrightarrow> p (s ! k) = Inr True) \<and> (j < length s \<longrightarrow> p (s ! j) = Inr False)"
    using assms(3)
  proof (induction "length s - i" arbitrary: i)
    case 0
    then have "i = length s" by simp
    then show ?case using assms(2) by (subst skip_while.simps) (simp add: at_term)
  next
    case (Suc d)
    then have i: "i < length s" and d: "d = length s - Suc i" by simp_all
    obtain b where b: "p (s ! i) = Inr b" using assms(1) by blast
    show ?case
    proof (cases b)
      case True
      obtain j where j: "skip_while p (s @ [0]) (Suc i) = Inr j" "Suc i \<le> j" "j \<le> length s"
          "\<forall>k. Suc i \<le> k \<longrightarrow> k < j \<longrightarrow> p (s ! k) = Inr True" "j < length s \<longrightarrow> p (s ! j) = Inr False"
        using Suc.hyps(1) [OF d] i by auto
      have "skip_while p (s @ [0]) i = Inr j" using i b True j(1) by (subst skip_while.simps) (simp add: nth_append)
      moreover have "\<forall>k. i \<le> k \<longrightarrow> k < j \<longrightarrow> p (s ! k) = Inr True"
        using j(4) b True by (metis Suc_leI le_neq_implies_less)
      ultimately show ?thesis using j(2,3,5) by auto
    next
      case False
      then show ?thesis using i b by (subst skip_while.simps) (auto simp: nth_append)
    qed
  qed
  then show ?thesis using that by blast
qed

lemma skip_class_ok:
  assumes "\<not> p 0" and "i \<le> length s"
  obtains j where "skip_class p (s @ [0]) i = Inr j" and "i \<le> j" and "j \<le> length s"
    and "\<And>k. i \<le> k \<Longrightarrow> k < j \<Longrightarrow> p (s ! k)" and "j < length s \<Longrightarrow> \<not> p (s ! j)"
  by (rule skip_while_ok [of "\<lambda>c. Inr (p c)" i s]) (use assms in \<open>auto simp: skip_class_def\<close>)

lemma id_char7_0 [simp]: "id_char7 0 = Inr False"
  by (simp add: id_char7_def id_char_0)

text \<open>The other loops end within the statement.\<close>

lemma comment_end_ok: "0 < i \<Longrightarrow> i \<le> length s \<Longrightarrow> \<exists>j. comment_end (s @ [0]) i = Inr j \<and> i \<le> j \<and> j \<le> length s"
proof (induction "length s - i" arbitrary: i)
  case 0
  then have "i = length s" by simp
  then show ?case by (subst comment_end.simps) (simp add: nth_append)
next
  case (Suc d)
  then have i: "i < length s" and d: "d = length s - Suc i" by simp_all
  obtain j where "comment_end (s @ [0]) (Suc i) = Inr j" "Suc i \<le> j" "j \<le> length s" using Suc.hyps(1) [OF d] i by auto
  then show ?case using i Suc.prems at_term_prev [of i s] by (subst comment_end.simps) (auto simp: nth_append)
qed

lemma bracket_end_ok: "0 < i \<Longrightarrow> i \<le> length s \<Longrightarrow> \<exists>j. bracket_end (s @ [0]) i = Inr j \<and> i \<le> j \<and> j \<le> length s"
proof (induction "length s - i" arbitrary: i)
  case 0
  then have "i = length s" by simp
  then show ?case by (subst bracket_end.simps) (simp add: nth_append)
next
  case (Suc d)
  then have i: "i < length s" and d: "d = length s - Suc i" by simp_all
  obtain j where "bracket_end (s @ [0]) (Suc i) = Inr j" "Suc i \<le> j" "j \<le> length s" using Suc.hyps(1) [OF d] i by auto
  then show ?case using i Suc.prems at_term_prev [of i s] by (subst bracket_end.simps) (auto simp: nth_append)
qed

lemma quote_end_ok:
  "delim \<noteq> 0 \<Longrightarrow> i \<le> length s \<Longrightarrow>
    \<exists>j b. quote_end (s @ [0]) delim i = Inr (j, b) \<and> i \<le> j \<and> j \<le> length s \<and> (b \<longrightarrow> j < length s)"
proof (induction "length s - i" arbitrary: i rule: less_induct)
  case less
  show ?case
  proof (cases "i < length s")
    case False
    then have "i = length s" using less.prems(2) by simp
    then show ?thesis by (subst quote_end.simps) (auto simp: nth_append)
  next
    case True
    note next_at = at_term_next [OF True]
    have one: "\<exists>j b. quote_end (s @ [0]) delim (i + 1) = Inr (j, b) \<and> i + 1 \<le> j \<and> j \<le> length s \<and> (b \<longrightarrow> j < length s)"
      using True less.prems(1) by (intro less.hyps) auto
    have two: "\<exists>j b. quote_end (s @ [0]) delim (i + 2) = Inr (j, b) \<and> i + 2 \<le> j \<and> j \<le> length s \<and> (b \<longrightarrow> j < length s)"
      if "i + 1 < length s" using that less.prems(1) by (intro less.hyps) auto
    consider "s ! i = 0" | "s ! i = delim" "i + 1 < length s" "s ! (i + 1) = delim" | "s ! i = delim" "\<not> (i + 1 < length s \<and> s ! (i + 1) = delim)"
      | "s ! i \<noteq> 0" "s ! i \<noteq> delim" by blast
    then show ?thesis
    proof cases
      case 1
      then show ?thesis using True by (subst quote_end.simps) (auto simp: nth_append)
    next
      case 2
      then have "quote_end (s @ [0]) delim i = quote_end (s @ [0]) delim (i + 2)"
        using True less.prems(1) next_at by (subst quote_end.simps) (simp add: nth_append)
      then show ?thesis using two [OF 2(2)] by auto
    next
      case 3
      then have "quote_end (s @ [0]) delim i = Inr (i, True)"
        using True less.prems(1) next_at by (subst quote_end.simps) (auto simp: nth_append)
      then show ?thesis using True by auto
    next
      case 4
      then have "quote_end (s @ [0]) delim i = quote_end (s @ [0]) delim (i + 1)"
        using True by (subst quote_end.simps) (simp add: nth_append)
      then show ?thesis using one by auto
    qed
  qed
qed

lemma isdigit_0 [simp]: "\<not> isdigit 0"
  by (simp add: isdigit_def)

lemma segments_ok: "i \<le> length s \<Longrightarrow> \<exists>j n. segments (s @ [0]) i seg = Inr (j, n) \<and> i \<le> j \<and> j \<le> length s"
proof (induction "length s - i" arbitrary: i seg rule: less_induct)
  case less
  show ?case
  proof (cases "i < length s \<and> s ! i = 0x2E \<and> i + 1 < length s \<and> isdigit (s ! (i + 1))")
    case True
    then have "i + 2 \<le> length s" by simp
    then obtain j where j: "skip_class isdigit (s @ [0]) (i + 2) = Inr j" "i + 2 \<le> j" "j \<le> length s"
      by (rule skip_class_ok [of isdigit "i + 2" s, OF isdigit_0])
    have "segments (s @ [0]) i seg = segments (s @ [0]) j (seg + 1)"
      using True j(1) at_term_next [of i s] by (subst segments.simps) (simp add: nth_append)
    moreover have "\<exists>k n. segments (s @ [0]) j (seg + 1) = Inr (k, n) \<and> j \<le> k \<and> k \<le> length s"
      using True j(2,3) by (intro less.hyps) auto
    ultimately show ?thesis using j(2) by auto
  next
    case False
    then have "segments (s @ [0]) i seg = Inr (i, seg)"
      using less.prems at_term [of i s] at_term_next [of i s]
      by (subst segments.simps) (auto simp: nth_append)
    then show ?thesis using less.prems by auto
  qed
qed

lemma exponent_at_ok:
  "i \<le> length s \<Longrightarrow> \<exists>b. exponent_at (s @ [0]) i = Inr b \<and> (b \<longrightarrow> i + 2 \<le> length s)"
proof -
  assume i: "i \<le> length s"
  have "arr_get (s @ [0]) (int i + 2) = Inr (if i + 2 < length s then s ! (i + 2) else 0)" if "i + 1 < length s"
    using that at_term [of "i + 2" s] by (simp add: add.commute)
  then show ?thesis
    using i at_term [of i s] at_term_next [of i s] unfolding exponent_at_def
    by (cases "i < length s"; cases "i + 1 < length s") (auto simp: isdigit_def nth_append)
qed

text \<open>A scan that stays inside the statement.\<close>

definition scan_ok :: "byte list \<Rightarrow> scan \<Rightarrow> bool" where
  "scan_ok s r \<longleftrightarrow>
     (case r of
        Tok t n \<Rightarrow> (t \<noteq> TK_ILLEGAL \<longrightarrow> 0 < n \<and> n \<le> length s) \<and> t \<noteq> 0
      | Name n \<Rightarrow> 0 < n \<and> n \<le> length s \<and> (\<forall>k < n. id_char7 (s ! k) = Inr True))"

lemma scan_name_ok:
  assumes "ascii s" and "s \<noteq> []"
  shows "\<exists>r. scan_name (s @ [0]) (s ! 0) = Inr r \<and> scan_ok s r"
proof -
  have c: "s ! 0 < 0x80" using ascii_nth [OF assms(1), of 0] assms(2) by simp
  have le: "1 \<le> length s" using assms(2) by (cases s) auto
  obtain b where b: "id_char (s ! 0) = Inr b" using id_char_ascii [OF c] by blast
  obtain j where j: "skip_while id_char7 (s @ [0]) 1 = Inr j" "1 \<le> j" "j \<le> length s"
      "\<And>k. 1 \<le> k \<Longrightarrow> k < j \<Longrightarrow> id_char7 (s ! k) = Inr True"
    by (rule skip_while_ok [of id_char7 1 s, OF id_char7_total id_char7_0 le]) blast
  have "id_char7 (s ! k) = Inr True" if "k < j" "b" for k
    using that j(4) [of k] b c by (cases k) (auto simp: id_char7_def sign_mask)
  then show ?thesis using j(1-3) b c by (auto simp: scan_name_def scan_ok_def sign_mask token_types)
qed

lemma scan_truth_ok:
  assumes "ascii s" and "s \<noteq> []"
  shows "\<exists>r. scan_truth (s @ [0]) (s ! 0) = Inr r \<and> scan_ok s r"
proof -
  have le: "1 \<le> length s" using assms(2) by (cases s) auto
  obtain j where "skip_while id_char7 (s @ [0]) 1 = Inr j" "1 \<le> j" "j \<le> length s"
    by (rule skip_while_ok [of id_char7 1 s, OF id_char7_total id_char7_0 le])
  then show ?thesis using scan_name_ok [OF assms] by (auto simp: scan_truth_def scan_ok_def token_types)
qed

lemma scan_number_ok:
  assumes "ascii s" and "s \<noteq> []"
  shows "\<exists>r. scan_number (s @ [0]) = Inr r \<and> scan_ok s r"
proof -
  have le: "1 \<le> length s" using assms(2) by (cases s) auto
  obtain i where i: "skip_class isdigit (s @ [0]) 1 = Inr i" "1 \<le> i" "i \<le> length s"
    by (rule skip_class_ok [of isdigit 1 s, OF isdigit_0 le])
  let ?c = "if i < length s then s ! i else 0"
  have c: "arr_get (s @ [0]) (int i) = Inr ?c" using i(3) by (rule at_term)
  have unit: "\<exists>b. (if ?c \<in> set time_units then rbind (arr_get (s @ [0]) (int i + 1)) (\<lambda>d. rbind (id_char d) (\<lambda>b. Inr (\<not> b))) else Inr False) = Inr b \<and>
      (b \<longrightarrow> i < length s)"
  proof (cases "?c \<in> set time_units")
    case True
    then have lt: "i < length s" by (auto simp: time_units_def split: if_splits)
    let ?d = "if i + 1 < length s then s ! (i + 1) else 0"
    have "?d < 0x80" using ascii_nth [OF assms(1), of "i + 1"] by auto
    then show ?thesis using True lt at_term_next [OF lt] id_char_ascii by auto
  qed auto
  then obtain b where b: "(if ?c \<in> set time_units then rbind (arr_get (s @ [0]) (int i + 1)) (\<lambda>d. rbind (id_char d) (\<lambda>b. Inr (\<not> b))) else Inr False) = Inr b"
      "b \<longrightarrow> i < length s" by blast
  obtain j n where j: "segments (s @ [0]) i 1 = Inr (j, n)" "i \<le> j" "j \<le> length s" using segments_ok [OF i(3)] by blast
  obtain e where e: "exponent_at (s @ [0]) j = Inr e" "e \<longrightarrow> j + 2 \<le> length s" using exponent_at_ok [OF j(3)] by blast
  have "\<exists>k. skip_class isdigit (s @ [0]) (j + 2) = Inr k \<and> 0 < k \<and> k \<le> length s" if "e"
  proof -
    have "j + 2 \<le> length s" using e(2) that by simp
    then obtain k where "skip_class isdigit (s @ [0]) (j + 2) = Inr k" "j + 2 \<le> k" "k \<le> length s"
      by (rule skip_class_ok [of isdigit "j + 2" s, OF isdigit_0])
    then show ?thesis by auto
  qed
  then show ?thesis
    unfolding scan_number_def i(1) c rbind_simps b(1) using i j e b(2)
    by (cases b; cases "n = 4"; cases e) (auto simp: scan_ok_def token_types)
qed

definition good_scan :: "byte list \<Rightarrow> scan res \<Rightarrow> bool" where
  "good_scan s r \<longleftrightarrow> (\<exists>v. r = Inr v \<and> scan_ok s v)"

lemma good_scan_if: "(b \<Longrightarrow> good_scan s x) \<Longrightarrow> (\<not> b \<Longrightarrow> good_scan s y) \<Longrightarrow> good_scan s (if b then x else y)"
  by simp

lemma good_scan_tok: "(t \<noteq> TK_ILLEGAL \<Longrightarrow> 0 < n \<and> n \<le> length s) \<Longrightarrow> t \<noteq> 0 \<Longrightarrow> good_scan s (Inr (Tok t n))"
  by (simp add: good_scan_def scan_ok_def)

lemma good_scan_class:
  assumes "\<not> p 0" and "0 < i" and "i \<le> length s" and "t \<noteq> 0"
  shows "good_scan s (rbind (skip_class p (s @ [0]) i) (\<lambda>j. Inr (Tok t j)))"
proof -
  obtain j where "skip_class p (s @ [0]) i = Inr j" "i \<le> j" "j \<le> length s" by (rule skip_class_ok [of p i s, OF assms(1,3)])
  then show ?thesis using assms(2,4) by (simp add: good_scan_tok)
qed

lemma good_scan_comment:
  assumes "2 < length s"
  shows "good_scan s (rbind (comment_end (s @ [0]) 3) (\<lambda>i. rbind (arr_get (s @ [0]) (int i)) (\<lambda>f. Inr (Tok TK_COMMENT (if f \<noteq> 0 then i + 1 else i)))))"
proof -
  obtain j where j: "comment_end (s @ [0]) 3 = Inr j" "3 \<le> j" "j \<le> length s" using comment_end_ok [of 3 s] assms by auto
  then show ?thesis using at_term [OF j(3)] by (auto intro!: good_scan_tok simp: token_types)
qed

lemma good_scan_string:
  assumes "c \<noteq> 0" and "1 \<le> length s"
  shows "good_scan s (rbind (quote_end (s @ [0]) c 1) (\<lambda>(i, strEnd). rbind (arr_get (s @ [0]) (int i)) (\<lambda>d.
      if strEnd then Inr (Tok TK_STRING (if d \<noteq> 0 then i + 1 else i)) else Inr (Tok TK_ILLEGAL 0))))"
proof -
  obtain j b where j: "quote_end (s @ [0]) c 1 = Inr (j, b)" "1 \<le> j" "j \<le> length s" "b \<longrightarrow> j < length s"
    using quote_end_ok [OF assms] by blast
  then show ?thesis using at_term [OF j(3)] by (auto intro!: good_scan_tok good_scan_if simp: token_types)
qed

lemma good_scan_bracket:
  assumes "1 \<le> length s"
  shows "good_scan s (rbind (bracket_end (s @ [0]) 1) (\<lambda>i. Inr (Tok TK_ID i)))"
proof -
  obtain j where "bracket_end (s @ [0]) 1 = Inr j" "1 \<le> j" "j \<le> length s" using bracket_end_ok [of 1 s] assms by auto
  then show ?thesis by (simp add: good_scan_tok token_types)
qed

lemma scan_token_ok:
  assumes "ascii s" and "s \<noteq> []"
  shows "good_scan s (scan_token (s @ [0]))"
proof -
  have le: "1 \<le> length s" using assms(2) by (cases s) auto
  obtain d where d: "arr_get (s @ [0]) 1 = Inr d" "d \<noteq> 0 \<longrightarrow> 2 \<le> length s"
    using at_term [OF le] by (cases "1 < length s") auto
  obtain e where e: "2 \<le> length s \<longrightarrow> arr_get (s @ [0]) 2 = Inr e" "e \<noteq> 0 \<longrightarrow> 3 \<le> length s"
    using at_term [of 2 s] by (cases "2 < length s") auto
  have c: "arr_get (s @ [0]) 0 = Inr (s ! 0)" "s ! 0 \<noteq> 0" using assms(2) ascii_nth [OF assms(1), of 0] by (simp_all add: nth_append)
  have loops: "good_scan s (scan_name (s @ [0]) (s ! 0))" "good_scan s (scan_truth (s @ [0]) (s ! 0))" "good_scan s (scan_number (s @ [0]))"
    using scan_name_ok [OF assms] scan_truth_ok [OF assms] scan_number_ok [OF assms] by (simp_all add: good_scan_def)
  show ?thesis
    unfolding scan_token_def c(1) rbind_simps
    by (intro good_scan_if good_scan_class good_scan_bracket good_scan_string good_scan_tok loops)
      (use le d e c(2) in \<open>auto simp: isspace_def token_types intro!: good_scan_if good_scan_tok good_scan_class good_scan_comment [unfolded token_types]\<close>)
qed

section \<open>The keywords in the hash table\<close>

lemma chain_push_dom:
  assumes "chain_push c h a e = Inr c'"
  shows "dom (ch_heap c') \<subseteq> insert a (dom (ch_heap c))"
proof -
  obtain head where "arr_get (ch_list c) h = Inr head" using assms by (auto simp: chain_push_def rbind_eq_Inr)
  then show ?thesis using assms
    by (cases head) (auto simp: chain_push_def rbind_eq_Inr load_def Let_def split: option.splits if_splits)
qed

lemma sh_add_effect:
  assumes "sh_abs malloc fp n t L" and "sh_key_ok fp n k" and "sh_add malloc t k v = Some (Inr (t', p))"
  obtains a where "sh_dataSize t' = sh_dataSize t" and "dom (ch_heap (sh_chain t')) \<subseteq> insert a (dom (ch_heap (sh_chain t)))"
proof -
  obtain a e c where c: "chain_push (sh_chain t) (int (sh_bucket fp n k)) a e = Inr c" and "t' = t\<lparr>sh_chain := c\<rparr>"
    using assms(3) unfolding sh_add_def taosAddStrHashWithSize_def sh_enter_ok(1) [OF assms(1,2)]
    by (auto simp: res_simps split: option.splits prod.splits)
  then show ?thesis using that [of a] chain_push_dom [OF c] by simp
qed

text \<open>An allocator that does not fail while fewer than \<open>n\<close> blocks are in use.\<close>

definition ample :: "nat \<Rightarrow> 'e malloc \<Rightarrow> bool" where
  "ample n malloc \<longleftrightarrow> (\<forall>hp. finite (dom hp) \<and> card (dom hp) < n \<longrightarrow> malloc hp \<noteq> None)"

text \<open>A table that holds \<open>n\<close> entries for the client.\<close>

definition kw_table :: "SHashNode malloc \<Rightarrow> 32 word \<Rightarrow> nat \<Rightarrow> SHashObj \<Rightarrow> (byte list \<Rightarrow> byte list list) \<Rightarrow> bool" where
  "kw_table malloc n i t L \<longleftrightarrow>
     sh_abs malloc taosHashStringStep1 n t L \<and> sh_dataSize t = 8 \<and>
     finite (dom (ch_heap (sh_chain t))) \<and> card (dom (ch_heap (sh_chain t))) \<le> i"

lemma kw_table_add:
  assumes "kw_table malloc n i t L" and "ample m malloc" and "i < m" and "k \<noteq> []" and "nonzero k"
  obtains t' p where "taosAddStrHash malloc (Some t) (Some (k @ [0])) (Some (entry_ptr j)) = Some (Inr (Some t', p))"
    and "kw_table malloc n (Suc i) t' (L(k := entry_ptr j # L k))"
proof -
  let ?v = "entry_ptr j"
  have t: "sh_abs malloc taosHashStringStep1 n t L" "sh_dataSize t = 8" "finite (dom (ch_heap (sh_chain t)))"
      "card (dom (ch_heap (sh_chain t))) \<le> i"
    using assms(1) by (simp_all add: kw_table_def)
  have len: "length ?v = 8" by (simp add: entry_ptr_def)
  have "0 < n" using t(1) by (simp add: sh_abs_def)
  then have ok: "sh_ok taosHashStringStep1 n k ?v" using step1_key_ok assms(4,5) len by (simp add: sh_ok_def)
  have "sh_room malloc t" using assms(2,3) t(3,4) by (simp add: ample_def sh_room_def)
  then obtain t' a where add: "sh_add malloc t k ?v = Some (Inr (t', Some a))" using sh.add_room [OF t(1) ok] by blast
  then have "sh_abs malloc taosHashStringStep1 n t' (L(k := ?v # L k))" using sh.add_sim [OF t(1) ok] by fastforce
  moreover obtain b where b: "sh_dataSize t' = sh_dataSize t" "dom (ch_heap (sh_chain t')) \<subseteq> insert b (dom (ch_heap (sh_chain t)))"
    using sh_add_effect [OF t(1) _ add] ok by (auto simp: sh_ok_def)
  have "finite (insert b (dom (ch_heap (sh_chain t))))" "card (insert b (dom (ch_heap (sh_chain t)))) \<le> Suc i"
    using t(3,4) by (simp_all add: card_insert_if)
  then have "finite (dom (ch_heap (sh_chain t')))" "card (dom (ch_heap (sh_chain t'))) \<le> Suc i"
    using b(2) by (auto intro: finite_subset card_mono [THEN le_trans])
  ultimately have "kw_table malloc n (Suc i) t' (L(k := ?v # L k))"
    using b(1) t(2) by (simp add: kw_table_def)
  moreover have "taosAddStrHash malloc (Some t) (Some (k @ [0])) (Some ?v) = Some (Inr (Some t', Some a))"
  proof -
    obtain c k' where k: "k = c # k'" "c \<noteq> 0" using assms(4,5) by (cases k) auto
    have "sint (8 :: 32 word) = 8" by simp
    then show ?thesis using add t(2) len k
      by (auto simp: taosAddStrHash_def sh_add_def res_simps deref_def split: option.splits prod.splits)
  qed
  ultimately show ?thesis by (rule that [rotated])
qed

lemma keyword_add_ok:
  assumes "ample m malloc"
  shows "kw_table malloc n i t L \<Longrightarrow> i + length ks \<le> m \<Longrightarrow> \<forall>(w, c) \<in> set ks. bytes_of w \<noteq> [] \<and> nonzero (bytes_of w) \<Longrightarrow>
    distinct (map (\<lambda>(w, c). bytes_of w) ks) \<Longrightarrow>
    \<exists>t' L'. keyword_add malloc ks j (Some t) = Some (Inr (Some t')) \<and> kw_table malloc n (i + length ks) t' L' \<and>
      (\<forall>q < length ks. head_of (L' (bytes_of (fst (ks ! q)))) = Some (entry_ptr (j + q))) \<and>
      (\<forall>w. w \<notin> (\<lambda>(w, c). bytes_of w) ` set ks \<longrightarrow> L' w = L w)"
proof (induction ks arbitrary: i j t L)
  case Nil
  then show ?case by auto
next
  case (Cons e ks)
  obtain w c where e: "e = (w, c)" by (cases e)
  have w: "bytes_of w \<noteq> []" "nonzero (bytes_of w)" "bytes_of w \<notin> (\<lambda>(w, c). bytes_of w) ` set ks" "i < m"
    using Cons.prems(2-4) by (auto simp: e)
  obtain t1 p where t1: "taosAddStrHash malloc (Some t) (Some (bytes_of w @ [0])) (Some (entry_ptr j)) = Some (Inr (Some t1, p))"
      "kw_table malloc n (Suc i) t1 (L(bytes_of w := entry_ptr j # L (bytes_of w)))"
    by (rule kw_table_add [OF Cons.prems(1) assms w(4,1,2)])
  obtain t' L' where t': "keyword_add malloc ks (Suc j) (Some t1) = Some (Inr (Some t'))" "kw_table malloc n (Suc i + length ks) t' L'"
      "\<forall>q < length ks. head_of (L' (bytes_of (fst (ks ! q)))) = Some (entry_ptr (Suc j + q))"
      "\<forall>v. v \<notin> (\<lambda>(w, c). bytes_of w) ` set ks \<longrightarrow> L' v = (L(bytes_of w := entry_ptr j # L (bytes_of w))) v"
    using Cons.IH [OF t1(2), of "Suc j"] Cons.prems(2-4) by auto
  have "head_of (L' (bytes_of (fst ((e # ks) ! q)))) = Some (entry_ptr (j + q))" if "q < length (e # ks)" for q
    using that t'(3) t'(4) [rule_format, OF w(3)] by (cases q) (auto simp: e)
  moreover have "keyword_add malloc (e # ks) j (Some t) = Some (Inr (Some t'))" using t1(1) t'(1) by (simp add: e)
  moreover have "L' v = L v" if "v \<notin> (\<lambda>(w, c). bytes_of w) ` set (e # ks)" for v using that t'(4) by (auto simp: e)
  ultimately show ?case using t'(2) by auto
qed

text \<open>The keywords differ: seen as numbers to the base 256.\<close>

definition name_number :: "string \<Rightarrow> nat" where
  "name_number w = foldr (\<lambda>c n. of_char c + 256 * n) w 0"

lemma keyword_numbers: "distinct (map (\<lambda>(w, c). name_number w) keywordTable)"
  by (simp add: keywordTable_def name_number_def)

lemma name_number_bytes: "name_number w = foldr (\<lambda>b n. unat b + 256 * n) (bytes_of w) 0"
proof -
  have "unat (of_char c :: byte) = of_char c" for c
  proof -
    have "unat (word_of_nat (of_char c) :: byte) = of_char c" using nat_of_char_less_256 [of c] by (simp only: unat_of_nat) simp
    then show ?thesis by (simp only: of_nat_of_char)
  qed
  then show ?thesis by (induction w) (simp_all add: name_number_def bytes_of_def)
qed

lemma keyword_names:
  "\<forall>(w, c) \<in> set keywordTable. bytes_of w \<noteq> [] \<and> nonzero (bytes_of w)"
  "distinct (map (\<lambda>(w, c). bytes_of w) keywordTable)"
  "length keywordTable = 189"
proof -
  show "\<forall>(w, c) \<in> set keywordTable. bytes_of w \<noteq> [] \<and> nonzero (bytes_of w)"
    by (simp add: keywordTable_def bytes_of_def nonzero_def)
  have "map (\<lambda>(w, c). name_number w) keywordTable =
      map (\<lambda>bs. foldr (\<lambda>b n. unat b + 256 * n) bs 0) (map (\<lambda>(w, c). bytes_of w) keywordTable)"
    by (auto simp: name_number_bytes)
  then show "distinct (map (\<lambda>(w, c). bytes_of w) keywordTable)" using keyword_numbers by (metis distinct_map)
  show "length keywordTable = 189" by (simp add: keywordTable_def)
qed

text \<open>The token type of a name in upper case.\<close>

definition keyword_code :: "byte list \<Rightarrow> nat" where
  "keyword_code w = (case map_of (map (\<lambda>(w, c). (bytes_of w, c)) keywordTable) w of None \<Rightarrow> TK_ID | Some c \<Rightarrow> c)"

definition keyword_ready :: "SHashObj \<Rightarrow> bool" where
  "keyword_ready t \<longleftrightarrow>
     (\<forall>w r. w \<noteq> [] \<and> nonzero w \<and> length w < 128 \<longrightarrow>
       tSQLKeywordCode (Some t) (w @ r) (length w) = Some (Inr (keyword_code (map upper_byte w))))"

lemma upper_nonzero: "nonzero w \<Longrightarrow> nonzero (map upper_byte w)"
proof -
  have "c AND 0xDF \<noteq> 0" if "0x61 \<le> c" "c \<le> 0x7A" for c :: byte
  proof -
    have "\<forall>k \<in> set [0x61..<0x7B]. (word_of_nat k :: byte) AND 0xDF \<noteq> 0" by code_simp
    moreover have "unat c \<in> set [0x61..<0x7B]" using that by (simp add: word_le_nat_alt del: upt_rec_numeral)
    ultimately have "(word_of_nat (unat c) :: byte) AND 0xDF \<noteq> 0" by blast
    then show ?thesis by simp
  qed
  then have "upper_byte c \<noteq> 0" if "c \<noteq> 0" for c using that by (auto simp: upper_byte_def)
  then show "nonzero w \<Longrightarrow> nonzero (map upper_byte w)" by (auto simp: nonzero_def image_iff) metis
qed

text \<open>What the first call sets up, and the look-up of a name.\<close>

lemma keyword_init_ok:
  assumes "fresh_malloc malloc" and "ample 189 malloc"
  obtains t L where "keyword_init malloc True True = Some (Inr (Some t))" and "sh_abs malloc taosHashStringStep1 189 t L"
    and "\<And>q. q < 189 \<Longrightarrow> head_of (L (bytes_of (fst (keywordTable ! q)))) = Some (entry_ptr q)"
    and "\<And>w. w \<notin> (\<lambda>(w, c). bytes_of w) ` set keywordTable \<Longrightarrow> L w = []"
proof -
  let ?t0 = "\<lparr>sh_chain = empty_chain 189, sh_maxSessions = 189, sh_dataSize = 8, sh_hashFp = taosHashStringStep1\<rparr>"
  have init: "taosInitStrHash 189 8 taosHashStringStep1 True True = Some ?t0" by (simp add: taosInitStrHash_def)
  have "kw_table malloc 189 0 ?t0 (\<lambda>_. [])"
    using sh_init_abs [OF assms(1) _ init] by (simp add: kw_table_def length_empty_chain word_less_def)
  from keyword_add_ok [OF assms(2) this _ keyword_names(1,2), of 0] obtain t L
    where "keyword_add malloc keywordTable 0 (Some ?t0) = Some (Inr (Some t))" "kw_table malloc 189 (0 + length keywordTable) t L"
      "\<forall>q < length keywordTable. head_of (L (bytes_of (fst (keywordTable ! q)))) = Some (entry_ptr (0 + q))"
      "\<forall>w. w \<notin> (\<lambda>(w, c). bytes_of w) ` set keywordTable \<longrightarrow> L w = []"
    by (auto simp: keyword_names(3))
  then show ?thesis using init by (intro that [of t L]) (simp_all add: keyword_init_def keyword_names(3) kw_table_def)
qed

lemma keyword_code_nth: "q < 189 \<Longrightarrow> keyword_code (bytes_of (fst (keywordTable ! q))) = snd (keywordTable ! q)"
proof -
  assume q: "q < 189"
  let ?m = "map (\<lambda>(w, c). (bytes_of w, c)) keywordTable"
  have "distinct (map fst ?m)" using keyword_names(2) by (simp add: comp_def case_prod_unfold)
  moreover have "(bytes_of (fst (keywordTable ! q)), snd (keywordTable ! q)) \<in> set ?m"
    using q keyword_names(3) nth_mem [of q keywordTable] by (force simp: case_prod_unfold)
  ultimately show ?thesis by (simp add: keyword_code_def)
qed

lemma keyword_code_other: "w \<notin> (\<lambda>(w, c). bytes_of w) ` set keywordTable \<Longrightarrow> keyword_code w = TK_ID"
proof -
  assume "w \<notin> (\<lambda>(w, c). bytes_of w) ` set keywordTable"
  then have "map_of (map (\<lambda>(w, c). (bytes_of w, c)) keywordTable) w = None"
    by (auto simp: map_of_eq_None_iff image_iff case_prod_unfold)
  then show ?thesis by (simp add: keyword_code_def)
qed

lemma keyword_init_ready:
  assumes "fresh_malloc malloc" and "ample 189 malloc"
  obtains t where "keyword_init malloc True True = Some (Inr (Some t))" and "keyword_ready t"
proof -
  obtain t L where t: "keyword_init malloc True True = Some (Inr (Some t))" "sh_abs malloc taosHashStringStep1 189 t L"
    and hit: "\<And>q. q < 189 \<Longrightarrow> head_of (L (bytes_of (fst (keywordTable ! q)))) = Some (entry_ptr q)"
    and miss: "\<And>w. w \<notin> (\<lambda>(w, c). bytes_of w) ` set keywordTable \<Longrightarrow> L w = []"
    by (rule keyword_init_ok [OF assms]) blast
  have "tSQLKeywordCode (Some t) (w @ r) (length w) = Some (Inr (keyword_code (map upper_byte w)))"
    if w: "w \<noteq> []" "nonzero w" "length w < 128" for w r
  proof -
    let ?u = "map upper_byte w"
    have u: "?u \<noteq> []" "nonzero ?u" using w upper_nonzero by simp_all
    have "replicate (128 - length w) (0 :: byte) = 0 # replicate (127 - length w) 0" using w(3) by (cases "128 - length w") auto
    then have key: "key_buffer (w @ r) (length w) = Inr (?u @ 0 # replicate (127 - length w) 0)"
      using w(3) by (simp add: key_buffer_def copy_bytes_def)
    have "sh_hashFp t = taosHashStringStep1" using t(2) by (simp add: sh_abs_def)
    note buf = step1_get_buffer [OF this u(2), of "replicate (127 - length w) 0"]
    have get: "obind (taosGetStrHashData (Some t) (Some (?u @ [0]))) (chain_value sn_data (sh_chain t)) = Some (Inr (head_of (L ?u)))"
      using sh.get_sim [OF t(2) step1_key_ok [OF _ u]] by (simp add: sh_get_def word_less_def)
    have code: "tSQLKeywordCode (Some t) (w @ r) (length w) =
        obind (taosGetStrHashData (Some t) (Some (?u @ [0]))) (\<lambda>pKey. obind (chain_value sn_data (sh_chain t) pKey) (\<lambda>d.
          case d of None \<Rightarrow> Some (Inr TK_ID)
          | Some bs \<Rightarrow> obind (Some (arr_get keywordTable (uint (of_le_bytes bs :: 64 word)))) (\<lambda>(name, type). Some (Inr type))))"
      unfolding tSQLKeywordCode_def key obind_simps buf
      by (rule arg_cong [where f = "obind _"], rule ext) (auto simp: chain_value_def obind_def split: option.split sum.split)
    have assoc: "obind m (\<lambda>x. obind (f x) g) = obind (obind m f) g" for m :: "int option run" and f :: "int option \<Rightarrow> byte list option run" and g
      by (auto simp: obind_def split: option.split sum.split)
    show ?thesis
    proof (cases "?u \<in> (\<lambda>(w, c). bytes_of w) ` set keywordTable")
      case True
      then obtain q where q: "q < 189" "?u = bytes_of (fst (keywordTable ! q))"
        by (auto simp: in_set_conv_nth keyword_names(3) case_prod_unfold)
      have "uint (of_le_bytes (entry_ptr q) :: 64 word) = int q" using q(1) by (simp add: entry_ptr_def unat_of_nat uint_nat)
      then show ?thesis using hit [OF q(1)] keyword_code_nth [OF q(1)] q keyword_names(3)
        unfolding code assoc get by (simp add: case_prod_unfold)
    next
      case False
      then show ?thesis unfolding code assoc get by (simp add: miss keyword_code_other)
    qed
  qed
  then have "keyword_ready t" unfolding keyword_ready_def by blast
  then show ?thesis by (rule that [OF t(1)])
qed

end
