(* ===== verification/SqlParse.thy ===== *)
theory SqlParse
  imports Tokenizer
begin

text \<open>
  The callers of the tokenizer: \<open>tStrGetToken\<close>, \<open>isKeyWord\<close> and \<open>isNumber\<close> of
  src/src/util/src/ttokenizer.c and the loop of \<open>tSQLParse\<close> in src/src/client/src/tscSQLParserImpl.c.
  The function \<open>Parse\<close> that lemon generates from sql.y is a parameter.
\<close>

section \<open>Operations\<close>

record SSQLToken =
  tk_n :: nat
  tk_type :: nat
  tk_z :: nat

text \<open>Sequencing is monotone, so recursion under it is a partial function.\<close>

lemma obind_mono [partial_function_mono]:
  assumes "mono_option m" and "\<And>x. mono_option (\<lambda>f. g x f)"
  shows "mono_option (\<lambda>f. obind (m f) (\<lambda>x. g x f))"
proof -
  have "obind (m f) (\<lambda>x. g x f) = Option.bind (m f) (\<lambda>r. case r of Inl e \<Rightarrow> Some (Inl e) | Inr x \<Rightarrow> g x f)" for f
    by (cases "m f") (auto simp: obind_def)
  moreover have "mono_option (\<lambda>f. case r of Inl e \<Rightarrow> Some (Inl e) | Inr x \<Rightarrow> g x f)" for r
    by (cases r) (simp_all add: assms(2) option.const_mono)
  ultimately show ?thesis by (simp only:) (rule bind_mono [OF assms(1)])
qed

text \<open>\<open>while (t0->type == TK_SPACE)\<close>: the position after the spaces, the type and the length of the token there.\<close>

partial_function (option) skip_spaces :: "SHashObj option \<Rightarrow> byte list \<Rightarrow> nat \<Rightarrow> nat \<Rightarrow> nat \<Rightarrow> (nat \<times> nat \<times> nat) run" where
  "skip_spaces handle str i type n =
     (if type = TK_SPACE then
        obind (tSQLGetToken handle (drop (i + n) str)) (\<lambda>(type', n'). skip_spaces handle str (i + n) type' n')
      else Some (Inr (i, type, n)))"

text \<open>The token and the new position; at the end of the string only the length of the token is set.\<close>

definition tStrGetToken :: "SHashObj option \<Rightarrow> byte list \<Rightarrow> nat \<Rightarrow> SSQLToken \<Rightarrow> bool \<Rightarrow> (SSQLToken \<times> nat) run" where
  "tStrGetToken handle str i t0 isPrevOptr =
     obind (Some (arr_get str (int i))) (\<lambda>c.
       if c = 0 then Some (Inr (t0\<lparr>tk_n := 0\<rparr>, i))
       else
         obind (tSQLGetToken handle (drop i str)) (\<lambda>(type0, n0).
         obind (skip_spaces handle str i type0 n0) (\<lambda>(i, type, n).
         obind (if isPrevOptr \<and> (type = TK_MINUS \<or> type = TK_PLUS) then
                  obind (tSQLGetToken handle (drop (i + n) str)) (\<lambda>(type', len).
                    Some (Inr (if type' = TK_INTEGER \<or> type' = TK_FLOAT then (type', n + len) else (type, n))))
                else Some (Inr (type, n))) (\<lambda>(type, n).
           Some (Inr (\<lparr>tk_n = n, tk_type = type, tk_z = i\<rparr>, i + n))))))"

definition isKeyWord :: "SHashObj option \<Rightarrow> byte list \<Rightarrow> nat \<Rightarrow> bool run" where
  "isKeyWord handle z len = obind (tSQLKeywordCode handle z len) (\<lambda>type. Some (Inr (type \<noteq> TK_ID)))"

definition isNumber :: "SSQLToken \<Rightarrow> bool" where
  "isNumber t \<longleftrightarrow> tk_type t = TK_INTEGER \<or> tk_type t = TK_FLOAT"

text \<open>
  What \<open>tSQLParse\<close> sees of \<open>SSqlInfo\<close>: the flag, the buffer of 256 bytes for the message, and the rest, with the
  state of the generated parser, in \<open>parsed\<close>. \<open>sprintf\<close> writes the message for an unrecognised token without a
  bound: what does not fit into the buffer is a fault.
\<close>

record 'p SSqlInfo =
  validSql :: bool
  pzErrMsg :: "byte list"
  parsed :: 'p

definition unrecognized_msg :: "byte list \<Rightarrow> byte list" where
  "unrecognized_msg z = bytes_of ''unrecognized token: '' @ [0x22] @ z @ [0x22, 0]"

definition unrecognized :: "'p SSqlInfo \<Rightarrow> byte list \<Rightarrow> 'p SSqlInfo res" where
  "unrecognized pSQLInfo z =
     rbind (cstr z) (\<lambda>z.
       let msg = unrecognized_msg z in
       if 256 < length msg then Inl Out_Of_Bounds
       else Inr (pSQLInfo\<lparr>pzErrMsg := msg @ drop (length msg) (pzErrMsg pSQLInfo), validSql := False\<rparr>))"

text \<open>The loop over the tokens and the function; the memory for the parser is assumed to be there.\<close>

partial_function (option) parse_tokens ::
  "('p SSqlInfo \<Rightarrow> nat \<Rightarrow> SSQLToken \<Rightarrow> 'p SSqlInfo) \<Rightarrow> SHashObj option \<Rightarrow> byte list \<Rightarrow> nat \<Rightarrow> 'p SSqlInfo \<Rightarrow> 'p SSqlInfo run"
where
  "parse_tokens Parse handle pStr i pSQLInfo =
     obind (Some (arr_get pStr (int i))) (\<lambda>c.
       if c = 0 then Some (Inr (Parse pSQLInfo 0 \<lparr>tk_n = 0, tk_type = 0, tk_z = 0\<rparr>))
       else
         obind (tSQLGetToken handle (drop i pStr)) (\<lambda>(type, n).
           let t0 = \<lparr>tk_n = n, tk_type = type, tk_z = i\<rparr> in
           if type = TK_SPACE \<or> type = TK_COMMENT then parse_tokens Parse handle pStr (i + n) pSQLInfo
           else if type = TK_SEMI then Some (Inr (Parse pSQLInfo 0 t0))
           else if type = TK_ILLEGAL then Some (unrecognized pSQLInfo (drop i pStr))
           else
             let pSQLInfo = Parse pSQLInfo type t0 in
             if validSql pSQLInfo then parse_tokens Parse handle pStr (i + n) pSQLInfo else Some (Inr pSQLInfo)))"

definition tSQLParse ::
  "('p SSqlInfo \<Rightarrow> nat \<Rightarrow> SSQLToken \<Rightarrow> 'p SSqlInfo) \<Rightarrow> SHashObj option \<Rightarrow> 'p SSqlInfo \<Rightarrow> byte list \<Rightarrow> 'p SSqlInfo run" where
  "tSQLParse Parse handle pSQLInfo pStr = parse_tokens Parse handle pStr 0 (pSQLInfo\<lparr>validSql := True\<rparr>)"

section \<open>Every statement is scanned to its end\<close>

text \<open>No name, keyword or identifier, has 128 characters or more.\<close>

definition short_words :: "byte list \<Rightarrow> bool" where
  "short_words s \<longleftrightarrow> (\<forall>i n. i + n \<le> length s \<and> (\<forall>k < n. id_char7 (s ! (i + k)) = Inr True) \<longrightarrow> n < 128)"

lemma short_words_drop: "short_words s \<Longrightarrow> short_words (drop j s)"
  unfolding short_words_def
proof (intro allI impI)
  fix i n
  assume s: "\<forall>i n. i + n \<le> length s \<and> (\<forall>k<n. id_char7 (s ! (i + k)) = Inr True) \<longrightarrow> n < 128"
    and d: "i + n \<le> length (drop j s) \<and> (\<forall>k<n. id_char7 (drop j s ! (i + k)) = Inr True)"
  show "n < 128"
  proof (cases "n = 0")
    case False
    then have "j \<le> length s" by (intro ccontr [of "j \<le> length s"]) (use d in simp)
    then have "(j + i) + n \<le> length s \<and> (\<forall>k<n. id_char7 (s ! ((j + i) + k)) = Inr True)"
      using d by (auto simp: add.assoc)
    then show ?thesis using s by blast
  qed simp
qed

lemma short_words_short: "length s < 128 \<Longrightarrow> short_words s"
  by (auto simp: short_words_def)

text \<open>Where a token is not recognised, the rest of the statement fits into the message.\<close>

definition illegal_fits :: "byte list \<Rightarrow> bool" where
  "illegal_fits s \<longleftrightarrow> (\<forall>i < length s. \<forall>n. scan_token (drop i s @ [0]) = Inr (Tok TK_ILLEGAL n) \<longrightarrow> length s \<le> i + 233)"

lemma illegal_fits_short: "length s \<le> 233 \<Longrightarrow> illegal_fits s"
  by (auto simp: illegal_fits_def)

lemma length_unrecognized_msg [simp]: "length (unrecognized_msg z) = length z + 23"
  by (simp add: unrecognized_msg_def bytes_of_def)

lemma keyword_code_legal: "keyword_code u \<noteq> TK_ILLEGAL"
proof -
  have "\<forall>(name, type) \<in> set keywordTable. type \<noteq> TK_ILLEGAL" by (simp add: keywordTable_def token_types)
  then show ?thesis
    by (auto simp: keyword_code_def token_types split: option.split dest!: map_of_SomeD)
qed

lemma get_token_ok:
  assumes "keyword_ready t" and "ascii s" and "short_words s" and "s \<noteq> []"
  obtains type n where "tSQLGetToken (Some t) (s @ [0]) = Some (Inr (type, n))" and "type \<noteq> TK_ILLEGAL \<longrightarrow> 0 < n \<and> n \<le> length s"
    and "type = TK_ILLEGAL \<longrightarrow> scan_token (s @ [0]) = Inr (Tok TK_ILLEGAL n)"
proof -
  obtain r where r: "scan_token (s @ [0]) = Inr r" "scan_ok s r"
    using scan_token_ok [OF assms(2,4)] by (auto simp: good_scan_def)
  show ?thesis
  proof (cases r)
    case (Tok type n)
    then show ?thesis using r that [of type n] by (simp add: tSQLGetToken_def scan_ok_def)
  next
    case (Name n)
    then have n: "0 < n" "n \<le> length s" "\<forall>k < n. id_char7 (s ! k) = Inr True" using r(2) by (simp_all add: scan_ok_def)
    let ?w = "take n s"
    have "n < 128" using assms(3) n(2,3) unfolding short_words_def by (metis add_0)
    moreover have "?w \<noteq> []" "nonzero ?w" "length ?w = n" "s @ [0] = ?w @ drop n s @ [0]"
      using n(1,2) assms(2,4) by (auto simp: ascii_def nonzero_def dest: in_set_takeD)
    ultimately have "tSQLKeywordCode (Some t) (s @ [0]) n = Some (Inr (keyword_code (map upper_byte ?w)))"
      using assms(1) unfolding keyword_ready_def by metis
    then show ?thesis
      using r(1) Name n(1,2) keyword_code_legal that [of "keyword_code (map upper_byte ?w)" n] by (simp add: tSQLGetToken_def)
  qed
qed

lemma ascii_nonzero: "ascii s \<Longrightarrow> nonzero s"
  by (auto simp: ascii_def nonzero_def)

lemma ascii_drop: "ascii s \<Longrightarrow> ascii (drop i s)"
  by (auto simp: ascii_def dest: in_set_dropD)

lemma parse_returns:
  assumes "keyword_ready t" and "ascii s" and "short_words s" and "illegal_fits s"
  shows "i \<le> length s \<Longrightarrow> \<exists>p'. parse_tokens Parse (Some t) (s @ [0]) i p = Some (Inr p')"
proof (induction "length s - i" arbitrary: i p rule: less_induct)
  case less
  show ?case
  proof (cases "i < length s")
    case False
    then have "i = length s" using less.prems by simp
    then show ?thesis by (subst parse_tokens.simps) (simp add: nth_append)
  next
    case True
    have "s ! i \<noteq> 0" using ascii_nth [OF assms(2) True] by simp
    have "drop i s \<noteq> []" using True by simp
    then obtain type n where tok: "tSQLGetToken (Some t) (drop i s @ [0]) = Some (Inr (type, n))"
        "type \<noteq> TK_ILLEGAL \<longrightarrow> 0 < n \<and> n \<le> length (drop i s)"
        "type = TK_ILLEGAL \<longrightarrow> scan_token (drop i s @ [0]) = Inr (Tok TK_ILLEGAL n)"
      by (rule get_token_ok [OF assms(1) ascii_drop [OF assms(2)] short_words_drop [OF assms(3)]]) blast
    have next_ok: "\<exists>p'. parse_tokens Parse (Some t) (s @ [0]) (i + n) q = Some (Inr p')" if "type \<noteq> TK_ILLEGAL" for q
      using tok(2) that True by (intro less.hyps) auto
    have message: "\<exists>p'. unrecognized p (drop i s @ [0]) = Inr p'" if "type = TK_ILLEGAL"
      using assms(4) tok(3) that True ascii_nonzero [OF ascii_drop [OF assms(2)]]
      by (auto simp: illegal_fits_def unrecognized_def Let_def)
    show ?thesis
      using True \<open>s ! i \<noteq> 0\<close> tok(1) next_ok message
      by (subst parse_tokens.simps) (auto simp: nth_append Let_def token_types)
  qed
qed


text \<open>An allocator for the keyword table.\<close>

definition kw_malloc :: "SHashNode malloc" where
  "kw_malloc hp = map_option (\<lambda>a. (a, replicate 64 0)) (List.find (\<lambda>a. hp a = None) (map int [1..<200]))"

lemma kw_malloc_fresh: "fresh_malloc kw_malloc"
  by (auto simp: fresh_malloc_def kw_malloc_def dest: find_split)

lemma kw_malloc_ample: "ample 189 kw_malloc"
  unfolding ample_def
proof (intro allI impI notI)
  fix hp :: "SHashNode heap"
  assume hp: "finite (dom hp) \<and> card (dom hp) < 189" and none: "kw_malloc hp = None"
  from none have "set (map int [1..<200]) \<subseteq> dom hp" by (auto simp: kw_malloc_def find_None_iff)
  then have "card (set (map int [1..<200])) \<le> card (dom hp)" using hp by (intro card_mono) auto
  moreover have "card (set (map int [1..<200])) = 199" by (simp add: card_image del: upt_rec_numeral)
  ultimately show False using hp by simp
qed


section \<open>The message for an unrecognised token\<close>

lemma quote_end_unterminated:
  assumes "nonzero r" and "delim \<notin> set r"
  shows "0 < i \<Longrightarrow> i \<le> length r + 1 \<Longrightarrow> quote_end (delim # r @ [0]) delim i = Inr (length r + 1, False)"
proof (induction "length r + 1 - i" arbitrary: i)
  case 0
  then have i: "i = length r + 1" by simp
  have "arr_get (delim # r @ [0]) (int (length r + 1)) = Inr 0" unfolding arr_get_nat by (simp add: nth_append)
  then have "arr_get (delim # r @ [0]) (int i) = Inr 0" by (simp only: i)
  with i show ?case by (subst quote_end.simps) (simp del: of_nat_Suc of_nat_add)
next
  case (Suc d)
  then have i: "i < length r + 1" "0 < i" and d: "d = length r + 1 - (i + 1)" by simp_all
  then have "(delim # r @ [0]) ! i = r ! (i - 1)" "r ! (i - 1) \<in> set r" by (auto simp: nth_Cons' nth_append)
  moreover from this(2) have "r ! (i - 1) \<noteq> 0" "r ! (i - 1) \<noteq> delim" using assms by (auto simp: nonzero_def)
  ultimately show ?case using i Suc.hyps(1) [OF d] by (subst quote_end.simps) (simp add: arr_get_nat)
qed

text \<open>C34.
  A statement that begins with a quotation mark without its partner is not recognised. \<open>tSQLParse\<close> reports it
  in \<open>pzErrMsg\<close> with the rest of the statement, without a bound: with at most 232 characters after the quotation
  mark the message fits, with more it runs past the end of the buffer.\<close>

theorem unterminated_string:
  assumes "nonzero r" and "q \<in> {0x22, 0x27}" and "q \<notin> set r"
  shows "tSQLParse Parse handle pSQLInfo (q # r @ [0]) =
    Some (if length r \<le> 232
      then Inr (pSQLInfo\<lparr>pzErrMsg := unrecognized_msg (q # r) @ drop (length r + 24) (pzErrMsg pSQLInfo), validSql := False\<rparr>)
      else Inl Out_Of_Bounds)"
proof -
  let ?z = "q # r @ [0]"
  have quote: "quote_end ?z q 1 = Inr (length r + 1, False)" by (rule quote_end_unterminated [OF assms(1,3)]) simp_all
  have last: "arr_get ?z (1 + int (length r)) = Inr 0" using arr_get_nat [of ?z "length r + 1"] by (simp add: nth_append)
  have scan: "scan_token ?z = Inr (Tok TK_ILLEGAL 0)"
    using assms(2) quote last by (elim insertE emptyE) (simp_all add: scan_token_def)
  have msg: "cstr ?z = Inr (q # r)" using cstr_nonzero [of "q # r" "[]"] assms by (auto simp: nonzero_def)
  have "q \<noteq> 0" using assms(2) by auto
  then show ?thesis
    unfolding tSQLParse_def
    by (subst parse_tokens.simps) (simp add: tSQLGetToken_def scan msg unrecognized_def Let_def token_types add.commute)
qed

theorem unterminated_string_witness:
  "tSQLParse (\<lambda>p type t0. p) None \<lparr>validSql = True, pzErrMsg = replicate 256 0, parsed = ()\<rparr> (0x27 # replicate 233 0x61 @ [0]) =
    Some (Inl Out_Of_Bounds)"
  using unterminated_string [of "replicate 233 0x61" "0x27"] by (simp add: nonzero_def)

section \<open>Names\<close>

lemma skip_while_eq:
  assumes "i \<le> n" and "n < length z" and "\<And>k. i \<le> k \<Longrightarrow> k < n \<Longrightarrow> p (z ! k) = Inr True" and "p (z ! n) = Inr False"
  shows "skip_while p z i = Inr n"
  using assms
proof (induction "n - i" arbitrary: i)
  case 0
  then show ?case by (subst skip_while.simps) simp
next
  case (Suc d)
  then have "i < n" and d: "d = n - Suc i" by simp_all
  then have "skip_while p z (Suc i) = Inr n" using Suc.prems by (intro Suc.hyps(1) [OF d]) auto
  then show ?case using \<open>i < n\<close> Suc.prems by (subst skip_while.simps) simp
qed

text \<open>A name: characters of names, the first not a digit.\<close>

definition is_name :: "byte list \<Rightarrow> bool" where
  "is_name w \<longleftrightarrow> w \<noteq> [] \<and> (\<forall>c \<in> set w. id_char7 c = Inr True) \<and> \<not> isdigit (w ! 0)"

definition name_type :: "byte list \<Rightarrow> nat" where
  "name_type w =
     (if map lower_byte w = bytes_of ''true'' \<or> map lower_byte w = bytes_of ''false'' then TK_BOOL
      else keyword_code (map upper_byte w))"

lemma id_char7_nonzero: "id_char7 c = Inr True \<Longrightarrow> c \<noteq> 0"
  by (auto simp: id_char7_def id_char_0)

lemma lower_byte_tf: "lower_byte a = 0x74 \<or> lower_byte a = 0x66 \<Longrightarrow> a \<in> {0x54, 0x74, 0x46, 0x66}"
proof -
  assume l: "lower_byte a = 0x74 \<or> lower_byte a = 0x66"
  show ?thesis
  proof (cases "0x41 \<le> a \<and> a \<le> 0x5A")
    case True
    have "\<forall>k \<in> set [0x41..<0x5B]. (word_of_nat k :: byte) OR 0x20 = 0x74 \<or> (word_of_nat k :: byte) OR 0x20 = 0x66 \<longrightarrow> k = 0x54 \<or> k = 0x46"
      by code_simp
    moreover have "unat a \<in> set [0x41..<0x5B]" using True by (simp add: word_le_nat_alt del: upt_rec_numeral)
    ultimately have "(word_of_nat (unat a) :: byte) OR 0x20 = 0x74 \<or> (word_of_nat (unat a) :: byte) OR 0x20 = 0x66 \<longrightarrow>
        unat a = 0x54 \<or> unat a = 0x46" by blast
    then have "unat a = unat (0x54 :: byte) \<or> unat a = unat (0x46 :: byte)" using l True by (auto simp: lower_byte_def)
    then show ?thesis by (auto simp only: word_unat_eq_iff [symmetric])
  next
    case False
    then show ?thesis using l by (auto simp: lower_byte_def)
  qed
qed

lemma scan_name_eq:
  assumes "is_name w" and "id_char7 c = Inr False"
  shows "scan_token (w @ c # r) =
    Inr (if map lower_byte w = bytes_of ''true'' \<or> map lower_byte w = bytes_of ''false'' then Tok TK_BOOL (length w) else Name (length w))"
proof -
  let ?z = "w @ c # r"
  obtain a w' where w: "w = a # w'" using assms(1) by (cases w) (auto simp: is_name_def)
  have a: "id_char7 a = Inr True" "\<not> isdigit a" using assms(1) by (simp_all add: is_name_def w)
  have skip: "skip_while id_char7 ?z 1 = Inr (length w)"
    by (rule skip_while_eq) (use assms w in \<open>auto simp: is_name_def nth_append\<close>)
  have sign: "a AND 0x80 = 0" "id_char a = Inr True" using a(1) by (auto simp: id_char7_def split: if_splits)
  have name: "scan_name ?z a = Inr (Name (length w))" using sign by (simp add: scan_name_def skip [simplified])
  have punct: "a \<notin> set [0x20, 0x09, 0x0A, 0x0C, 0x0D, 0x3A, 0x2D, 0x28, 0x29, 0x3B, 0x2B, 0x2A, 0x2F, 0x25, 0x3D, 0x3C, 0x3E, 0x21,
      0x7C, 0x2C, 0x26, 0x7E, 0x27, 0x22, 0x2E, 0x5B]"
    using sign(2) by (auto simp: id_char_def isIdChar_def)
  have truth: "scan_truth ?z a = Inr (if map lower_byte w = bytes_of ''true'' \<or> map lower_byte w = bytes_of ''false''
      then Tok TK_BOOL (length w) else Name (length w))"
  proof -
    have "length w = 4 \<and> map lower_byte (take 4 ?z) = bytes_of ''true'' \<longleftrightarrow> map lower_byte w = bytes_of ''true''"
      by (auto simp: bytes_of_def dest: arg_cong [of _ _ length])
    moreover have "length w = 5 \<and> map lower_byte (take 5 ?z) = bytes_of ''false'' \<longleftrightarrow> map lower_byte w = bytes_of ''false''"
      by (auto simp: bytes_of_def dest: arg_cong [of _ _ length])
    ultimately show ?thesis by (simp add: scan_truth_def skip [simplified] name)
  qed
  have "\<not> (map lower_byte w = bytes_of ''true'' \<or> map lower_byte w = bytes_of ''false'')" if "a \<notin> {0x54, 0x74, 0x46, 0x66}"
    using lower_byte_tf [of a] that by (auto simp: w bytes_of_def)
  then show ?thesis
    using punct a(2) truth name unfolding scan_token_def by (simp add: w)
qed

text \<open>C35.
  A name of at most 127 characters, followed by a character that no name contains, is one token of its
  full length: a truth value (\<open>TK_BOOL\<close>) for the spellings of true and false, the type of its keyword whatever the case of
  its letters, and an identifier otherwise. The keywords are found in the hash table filled by the
  first call.\<close>

theorem name_token:
  assumes "fresh_malloc malloc" and "ample 189 malloc" and "is_name w" and "length w < 128" and "id_char7 c = Inr False"
  shows "\<exists>t. keyword_init malloc True True = Some (Inr (Some t)) \<and>
    tSQLGetToken (Some t) (w @ c # r) = Some (Inr (name_type w, length w))"
proof -
  obtain t where t: "keyword_init malloc True True = Some (Inr (Some t))" "keyword_ready t"
    by (rule keyword_init_ready [OF assms(1,2)])
  have "nonzero w" "w \<noteq> []" using assms(3) id_char7_nonzero by (auto simp: is_name_def nonzero_def)
  then have "tSQLKeywordCode (Some t) (w @ c # r) (length w) = Some (Inr (keyword_code (map upper_byte w)))"
    using t(2) assms(4) by (simp add: keyword_ready_def)
  then show ?thesis using t(1) scan_name_eq [OF assms(3,5), of r] by (auto simp: tSQLGetToken_def name_type_def)
qed

lemma select_keyword: "name_type (bytes_of ''Select'') = 93"
  by (simp add: name_type_def keyword_code_def keywordTable_def bytes_of_def lower_byte_def upper_byte_def)

theorem name_token_witness:
  "\<exists>t. keyword_init kw_malloc True True = Some (Inr (Some t)) \<and>
    tSQLGetToken (Some t) (bytes_of ''Select'' @ 0x20 # [0x2A, 0]) = Some (Inr (93, 6))"
proof -
  have "is_name (bytes_of ''Select'')" "id_char7 0x20 = Inr False" and len: "length (bytes_of ''Select'') = 6"
    by (simp_all add: is_name_def bytes_of_def id_char7_def id_char_def isIdChar_def isdigit_def)
  then show ?thesis
    using name_token [OF kw_malloc_fresh kw_malloc_ample, of "bytes_of ''Select''" "0x20" "[0x2A, 0]"]
    unfolding len select_keyword by simp
qed

text \<open>C36.
  A name of 128 characters or more overruns the buffer \<open>key\<close> of \<open>tSQLKeywordCode\<close>: more than 128 are
  written past its end, and 128 leave it without a terminator, so the hash function reads past it.\<close>

theorem long_name_overruns:
  assumes "fresh_malloc malloc" and "ample 189 malloc" and "is_name w" and "128 \<le> length w" and "id_char7 c = Inr False"
  shows "\<exists>t. keyword_init malloc True True = Some (Inr (Some t)) \<and> tSQLGetToken (Some t) (w @ c # r) = Some (Inl Out_Of_Bounds)"
proof -
  obtain t L where t: "keyword_init malloc True True = Some (Inr (Some t))" "sh_abs malloc taosHashStringStep1 189 t L"
    by (rule keyword_init_ok [OF assms(1,2)])
  have w: "nonzero w" "w \<noteq> []" using assms(3) id_char7_nonzero by (auto simp: is_name_def nonzero_def)
  have sum: "nonzero v \<Longrightarrow> char_sum v h = Inl Out_Of_Bounds" for v h
    by (induction v arbitrary: h) auto
  have "tSQLKeywordCode (Some t) (w @ c # r) (length w) = Some (Inl Out_Of_Bounds)"
  proof (cases "length w = 128")
    case True
    let ?u = "map upper_byte w"
    have u: "nonzero ?u" using upper_nonzero w(1) .
    moreover have "?u ! 0 \<noteq> 0" "0 < length ?u" using u w(2) by (auto simp: nonzero_def dest: nth_mem [of 0 ?u])
    moreover have "key_buffer (w @ c # r) (length w) = Inr ?u" using True by (simp add: key_buffer_def copy_bytes_def)
    ultimately show ?thesis using t(2) sum [OF u]
      by (simp add: tSQLKeywordCode_def taosGetStrHashData_def sh_enter_def sh_abs_def taosHashStringStep1_def)
  next
    case False
    then show ?thesis using assms(4) by (simp add: tSQLKeywordCode_def key_buffer_def copy_bytes_def)
  qed
  moreover have "scan_token (w @ c # r) = Inr (Name (length w))"
    using scan_name_eq [OF assms(3,5), of r] assms(4) by (auto simp: bytes_of_def dest: arg_cong [of _ _ length])
  ultimately show ?thesis using t(1) by (simp add: tSQLGetToken_def)
qed

theorem long_name_overruns_witness:
  "\<exists>t. keyword_init kw_malloc True True = Some (Inr (Some t)) \<and>
    tSQLGetToken (Some t) (replicate 128 0x61 @ 0x20 # [0]) = Some (Inl Out_Of_Bounds)"
proof -
  have "is_name (replicate 128 0x61)" "id_char7 0x20 = Inr False"
    by (simp_all add: is_name_def id_char7_def id_char_def isIdChar_def isdigit_def)
  then show ?thesis using long_name_overruns [OF kw_malloc_fresh kw_malloc_ample, of "replicate 128 0x61" "0x20" "[0]"] by simp
qed

text \<open>
  Other places where the code leaves the statement: a lone exclamation mark counts as two characters,
  and a unit of time before a character that is not ASCII indexes \<open>isIdChar\<close> with a negative number.
\<close>

lemma lone_exclamation: "scan_token [0x21, 0] = Inr (Tok TK_ILLEGAL 2)"
  by (simp add: scan_token_def)

lemma unit_before_non_ascii: "scan_token [0x31, 0x61, 0xE4, 0] = Inl Out_Of_Bounds"
  by (simp add: scan_token_def scan_number_def isdigit_def skip_class_def skip_while.simps time_units_def id_char_def arr_get_def)

end
