(* ===== verification/Spec2Isabelle.thy ===== *)
theory Spec2Isabelle
  imports IdPool MemPool CompColumn IHash SdbIntHash SdbStrHash StrHash LongHash IpHash SchedHandlers Base64 Crc32c BlockOrder EdbCheck Md5 SqlParse
begin

text \<open>
  Verification library of luomi, a time series database written in C and derived from TDengine. Paths are
  relative to src/src of the repository.

  The system and the parts modelled. Clients send SQL text over the rpc layer (rpc/) to a management node,
  which keeps users, databases and meters in a meta-data store (sdb/), and to data nodes (system/), which keep
  the rows of the meters in memory and in files of compressed columns. An embedded store (edb/) offers rows in
  log and block files to a single process. All of them stand on the utilities of util/: pools, hash tables,
  a scheduler, compression, checksums, digests, the tokenizer of SQL. This library models that core: the
  data structures whose state lives as long as the process, the codecs between memory and disk or network, the
  way from SQL text to the generated parser, and the embedded store from \<open>create_db\<close> to \<open>fetch_col\<close>.

  Shared vocabulary.
  \<^item> Prelude: faults of C operations (\<open>fault\<close>), results that are a fault or a value (\<open>'a res\<close>, \<open>rbind\<close>), checked
    arrays, the truncating remainder, conversions to 32 bits, ring buffers. A definition yields a fault where the C
    code has undefined behaviour, fails an assertion or exits; a theorem that an operation returns \<open>Inr\<close>
    says that none of this happens. Signed overflow is the exception: where a theory says so it wraps around, and where
    it would need sizes or counts of 2^31 and more that a theory excludes, it is not modelled.
  \<^item> Bytes: little-endian words, bit counts, zigzag. The platform is little-endian with 64-bit \<open>unsigned long\<close>; where
    the width of that type matters it is a parameter. CString: strings in buffers.
  \<^item> ChainTable: an explicit store of hash nodes with doubly linked chains, the list operations the six hash tables
    of the repository share, and their representation invariant. A search that may never end is a partial
    function into an option type, \<open>None\<close> being a loop that does not end.

  Interfaces. Pool_Interface states as a locale what a client of a pool relies on, with an interpretation
  by IdPool (util/src/tidpool.c) and by MemPool (util/src/tmempool.c). Table_Interface does the same for tables:
  a table holds a stack of values per key; it is interpreted by IHash (util/src/ihash.c), SdbIntHash
  (sdb/src/hashint.c), SdbStrHash (sdb/src/hashstr.c), StrHash (util/src/shash.c), LongHash (util/src/thash.c)
  and IpHash (rpc/src/thaship.c). SdbIntHash, LongHash and IpHash take their nodes from a memory pool: PoolTable is their
  common part and rests on MemPool. LoserTree states its comparison as a locale of merge orders.

  Theories and what their lemmas show.
  \<^item> IdPool, MemPool: allocation and release as ring buffers. Every reachable state hands out distinct slots that are
    disjoint from the free ones; rebuilding the identifier pool after a restart; releases the code refuses.
  \<^item> The hash tables: lookup, insertion, deletion, traversal refine a map of stacks, whatever the
    order of the calls; the calls that fault or never return are characterised.
  \<^item> Sched (util/src/tsched.c): a step relation over callers and workers with two semaphores and a mutex; order,
    exactly-once delivery by rule induction, and the loss of a message after an interrupted wait. SchedHandlers: workers
    whose functions schedule on the same queue, as those of the client do, and the deadlock this makes possible.
  \<^item> CompInt, CompTimestamp, CompXor, CompBool, CompColumn (util/src/tcompression.c and the function tables of
    system/src/vnodeFile.c): each codec with its loops, the round trips, the inputs on which it fails. The
    LZ4 routines are parameters with the contract their header documents.
  \<^item> Base64 (util/src/tbase64.c), Md5 (util/src/tmd5.c), CrcTable and Crc32c (util/src/tcrc32c.c, inc/tchecksum.h): round trip
    within the allocated buffers; equality with the digest RFC 1321 defines; equality of the table
    routines and of the routine on the crc32 instruction with the bitwise checksum, and the changes it detects.
  \<^item> LoserTree (util/src/tlosertree.c), BlockOrder (system/src/vnodeQueryImpl.c, \<open>createDataBlocksInfoEx\<close>): the tree
    yields the minimum of its sources, and a query visits the blocks of all meters in file order.
  \<^item> Tokenizer (util/src/ttokenizer.c), SqlParse (the same file and \<open>tSQLParse\<close> of client/src/tscSQLParserImpl.c): the keyword table in
    the string hash, one token, the loop over a statement. The generated parser is a parameter. On ASCII statements
    with short names the loop returns and reads no byte behind the statement, if the message for an unrecognised token fits its
    buffer; an unterminated string shows that it need not.
  \<^item> EdbStore (edb/src/db.c, edb/src/compress.c): creation, opening, adding rows, saving and checking. \<open>edb_ok\<close> is
    the invariant of a store, \<open>stored\<close> its abstraction to a sequence of rows per file number, and \<open>put_db\<close>
    refines appending to that sequence.
  \<^item> EdbQuery, EdbScan (edb/src/query.c, the decompression of edb/src/compress.c): selection of rows by binary search,
    the search through blocks and files, the cursor. A query read to its end delivers the rows in its range,
    each once and in order, under the conditions the code needs.
  \<^item> EdbHistory: rows put with ascending times into a new store, and an ascending query after them: it delivers the rows put in its
    range. Two behaviours outside these conditions: a query between two rows of a block runs past its end, and a query
    that opens files misdirects the next save. EdbCheck: the files such a history leaves pass \<open>readFromFile\<close>, and it
    reports any change of up to four consecutive bytes of a saved column.

  Bounds. Recursion on loops is structural or by a measure; no definition of the code has fuel, except that
  \<open>read_all\<close>, a client of the query, counts its calls, and one call more than there are rows is enough.
  Fixed widths are those of the code: words where bits matter, integers with the conversions written out elsewhere.

  Not modelled. The mutexes around operations that never block (each call is one step); trace output and error logs; failures
  of system calls where a component's theory says so. LZ4, zlib, zstd and the other libraries under deps/,
  and the parser that lemon generates, are not code of the program and are parameters where the modelled code
  calls them. The network layer, the timer and the management and data nodes around the modelled parts are threads,
  sockets and file input and output on shared state; histograms, interpolation and the aggregate functions of the client decide
  on floating-point values, which the library has no executable model of; time strings and value
  conversions are calls of the C library. The manifest lists every part with its status.
\<close>

end
